(* ===== verification/Prelude.thy ===== *)
theory Prelude
  imports Complex_Main "HOL-Library.AList" "HOL-Library.Multiset"
    "HOL-Library.Char_ord" "HOL-Library.List_Lexorder"
begin

text \<open>
  Shared vocabulary of the development.

  A Python \<open>dict\<close> whose iteration order matters is an association list with distinct
  keys: \<open>map_of\<close> reads it, \<open>AList.update\<close> assigns in place or appends (as
  \<open>d[k] = v\<close> does) and \<open>AList.delete\<close> is \<open>pop\<close>. A clock reading
  (\<open>time.time()\<close>, \<open>time.monotonic()\<close>) is a rational number; rounding of binary
  floats is not modelled. The locale \<open>dict_like\<close> states the laws the components use of a
  dictionary and \<open>invariant_system\<close> the contract that all operations of a component share.
\<close>

type_synonym time = rat

type_synonym ('k, 'v) odict = "('k \<times> 'v) list"

text \<open>A Python value of the JSON kinds, over a type of strings; a float is finite or one of the rest.\<close>

datatype pyfloat = Fin rat | Pos_inf | Neg_inf | Nan

datatype 's pyval =
    PNone
  | PBool bool
  | PInt int
  | PFloat pyfloat
  | PStr 's
  | PList "'s pyval list"
  | PDict "('s pyval \<times> 's pyval) list"

named_theorems dict_simps \<open>equations of ordered dictionaries\<close>

section \<open>Ordered dictionaries\<close>

definition keys :: "('k \<times> 'v) list \<Rightarrow> 'k list" where
  "keys d = map fst d"

definition wf_dict :: "('k \<times> 'v) list \<Rightarrow> bool" where
  "wf_dict d \<longleftrightarrow> distinct (keys d)"

definition has_key :: "'k \<Rightarrow> ('k \<times> 'v) list \<Rightarrow> bool" where
  "has_key k d = (map_of d k \<noteq> None)"

lemma keys_simps [simp]:
  "keys [] = []" "keys (p # d) = fst p # keys d" "keys (d @ d') = keys d @ keys d'"
  by (simp_all add: keys_def)

lemma length_keys [simp]: "length (keys d) = length d"
  by (simp add: keys_def)

lemma map_of_None_keys: "map_of d k = None \<longleftrightarrow> k \<notin> set (keys d)"
  by (simp add: map_of_eq_None_iff keys_def)

lemma has_key_iff [dict_simps]: "has_key k d \<longleftrightarrow> k \<in> set (keys d)"
  by (simp add: has_key_def map_of_None_keys)

lemma map_of_update [dict_simps]:
  "map_of (AList.update k v d) k' = (if k' = k then Some v else map_of d k')"
  by (simp add: AList.update_conv')

lemma map_of_delete [dict_simps]:
  "map_of (AList.delete k d) k' = (if k' = k then None else map_of d k')"
  by (simp add: AList.delete_conv')

lemma keys_delete [dict_simps]: "keys (AList.delete k d) = removeAll k (keys d)"
  by (simp add: AList.delete_keys keys_def)

lemma set_keys_update [dict_simps]: "set (keys (AList.update k v d)) = insert k (set (keys d))"
  using AList.dom_update [of k v d] by (simp add: keys_def)

lemma keys_update_new: "k \<notin> set (keys d) \<Longrightarrow> keys (AList.update k v d) = keys d @ [k]"
  by (induction d) auto

lemma update_new: "k \<notin> set (keys d) \<Longrightarrow> AList.update k v d = d @ [(k, v)]"
  by (induction d) auto

lemma delete_absent: "map_of d k = None \<Longrightarrow> AList.delete k d = d"
  by (simp add: map_of_eq_None_iff)

lemma keys_update_old: "k \<in> set (keys d) \<Longrightarrow> keys (AList.update k v d) = keys d"
  by (induction d) auto

lemma wf_dict_Nil [simp]: "wf_dict []"
  by (simp add: wf_dict_def)

lemma wf_dict_update [simp]: "wf_dict d \<Longrightarrow> wf_dict (AList.update k v d)"
  by (cases "k \<in> set (keys d)") (simp_all add: wf_dict_def keys_update_new keys_update_old)

lemma wf_dict_delete [simp]: "wf_dict d \<Longrightarrow> wf_dict (AList.delete k d)"
  by (simp add: wf_dict_def dict_simps distinct_removeAll)

lemma wf_dict_filter [simp]: "wf_dict d \<Longrightarrow> wf_dict (filter P d)"
  unfolding wf_dict_def keys_def by (rule distinct_map_filter)

lemma map_of_SomeD_keys: "map_of d k = Some v \<Longrightarrow> k \<in> set (keys d)"
  by (metis map_of_None_keys option.distinct(1))

lemma wf_dict_move_to_end: "wf_dict d \<Longrightarrow> wf_dict (AList.delete k d @ [(k, v)])"
  by (auto simp: wf_dict_def dict_simps distinct_removeAll)

lemma keys_obtain:
  assumes "k \<in> set (keys d)"
  obtains v where "map_of d k = Some v"
  using assms map_of_None_keys [of d k] by (cases "map_of d k") auto

text \<open>The laws of a dictionary, as the components use them.\<close>

locale dict_like =
  fixes look :: "'d \<Rightarrow> 'k \<Rightarrow> 'v option"
    and assign :: "'k \<Rightarrow> 'v \<Rightarrow> 'd \<Rightarrow> 'd"
    and drop_key :: "'k \<Rightarrow> 'd \<Rightarrow> 'd"
    and names :: "'d \<Rightarrow> 'k set"
    and ok :: "'d \<Rightarrow> bool"
  assumes look_assign: "look (assign k v d) k' = (if k' = k then Some v else look d k')"
    and look_drop: "look (drop_key k d) k' = (if k' = k then None else look d k')"
    and names_look: "names d = {k. look d k \<noteq> None}"
    and ok_assign: "ok d \<Longrightarrow> ok (assign k v d)"
    and ok_drop: "ok d \<Longrightarrow> ok (drop_key k d)"
begin

lemma names_assign: "names (assign k v d) = insert k (names d)"
  by (auto simp: names_look look_assign)

lemma names_drop: "names (drop_key k d) = names d - {k}"
  by (auto simp: names_look look_drop)

lemma look_drop_assign: "look (drop_key k (assign k v d)) = look (drop_key k d)"
  by (auto simp: fun_eq_iff look_assign look_drop)

lemma look_assign_swap:
  "k \<noteq> k' \<Longrightarrow> look (assign k v (assign k' v' d)) = look (assign k' v' (assign k v d))"
  by (auto simp: fun_eq_iff look_assign)

lemma names_fold_drop: "names (fold drop_key ks d) = names d - set ks"
  by (induction ks arbitrary: d) (auto simp: names_drop)

lemma ok_fold_drop: "ok d \<Longrightarrow> ok (fold drop_key ks d)"
  by (induction ks arbitrary: d) (auto simp: ok_drop)

end

interpretation od: dict_like map_of AList.update AList.delete "\<lambda>d. set (keys d)" wf_dict
  by unfold_locales (auto simp: dict_simps map_of_None_keys)

section \<open>Components as invariant systems\<close>

text \<open>
  A component is a state, operations on it, and an invariant every operation keeps. What
  holds of one operation then holds of every sequence of operations.
\<close>

locale invariant_system =
  fixes inv :: "'s \<Rightarrow> bool"
    and step :: "'op \<Rightarrow> 's \<Rightarrow> 's"
  assumes step_inv: "inv s \<Longrightarrow> inv (step p s)"
begin

lemma run_inv: "inv s \<Longrightarrow> inv (fold step ps s)"
  by (induction ps arbitrary: s) (auto intro: step_inv)

lemma run_append_inv: "inv s \<Longrightarrow> inv (fold step (ps @ qs) s)"
  by (rule run_inv)

end

section \<open>Lists\<close>

lemma sum_list_removeAll:
  fixes f :: "'a \<Rightarrow> int"
  shows "distinct xs \<Longrightarrow> x \<in> set xs \<Longrightarrow>
    sum_list (map f (removeAll x xs)) = sum_list (map f xs) - f x"
  by (induction xs) (auto simp: removeAll_id)

lemma sum_list_move_to_end:
  fixes f :: "'a \<Rightarrow> int"
  assumes "distinct xs" "x \<in> set xs"
  shows "sum_list (map f (removeAll x xs @ [x])) = sum_list (map f xs)"
  using sum_list_removeAll [OF assms, of f] by simp

lemma length_filter_move_to_end:
  "distinct xs \<Longrightarrow> x \<in> set xs \<Longrightarrow> length (filter P (removeAll x xs @ [x])) = length (filter P xs)"
  by (induction xs) (auto simp: removeAll_id)

lemma length_filter_antimono:
  "(\<And>x. x \<in> set xs \<Longrightarrow> P x \<Longrightarrow> Q x) \<Longrightarrow> length (filter P xs) \<le> length (filter Q xs)"
  by (induction xs) (auto intro: le_SucI)

lemma length_filter_removeAll_le:
  "length (filter P (removeAll x xs)) \<le> length (filter P xs)"
  by (induction xs) auto

lemma find_Some_in: "find P xs = Some x \<Longrightarrow> x \<in> set xs \<and> P x"
  by (auto simp: find_Some_iff)

section \<open>Results\<close>

text \<open>A raise ends the computation, so the fallible map stops at the first error.\<close>

fun map_result :: "('a \<Rightarrow> 'e + 'b) \<Rightarrow> 'a list \<Rightarrow> 'e + 'b list" where
  "map_result f [] = Inr []"
| "map_result f (x # xs) =
     (case f x of Inl e \<Rightarrow> Inl e
      | Inr y \<Rightarrow> (case map_result f xs of Inl e \<Rightarrow> Inl e | Inr ys \<Rightarrow> Inr (y # ys)))"

lemma map_result_Inr:
  "map_result f xs = Inr ys \<longleftrightarrow> list_all2 (\<lambda>x y. f x = Inr y) xs ys"
  by (induction f xs arbitrary: ys rule: map_result.induct)
    (auto split: sum.splits simp: list_all2_Cons1)

definition bind_result :: "'e + 'a \<Rightarrow> ('a \<Rightarrow> 'e + 'b) \<Rightarrow> 'e + 'b" where
  "bind_result r f = (case r of Inl e \<Rightarrow> Inl e | Inr x \<Rightarrow> f x)"

lemma bind_result_simps [simp]:
  "bind_result (Inl e) f = Inl e" "bind_result (Inr x) f = f x"
  by (simp_all add: bind_result_def)

lemma bind_result_Inr: "bind_result r f = Inr y \<longleftrightarrow> (\<exists>x. r = Inr x \<and> f x = Inr y)"
  by (cases r) auto

definition map_error :: "('e \<Rightarrow> 'f) \<Rightarrow> 'e + 'a \<Rightarrow> 'f + 'a" where
  "map_error f r = (case r of Inl e \<Rightarrow> Inl (f e) | Inr x \<Rightarrow> Inr x)"

lemma map_error_Inr [simp]: "map_error f r = Inr x \<longleftrightarrow> r = Inr x"
  by (auto simp: map_error_def split: sum.splits)

text \<open>
  A check raises or passes; a sequence of checks stops at the first that raises.
\<close>

definition refuse_if :: "bool \<Rightarrow> 'e \<Rightarrow> 'e + unit" where
  "refuse_if b e = (if b then Inl e else Inr ())"

fun run_checks :: "('e + unit) list \<Rightarrow> 'e + unit" where
  "run_checks [] = Inr ()"
| "run_checks (c # cs) = bind_result c (\<lambda>_. run_checks cs)"

lemma refuse_if_Inr [simp]: "refuse_if b e = Inr u \<longleftrightarrow> \<not> b"
  by (simp add: refuse_if_def)

lemma refuse_if_Inl [simp]: "refuse_if b e = Inl e' \<longleftrightarrow> b \<and> e' = e"
  by (auto simp: refuse_if_def)

lemma run_checks_Inr: "run_checks cs = Inr u \<longleftrightarrow> (\<forall>c \<in> set cs. c = Inr ())"
  by (induction cs) (auto simp: bind_result_Inr)

lemma run_checks_Inl:
  "run_checks cs = Inl e \<longleftrightarrow> (\<exists>ps qs. cs = ps @ Inl e # qs \<and> (\<forall>p \<in> set ps. p = Inr ()))"
proof (induction cs)
  case (Cons c cs)
  show ?case
  proof (cases c)
    case (Inl a)
    then show ?thesis by (auto simp: Cons_eq_append_conv)
  next
    case (Inr b)
    have "(\<exists>ps qs. c # cs = ps @ Inl e # qs \<and> (\<forall>p \<in> set ps. p = Inr ())) \<longleftrightarrow>
        (\<exists>ps qs. cs = ps @ Inl e # qs \<and> (\<forall>p \<in> set ps. p = Inr ()))"
      (is "?l \<longleftrightarrow> ?r")
    proof
      show ?r if ?l
        using that Inr by (auto simp: Cons_eq_append_conv)
      show ?l if ?r
      proof -
        from that obtain ps qs where "cs = ps @ Inl e # qs" "\<forall>p \<in> set ps. p = Inr ()" by blast
        then have "c # cs = (c # ps) @ Inl e # qs \<and> (\<forall>p \<in> set (c # ps). p = Inr ())"
          using Inr by simp
        then show ?l by blast
      qed
    qed
    then show ?thesis using Inr Cons by simp
  qed
qed simp

lemma bind_result_Inl: "bind_result r f = Inl e \<longleftrightarrow> r = Inl e \<or> (\<exists>x. r = Inr x \<and> f x = Inl e)"
  by (cases r) auto

section \<open>Python values\<close>

text \<open>The truth value of \<open>bool(v)\<close>, \<open>config.get(key)\<close> and the first position of a value.\<close>

fun py_truthy :: "'s list pyval \<Rightarrow> bool" where
  "py_truthy PNone = False"
| "py_truthy (PBool b) = b"
| "py_truthy (PInt i) = (i \<noteq> 0)"
| "py_truthy (PFloat x) = (x \<noteq> Fin 0)"
| "py_truthy (PStr s) = (s \<noteq> [])"
| "py_truthy (PList xs) = (xs \<noteq> [])"
| "py_truthy (PDict d) = (d \<noteq> [])"

definition py_get :: "'k \<Rightarrow> ('k, 's pyval) odict \<Rightarrow> 's pyval" where
  "py_get k d = (case map_of d k of None \<Rightarrow> PNone | Some v \<Rightarrow> v)"

fun index_of :: "'a \<Rightarrow> 'a list \<Rightarrow> nat option" where
  "index_of x [] = None"
| "index_of x (y # ys) = (if y = x then Some 0 else map_option Suc (index_of x ys))"

lemma index_of_SomeD: "index_of x xs = Some i \<Longrightarrow> i < length xs \<and> xs ! i = x"
  by (induction xs arbitrary: i) (auto split: if_splits)

lemma index_of_None: "index_of x xs = None \<longleftrightarrow> x \<notin> set xs"
  by (induction xs) auto

text \<open>Decimal numerals, as \<open>str(n)\<close> writes them.\<close>

definition digit_char :: "nat \<Rightarrow> char" where
  "digit_char d = char_of (48 + d)"

fun show_nat :: "nat \<Rightarrow> string" where
  "show_nat n = (case n < 10 of True \<Rightarrow> [digit_char n]
     | False \<Rightarrow> show_nat (n div 10) @ [digit_char (n mod 10)])"

declare show_nat.simps [simp del]

definition show_int :: "int \<Rightarrow> string" where
  "show_int i = (if i < 0 then CHR ''-'' # show_nat (nat (- i)) else show_nat (nat i))"

end
