(* ===== verification/Lru_Cache.thy ===== *)
theory Lru_Cache
  imports Prelude
begin

text \<open>
  The bounded cache of \<^verbatim>\<open>src/haute/_lru_cache.py\<close>: least-recently-used eviction by entry
  count and by bytes, optional expiry, and pinning. \<open>lru_data\<close> is the \<open>OrderedDict\<close>,
  least recently used entry first. Values are object references, so Python's \<open>is\<close> is
  equality. Every method body runs under the cache's lock and is one function here; the clock
  reading is an argument. \<open>put\<close> takes the lock twice, with the measurement between, so it is
  the composition of \<open>lru_put_probe\<close> and \<open>lru_put_finish\<close>, and the step relation
  lets other operations run between them.
\<close>

section \<open>State and constructor\<close>

record ('k, 'v) lru =
  lru_max_size :: int
  lru_ttl :: "time option"
  lru_data :: "('k, 'v) odict"
  lru_timestamps :: "'k \<rightharpoonup> time"
  lru_pinned :: "'k set"
  lru_pin_slots :: "'k set"
  lru_max_bytes :: "int option"
  lru_size_of :: "('v \<Rightarrow> int option) option" \<comment> \<open>\<open>None\<close> for a size that is not an int\<close>
  lru_sizes :: "'k \<rightharpoonup> int"
  lru_current_bytes :: int

datatype lru_error = LruValueError | LruKeyError

definition lru_init :: "int \<Rightarrow> time option \<Rightarrow> 'k set \<Rightarrow> int option \<Rightarrow>
    ('v \<Rightarrow> int option) option \<Rightarrow> lru_error + ('k, 'v) lru" where
  "lru_init max_size ttl pin_slots max_bytes size_of =
     (if max_size < 1 then Inl LruValueError
      else if (case max_bytes of Some b \<Rightarrow> b < 1 | None \<Rightarrow> False) then Inl LruValueError
      else if max_bytes \<noteq> None \<and> size_of = None then Inl LruValueError
      else if max_bytes = None \<and> size_of \<noteq> None then Inl LruValueError
      else Inr \<lparr>lru_max_size = max_size, lru_ttl = ttl, lru_data = [],
                lru_timestamps = Map.empty, lru_pinned = {}, lru_pin_slots = pin_slots,
                lru_max_bytes = max_bytes, lru_size_of = size_of,
                lru_sizes = Map.empty, lru_current_bytes = 0\<rparr>)"

section \<open>Internal helpers\<close>

definition lru_is_pinned :: "('k, 'v) lru \<Rightarrow> 'k \<Rightarrow> bool" where
  "lru_is_pinned c k \<longleftrightarrow> k \<in> lru_pinned c \<or> k \<in> lru_pin_slots c"

definition lru_capacity_entry_count :: "('k, 'v) lru \<Rightarrow> nat" where
  "lru_capacity_entry_count c = length (filter (\<lambda>k. \<not> lru_is_pinned c k) (keys (lru_data c)))"

definition lru_measure :: "'v \<Rightarrow> ('k, 'v) lru \<Rightarrow> lru_error + int" where
  "lru_measure v c =
     (case lru_size_of c of
        None \<Rightarrow> Inr 0
      | Some size_of \<Rightarrow>
          (case size_of v of
             None \<Rightarrow> Inl LruValueError
           | Some sz \<Rightarrow> if sz < 0 then Inl LruValueError else Inr sz))"

text \<open>The bookkeeping \<open>_remove_key\<close> performs once the entry is popped.\<close>

definition lru_forget :: "'k \<Rightarrow> ('k, 'v) lru \<Rightarrow> ('k, 'v) lru" where
  "lru_forget k c = c\<lparr>
     lru_data := AList.delete k (lru_data c),
     lru_timestamps := (lru_timestamps c)(k := None),
     lru_pinned := lru_pinned c - {k},
     lru_current_bytes := lru_current_bytes c - (case lru_sizes c k of Some n \<Rightarrow> n | None \<Rightarrow> 0),
     lru_sizes := (lru_sizes c)(k := None)\<rparr>"

definition lru_remove_key :: "'k \<Rightarrow> ('k, 'v) lru \<Rightarrow> (lru_error + 'v) \<times> ('k, 'v) lru" where
  "lru_remove_key k c =
     (case map_of (lru_data c) k of
        None \<Rightarrow> (Inl LruKeyError, c)
      | Some v \<Rightarrow> (Inr v, lru_forget k c))"

definition lru_over_capacity :: "('k, 'v) lru \<Rightarrow> bool" where
  "lru_over_capacity c \<longleftrightarrow>
     int (lru_capacity_entry_count c) > lru_max_size c \<or>
     (case lru_max_bytes c of None \<Rightarrow> False | Some b \<Rightarrow> lru_current_bytes c > b)"

definition lru_victim :: "('k, 'v) lru \<Rightarrow> 'k option" where
  "lru_victim c = find (\<lambda>k. \<not> lru_is_pinned c k) (keys (lru_data c))"

lemma lru_victim_in: "lru_victim c = Some k \<Longrightarrow> k \<in> set (keys (lru_data c)) \<and> \<not> lru_is_pinned c k"
  unfolding lru_victim_def by (rule find_Some_in)

lemma lru_remove_key_present:
  assumes "k \<in> set (keys (lru_data c))"
  obtains v where "lru_remove_key k c = (Inr v, lru_forget k c)" "map_of (lru_data c) k = Some v"
  using assms by (rule keys_obtain) (auto simp: lru_remove_key_def)

lemma snd_lru_remove_key [simp]:
  "k \<in> set (keys (lru_data c)) \<Longrightarrow> snd (lru_remove_key k c) = lru_forget k c"
  by (erule lru_remove_key_present) simp

lemma lru_forget_shrinks:
  "k \<in> set (keys (lru_data c)) \<Longrightarrow> length (lru_data (lru_forget k c)) < length (lru_data c)"
  unfolding lru_forget_def by (auto simp: AList.delete_eq keys_def intro!: length_filter_less)

text \<open>The eviction loop: every round removes an entry, so it ends.\<close>

function (sequential) lru_evict_if_over_capacity :: "('k, 'v) lru \<Rightarrow> ('k, 'v) lru" where
  "lru_evict_if_over_capacity c =
     (if lru_over_capacity c then
        (case lru_victim c of
           None \<Rightarrow> c
         | Some k \<Rightarrow> lru_evict_if_over_capacity (snd (lru_remove_key k c)))
      else c)"
  by pat_completeness auto
termination
proof (relation "measure (\<lambda>c. length (lru_data c))")
  fix c :: "('k, 'v) lru" and k
  assume "lru_victim c = Some k"
  then have "k \<in> set (keys (lru_data c))" by (simp add: lru_victim_in)
  then show "(snd (lru_remove_key k c), c) \<in> measure (\<lambda>c. length (lru_data c))"
    by (simp add: lru_forget_shrinks)
qed simp

declare lru_evict_if_over_capacity.simps [simp del]

section \<open>Public operations\<close>

definition lru_expired :: "('k, 'v) lru \<Rightarrow> 'k \<Rightarrow> time \<Rightarrow> bool" where
  "lru_expired c k now =
     (case lru_ttl c of
        None \<Rightarrow> False
      | Some t \<Rightarrow> now - (case lru_timestamps c k of Some s \<Rightarrow> s | None \<Rightarrow> 0) > t)"

definition lru_move_to_end :: "'k \<Rightarrow> 'v \<Rightarrow> ('k, 'v) lru \<Rightarrow> ('k, 'v) lru" where
  "lru_move_to_end k v c = c\<lparr>lru_data := AList.delete k (lru_data c) @ [(k, v)]\<rparr>"

definition lru_get :: "'k \<Rightarrow> time \<Rightarrow> ('k, 'v) lru \<Rightarrow> 'v option \<times> ('k, 'v) lru" where
  "lru_get k now c =
     (case map_of (lru_data c) k of
        None \<Rightarrow> (None, c)
      | Some v \<Rightarrow>
          if lru_expired c k now then (None, snd (lru_remove_key k c))
          else (Some v, lru_move_to_end k v c))"

definition lru_peek :: "'k \<Rightarrow> time \<Rightarrow> ('k, 'v) lru \<Rightarrow> 'v option" where
  "lru_peek k now c =
     (case map_of (lru_data c) k of
        None \<Rightarrow> None
      | Some v \<Rightarrow> if lru_expired c k now then None else Some v)"

definition lru_pop :: "'k \<Rightarrow> time \<Rightarrow> ('k, 'v) lru \<Rightarrow> 'v option \<times> ('k, 'v) lru" where
  "lru_pop k now c =
     (case map_of (lru_data c) k of
        None \<Rightarrow> (None, c)
      | Some v \<Rightarrow> (if lru_expired c k now then None else Some v, snd (lru_remove_key k c)))"

text \<open>First locked section of \<open>put\<close>: the value this put would replace.\<close>

definition lru_put_probe :: "'k \<Rightarrow> ('k, 'v) lru \<Rightarrow> 'v option" where
  "lru_put_probe k c = (if lru_max_bytes c \<noteq> None then map_of (lru_data c) k else None)"

text \<open>Storing an admitted value, before the eviction loop runs.\<close>

definition lru_store :: "'k \<Rightarrow> 'v \<Rightarrow> int \<Rightarrow> time \<Rightarrow> ('k, 'v) lru \<Rightarrow> ('k, 'v) lru" where
  "lru_store k v sz now c =
     (let c1 = (if k \<in> set (keys (lru_data c))
                then (lru_move_to_end k v c)\<lparr>
                       lru_current_bytes := lru_current_bytes c -
                         (case lru_sizes c k of Some n \<Rightarrow> n | None \<Rightarrow> 0),
                       lru_sizes := (lru_sizes c)(k := None)\<rparr>
                else c\<lparr>lru_data := AList.update k v (lru_data c)\<rparr>);
          c2 = (if lru_max_bytes c1 \<noteq> None
                then c1\<lparr>lru_sizes := (lru_sizes c1)(k \<mapsto> sz),
                        lru_current_bytes := lru_current_bytes c1 + sz\<rparr>
                else c1)
      in if lru_ttl c2 \<noteq> None
         then c2\<lparr>lru_timestamps := (lru_timestamps c2)(k \<mapsto> now)\<rparr> else c2)"

text \<open>Second locked section of \<open>put\<close>.\<close>

definition lru_put_commit :: "'k \<Rightarrow> 'v \<Rightarrow> int \<Rightarrow> 'v option \<Rightarrow> time \<Rightarrow> ('k, 'v) lru \<Rightarrow>
    bool \<times> ('k, 'v) lru" where
  "lru_put_commit k v sz replacing now c =
     (if (case lru_max_bytes c of Some b \<Rightarrow> sz > b | None \<Rightarrow> False)
      then (False,
            if k \<in> set (keys (lru_data c)) \<and> map_of (lru_data c) k = replacing
            then snd (lru_remove_key k c) else c)
      else let c' = lru_evict_if_over_capacity (lru_store k v sz now c)
           in (k \<in> set (keys (lru_data c')), c'))"

definition lru_put_finish :: "'k \<Rightarrow> 'v \<Rightarrow> 'v option \<Rightarrow> time \<Rightarrow> ('k, 'v) lru \<Rightarrow>
    (lru_error + bool) \<times> ('k, 'v) lru" where
  "lru_put_finish k v replacing now c =
     (case lru_measure v c of
        Inl e \<Rightarrow> (Inl e, c)
      | Inr sz \<Rightarrow> (let (r, c') = lru_put_commit k v sz replacing now c in (Inr r, c')))"

definition lru_put :: "'k \<Rightarrow> 'v \<Rightarrow> time \<Rightarrow> ('k, 'v) lru \<Rightarrow>
    (lru_error + bool) \<times> ('k, 'v) lru" where
  "lru_put k v now c = lru_put_finish k v (lru_put_probe k c) now c"

definition lru_pin :: "'k \<Rightarrow> ('k, 'v) lru \<Rightarrow> ('k, 'v) lru" where
  "lru_pin k c = (if k \<in> set (keys (lru_data c))
                  then c\<lparr>lru_pinned := insert k (lru_pinned c)\<rparr> else c)"

definition lru_unpin :: "'k \<Rightarrow> ('k, 'v) lru \<Rightarrow> ('k, 'v) lru" where
  "lru_unpin k c = lru_evict_if_over_capacity
     (c\<lparr>lru_pinned := lru_pinned c - {k}, lru_pin_slots := lru_pin_slots c - {k}\<rparr>)"

definition lru_clear :: "('k, 'v) lru \<Rightarrow> ('k, 'v) lru" where
  "lru_clear c = c\<lparr>lru_data := [], lru_timestamps := Map.empty, lru_pinned := {},
                   lru_sizes := Map.empty, lru_current_bytes := 0\<rparr>"

definition lru_evict_where :: "('k \<Rightarrow> bool) \<Rightarrow> ('k, 'v) lru \<Rightarrow> 'v list \<times> ('k, 'v) lru" where
  "lru_evict_where predicate c =
     (let evicted_pairs = filter (\<lambda>(k, v). predicate k) (lru_data c)
      in (map snd evicted_pairs,
          fold (\<lambda>k c. snd (lru_remove_key k c)) (map fst evicted_pairs) c))"

record lru_stats =
  st_entries :: nat
  st_max_entries :: int
  st_bytes :: int
  st_max_bytes :: "int option"
  st_pinned_entries :: nat

definition lru_stats_of :: "('k, 'v) lru \<Rightarrow> lru_stats" where
  "lru_stats_of c = \<lparr>st_entries = length (lru_data c), st_max_entries = lru_max_size c,
     st_bytes = lru_current_bytes c, st_max_bytes = lru_max_bytes c,
     st_pinned_entries = length (filter (lru_is_pinned c) (keys (lru_data c)))\<rparr>"

definition lru_most_recent_key :: "('k, 'v) lru \<Rightarrow> 'k option" where
  "lru_most_recent_key c = (case rev (lru_data c) of [] \<Rightarrow> None | (k, _) # _ \<Rightarrow> Some k)"

definition lru_iter :: "('k, 'v) lru \<Rightarrow> 'k list" where
  "lru_iter c = keys (lru_data c)"

definition lru_contains :: "'k \<Rightarrow> ('k, 'v) lru \<Rightarrow> bool" where
  "lru_contains k c = has_key k (lru_data c)"

definition lru_len :: "('k, 'v) lru \<Rightarrow> nat" where
  "lru_len c = length (lru_data c)"

section \<open>Well-formedness and the capacity bound\<close>

definition lru_bytes_of :: "('k, 'v) lru \<Rightarrow> 'k \<Rightarrow> int" where
  "lru_bytes_of c k = (case lru_sizes c k of Some n \<Rightarrow> n | None \<Rightarrow> 0)"

definition lru_wf :: "('k, 'v) lru \<Rightarrow> bool" where
  "lru_wf c \<longleftrightarrow>
     wf_dict (lru_data c) \<and> 1 \<le> lru_max_size c \<and>
     (lru_max_bytes c = None \<longleftrightarrow> lru_size_of c = None) \<and>
     dom (lru_timestamps c) = (if lru_ttl c = None then {} else set (keys (lru_data c))) \<and>
     lru_pinned c \<subseteq> set (keys (lru_data c)) \<and>
     dom (lru_sizes c) = (if lru_max_bytes c = None then {} else set (keys (lru_data c))) \<and>
     (\<forall>k n. lru_sizes c k = Some n \<longrightarrow> 0 \<le> n \<and> n \<le> the (lru_max_bytes c)) \<and>
     (\<forall>b. lru_max_bytes c = Some b \<longrightarrow> 1 \<le> b) \<and>
     lru_current_bytes c = sum_list (map (lru_bytes_of c) (keys (lru_data c)))"

definition lru_all_pinned :: "('k, 'v) lru \<Rightarrow> bool" where
  "lru_all_pinned c \<longleftrightarrow> list_all (lru_is_pinned c) (keys (lru_data c))"

definition lru_bounded :: "('k, 'v) lru \<Rightarrow> bool" where
  "lru_bounded c \<longleftrightarrow> lru_over_capacity c \<longrightarrow> lru_all_pinned c"

lemma lru_forget_config [simp]:
  "lru_max_size (lru_forget k c) = lru_max_size c"
  "lru_ttl (lru_forget k c) = lru_ttl c"
  "lru_pin_slots (lru_forget k c) = lru_pin_slots c"
  "lru_max_bytes (lru_forget k c) = lru_max_bytes c"
  "lru_size_of (lru_forget k c) = lru_size_of c"
  "lru_data (lru_forget k c) = AList.delete k (lru_data c)"
  "lru_pinned (lru_forget k c) = lru_pinned c - {k}"
  "lru_timestamps (lru_forget k c) = (lru_timestamps c)(k := None)"
  "lru_sizes (lru_forget k c) = (lru_sizes c)(k := None)"
  "lru_current_bytes (lru_forget k c) = lru_current_bytes c - lru_bytes_of c k"
  by (simp_all add: lru_forget_def lru_bytes_of_def)

lemma lru_bytes_of_forget:
  "lru_bytes_of (lru_forget k c) k' = (if k' = k then 0 else lru_bytes_of c k')"
  by (simp add: lru_bytes_of_def lru_forget_def)

lemma lru_is_pinned_forget [simp]:
  "k' \<noteq> k \<Longrightarrow> lru_is_pinned (lru_forget k c) k' = lru_is_pinned c k'"
  by (simp add: lru_is_pinned_def)

lemma lru_wfD:
  assumes "lru_wf c"
  shows "wf_dict (lru_data c)" "lru_pinned c \<subseteq> set (keys (lru_data c))"
    "lru_current_bytes c = sum_list (map (lru_bytes_of c) (keys (lru_data c)))"
    "1 \<le> lru_max_size c"
  using assms by (simp_all add: lru_wf_def)

lemma lru_bytes_nonneg: "lru_wf c \<Longrightarrow> 0 \<le> lru_bytes_of c k"
  by (auto simp: lru_wf_def lru_bytes_of_def split: option.splits)

lemma sum_bytes_forget:
  assumes "distinct ks" "k \<in> set ks"
  shows "sum_list (map (lru_bytes_of (lru_forget k c)) (removeAll k ks)) =
         sum_list (map (lru_bytes_of c) ks) - lru_bytes_of c k"
proof -
  have "map (lru_bytes_of (lru_forget k c)) (removeAll k ks) = map (lru_bytes_of c) (removeAll k ks)"
    by (rule map_cong) (auto simp: lru_bytes_of_forget)
  then show ?thesis using assms by (simp only: sum_list_removeAll)
qed

lemma lru_forget_wf:
  assumes "lru_wf c" "k \<in> set (keys (lru_data c))"
  shows "lru_wf (lru_forget k c)"
proof -
  have bytes: "lru_current_bytes (lru_forget k c) =
      sum_list (map (lru_bytes_of (lru_forget k c)) (keys (lru_data (lru_forget k c))))"
    using assms sum_bytes_forget [of "keys (lru_data c)" k c]
    by (simp add: lru_wf_def wf_dict_def dict_simps)
  show ?thesis
    unfolding lru_wf_def bytes using assms
    by (auto simp: lru_wf_def dict_simps split: if_splits)
qed

lemma lru_forget_bounded:
  assumes wf: "lru_wf c" and k: "k \<in> set (keys (lru_data c))" and b: "lru_bounded c"
  shows "lru_bounded (lru_forget k c)"
proof -
  have unpinned: "filter (\<lambda>k'. \<not> lru_is_pinned (lru_forget k c) k') (removeAll k (keys (lru_data c))) =
        removeAll k (filter (\<lambda>k'. \<not> lru_is_pinned c k') (keys (lru_data c)))"
    by (auto simp: removeAll_filter_not_eq filter_filter intro!: filter_cong)
  have "lru_capacity_entry_count (lru_forget k c) \<le> lru_capacity_entry_count c"
    by (simp add: lru_capacity_entry_count_def dict_simps unpinned length_removeAll_less_eq)
  moreover have "lru_current_bytes (lru_forget k c) \<le> lru_current_bytes c"
    using lru_bytes_nonneg [OF wf, of k] by simp
  ultimately have "lru_over_capacity (lru_forget k c) \<Longrightarrow> lru_over_capacity c"
    by (auto simp: lru_over_capacity_def split: option.splits)
  then show ?thesis
    using b by (auto simp: lru_bounded_def lru_all_pinned_def list_all_iff dict_simps)
qed

section \<open>The eviction loop\<close>

lemma lru_evict_done: "\<not> lru_over_capacity c \<Longrightarrow> lru_evict_if_over_capacity c = c"
  by (simp add: lru_evict_if_over_capacity.simps)

lemma lru_evict_step:
  assumes "lru_over_capacity c" "lru_victim c = Some k"
  shows "lru_evict_if_over_capacity c = lru_evict_if_over_capacity (lru_forget k c)"
  using assms lru_victim_in [OF assms(2)]
  by (subst lru_evict_if_over_capacity.simps) simp

lemma lru_evict_stuck: "lru_victim c = None \<Longrightarrow> lru_evict_if_over_capacity c = c"
  by (simp add: lru_evict_if_over_capacity.simps)

text \<open>Induction over the rounds of the loop.\<close>

lemma lru_evict_induct [case_names stop round]:
  assumes "\<And>c. \<not> lru_over_capacity c \<or> lru_victim c = None \<Longrightarrow> P c"
    and "\<And>c k. lru_over_capacity c \<Longrightarrow> lru_victim c = Some k \<Longrightarrow> k \<in> set (keys (lru_data c)) \<Longrightarrow>
      \<not> lru_is_pinned c k \<Longrightarrow> P (lru_forget k c) \<Longrightarrow> P c"
  shows "P c"
proof (induction c rule: lru_evict_if_over_capacity.induct)
  case (1 c)
  show ?case
  proof (cases "lru_over_capacity c \<and> lru_victim c \<noteq> None")
    case True
    then obtain k where k: "lru_victim c = Some k" by blast
    note in_k = lru_victim_in [OF k]
    have "P (lru_forget k c)" using 1 [of k] True k in_k by simp
    with assms(2) [of c k] True k in_k show ?thesis by blast
  next
    case False
    then show ?thesis by (auto intro: assms(1))
  qed
qed

lemma lru_evict_wf: "lru_wf c \<Longrightarrow> lru_wf (lru_evict_if_over_capacity c)"
proof (induction c rule: lru_evict_induct)
  case (stop c)
  then show ?case by (auto simp: lru_evict_done lru_evict_stuck)
next
  case (round c k)
  then show ?case by (simp add: lru_evict_step lru_forget_wf)
qed

lemma lru_evict_bounded: "lru_bounded (lru_evict_if_over_capacity c)"
proof (induction c rule: lru_evict_induct)
  case (stop c)
  then show ?case
    by (auto simp: lru_evict_done lru_evict_stuck lru_bounded_def lru_all_pinned_def list_all_iff
        lru_victim_def find_None_iff)
next
  case (round c k)
  then show ?case by (simp add: lru_evict_step)
qed

lemma lru_evict_config [simp]:
  "lru_max_size (lru_evict_if_over_capacity c) = lru_max_size c"
  "lru_ttl (lru_evict_if_over_capacity c) = lru_ttl c"
  "lru_pin_slots (lru_evict_if_over_capacity c) = lru_pin_slots c"
  "lru_max_bytes (lru_evict_if_over_capacity c) = lru_max_bytes c"
  "lru_size_of (lru_evict_if_over_capacity c) = lru_size_of c"
  by (induction c rule: lru_evict_induct)
    (auto simp: lru_evict_done lru_evict_stuck lru_evict_step)

lemma lru_evict_lookup:
  "map_of (lru_data (lru_evict_if_over_capacity c)) k = Some v \<Longrightarrow> map_of (lru_data c) k = Some v"
  by (induction c rule: lru_evict_induct)
    (auto simp: lru_evict_done lru_evict_stuck lru_evict_step dict_simps split: if_splits)

lemma lru_evict_timestamp:
  "k \<in> set (keys (lru_data (lru_evict_if_over_capacity c))) \<Longrightarrow>
    lru_timestamps (lru_evict_if_over_capacity c) k = lru_timestamps c k"
proof (induction c rule: lru_evict_induct)
  case (stop c)
  then show ?case by (auto simp: lru_evict_done lru_evict_stuck)
next
  case (round c k')
  have "k \<noteq> k'"
    using round.prems round.hyps lru_evict_lookup [of "lru_forget k' c" k]
    by (auto simp: lru_evict_step dict_simps elim!: keys_obtain)
  with round show ?case by (simp add: lru_evict_step)
qed

lemma lru_evict_pinned:
  "lru_is_pinned c k \<Longrightarrow> map_of (lru_data (lru_evict_if_over_capacity c)) k = map_of (lru_data c) k"
proof (induction c rule: lru_evict_induct)
  case (stop c)
  then show ?case by (auto simp: lru_evict_done lru_evict_stuck)
next
  case (round c k')
  then have "k' \<noteq> k" by auto
  with round show ?case by (simp add: lru_evict_step dict_simps)
qed

text \<open>
  What the loop removes: the unpinned entries are evicted in least-recently-used order, only
  while the cache is over capacity, and no more of them than needed.
\<close>

definition lru_unpinned :: "('k, 'v) lru \<Rightarrow> 'k list" where
  "lru_unpinned c = filter (\<lambda>k. \<not> lru_is_pinned c k) (keys (lru_data c))"

definition lru_drop :: "nat \<Rightarrow> ('k, 'v) lru \<Rightarrow> ('k, 'v) lru" where
  "lru_drop n c = fold lru_forget (take n (lru_unpinned c)) c"

lemma lru_victim_unpinned: "lru_victim c = (case lru_unpinned c of [] \<Rightarrow> None | k # _ \<Rightarrow> Some k)"
proof -
  have "find P xs = (case filter P xs of [] \<Rightarrow> None | k # _ \<Rightarrow> Some k)"
    for P :: "'k \<Rightarrow> bool" and xs
    by (induction xs) auto
  then show ?thesis by (simp add: lru_victim_def lru_unpinned_def)
qed

lemma lru_unpinned_forget:
  assumes "lru_wf c" "lru_unpinned c = k # ks"
  shows "lru_unpinned (lru_forget k c) = ks"
proof -
  have "filter (\<lambda>k'. \<not> lru_is_pinned (lru_forget k c) k') (removeAll k (keys (lru_data c))) =
      removeAll k (lru_unpinned c)"
    by (auto simp: lru_unpinned_def removeAll_filter_not_eq filter_filter intro!: filter_cong)
  moreover have "distinct (lru_unpinned c)"
    using assms(1) by (simp add: lru_unpinned_def lru_wf_def wf_dict_def)
  ultimately show ?thesis
    using assms(2) by (simp add: lru_unpinned_def [of "lru_forget k c"] dict_simps removeAll_id)
qed

lemma lru_drop_0 [simp]: "lru_drop 0 c = c"
  by (simp add: lru_drop_def)

lemma lru_drop_Suc:
  assumes "lru_wf c" "lru_unpinned c = k # ks"
  shows "lru_drop (Suc n) c = lru_drop n (lru_forget k c)"
  using assms lru_unpinned_forget [OF assms] by (simp add: lru_drop_def)

lemma lru_evict_is_drop:
  assumes "lru_wf c"
  shows "\<exists>n \<le> length (lru_unpinned c). lru_evict_if_over_capacity c = lru_drop n c \<and>
    (\<forall>m < n. lru_over_capacity (lru_drop m c))"
  using assms
proof (induction c rule: lru_evict_induct)
  case (stop c)
  then show ?case by (intro exI [of _ 0]) (auto simp: lru_evict_done lru_evict_stuck)
next
  case (round c k)
  then obtain ks where ks: "lru_unpinned c = k # ks"
    by (auto simp: lru_victim_unpinned split: list.splits)
  note next_c = lru_unpinned_forget [OF round.prems ks] lru_drop_Suc [OF round.prems ks]
  obtain n where n: "n \<le> length ks" "lru_evict_if_over_capacity (lru_forget k c) = lru_drop n (lru_forget k c)"
      "\<forall>m < n. lru_over_capacity (lru_drop m (lru_forget k c))"
    using round.IH round.prems round.hyps(3) lru_forget_wf next_c by metis
  have "lru_over_capacity (lru_drop m c)" if "m < Suc n" for m
    using that round.hyps(1) n(3) next_c by (cases m) auto
  then show ?case
    using n ks round.hyps next_c by (intro exI [of _ "Suc n"]) (auto simp: lru_evict_step)
qed

section \<open>Every operation keeps the invariant\<close>

definition lru_inv :: "('k, 'v) lru \<Rightarrow> bool" where
  "lru_inv c \<longleftrightarrow> lru_wf c \<and> lru_bounded c"

lemma lru_init_inv: "lru_init n t ps b f = Inr c \<Longrightarrow> lru_inv c"
  by (auto simp: lru_init_def lru_inv_def lru_wf_def lru_bounded_def lru_all_pinned_def
      split: if_splits option.splits)

lemma lru_forget_inv: "lru_inv c \<Longrightarrow> k \<in> set (keys (lru_data c)) \<Longrightarrow> lru_inv (lru_forget k c)"
  by (simp add: lru_inv_def lru_forget_wf lru_forget_bounded)

lemma lru_remove_key_inv: "lru_inv c \<Longrightarrow> lru_inv (snd (lru_remove_key k c))"
  by (auto simp: lru_remove_key_def lru_forget_inv map_of_SomeD_keys split: option.splits)

lemma lru_move_to_end_inv:
  assumes inv: "lru_inv c" and v: "map_of (lru_data c) k = Some v"
  shows "lru_inv (lru_move_to_end k v c)"
proof -
  let ?c = "lru_move_to_end k v c"
  have k: "k \<in> set (keys (lru_data c))" using v by (rule map_of_SomeD_keys)
  have d: "distinct (keys (lru_data c))" using inv by (simp add: lru_inv_def lru_wf_def wf_dict_def)
  have ks: "keys (lru_data ?c) = removeAll k (keys (lru_data c)) @ [k]"
    by (simp add: lru_move_to_end_def dict_simps)
  have pinned [simp]: "lru_is_pinned ?c = lru_is_pinned c"
    by (simp add: lru_is_pinned_def lru_move_to_end_def fun_eq_iff)
  have bytes [simp]: "lru_bytes_of ?c = lru_bytes_of c"
    by (simp add: lru_bytes_of_def lru_move_to_end_def fun_eq_iff)
  have sum: "sum_list (map (lru_bytes_of c) (keys (lru_data ?c))) =
      sum_list (map (lru_bytes_of c) (keys (lru_data c)))"
    unfolding ks by (rule sum_list_move_to_end [OF d k])
  have wf: "lru_wf ?c"
    using inv k sum ks bytes
    by (auto simp: lru_inv_def lru_wf_def wf_dict_move_to_end lru_move_to_end_def dict_simps)
  have count: "lru_capacity_entry_count ?c = lru_capacity_entry_count c"
    unfolding lru_capacity_entry_count_def ks pinned by (rule length_filter_move_to_end [OF d k])
  have "lru_over_capacity ?c = lru_over_capacity c"
    using count by (simp add: lru_over_capacity_def lru_move_to_end_def split: option.splits)
  then have "lru_bounded ?c"
    using inv k by (auto simp: lru_inv_def lru_bounded_def lru_all_pinned_def ks list_all_iff)
  with wf show ?thesis by (simp add: lru_inv_def)
qed

lemma lru_get_inv: "lru_inv c \<Longrightarrow> lru_inv (snd (lru_get k now c))"
  by (auto simp: lru_get_def lru_remove_key_inv lru_move_to_end_inv split: option.splits)

lemma lru_pop_inv: "lru_inv c \<Longrightarrow> lru_inv (snd (lru_pop k now c))"
  by (auto simp: lru_pop_def lru_remove_key_inv split: option.splits)

text \<open>Storing keeps the bookkeeping; the bound is what the eviction loop restores.\<close>

lemma lru_store_fields [simp]:
  "lru_max_size (lru_store k v n now c) = lru_max_size c"
  "lru_ttl (lru_store k v n now c) = lru_ttl c"
  "lru_pin_slots (lru_store k v n now c) = lru_pin_slots c"
  "lru_max_bytes (lru_store k v n now c) = lru_max_bytes c"
  "lru_size_of (lru_store k v n now c) = lru_size_of c"
  "lru_pinned (lru_store k v n now c) = lru_pinned c"
  "lru_timestamps (lru_store k v n now c) =
     (if lru_ttl c = None then lru_timestamps c else (lru_timestamps c)(k \<mapsto> now))"
  by (auto simp: lru_store_def lru_move_to_end_def Let_def)

lemma lru_store_sizes:
  "lru_wf c \<Longrightarrow> lru_sizes (lru_store k v n now c) =
     (if lru_max_bytes c = None then lru_sizes c else (lru_sizes c)(k \<mapsto> n))"
  by (auto simp: lru_store_def lru_move_to_end_def Let_def lru_wf_def fun_eq_iff)

lemma lru_store_lookup:
  "map_of (lru_data (lru_store k v n now c)) k' = (if k' = k then Some v else map_of (lru_data c) k')"
  by (auto simp: lru_store_def lru_move_to_end_def Let_def dict_simps map_add_def split: option.splits)

lemma lru_store_keys:
  "keys (lru_data (lru_store k v n now c)) =
     (if k \<in> set (keys (lru_data c)) then removeAll k (keys (lru_data c)) @ [k]
      else keys (lru_data c) @ [k])"
  by (simp add: lru_store_def lru_move_to_end_def Let_def dict_simps keys_update_new)

lemma lru_store_bytes:
  assumes "lru_wf c"
  shows "lru_current_bytes (lru_store k v n now c) =
    lru_current_bytes c - lru_bytes_of c k + (if lru_max_bytes c = None then 0 else n)"
proof -
  have "lru_sizes c k = None" if "lru_max_bytes c = None \<or> k \<notin> set (keys (lru_data c))"
    using assms that by (auto simp: lru_wf_def split: if_splits)
  then show ?thesis
    by (auto simp: lru_store_def lru_move_to_end_def Let_def lru_bytes_of_def)
qed

lemma lru_store_wf:
  assumes wf: "lru_wf c" and n: "0 \<le> n" "\<forall>b. lru_max_bytes c = Some b \<longrightarrow> n \<le> b"
  shows "lru_wf (lru_store k v n now c)"
proof -
  let ?c = "lru_store k v n now c" and ?ks = "keys (lru_data c)"
  have d: "distinct ?ks" using wf by (simp add: lru_wf_def wf_dict_def)
  have cur: "lru_current_bytes c = sum_list (map (lru_bytes_of c) ?ks)"
    using wf by (rule lru_wfD)
  have bytes: "lru_bytes_of ?c k' =
      (if lru_max_bytes c = None then 0 else if k' = k then n else lru_bytes_of c k')" for k'
    using wf lru_store_sizes [OF wf] by (auto simp: lru_bytes_of_def lru_wf_def split: option.splits)
  have none: "lru_bytes_of c k = 0" if "k \<notin> set ?ks"
    using wf that by (auto simp: lru_bytes_of_def lru_wf_def split: option.splits if_splits)
  have zero: "lru_bytes_of c k' = 0" if "lru_max_bytes c = None" for k'
    using wf that by (auto simp: lru_bytes_of_def lru_wf_def split: option.splits if_splits)
  have same: "sum_list (map (lru_bytes_of ?c) (removeAll k ?ks)) =
      sum_list (map (lru_bytes_of c) (removeAll k ?ks))"
    by (rule arg_cong [where f = sum_list], rule map_cong) (auto simp: bytes zero)
  have "sum_list (map (lru_bytes_of ?c) (keys (lru_data ?c))) =
      sum_list (map (lru_bytes_of c) ?ks) - lru_bytes_of c k + (if lru_max_bytes c = None then 0 else n)"
  proof (cases "k \<in> set ?ks")
    case True
    then show ?thesis using same sum_list_removeAll [OF d True, of "lru_bytes_of c"]
      by (simp add: lru_store_keys bytes)
  next
    case False
    then show ?thesis using same by (simp add: lru_store_keys bytes removeAll_id none)
  qed
  then have total: "lru_current_bytes ?c = sum_list (map (lru_bytes_of ?c) (keys (lru_data ?c)))"
    by (simp add: lru_store_bytes [OF wf] cur)
  have "distinct (keys (lru_data ?c))"
    using d by (auto simp: lru_store_keys distinct_removeAll)
  then show ?thesis
    unfolding lru_wf_def total wf_dict_def using wf n lru_store_sizes [OF wf]
    by (auto simp: lru_wf_def lru_store_keys split: if_splits)
qed

lemma lru_measure_nonneg: "lru_measure v c = Inr n \<Longrightarrow> 0 \<le> n"
  by (auto simp: lru_measure_def split: option.splits if_splits)

lemma lru_put_commit_inv:
  assumes "lru_inv c" "0 \<le> n"
  shows "lru_inv (snd (lru_put_commit k v n replacing now c))"
proof (cases "\<exists>b. lru_max_bytes c = Some b \<and> n > b")
  case True
  then show ?thesis using assms
    by (auto simp: lru_put_commit_def lru_remove_key_inv simp del: snd_lru_remove_key)
next
  case False
  then have "lru_wf (lru_store k v n now c)"
    using assms by (intro lru_store_wf) (auto simp: lru_inv_def)
  with False show ?thesis
    by (auto simp: lru_put_commit_def lru_inv_def lru_evict_wf lru_evict_bounded Let_def
        split: option.splits)
qed

lemma lru_put_finish_inv: "lru_inv c \<Longrightarrow> lru_inv (snd (lru_put_finish k v replacing now c))"
  using lru_put_commit_inv [OF _ lru_measure_nonneg]
  by (auto simp: lru_put_finish_def case_prod_beta split: sum.splits)

lemma lru_pin_inv: "lru_inv c \<Longrightarrow> lru_inv (lru_pin k c)"
proof -
  assume inv: "lru_inv c"
  let ?c = "c\<lparr>lru_pinned := insert k (lru_pinned c)\<rparr>"
  have bytes: "lru_bytes_of ?c = lru_bytes_of c" by (simp add: lru_bytes_of_def fun_eq_iff)
  have pinned: "lru_is_pinned c k' \<Longrightarrow> lru_is_pinned ?c k'" for k'
    by (auto simp: lru_is_pinned_def)
  have "lru_capacity_entry_count ?c \<le> lru_capacity_entry_count c"
    unfolding lru_capacity_entry_count_def using pinned
    by (auto intro!: length_filter_antimono)
  then have "lru_over_capacity ?c \<Longrightarrow> lru_over_capacity c"
    by (auto simp: lru_over_capacity_def split: option.splits)
  then have "lru_bounded ?c"
    using inv pinned by (auto simp: lru_inv_def lru_bounded_def lru_all_pinned_def list_all_iff)
  moreover have "lru_wf ?c" if "k \<in> set (keys (lru_data c))"
    using inv that bytes by (auto simp: lru_inv_def lru_wf_def)
  ultimately show "lru_inv (lru_pin k c)" using inv by (simp add: lru_pin_def lru_inv_def)
qed

lemma lru_unpin_inv: "lru_inv c \<Longrightarrow> lru_inv (lru_unpin k c)"
proof -
  assume inv: "lru_inv c"
  let ?c = "c\<lparr>lru_pinned := lru_pinned c - {k}, lru_pin_slots := lru_pin_slots c - {k}\<rparr>"
  have "lru_bytes_of ?c = lru_bytes_of c" by (simp add: lru_bytes_of_def fun_eq_iff)
  then have "lru_wf ?c" using inv by (auto simp: lru_inv_def lru_wf_def)
  then show ?thesis by (simp add: lru_unpin_def lru_inv_def lru_evict_wf lru_evict_bounded)
qed

lemma lru_clear_inv: "lru_inv c \<Longrightarrow> lru_inv (lru_clear c)"
  by (auto simp: lru_inv_def lru_wf_def lru_clear_def lru_bounded_def lru_all_pinned_def)

lemma lru_remove_keys_inv:
  "lru_inv c \<Longrightarrow> lru_inv (fold (\<lambda>k c. snd (lru_remove_key k c)) ks c)"
  by (induction ks arbitrary: c) (auto simp: lru_remove_key_inv simp del: snd_lru_remove_key)

lemma lru_evict_where_inv: "lru_inv c \<Longrightarrow> lru_inv (snd (lru_evict_where P c))"
  by (simp add: lru_evict_where_def Let_def lru_remove_keys_inv)

section \<open>Operations as steps\<close>

text \<open>
  The atomic sections other threads can interleave with. \<open>Lru_put_finish\<close> carries what an
  earlier probe saw, which may no longer be what the cache holds.
\<close>

datatype ('k, 'v) lru_op =
    Lru_get 'k time
  | Lru_pop 'k time
  | Lru_put 'k 'v time
  | Lru_put_finish 'k 'v "'v option" time
  | Lru_pin 'k
  | Lru_unpin 'k
  | Lru_clear
  | Lru_evict_where "'k \<Rightarrow> bool"

fun lru_step :: "('k, 'v) lru_op \<Rightarrow> ('k, 'v) lru \<Rightarrow> ('k, 'v) lru" where
  "lru_step (Lru_get k now) c = snd (lru_get k now c)"
| "lru_step (Lru_pop k now) c = snd (lru_pop k now c)"
| "lru_step (Lru_put k v now) c = snd (lru_put k v now c)"
| "lru_step (Lru_put_finish k v replacing now) c = snd (lru_put_finish k v replacing now c)"
| "lru_step (Lru_pin k) c = lru_pin k c"
| "lru_step (Lru_unpin k) c = lru_unpin k c"
| "lru_step Lru_clear c = lru_clear c"
| "lru_step (Lru_evict_where P) c = snd (lru_evict_where P c)"

lemma lru_step_inv: "lru_inv c \<Longrightarrow> lru_inv (lru_step p c)"
  by (cases p) (auto simp: lru_get_inv lru_pop_inv lru_put_def lru_put_finish_inv lru_pin_inv
      lru_unpin_inv lru_clear_inv lru_evict_where_inv)

interpretation lru: invariant_system lru_inv lru_step
  by unfold_locales (rule lru_step_inv)

section \<open>Properties\<close>

text \<open>
  C1: After any sequence of operations on a newly constructed cache, in any interleaving of
  the two locked sections of \<open>put\<close>, the byte total is the sum of the stored sizes, every
  side table covers exactly the live entries, and the cache exceeds neither its entry bound
  (counting unpinned entries) nor its byte bound unless every live entry is pinned.
\<close>

theorem lru_reachable_bounded:
  assumes "lru_init max_size ttl pin_slots max_bytes size_of = Inr c0"
    and "c = fold lru_step ops c0"
  shows "lru_wf c \<and>
    (int (lru_capacity_entry_count c) \<le> lru_max_size c \<and>
     (\<forall>b. lru_max_bytes c = Some b \<longrightarrow> lru_current_bytes c \<le> b) \<or> lru_all_pinned c)"
proof -
  have "lru_inv c" unfolding assms(2) by (rule lru.run_inv [OF lru_init_inv [OF assms(1)]])
  then show ?thesis
    by (auto simp: lru_inv_def lru_bounded_def lru_over_capacity_def split: option.splits)
qed

text \<open>
  C2: The eviction loop ends with the cache within its bounds or only pinned entries left. It
  drops unpinned entries in least-recently-used order, each while the cache was still over a
  bound, so it never drops one more than needed and never a pinned one.
\<close>

theorem lru_evict_minimal_lru_prefix:
  assumes "lru_wf c"
  shows "\<exists>n \<le> length (lru_unpinned c).
    lru_evict_if_over_capacity c = fold lru_forget (take n (lru_unpinned c)) c \<and>
    (\<forall>m < n. lru_over_capacity (fold lru_forget (take m (lru_unpinned c)) c)) \<and>
    lru_bounded (lru_evict_if_over_capacity c)"
  using lru_evict_is_drop [OF assms] lru_evict_bounded [of c] unfolding lru_drop_def by blast

definition lru_demo :: "(nat, nat) lru" where
  "lru_demo = \<lparr>lru_max_size = 1, lru_ttl = Some 10, lru_data = [(0, 4)],
     lru_timestamps = [0 \<mapsto> 3], lru_pinned = {}, lru_pin_slots = {0},
     lru_max_bytes = Some 9, lru_size_of = Some (\<lambda>n. Some (int n)),
     lru_sizes = [0 \<mapsto> 4], lru_current_bytes = 4\<rparr>"

lemmas lru_demo_eval = lru_demo_def lru_put_def lru_put_finish_def lru_put_probe_def
  lru_put_commit_def lru_measure_def lru_store_def lru_evict_if_over_capacity.simps
  lru_over_capacity_def lru_capacity_entry_count_def lru_victim_def lru_is_pinned_def

theorem lru_reachable_bounded_witness:
  "let c = fold lru_step [Lru_put 0 4 1, Lru_pin 0, Lru_put 1 6 2, Lru_get 0 3]
       (case lru_init 1 (Some 10) {} (Some 9) (Some (\<lambda>n::nat. Some (int n))) of
          Inr c \<Rightarrow> c | Inl _ \<Rightarrow> (lru_demo :: (nat, nat) lru))
   in lru_wf c \<and>
    (int (lru_capacity_entry_count c) \<le> lru_max_size c \<and>
     (\<forall>b. lru_max_bytes c = Some b \<longrightarrow> lru_current_bytes c \<le> b) \<or> lru_all_pinned c)"
  unfolding Let_def
  by (rule lru_reachable_bounded
      [of 1 "Some 10" "{}" "Some 9" "Some (\<lambda>n::nat. Some (int n))", OF _ refl])
    (simp add: lru_init_def)

theorem lru_evict_minimal_lru_prefix_witness:
  "lru_wf lru_demo \<and> (\<exists>n \<le> length (lru_unpinned lru_demo).
    lru_evict_if_over_capacity lru_demo = fold lru_forget (take n (lru_unpinned lru_demo)) lru_demo \<and>
    (\<forall>m < n. lru_over_capacity (fold lru_forget (take m (lru_unpinned lru_demo)) lru_demo)) \<and>
    lru_bounded (lru_evict_if_over_capacity lru_demo))"
proof -
  have "lru_wf lru_demo" by (auto simp: lru_demo_def lru_wf_def lru_bytes_of_def wf_dict_def)
  then show ?thesis using lru_evict_minimal_lru_prefix by blast
qed

text \<open>
  When \<open>put\<close> reports the value retained, a lookup that comes before expiry returns it; and a
  put under one key never removes or changes a pinned entry under another.
\<close>

theorem lru_put_get:
  assumes "lru_put k v now c = (Inr True, c')"
    and "\<forall>t. lru_ttl c = Some t \<longrightarrow> now' - now \<le> t"
  shows "fst (lru_get k now' c') = Some v \<and>
    (\<forall>k'. k' \<noteq> k \<and> lru_is_pinned c k' \<longrightarrow> map_of (lru_data c') k' = map_of (lru_data c) k')"
proof -
  obtain n where c': "c' = lru_evict_if_over_capacity (lru_store k v n now c)"
      and k: "k \<in> set (keys (lru_data c'))"
    using assms(1) by (auto simp: lru_put_def lru_put_finish_def lru_put_commit_def Let_def
        split: sum.splits if_splits)
  from k obtain w where w: "map_of (lru_data c') k = Some w" by (rule keys_obtain)
  then have "w = v" using lru_evict_lookup [of "lru_store k v n now c" k w]
    by (simp add: c' lru_store_lookup)
  moreover have "\<not> lru_expired c' k now'"
    using k assms(2) lru_evict_timestamp [of k "lru_store k v n now c"]
    by (auto simp: c' lru_expired_def split: option.splits)
  ultimately have "fst (lru_get k now' c') = Some v"
    using w by (simp add: lru_get_def)
  moreover have "map_of (lru_data c') k' = map_of (lru_data c) k'"
    if "k' \<noteq> k" "lru_is_pinned c k'" for k'
    using that by (simp add: c' lru_evict_pinned lru_is_pinned_def lru_store_lookup)
  ultimately show ?thesis by blast
qed

theorem lru_put_get_witness:
  "lru_put 1 5 8 lru_demo = (Inr True, snd (lru_put 1 5 8 lru_demo)) \<and>
   fst (lru_get 1 12 (snd (lru_put 1 5 8 lru_demo))) = Some 5"
proof -
  have "lru_put 1 5 8 lru_demo = (Inr True, snd (lru_put 1 5 8 lru_demo))"
    by (simp add: lru_demo_eval)
  with lru_put_get [OF this, of 12] show ?thesis by (simp add: lru_demo_def)
qed

text \<open>
  A value too large for the byte budget is refused: it is not stored, an entry another put
  stored since the probe is left alone, and the value it would have replaced is dropped.
\<close>

theorem lru_put_oversized:
  assumes "lru_max_bytes c = Some b" "lru_measure v c = Inr n" "b < n"
  shows "fst (lru_put_finish k v replacing now c) = Inr False \<and>
    (map_of (lru_data c) k \<noteq> replacing \<longrightarrow> snd (lru_put_finish k v replacing now c) = c) \<and>
    (map_of (lru_data c) k = replacing \<longrightarrow>
      map_of (lru_data (snd (lru_put_finish k v replacing now c))) =
      (map_of (lru_data c))(k := None))"
  using assms
  by (auto simp: lru_put_finish_def lru_put_commit_def dict_simps map_of_None_keys fun_eq_iff)

theorem lru_put_oversized_witness:
  "fst (lru_put_finish 0 50 None 8 lru_demo) = Inr False \<and>
   snd (lru_put_finish 0 50 None 8 lru_demo) = lru_demo"
  using lru_put_oversized [of lru_demo 9 50 50 0 None 8] by (simp add: lru_demo_def lru_measure_def)

end
