(* ===== verification/Graph_Order.thy ===== *)
theory Graph_Order
  imports Prelude
begin

text \<open>
  Traversal and ordering of the pipeline graph: \<^verbatim>\<open>src/haute/_topo.py\<close> and the traversal
  helpers of \<^verbatim>\<open>src/haute/_graph_utils.py\<close>. The standard library's
  \<open>graphlib.TopologicalSorter\<close> and \<open>heapq\<close> are modelled by what the code uses of them
  (registration order, ready batches, \<open>done\<close>; the smallest element popped); a search for a
  cycle is the question whether some node is among its own descendants. Kahn's peeling is
  analysed once, in the locale \<open>counted_graph\<close>, as a step relation that may take any ready
  node next; each loop of the code is one way of running it.
\<close>

section \<open>Edges and the parent relation\<close>

type_synonym node_id = string

text \<open>The names are of any type: this theory uses strings, \<open>Edge_Names\<close> code points.\<close>

record 's named_edge =
  edge_id :: 's
  edge_source :: 's
  edge_target :: 's
  edge_source_handle :: "'s option"
  edge_target_handle :: "'s option"

type_synonym graph_edge = "node_id named_edge"

abbreviation edge_pair :: "graph_edge \<Rightarrow> node_id \<times> node_id" where
  "edge_pair e \<equiv> (edge_source e, edge_target e)"

definition links :: "('n, 'n list) odict \<Rightarrow> 'n \<Rightarrow> 'n list" where
  "links d n = (case map_of d n of None \<Rightarrow> [] | Some ns \<Rightarrow> ns)"

definition append_link :: "'n \<Rightarrow> 'n \<Rightarrow> ('n, 'n list) odict \<Rightarrow> ('n, 'n list) odict" where
  "append_link k v d = AList.update k (links d k @ [v]) d"

lemma links_append_link [simp]:
  "links (append_link k v d) n = (if n = k then links d n @ [v] else links d n)"
  by (simp add: links_def append_link_def dict_simps)

text \<open>The reverse adjacency list, restricted to the given nodes when there are any to restrict to.\<close>

fun parents_loop :: "graph_edge list \<Rightarrow> bool \<Rightarrow> (node_id, node_id list) odict \<Rightarrow>
    (node_id, node_id list) odict" where
  "parents_loop [] restrict parents = parents"
| "parents_loop (e # es) restrict parents =
     parents_loop es restrict
       (if \<not> restrict \<or> edge_target e \<in> set (keys parents)
        then append_link (edge_target e) (edge_source e) parents else parents)"

definition build_parents_of :: "graph_edge list \<Rightarrow> node_id list option \<Rightarrow>
    (node_id, node_id list) odict" where
  "build_parents_of edges node_ids =
     parents_loop edges (node_ids \<noteq> None)
       (case node_ids of None \<Rightarrow> [] | Some ns \<Rightarrow> map (\<lambda>n. (n, [])) (remdups ns))"

section \<open>Depth-first traversal\<close>

function upstream_loop :: "('n, 'n list) odict \<Rightarrow> 'n list \<Rightarrow> 'n set \<Rightarrow> 'n list \<Rightarrow> 'n list" where
  "upstream_loop P [] seen result = result"
| "upstream_loop P (current # stack) seen result =
     (if current \<in> seen then upstream_loop P stack seen result
      else upstream_loop P (links P current @ stack) (insert current seen) (result @ [current]))"
  by pat_completeness auto

definition all_links :: "('n, 'n list) odict \<Rightarrow> 'n set" where
  "all_links P = \<Union> (set ` snd ` set P)"

lemma finite_all_links [simp]: "finite (all_links P)"
  by (simp add: all_links_def)

lemma links_in_all_links: "set (links P n) \<subseteq> all_links P"
  by (cases "map_of P n") (force simp: links_def all_links_def dest: map_of_SomeD)+

termination upstream_loop
proof (relation "measures [\<lambda>(P, stack, seen, result). card (all_links P \<union> set stack - seen),
    \<lambda>(P, stack, seen, result). length stack]", goal_cases)
  case (2 P current stack seen result)
  have "card (all_links P \<union> set stack - seen) \<le> card (all_links P \<union> set (current # stack) - seen)"
    by (rule card_mono) auto
  then show ?case by (auto simp: le_less)
next
  case (3 P current stack seen result)
  have "card (all_links P \<union> set (links P current @ stack) - insert current seen)
      < card (all_links P \<union> set (current # stack) - seen)"
    using 3 links_in_all_links [of P current] by (intro psubset_card_mono) auto
  then show ?case by simp
qed simp

definition upstream_node_ids :: "'n \<Rightarrow> ('n, 'n list) odict \<Rightarrow> 'n list" where
  "upstream_node_ids node_id parents_of = upstream_loop parents_of (links parents_of node_id) {} []"

definition link_rel :: "('n, 'n list) odict \<Rightarrow> ('n \<times> 'n) set" where
  "link_rel P = {(n, p). p \<in> set (links P n)}"

text \<open>What the loop returns when every node already visited has its links visited or stacked.\<close>

lemma upstream_loop_reach:
  assumes "set result = seen" "distinct result"
    and "\<forall>n \<in> seen. set (links P n) \<subseteq> seen \<union> set stack"
  shows "set (upstream_loop P stack seen result) = (link_rel P)\<^sup>* `` (seen \<union> set stack) \<and>
    distinct (upstream_loop P stack seen result)"
  using assms
proof (induction P stack seen result rule: upstream_loop.induct)
  case (1 P seen result)
  have "(link_rel P)\<^sup>* `` seen \<subseteq> seen"
  proof
    fix y assume "y \<in> (link_rel P)\<^sup>* `` seen"
    then obtain x where "(x, y) \<in> (link_rel P)\<^sup>*" "x \<in> seen" by blast
    then show "y \<in> seen" using 1 by (induction rule: rtrancl_induct) (auto simp: link_rel_def)
  qed
  then show ?case using 1 by auto
next
  case (2 P current stack seen result)
  show ?case
  proof (cases "current \<in> seen")
    case True
    then have "seen \<union> set (current # stack) = seen \<union> set stack" by auto
    then show ?thesis using True 2 by simp
  next
    case False
    let ?S = "insert current seen \<union> set (links P current @ stack)"
    have "(link_rel P)\<^sup>* `` ?S = (link_rel P)\<^sup>* `` (seen \<union> set (current # stack))"
      by (auto simp: link_rel_def intro: converse_rtrancl_into_rtrancl)
    moreover have "\<forall>n \<in> insert current seen.
        set (links P n) \<subseteq> insert current seen \<union> set (links P current @ stack)"
      using "2.prems"(3) by auto
    ultimately show ?thesis using False 2 by simp
  qed
qed

lemma trancl_Image_links: "(link_rel P)\<^sup>* `` set (links P n) = {p. (n, p) \<in> (link_rel P)\<^sup>+}"
  by (auto simp: trancl_unfold_left link_rel_def)

lemma set_upstream_node_ids: "set (upstream_node_ids n P) = {p. (n, p) \<in> (link_rel P)\<^sup>+}"
  using upstream_loop_reach [of "[]" "{}" P "links P n"]
  by (simp add: upstream_node_ids_def trancl_Image_links)

lemma distinct_upstream_node_ids: "distinct (upstream_node_ids n P)"
  using upstream_loop_reach [of "[]" "{}" P "links P n"] by (simp add: upstream_node_ids_def)

section \<open>Parents, ancestors and the upstream subgraph\<close>

lemma links_parents_loop:
  "links (parents_loop es restrict P) n = links P n @
     (if restrict \<and> n \<notin> set (keys P) then []
      else map edge_source (filter (\<lambda>e. edge_target e = n) es))"
  by (induction es restrict P rule: parents_loop.induct)
    (auto simp: append_link_def dict_simps links_def)

lemma links_Nil [simp]: "links [] n = []"
  by (simp add: links_def)

lemma links_map_empty [simp]: "links (map (\<lambda>n. (n, [])) ns) n = []"
  by (simp add: links_def map_of_map_restrict restrict_map_def)

lemma links_build_parents_of:
  "links (build_parents_of edges node_ids) n =
     (if \<exists>ns. node_ids = Some ns \<and> n \<notin> set ns then []
      else map edge_source (filter (\<lambda>e. edge_target e = n) edges))"
  by (auto simp: build_parents_of_def links_parents_loop keys_def image_image split: option.splits)

definition ancestors :: "node_id \<Rightarrow> graph_edge list \<Rightarrow> node_id list \<Rightarrow> node_id set" where
  "ancestors target_id edges all_ids =
     {target_id} \<union> set (upstream_node_ids target_id (build_parents_of edges (Some all_ids)))"

definition edge_rel :: "graph_edge list \<Rightarrow> (node_id \<times> node_id) set" where
  "edge_rel es = set (map edge_pair es)"

text \<open>A graph: nodes with their payload, edges, and the metadata a subgraph carries over.\<close>

record ('nd, 'meta) pipeline_graph =
  graph_nodes :: "(node_id \<times> 'nd) list"
  graph_edges :: "graph_edge list"
  graph_meta :: 'meta

definition upstream_subgraph :: "('nd, 'meta) pipeline_graph \<Rightarrow> node_id \<Rightarrow>
    string + ('nd, 'meta) pipeline_graph" where
  "upstream_subgraph g node_id =
     (if node_id \<notin> set (keys (graph_nodes g)) then Inl ''unknown node''
      else let included = set (upstream_node_ids node_id (build_parents_of (graph_edges g) None))
                            \<union> {node_id}
           in Inr \<lparr>graph_nodes = filter (\<lambda>n. fst n \<in> included) (graph_nodes g),
                   graph_edges = filter (\<lambda>e. edge_source e \<in> included \<and> edge_target e \<in> included)
                                   (graph_edges g),
                   graph_meta = graph_meta g\<rparr>)"

lemma link_rel_parents:
  "link_rel (build_parents_of edges None) = (edge_rel edges)\<inverse>"
  by (auto simp: link_rel_def links_build_parents_of edge_rel_def)

lemma link_rel_parents_known:
  assumes "\<forall>e \<in> set edges. edge_target e \<in> set ns"
  shows "link_rel (build_parents_of edges (Some ns)) = (edge_rel edges)\<inverse>"
  using assms by (auto simp: link_rel_def links_build_parents_of edge_rel_def split: if_splits)

lemma set_upstream_parents:
  "set (upstream_node_ids n (build_parents_of edges None)) = {p. (p, n) \<in> (edge_rel edges)\<^sup>+}"
  by (simp add: set_upstream_node_ids link_rel_parents trancl_converse)

section \<open>The topological sorter\<close>

record sorter =
  npredecessors :: "(node_id, int) odict"
  successors :: "(node_id, node_id list) odict"

definition new_sorter :: sorter where
  "new_sorter = \<lparr>npredecessors = [], successors = []\<rparr>"

definition get_nodeinfo :: "node_id \<Rightarrow> sorter \<Rightarrow> sorter" where
  "get_nodeinfo n ts =
     (if n \<in> set (keys (npredecessors ts)) then ts
      else ts\<lparr>npredecessors := AList.update n 0 (npredecessors ts),
              successors := AList.update n [] (successors ts)\<rparr>)"

definition sorter_add_one :: "node_id \<Rightarrow> node_id \<Rightarrow> sorter \<Rightarrow> sorter" where
  "sorter_add_one node pred ts =
     (let ts1 = get_nodeinfo node ts;
          ts2 = ts1\<lparr>npredecessors := AList.update node
                 ((case map_of (npredecessors ts1) node of Some d \<Rightarrow> d | None \<Rightarrow> 0) + 1)
                 (npredecessors ts1)\<rparr>;
          ts3 = get_nodeinfo pred ts2
      in ts3\<lparr>successors := append_link pred node (successors ts3)\<rparr>)"

text \<open>
  One finished node: its successors lose a predecessor each; those that reach zero are newly
  ready, in successor order. The same loop decrements \<open>in_degree\<close> in \<open>_find_cycle_nodes\<close>.
\<close>

fun release_all :: "'n list \<Rightarrow> ('n, int) odict \<Rightarrow> 'n list \<Rightarrow> ('n, int) odict \<times> 'n list" where
  "release_all [] deg new = (deg, new)"
| "release_all (child # children) deg new =
     (case map_of deg child of
        None \<Rightarrow> release_all children deg new
      | Some d \<Rightarrow> release_all children (AList.update child (d - 1) deg)
                   (if d - 1 = 0 then new @ [child] else new))"

definition positives :: "('n, int) odict \<Rightarrow> nat" where
  "positives deg = length (filter (\<lambda>(_, d). 0 < d) deg)"

lemma positives_update:
  "map_of deg c = Some d \<Longrightarrow>
    positives (AList.update c (d - 1) deg) + (if d - 1 = 0 then 1 else 0) \<le> positives deg"
  by (induction deg) (auto simp: positives_def)

lemma release_all_positives:
  "release_all cs deg new = (deg', new') \<Longrightarrow>
    positives deg' + length new' \<le> positives deg + length new"
proof (induction cs deg new rule: release_all.induct)
  case (2 child children deg new)
  then show ?case
    using positives_update [of deg child] by (fastforce split: option.splits if_splits)
qed simp

lemma release_all_new_length:
  assumes "release_all cs deg [] = (deg', new)"
  shows "positives deg' + length new \<le> positives deg"
  using release_all_positives [OF assms] by simp

function fifo_loop :: "('n \<Rightarrow> 'n list) \<Rightarrow> ('n, int) odict \<Rightarrow> 'n list \<Rightarrow> 'n list \<Rightarrow> 'n list" where
  "fifo_loop ch deg [] out = out"
| "fifo_loop ch deg (n # ready) out =
     (let (deg', new) = release_all (ch n) deg [] in fifo_loop ch deg' (ready @ new) (out @ [n]))"
  by pat_completeness auto
termination
  by (relation "measure (\<lambda>(ch, deg, ready, out). positives deg + length ready)")
    (auto dest: release_all_new_length [OF sym])

function (sequential) heap_loop :: "('n::linorder \<Rightarrow> 'n list) \<Rightarrow> ('n, int) odict \<Rightarrow> 'n list \<Rightarrow>
    'n list \<Rightarrow> 'n list" where
  "heap_loop ch deg [] out = out"
| "heap_loop ch deg ready out =
     (let n = Min (set ready); (deg', new) = release_all (ch n) deg []
      in heap_loop ch deg' (remove1 n ready @ new) (out @ [n]))"
  by pat_completeness auto
termination
proof (relation "measure (\<lambda>(ch, deg, ready, out). positives deg + length ready)", goal_cases)
  case (2 ch deg v va out n x deg' new)
  have "n \<in> set (v # va)" using 2(1) Min_in [of "set (v # va)"] by simp
  moreover have "positives deg' + length new \<le> positives deg"
    using 2 by (auto intro!: release_all_new_length)
  moreover have "length (remove1 n (v # va)) < length (v # va)"
    using calculation(1) by (simp only: length_remove1) simp
  ultimately show ?case by (simp del: remove1.simps)
qed simp

fun done_all :: "('n \<Rightarrow> 'n list) \<Rightarrow> 'n list \<Rightarrow> ('n, int) odict \<Rightarrow> 'n list \<Rightarrow> ('n, int) odict \<times> 'n list" where
  "done_all ch [] deg new = (deg, new)"
| "done_all ch (n # ns) deg new =
     (let (deg', new') = release_all (ch n) deg new in done_all ch ns deg' new')"

lemma done_all_positives:
  "done_all ch ns deg new = (deg', new') \<Longrightarrow>
    positives deg' + length new' \<le> positives deg + length new"
proof (induction ch ns deg new rule: done_all.induct)
  case (2 ch n ns deg new)
  obtain d1 n1 where r: "release_all (ch n) deg new = (d1, n1)" by fastforce
  show ?case using 2 release_all_positives [OF r] r by fastforce
qed simp

function batch_loop :: "('n \<Rightarrow> 'n list) \<Rightarrow> ('n, int) odict \<Rightarrow> 'n list \<Rightarrow> 'n list \<Rightarrow> 'n list" where
  "batch_loop ch deg ready out =
     (if ready = [] then out
      else let (deg', new) = done_all ch ready deg [] in batch_loop ch deg' new (out @ ready))"
  by pat_completeness auto
termination
proof (relation "measure (\<lambda>(ch, deg, ready, out). positives deg + length ready)", goal_cases)
  case (2 ch deg ready out x deg' new)
  then have "positives deg' + length new \<le> positives deg"
    using done_all_positives [of ch ready deg "[]" deg' new] by simp
  then show ?case using 2(1) by (cases ready) simp_all
qed simp

declare batch_loop.simps [simp del]

lemma release_all_append:
  "release_all cs deg (acc @ new) = (let (deg', new') = release_all cs deg new in (deg', acc @ new'))"
  by (induction cs deg new rule: release_all.induct) (auto split: option.splits)

lemma fifo_loop_batch:
  "fifo_loop ch deg (ns @ acc) out =
    (let (deg', acc') = done_all ch ns deg acc in fifo_loop ch deg' acc' (out @ ns))"
proof (induction ns arbitrary: deg acc out)
  case (Cons n ns)
  obtain d1 n1 where r: "release_all (ch n) deg [] = (d1, n1)" by fastforce
  then have "release_all (ch n) deg acc = (d1, acc @ n1)"
    using release_all_append [of "ch n" deg acc "[]"] by simp
  then show ?case using r Cons.IH [of d1 "acc @ n1" "out @ [n]"] by simp
qed simp

text \<open>Handing out whole ready batches, as \<open>static_order\<close> does, is the first-in first-out order.\<close>

lemma batch_loop_fifo: "batch_loop ch deg ready out = fifo_loop ch deg ready out"
proof (induction ch deg ready out rule: batch_loop.induct)
  case (1 ch deg ready out)
  then show ?case
    using fifo_loop_batch [of ch deg ready "[]" out]
    by (cases "ready = []") (auto simp: batch_loop.simps split: prod.splits)
qed

section \<open>Peeling as a step relation\<close>

type_synonym 'n peel_state = "('n, int) odict \<times> 'n list \<times> 'n list"

inductive peel :: "('n \<Rightarrow> 'n list) \<Rightarrow> 'n peel_state \<Rightarrow> 'n peel_state \<Rightarrow> bool" for ch where
  take_one: "n \<in> set ready \<Longrightarrow> release_all (ch n) deg [] = (deg', new) \<Longrightarrow>
    mset ready' = mset ready - {#n#} + mset new \<Longrightarrow>
    peel ch (deg, ready, out) (deg', ready', out @ [n])"

inductive_cases peel_elim: "peel ch (deg, ready, out) t"

inductive_simps peel_stuck [simp]: "peel ch (deg, [], out) t"

lemma fifo_loop_peels:
  "\<exists>deg'. (peel ch)\<^sup>*\<^sup>* (deg, ready, out) (deg', [], fifo_loop ch deg ready out)"
proof (induction ch deg ready out rule: fifo_loop.induct)
  case (2 ch deg n ready out)
  obtain d1 n1 where r: "release_all (ch n) deg [] = (d1, n1)" by fastforce
  have "peel ch (deg, n # ready, out) (d1, ready @ n1, out @ [n])"
    using r by (intro peel.take_one) auto
  moreover obtain deg' where
    "(peel ch)\<^sup>*\<^sup>* (d1, ready @ n1, out @ [n]) (deg', [], fifo_loop ch deg (n # ready) out)"
    using "2.IH" [OF r [symmetric] refl] r by auto
  ultimately show ?case by (blast intro: converse_rtranclp_into_rtranclp)
qed auto

lemma heap_step:
  assumes "n = Min (set (v # va))" "release_all (ch n) deg [] = (d1, n1)"
  shows "peel ch (deg, v # va, out) (d1, remove1 n (v # va) @ n1, out @ [n])"
    "heap_loop ch deg (v # va) out = heap_loop ch d1 (remove1 n (v # va) @ n1) (out @ [n])"
proof -
  have "n \<in> set (v # va)" unfolding assms(1) by (rule Min_in) auto
  then show "peel ch (deg, v # va, out) (d1, remove1 n (v # va) @ n1, out @ [n])"
    using assms(2) by (intro peel.take_one) auto
  show "heap_loop ch deg (v # va) out = heap_loop ch d1 (remove1 n (v # va) @ n1) (out @ [n])"
    using assms by (simp add: Let_def del: remove1.simps)
qed

lemma heap_loop_peels:
  "\<exists>deg'. (peel ch)\<^sup>*\<^sup>* (deg, ready, out) (deg', [], heap_loop ch deg ready out)"
proof (induction ch deg ready out rule: heap_loop.induct)
  case (2 ch deg v va out)
  let ?n = "Min (set (v # va))"
  obtain d1 n1 where r: "release_all (ch ?n) deg [] = (d1, n1)" by fastforce
  note step = heap_step [where v = v and va = va and ch = ch and out = out, OF refl r]
  obtain deg' where
    "(peel ch)\<^sup>*\<^sup>* (d1, remove1 ?n (v # va) @ n1, out @ [?n]) (deg', [], heap_loop ch deg (v # va) out)"
    using "2.IH" [OF refl r [symmetric] refl] step(2) by auto
  then show ?case using step(1) by (blast intro: converse_rtranclp_into_rtranclp)
qed auto

section \<open>What peeling computes\<close>

definition below_cycle :: "('n \<times> 'n) set \<Rightarrow> 'n \<Rightarrow> bool" where
  "below_cycle R n \<longleftrightarrow> (\<exists>c. (c, c) \<in> R\<^sup>+ \<and> (c, n) \<in> R\<^sup>*)"

definition before :: "'n list \<Rightarrow> 'n \<Rightarrow> 'n \<Rightarrow> bool" where
  "before out s t \<longleftrightarrow> (\<exists>xs ys zs. out = xs @ s # ys @ t # zs)"

lemma before_append: "before out s t \<Longrightarrow> before (out @ extra) s t"
  unfolding before_def by (metis append.assoc append_Cons)

lemma before_last: "s \<in> set out \<Longrightarrow> before (out @ [t]) s t"
  unfolding before_def by (metis append.assoc append_Cons split_list)

lemma before_in: "before out s t \<Longrightarrow> s \<in> set out \<and> t \<in> set out"
  by (auto simp: before_def)

lemma release_all_counts:
  assumes "\<forall>c \<in> set cs. \<exists>d. map_of deg c = Some d \<and> int (count_list cs c) \<le> d"
  obtains deg' extra where
    "release_all cs deg new = (deg', new @ extra)" "distinct extra"
    "set extra = {c \<in> set cs. map_of deg c = Some (int (count_list cs c))}"
    "\<forall>c. map_of deg' c = map_option (\<lambda>d. d - int (count_list cs c)) (map_of deg c)"
  using assms
proof (induction cs arbitrary: deg new thesis)
  case Nil
  show ?case by (rule Nil(1) [of deg "[]"]) (auto simp: option.map_ident)
next
  case (Cons c cs)
  obtain d where d: "map_of deg c = Some d" "int (count_list cs c) + 1 \<le> d"
    using Cons.prems(2) by fastforce
  let ?deg = "AList.update c (d - 1) deg" and ?new = "if d - 1 = 0 then new @ [c] else new"
  have "\<forall>x \<in> set cs. \<exists>e. map_of ?deg x = Some e \<and> int (count_list cs x) \<le> e"
    using Cons.prems(2) d by (fastforce simp: dict_simps)
  then obtain deg' extra where r:
    "release_all cs ?deg ?new = (deg', ?new @ extra)" "distinct extra"
    "set extra = {x \<in> set cs. map_of ?deg x = Some (int (count_list cs x))}"
    "\<forall>x. map_of deg' x = map_option (\<lambda>e. e - int (count_list cs x)) (map_of ?deg x)"
    using Cons.IH [of ?deg ?new] by blast
  have zero: "d = 1 \<Longrightarrow> c \<notin> set cs" using d(2) by (simp add: count_list_0_iff)
  show ?case
  proof (rule Cons.prems(1) [of deg' "(if d = 1 then [c] else []) @ extra"])
    show "release_all (c # cs) deg new = (deg', new @ (if d = 1 then [c] else []) @ extra)"
      using r(1) d by auto
    show "distinct ((if d = 1 then [c] else []) @ extra)" using r(2,3) zero by auto
    have "c \<notin> set cs \<Longrightarrow> count_list cs c = 0" by (simp add: count_list_0_iff)
    then have "x \<in> set ((if d = 1 then [c] else []) @ extra) \<longleftrightarrow>
        x \<in> set (c # cs) \<and> map_of deg x = Some (int (count_list (c # cs) x))" for x
      using r(3) d zero by (cases "x = c"; cases "c \<in> set cs") (auto simp: dict_simps)
    then show "set ((if d = 1 then [c] else []) @ extra) =
        {x \<in> set (c # cs). map_of deg x = Some (int (count_list (c # cs) x))}"
      by blast
    show "\<forall>x. map_of deg' x = map_option (\<lambda>d. d - int (count_list (c # cs) x)) (map_of deg x)"
      using r(4) d by (simp add: dict_simps)
  qed
qed

lemma descent_reaches_cycle:
  assumes "finite A" and step: "\<forall>n \<in> A. \<exists>p \<in> A. (p, n) \<in> R" and "n \<in> A"
  shows "below_cycle R n"
proof (rule ccontr)
  assume no: "\<not> below_cycle R n"
  define B where "B = {m \<in> A. (m, n) \<in> R\<^sup>*}"
  have "(m, m) \<notin> (R \<inter> B \<times> B)\<^sup>+" for m
  proof
    assume m: "(m, m) \<in> (R \<inter> B \<times> B)\<^sup>+"
    then have "m \<in> B" by (auto dest: tranclD)
    moreover have "(m, m) \<in> R\<^sup>+" using m trancl_mono [of "(m, m)" "R \<inter> B \<times> B" R] by auto
    ultimately show False using no by (auto simp: B_def below_cycle_def)
  qed
  then have "wf (R \<inter> B \<times> B)"
    using assms(1) by (intro finite_acyclic_wf) (auto simp: acyclic_def B_def)
  moreover have "n \<in> B" using assms(3) by (simp add: B_def)
  ultimately obtain m where m: "m \<in> B" "\<forall>p. (p, m) \<in> R \<inter> B \<times> B \<longrightarrow> p \<notin> B"
    unfolding wf_eq_minimal by blast
  then obtain p where "p \<in> A" "(p, m) \<in> R" using step by (auto simp: B_def)
  then have "p \<in> B" using m(1) by (auto simp: B_def intro: converse_rtrancl_into_rtrancl)
  then show False using m \<open>(p, m) \<in> R\<close> by blast
qed

definition initially_ready :: "('n, int) odict \<Rightarrow> 'n list" where
  "initially_ready deg = map fst (filter (\<lambda>(_, d). d = 0) deg)"

text \<open>
  A graph with its edges counted: the contract under which peeling works. The degree map
  holds the number of edges into each node and \<open>ch\<close> lists the targets of a node's edges.
\<close>

locale counted_graph =
  fixes N :: "'n list"
    and es :: "('n \<times> 'n) list"
    and ch :: "'n \<Rightarrow> 'n list"
    and deg0 :: "('n, int) odict"
  assumes nodes: "keys deg0 = N" "distinct N"
    and inside: "(s, t) \<in> set es \<Longrightarrow> s \<in> set N \<and> t \<in> set N"
    and children: "n \<in> set N \<Longrightarrow> ch n = map snd (filter (\<lambda>e. fst e = n) es)"
    and degrees: "n \<in> set N \<Longrightarrow> map_of deg0 n = Some (int (length (filter (\<lambda>e. snd e = n) es)))"
begin

definition pending :: "'n set \<Rightarrow> 'n \<Rightarrow> nat" where
  "pending done n = length (filter (\<lambda>e. snd e = n \<and> fst e \<notin> done) es)"

definition ok :: "'n peel_state \<Rightarrow> bool" where
  "ok = (\<lambda>(deg, ready, out).
     distinct (out @ ready) \<and> set (out @ ready) \<subseteq> set N \<and>
     (\<forall>n \<in> set N. map_of deg n = Some (int (pending (set out) n))) \<and>
     (\<forall>n \<in> set N. n \<in> set (out @ ready) \<longleftrightarrow> pending (set out) n = 0) \<and>
     (\<forall>(s, t) \<in> set es. t \<in> set out \<longrightarrow> before out s t) \<and>
     (\<forall>n \<in> set out. (n, n) \<notin> (set es)\<^sup>+))"

lemma pending_0: "pending done n = 0 \<longleftrightarrow> (\<forall>s. (s, n) \<in> set es \<longrightarrow> s \<in> done)"
  by (force simp: pending_def filter_empty_conv)

lemma count_children: "n \<in> set N \<Longrightarrow>
    count_list (ch n) c = length (filter (\<lambda>e. snd e = c \<and> fst e = n) es)"
  by (simp add: children count_list_eq_length_filter filter_map comp_def conj_commute eq_commute)

lemma pending_insert:
  assumes "n \<in> set N" "n \<notin> done"
  shows "pending done c = pending (insert n done) c + count_list (ch n) c"
  unfolding count_children [OF assms(1)] pending_def using assms(2)
  by (induction es) auto

abbreviation roots :: "'n list" where
  "roots \<equiv> initially_ready deg0"

lemma okD:
  assumes "ok (deg, ready, out)"
  shows "distinct (out @ ready)" "set (out @ ready) \<subseteq> set N"
    "n \<in> set N \<Longrightarrow> map_of deg n = Some (int (pending (set out) n))"
    "n \<in> set N \<Longrightarrow> n \<in> set (out @ ready) \<longleftrightarrow> pending (set out) n = 0"
    "(s, t) \<in> set es \<Longrightarrow> t \<in> set out \<Longrightarrow> before out s t"
    "n \<in> set out \<Longrightarrow> (n, n) \<notin> (set es)\<^sup>+"
  using assms unfolding ok_def by auto

lemma roots_props: "distinct roots" "set roots = {n \<in> set N. map_of deg0 n = Some 0}"
proof -
  have d: "distinct (map fst deg0)" using nodes by (simp add: keys_def)
  then show "distinct roots" unfolding initially_ready_def by (rule distinct_map_filter)
  show "set roots = {n \<in> set N. map_of deg0 n = Some 0}"
    using nodes(1) map_of_eq_Some_iff [OF d] by (force simp: initially_ready_def keys_def)
qed

lemma ok_initial: "ok (deg0, roots, [])"
  unfolding ok_def using roots_props by (auto simp: degrees pending_def)

lemma ready_sources:
  assumes "ok (deg, ready, out)" "n \<in> set ready" "(s, n) \<in> set es"
  shows "s \<in> set out"
proof -
  have "n \<in> set N" using okD(2) [OF assms(1)] assms(2) by auto
  from okD(4) [OF assms(1) this] assms(2) have "pending (set out) n = 0" by simp
  then show ?thesis using assms(3) by (simp add: pending_0)
qed

lemma out_closed:
  assumes "ok (deg, ready, out)" "(q, p) \<in> (set es)\<^sup>*" "p \<in> set out"
  shows "q \<in> set out"
  using assms(2,3)
proof (induction rule: converse_rtrancl_induct)
  case (step y z)
  then show ?case using before_in [OF okD(5) [OF assms(1) step(1)]] by simp
qed

lemma no_loop_taken:
  assumes "ok (deg, ready, out)" "n \<in> set ready"
  shows "(n, n) \<notin> (set es)\<^sup>+"
proof
  assume "(n, n) \<in> (set es)\<^sup>+"
  then obtain p where p: "(n, p) \<in> (set es)\<^sup>*" "(p, n) \<in> set es" by (auto dest: tranclD2)
  then have "p \<in> set out" using ready_sources [OF assms] by blast
  then have "n \<in> set out" using out_closed [OF assms(1) p(1)] by simp
  then show False using okD(1) [OF assms(1)] assms(2) by auto
qed

lemma peel_keeps_ok:
  assumes "ok s" "peel ch s s'"
  shows "ok s'"
  using assms(2,1)
proof cases
  case (take_one n ready deg deg' new ready' out)
  note ok = assms(1) [unfolded take_one(1)]
  note d = okD [OF ok]
  have n: "n \<in> set N" "n \<notin> set out" using take_one(3) d(1,2) by auto
  have cs: "set (ch n) \<subseteq> set N" using children [OF n(1)] inside by auto
  have pend: "pending (set out) c = pending (set (out @ [n])) c + count_list (ch n) c" for c
    using pending_insert [OF n] by simp
  have "\<exists>d. map_of deg c = Some d \<and> int (count_list (ch n) c) \<le> d" if "c \<in> set (ch n)" for c
    using d(3) [of c] that cs pend [of c] by auto
  then have "\<forall>c \<in> set (ch n). \<exists>d. map_of deg c = Some d \<and> int (count_list (ch n) c) \<le> d" ..
  then obtain dg nw where r:
    "release_all (ch n) deg [] = (dg, [] @ nw)" "distinct nw"
    "set nw = {c \<in> set (ch n). map_of deg c = Some (int (count_list (ch n) c))}"
    "\<forall>c. map_of dg c = map_option (\<lambda>d. d - int (count_list (ch n) c)) (map_of deg c)"
    by (rule release_all_counts)
  then have eqs: "deg' = dg" "new = nw" using take_one(4) by auto
  let ?out = "set (out @ [n])"
  have deg: "map_of deg' c = Some (int (pending ?out c))" if "c \<in> set N" for c
    using r(4) d(3) [OF that] pend [of c] eqs by simp
  have new: "c \<in> set new \<longleftrightarrow> pending (set out) c \<noteq> 0 \<and> pending ?out c = 0" if "c \<in> set N" for c
  proof -
    have "c \<in> set (ch n) \<longleftrightarrow> count_list (ch n) c \<noteq> 0" by (simp add: count_list_0_iff)
    then show ?thesis unfolding eqs r(3) mem_Collect_eq d(3) [OF that] using pend [of c] by auto
  qed
  have newN: "set new \<subseteq> set N" using r(3) eqs cs by auto
  have mset: "mset (out @ [n] @ ready') = mset (out @ ready @ new)"
    using take_one(3,5) by simp
  have "c \<notin> set (out @ ready)" if "c \<in> set new" for c
    using that new [of c] newN d(4) [of c] by auto
  then have "distinct (out @ ready @ new)" using d(1) r(2) eqs by auto
  then have dist: "distinct ((out @ [n]) @ ready')"
    using mset_eq_imp_distinct_iff [OF mset] by simp
  have sets: "set ((out @ [n]) @ ready') = set (out @ ready) \<union> set new"
    using mset_eq_setD [OF mset] by (simp add: Un_assoc)
  have ord: "before (out @ [n]) a t" if "(a, t) \<in> set es" "t \<in> set (out @ [n])" for a t
  proof (cases "t = n")
    case True
    then have "a \<in> set out" using ready_sources [OF ok take_one(3)] that(1) by simp
    then show ?thesis using True by (simp add: before_last)
  next
    case False
    then show ?thesis using that d(5) by (auto intro: before_append)
  qed
  have "ok (deg', ready', out @ [n])"
    unfolding ok_def
  proof (clarsimp simp only: prod.case, intro conjI ballI)
    show "distinct ((out @ [n]) @ ready')" by (rule dist)
    show "set ((out @ [n]) @ ready') \<subseteq> set N" unfolding sets using d(2) newN by auto
    show "map_of deg' c = Some (int (pending ?out c))" if "c \<in> set N" for c by (rule deg [OF that])
    show "c \<in> set ((out @ [n]) @ ready') \<longleftrightarrow> pending ?out c = 0" if "c \<in> set N" for c
      unfolding sets using d(4) [OF that] new [OF that] pend [of c] by auto
    show "case e of (s, t) \<Rightarrow> t \<in> ?out \<longrightarrow> before (out @ [n]) s t" if "e \<in> set es" for e
      using ord that by auto
    show "(c, c) \<notin> (set es)\<^sup>+" if "c \<in> ?out" for c
      using that d(6) no_loop_taken [OF ok take_one(3)] by auto
  qed
  then show ?thesis using take_one(2) by simp
qed

lemma peels_keep_ok: "(peel ch)\<^sup>*\<^sup>* s s' \<Longrightarrow> ok s \<Longrightarrow> ok s'"
  by (induction rule: rtranclp_induct) (auto intro: peel_keeps_ok)

text \<open>Once nothing is ready, what is left is exactly what lies on or below a cycle.\<close>

lemma stuck_complement:
  assumes "ok (deg, [], out)" "n \<in> set N"
  shows "n \<in> set out \<longleftrightarrow> \<not> below_cycle (set es) n"
proof
  assume n: "n \<in> set out"
  have "c \<in> set out" if "(c, n) \<in> (set es)\<^sup>*" for c
    by (rule out_closed [OF assms(1) that n])
  then show "\<not> below_cycle (set es) n" using okD(6) [OF assms(1)] by (auto simp: below_cycle_def)
next
  assume n: "\<not> below_cycle (set es) n"
  have "\<exists>p \<in> set N - set out. (p, m) \<in> set es" if "m \<in> set N - set out" for m
    using that okD(4) [OF assms(1), of m] pending_0 [of "set out" m] inside by auto
  then show "n \<in> set out"
    using descent_reaches_cycle [of "set N - set out" "set es" n] n assms(2) by auto
qed

lemma peeled_order:
  assumes "(peel ch)\<^sup>*\<^sup>* (deg0, roots, []) (deg', [], out)"
  shows "distinct out" "set out = {n \<in> set N. \<not> below_cycle (set es) n}"
    "(s, t) \<in> set es \<Longrightarrow> t \<in> set out \<Longrightarrow> before out s t"
proof -
  have ok: "ok (deg', [], out)" using peels_keep_ok [OF assms ok_initial] .
  show "distinct out" using okD(1) [OF ok] by simp
  show "set out = {n \<in> set N. \<not> below_cycle (set es) n}"
    using okD(2) [OF ok] stuck_complement [OF ok] by auto
  show "(s, t) \<in> set es \<Longrightarrow> t \<in> set out \<Longrightarrow> before out s t" by (rule okD(5) [OF ok])
qed

end

section \<open>The sorter represents a counted graph\<close>

definition represents :: "sorter \<Rightarrow> node_id list \<Rightarrow> (node_id \<times> node_id) list \<Rightarrow> bool" where
  "represents ts N es \<longleftrightarrow>
     keys (npredecessors ts) = N \<and> distinct N \<and>
     (\<forall>(s, t) \<in> set es. s \<in> set N \<and> t \<in> set N) \<and>
     (\<forall>n \<in> set N. map_of (npredecessors ts) n = Some (int (length (filter (\<lambda>e. snd e = n) es)))) \<and>
     (\<forall>n. links (successors ts) n = map snd (filter (\<lambda>e. fst e = n) es))"

lemma represents_new: "represents new_sorter [] []"
  by (simp add: represents_def new_sorter_def)

definition add_name :: "'n \<Rightarrow> 'n list \<Rightarrow> 'n list" where
  "add_name n N = (if n \<in> set N then N else N @ [n])"

lemma set_add_name [simp]: "set (add_name n N) = insert n (set N)"
  by (auto simp: add_name_def)

lemma distinct_add_name [simp]: "distinct N \<Longrightarrow> distinct (add_name n N)"
  by (simp add: add_name_def)

lemma links_update_empty: "links d k = [] \<Longrightarrow> links (AList.update k [] d) n = links d n"
  by (auto simp: links_def dict_simps)

lemma represents_get:
  assumes "represents ts N es"
  shows "represents (get_nodeinfo n ts) (add_name n N) es"
proof (cases "n \<in> set N")
  case True
  then show ?thesis using assms by (simp add: represents_def get_nodeinfo_def add_name_def)
next
  case False
  have fresh: "filter (\<lambda>e. snd e = n) es = []" "filter (\<lambda>e. fst e = n) es = []"
    using assms False by (auto simp: represents_def filter_empty_conv)
  with assms False show ?thesis
    by (auto simp: represents_def get_nodeinfo_def add_name_def keys_update_new dict_simps
        links_update_empty split: prod.splits)
qed

lemma represents_add:
  assumes "represents ts N es"
  shows "represents (sorter_add_one t s ts) (add_name s (add_name t N)) (es @ [(s, t)])"
proof -
  define ts1 where "ts1 = get_nodeinfo t ts"
  define d where "d = int (length (filter (\<lambda>e. snd e = t) es))"
  define ts2 where "ts2 = ts1\<lparr>npredecessors := AList.update t (d + 1) (npredecessors ts1)\<rparr>"
  define ts3 where "ts3 = get_nodeinfo s ts2"
  let ?M = "add_name t N"
  have g: "represents ts1 ?M es" unfolding ts1_def by (rule represents_get [OF assms])
  then have t: "map_of (npredecessors ts1) t = Some d"
    by (simp add: represents_def d_def)
  have ts: "sorter_add_one t s ts = ts3\<lparr>successors := append_link s t (successors ts3)\<rparr>"
    using t by (simp add: sorter_add_one_def ts1_def ts2_def ts3_def Let_def)
  have k2: "keys (npredecessors ts2) = ?M"
    using g by (simp add: represents_def keys_update_old ts2_def)
  have k3: "keys (npredecessors ts3) = add_name s ?M"
    using k2 by (simp add: get_nodeinfo_def add_name_def keys_update_new ts3_def)
  have l: "filter (\<lambda>e. fst e = s) es = []" "filter (\<lambda>e. snd e = s) es = []" if "s \<notin> set ?M"
    using g that by (auto simp: represents_def filter_empty_conv)
  have l3: "links (successors ts3) n = links (successors ts1) n" for n
    using g l k2 by (simp add: get_nodeinfo_def links_update_empty represents_def ts2_def ts3_def)
  have v1: "map_of (npredecessors ts1) n = Some (int (length (filter (\<lambda>e. snd e = n) es)))"
    if "n \<in> set ?M" for n
    using g that by (simp only: represents_def)
  have v2: "map_of (npredecessors ts2) n =
      Some (int (length (filter (\<lambda>e. snd e = n) (es @ [(s, t)]))))"
    if "n \<in> set ?M" for n
    using v1 [OF that] by (auto simp: ts2_def dict_simps d_def)
  have v3: "map_of (npredecessors ts3) n =
      Some (int (length (filter (\<lambda>e. snd e = n) (es @ [(s, t)]))))"
    if "n \<in> set (add_name s ?M)" for n
    using v2 [of n] l that k2 by (auto simp: ts3_def get_nodeinfo_def dict_simps)
  show ?thesis
    unfolding ts using g k3 l3 v3 by (auto simp: represents_def)
qed

lemma represents_fold_get:
  "represents ts N es \<Longrightarrow> represents (fold get_nodeinfo ns ts) (fold add_name ns N) es"
  by (induction ns arbitrary: ts N) (auto intro: represents_get)

lemma represents_fold_add:
  "represents ts N es \<Longrightarrow>
    represents (fold (\<lambda>(s, t). sorter_add_one t s) ps ts)
      (fold (\<lambda>(s, t) N. add_name s (add_name t N)) ps N) (es @ ps)"
proof (induction ps arbitrary: ts N es)
  case (Cons p ps)
  then show ?case using represents_add [OF Cons.prems, of "snd p" "fst p"]
    by (cases p) (fastforce dest: Cons.IH)
qed simp

lemma set_fold_add_name: "set (fold add_name ns N) = set N \<union> set ns"
  by (induction ns arbitrary: N) auto

lemma fold_add_known:
  "\<forall>(s, t) \<in> set ps. s \<in> set N \<and> t \<in> set N \<Longrightarrow>
    fold (\<lambda>(s, t) N. add_name s (add_name t N)) ps N = N"
  by (induction ps) (auto simp: add_name_def)

lemma represents_counted:
  "represents ts N es \<Longrightarrow> counted_graph N es (links (successors ts)) (npredecessors ts)"
  by unfold_locales (auto simp: represents_def)

lemma targets_of: "t \<in> set (map snd (filter (\<lambda>e. fst e = s) es)) \<longleftrightarrow> (s, t) \<in> set es"
  by (auto intro: image_eqI [of t snd "(s, t)"])

lemma represents_links:
  assumes "represents ts N es"
  shows "link_rel (successors ts) = set es"
proof -
  have "links (successors ts) s = map snd (filter (\<lambda>e. fst e = s) es)" for s
    using assms by (simp only: represents_def)
  then show ?thesis by (auto simp only: link_rel_def targets_of)
qed

definition has_cycle :: "sorter \<Rightarrow> bool" where
  "has_cycle ts = list_ex (\<lambda>n. n \<in> set (upstream_node_ids n (successors ts))) (keys (npredecessors ts))"

lemma has_cycle_iff:
  assumes "represents ts N es"
  shows "has_cycle ts \<longleftrightarrow> \<not> acyclic (set es)"
proof -
  have "n \<in> set N" if "(n, n) \<in> (set es)\<^sup>+" for n
    using that assms by (auto simp: represents_def dest: tranclD)
  then show ?thesis
    using assms represents_links [OF assms]
    by (auto simp: has_cycle_def list_ex_iff set_upstream_node_ids acyclic_def represents_def)
qed

lemma acyclic_below: "acyclic R \<longleftrightarrow> (\<forall>n. \<not> below_cycle R n)"
  by (auto simp: acyclic_def below_cycle_def)

definition static_order :: "sorter \<Rightarrow> node_id list option" where
  "static_order ts =
     (if has_cycle ts then None
      else Some (batch_loop (links (successors ts)) (npredecessors ts)
        (initially_ready (npredecessors ts)) []))"

lemma static_order_represents:
  assumes "represents ts N es"
  shows "static_order ts = None \<longleftrightarrow> \<not> acyclic (set es)"
    "static_order ts = Some out \<Longrightarrow> distinct out \<and> set out = set N \<and>
      (\<forall>(s, t) \<in> set es. before out s t)"
proof -
  show "static_order ts = None \<longleftrightarrow> \<not> acyclic (set es)"
    by (simp add: static_order_def has_cycle_iff [OF assms])
  assume out: "static_order ts = Some out"
  then have acyclic: "acyclic (set es)"
    and eq: "out = fifo_loop (links (successors ts)) (npredecessors ts)
      (initially_ready (npredecessors ts)) []"
    by (auto simp: static_order_def has_cycle_iff [OF assms] batch_loop_fifo split: if_splits)
  obtain deg' where "(peel (links (successors ts)))\<^sup>*\<^sup>*
      (npredecessors ts, initially_ready (npredecessors ts), []) (deg', [], out)"
    unfolding eq using fifo_loop_peels by blast
  note order = counted_graph.peeled_order [OF represents_counted [OF assms] this]
  have "\<not> below_cycle (set es) n" for n using acyclic by (simp add: acyclic_below)
  then have set: "set out = set N" using order(2) by simp
  have "before out s t" if "(s, t) \<in> set es" for s t
    by (rule order(3) [OF that]) (use that assms set in \<open>auto simp: represents_def\<close>)
  then show "distinct out \<and> set out = set N \<and> (\<forall>(s, t) \<in> set es. before out s t)"
    using order(1) set by auto
qed

section \<open>Topological sorting\<close>

datatype topo_error =
    UnknownEdgeEndpointError "node_id list" "graph_edge list"
  | CycleError "node_id list"

fun partition_loop :: "node_id set \<Rightarrow> graph_edge list \<Rightarrow>
    graph_edge list \<times> graph_edge list \<times> node_id list \<Rightarrow>
    graph_edge list \<times> graph_edge list \<times> node_id list" where
  "partition_loop known [] acc = acc"
| "partition_loop known (e # es) (known_edges, dropped, unknown) =
     (let endpoints = filter (\<lambda>n. n \<notin> known) [edge_source e, edge_target e]
      in if endpoints \<noteq> [] then partition_loop known es (known_edges, dropped @ [e], unknown @ endpoints)
         else partition_loop known es (known_edges @ [e], dropped, unknown))"

definition partition_edges :: "node_id list \<Rightarrow> graph_edge list \<Rightarrow>
    graph_edge list \<times> graph_edge list \<times> node_id list" where
  "partition_edges node_ids edges =
     (let (known_edges, dropped, unknown) = partition_loop (set node_ids) edges ([], [], [])
      in (known_edges, dropped, sort (remdups unknown)))"

fun count_edges :: "graph_edge list \<Rightarrow> (node_id, int) odict \<times> (node_id, node_id list) odict \<Rightarrow>
    (node_id, int) odict \<times> (node_id, node_id list) odict" where
  "count_edges [] acc = acc"
| "count_edges (e # es) (in_degree, children) =
     (if \<not> has_key (edge_source e) in_degree \<or> \<not> has_key (edge_target e) in_degree
      then count_edges es (in_degree, children)
      else count_edges es
        (AList.update (edge_target e)
           ((case map_of in_degree (edge_target e) of Some d \<Rightarrow> d | None \<Rightarrow> 0) + 1) in_degree,
         append_link (edge_source e) (edge_target e) children))"

definition cycle_counts :: "node_id list \<Rightarrow> graph_edge list \<Rightarrow>
    (node_id, int) odict \<times> (node_id, node_id list) odict" where
  "cycle_counts node_ids edges =
     count_edges edges (fold (\<lambda>n. AList.update n 0) node_ids [], fold (\<lambda>n. AList.update n []) node_ids [])"

definition find_cycle_nodes :: "node_id list \<Rightarrow> graph_edge list \<Rightarrow> node_id list" where
  "find_cycle_nodes node_ids edges =
     (let (in_degree, children) = cycle_counts node_ids edges;
          peeled = fifo_loop (links children) in_degree (initially_ready in_degree) []
      in filter (\<lambda>n. n \<notin> set peeled) node_ids)"

definition topo_sort_known_ids :: "node_id list \<Rightarrow> graph_edge list \<Rightarrow>
    topo_error + node_id list" where
  "topo_sort_known_ids node_ids edges =
     (let registered = fold get_nodeinfo node_ids new_sorter;
          ts = fold (\<lambda>e. sorter_add_one (edge_target e) (edge_source e)) edges registered
      in case static_order ts of
           Some order \<Rightarrow> Inr order
         | None \<Rightarrow> Inl (CycleError (find_cycle_nodes node_ids edges)))"

definition topo_sort_ids :: "node_id list \<Rightarrow> graph_edge list \<Rightarrow> topo_error + node_id list" where
  "topo_sort_ids node_ids edges =
     (let (known_edges, dropped, unknown) = partition_edges node_ids edges
      in if dropped \<noteq> [] then Inl (UnknownEdgeEndpointError unknown dropped)
         else topo_sort_known_ids node_ids known_edges)"

text \<open>
  \<open>canonical_topological_order\<close>; None is the \<open>CycleError\<close>, whose payload (the cycle the
  library happened to meet) is not modelled.
\<close>

definition canonical_sorter :: "node_id list \<Rightarrow> (node_id, node_id list) odict \<Rightarrow> sorter" where
  "canonical_sorter node_ids children_of =
     fold (\<lambda>parent_id ts.
         fold (\<lambda>child_id. sorter_add_one child_id parent_id)
           (sort (remdups (filter (\<lambda>c. c \<in> set node_ids) (links children_of parent_id))))
           (get_nodeinfo parent_id ts))
       (sort (remdups node_ids)) new_sorter"

definition canonical_topological_order :: "node_id list \<Rightarrow> (node_id, node_id list) odict \<Rightarrow>
    node_id list option" where
  "canonical_topological_order node_ids children_of =
     (let ts = canonical_sorter node_ids children_of
      in if has_cycle ts then None
         else Some (heap_loop (links (successors ts)) (npredecessors ts)
                (initially_ready (npredecessors ts)) []))"

section \<open>Facts of the two counted graphs\<close>

definition known_edge :: "node_id list \<Rightarrow> graph_edge \<Rightarrow> bool" where
  "known_edge ns e \<longleftrightarrow> edge_source e \<in> set ns \<and> edge_target e \<in> set ns"

lemma partition_loop_result:
  "partition_loop (set ns) es (k, d, u) =
     (k @ filter (known_edge ns) es, d @ filter (\<lambda>e. \<not> known_edge ns e) es,
      u @ concat (map (\<lambda>e. filter (\<lambda>n. n \<notin> set ns) [edge_source e, edge_target e]) es))"
  by (induction es arbitrary: k d u) (auto simp: known_edge_def Let_def)

lemma count_edges_represents:
  assumes "represents \<lparr>npredecessors = deg, successors = ch\<rparr> N es" "set N = set ns"
    "count_edges edges (deg, ch) = (deg', ch')"
  shows "represents \<lparr>npredecessors = deg', successors = ch'\<rparr> N
    (es @ map edge_pair (filter (known_edge ns) edges))"
  using assms
proof (induction edges "(deg, ch)" arbitrary: deg ch es rule: count_edges.induct)
  case (2 e edges deg ch)
  let ?s = "edge_source e" and ?t = "edge_target e"
  have keys: "set (keys deg) = set ns" using 2 by (simp add: represents_def)
  show ?case
  proof (cases "known_edge ns e")
    case True
    let ?d = "case map_of deg ?t of Some d \<Rightarrow> d | None \<Rightarrow> 0"
    have "sorter_add_one ?t ?s \<lparr>npredecessors = deg, successors = ch\<rparr> =
        \<lparr>npredecessors = AList.update ?t (?d + 1) deg, successors = append_link ?s ?t ch\<rparr>"
      using True keys by (auto simp: sorter_add_one_def get_nodeinfo_def known_edge_def dict_simps Let_def)
    moreover have "add_name ?s (add_name ?t N) = N"
      using True 2(4) by (auto simp: add_name_def known_edge_def)
    ultimately have "represents \<lparr>npredecessors = AList.update ?t (?d + 1) deg,
        successors = append_link ?s ?t ch\<rparr> N (es @ [(?s, ?t)])"
      using represents_add [OF "2.prems"(1), of ?t ?s] by simp
    then show ?thesis
      using "2.hyps"(2) [of "es @ [(?s, ?t)]"] 2(4,5) True keys
      by (simp add: has_key_iff known_edge_def)
  next
    case False
    then show ?thesis using 2 keys by (auto simp: has_key_iff known_edge_def)
  qed
qed simp

lemma fold_get_dicts:
  assumes "keys deg = keys ch"
  shows "fold get_nodeinfo ns \<lparr>npredecessors = deg, successors = ch\<rparr> =
    \<lparr>npredecessors = fold (\<lambda>n d. if n \<in> set (keys d) then d else AList.update n 0 d) ns deg,
     successors = fold (\<lambda>n d. if n \<in> set (keys d) then d else AList.update n [] d) ns ch\<rparr>"
  using assms by (induction ns arbitrary: deg ch) (simp_all add: get_nodeinfo_def keys_update_new)

lemma fold_constant_dict:
  assumes "\<forall>k \<in> set (keys d). map_of d k = Some v"
  shows "fold (\<lambda>n. AList.update n v) ns d =
    fold (\<lambda>n d. if n \<in> set (keys d) then d else AList.update n v d) ns d"
  using assms
proof (induction ns arbitrary: d)
  case (Cons n ns)
  have "n \<in> set (keys d) \<Longrightarrow> AList.update n v d = d"
    using Cons.prems by (auto intro: update_triv)
  then show ?case using Cons by (auto simp: dict_simps)
qed simp

definition known_pairs :: "node_id list \<Rightarrow> graph_edge list \<Rightarrow> (node_id \<times> node_id) list" where
  "known_pairs ns edges = map edge_pair (filter (known_edge ns) edges)"

lemma cycle_counts_represents:
  "represents \<lparr>npredecessors = fst (cycle_counts ns edges), successors = snd (cycle_counts ns edges)\<rparr>
     (fold add_name ns []) (known_pairs ns edges)"
proof -
  let ?d = "fold (\<lambda>n. AList.update n 0) ns []" and ?c = "fold (\<lambda>n. AList.update n []) ns []"
  have "represents (fold get_nodeinfo ns new_sorter) (fold add_name ns []) []"
    by (rule represents_fold_get [OF represents_new])
  moreover have "fold get_nodeinfo ns new_sorter = \<lparr>npredecessors = ?d, successors = ?c\<rparr>"
    by (simp add: new_sorter_def fold_get_dicts fold_constant_dict)
  ultimately have r: "represents \<lparr>npredecessors = ?d, successors = ?c\<rparr> (fold add_name ns []) []"
    by simp
  show ?thesis
    using count_edges_represents [OF r, of ns edges] set_fold_add_name [of ns "[]"]
    by (simp add: cycle_counts_def known_pairs_def)
qed

interpretation counts: counted_graph "fold add_name ns []" "known_pairs ns edges"
    "links (snd (cycle_counts ns edges))" "fst (cycle_counts ns edges)" for ns edges
  using represents_counted [OF cycle_counts_represents [of ns edges]] by simp

lemma find_cycle_nodes_eq:
  "find_cycle_nodes ns edges = filter (below_cycle (set (known_pairs ns edges))) ns"
proof -
  let ?d = "fst (cycle_counts ns edges)" and ?c = "snd (cycle_counts ns edges)"
  let ?out = "fifo_loop (links ?c) ?d (initially_ready ?d) []"
  obtain deg' where "(peel (links ?c))\<^sup>*\<^sup>* (?d, initially_ready ?d, []) (deg', [], ?out)"
    using fifo_loop_peels by blast
  then have "set ?out = {n \<in> set ns. \<not> below_cycle (set (known_pairs ns edges)) n}"
    using counts.peeled_order(2) set_fold_add_name [of ns "[]"] by simp
  moreover have "find_cycle_nodes ns edges = filter (\<lambda>n. n \<notin> set ?out) ns"
    by (simp only: find_cycle_nodes_def Let_def split_def)
  ultimately show ?thesis by (simp cong: filter_cong)
qed

lemma topo_sorter_represents:
  assumes "\<forall>e \<in> set edges. known_edge ns e"
  shows "represents (fold (\<lambda>e. sorter_add_one (edge_target e) (edge_source e)) edges
    (fold get_nodeinfo ns new_sorter)) (fold add_name ns []) (map edge_pair edges)"
proof -
  let ?N = "fold add_name ns []"
  have "fold (\<lambda>e. sorter_add_one (edge_target e) (edge_source e)) edges ts =
      fold (\<lambda>(s, t). sorter_add_one t s) (map edge_pair edges) ts" for ts
    by (simp add: fold_map comp_def)
  moreover have "fold (\<lambda>(s, t) N. add_name s (add_name t N)) (map edge_pair edges) ?N = ?N"
    using assms set_fold_add_name [of ns "[]"]
    by (intro fold_add_known) (auto simp: known_edge_def)
  ultimately show ?thesis
    using represents_fold_add [OF represents_fold_get [OF represents_new], of "map edge_pair edges" ns]
    by simp
qed

definition unknown_endpoints :: "node_id list \<Rightarrow> graph_edge list \<Rightarrow> node_id set" where
  "unknown_endpoints ns edges = (edge_source ` set edges \<union> edge_target ` set edges) - set ns"

lemma partition_edges_result:
  "partition_edges ns edges = (filter (known_edge ns) edges, filter (\<lambda>e. \<not> known_edge ns e) edges,
     sorted_list_of_set (unknown_endpoints ns edges))"
proof -
  have "set (concat (map (\<lambda>e. filter (\<lambda>n. n \<notin> set ns) [edge_source e, edge_target e]) edges)) =
      unknown_endpoints ns edges"
    by (auto simp: unknown_endpoints_def split: if_splits)
  then show ?thesis
    by (simp add: partition_edges_def partition_loop_result sorted_list_of_set_sort_remdups [symmetric]
        del: set_concat)
qed

lemma all_known_iff: "(\<forall>e \<in> set edges. known_edge ns e) \<longleftrightarrow> unknown_endpoints ns edges = {}"
  by (auto simp: known_edge_def unknown_endpoints_def)

lemma known_pairs_all: "\<forall>e \<in> set edges. known_edge ns e \<Longrightarrow> set (known_pairs ns edges) = edge_rel edges"
  by (auto simp: known_pairs_def edge_rel_def)

lemma topo_sort_known:
  assumes "\<forall>e \<in> set edges. known_edge ns e"
  shows "case topo_sort_known_ids ns edges of
      Inr order \<Rightarrow> acyclic (edge_rel edges) \<and> distinct order \<and> set order = set ns \<and>
        (\<forall>e \<in> set edges. before order (edge_source e) (edge_target e))
    | Inl err \<Rightarrow> \<not> acyclic (edge_rel edges) \<and>
        err = CycleError (filter (below_cycle (edge_rel edges)) ns)"
proof -
  note r = static_order_represents [OF topo_sorter_represents [OF assms]]
  have N: "set (fold add_name ns []) = set ns" using set_fold_add_name [of ns "[]"] by simp
  have E: "set (map edge_pair edges) = edge_rel edges" by (simp add: edge_rel_def)
  show ?thesis
    using r known_pairs_all [OF assms] N
    unfolding E
    by (auto simp: topo_sort_known_ids_def Let_def find_cycle_nodes_eq edge_rel_def split: option.splits)
qed

section \<open>Properties\<close>

text \<open>
  C3: \<open>topo_sort_ids\<close> is total and says exactly what it finds. It returns an order only for an
  acyclic graph whose edges stay inside the given nodes, and then the order lists every node
  once and puts the source of every edge before its target. An edge with an unknown endpoint is
  reported first, with the unknown names sorted and without repetition and the dropped edges in
  their order. A cycle is reported with exactly the nodes on or downstream of a cycle, in the
  order the nodes were given.
\<close>

theorem topo_sort_ids_spec:
  "case topo_sort_ids ns edges of
     Inr order \<Rightarrow> unknown_endpoints ns edges = {} \<and> acyclic (edge_rel edges) \<and>
       distinct order \<and> set order = set ns \<and>
       (\<forall>i < length edges. before order (edge_source (edges ! i)) (edge_target (edges ! i)))
   | Inl (UnknownEdgeEndpointError names dropped) \<Rightarrow>
       names = sorted_list_of_set (unknown_endpoints ns edges) \<and> names \<noteq> [] \<and>
       dropped = filter (\<lambda>e. {edge_source e, edge_target e} \<inter> unknown_endpoints ns edges \<noteq> {}) edges
   | Inl (CycleError names) \<Rightarrow> unknown_endpoints ns edges = {} \<and> \<not> acyclic (edge_rel edges) \<and>
       names = filter (below_cycle (edge_rel edges)) ns"
proof (cases "\<forall>e \<in> set edges. known_edge ns e")
  case True
  then have "topo_sort_ids ns edges = topo_sort_known_ids ns edges"
    by (simp add: topo_sort_ids_def partition_edges_result filter_empty_conv)
  then show ?thesis
    using topo_sort_known [OF True] True all_known_iff
    by (auto split: sum.splits topo_error.splits)
next
  case False
  then have ne: "unknown_endpoints ns edges \<noteq> {}" using all_known_iff by blast
  have "finite (unknown_endpoints ns edges)" by (simp add: unknown_endpoints_def)
  moreover have "filter (\<lambda>e. \<not> known_edge ns e) edges =
      filter (\<lambda>e. {edge_source e, edge_target e} \<inter> unknown_endpoints ns edges \<noteq> {}) edges"
    by (rule filter_cong) (auto simp: known_edge_def unknown_endpoints_def)
  ultimately show ?thesis
    using False ne
    by (auto simp: topo_sort_ids_def partition_edges_result filter_empty_conv)
qed

definition plain_edge :: "string \<Rightarrow> node_id \<Rightarrow> node_id \<Rightarrow> graph_edge" where
  "plain_edge i s t = \<lparr>edge_id = i, edge_source = s, edge_target = t,
     edge_source_handle = None, edge_target_handle = None\<rparr>"

lemma sample_sort:
  "topo_sort_ids [''b'', ''a''] [plain_edge ''1'' ''a'' ''b''] = Inr [''a'', ''b'']"
  by code_simp

theorem topo_sort_ids_spec_witness:
  "topo_sort_ids [''b'', ''a''] [plain_edge ''1'' ''a'' ''b''] = Inr [''a'', ''b''] \<and>
   before [''a'', ''b''] ''a'' ''b''"
  using topo_sort_ids_spec [of "[''b'', ''a'']" "[plain_edge ''1'' ''a'' ''b'']"]
  unfolding sample_sort by (simp add: plain_edge_def)

section \<open>The canonical order\<close>

definition canonical_pairs :: "node_id list \<Rightarrow> (node_id, node_id list) odict \<Rightarrow>
    (node_id \<times> node_id) set" where
  "canonical_pairs ns children_of = {(p, c). p \<in> set ns \<and> c \<in> set ns \<and> c \<in> set (links children_of p)}"

lemma represents_children:
  assumes "represents ts N es"
  shows "\<exists>N' es'. represents (fold (\<lambda>c. sorter_add_one c p) cs ts) N' es' \<and>
    set N \<subseteq> set N' \<and> set N' \<subseteq> insert p (set N \<union> set cs) \<and> set es' = set es \<union> Pair p ` set cs"
  using assms
proof (induction cs arbitrary: ts N es)
  case (Cons c cs)
  obtain N' es' where "represents (fold (\<lambda>c. sorter_add_one c p) cs (sorter_add_one c p ts)) N' es'"
    "set (add_name p (add_name c N)) \<subseteq> set N'" "set N' \<subseteq> insert p (set (add_name p (add_name c N)) \<union> set cs)"
    "set es' = set (es @ [(p, c)]) \<union> Pair p ` set cs"
    using Cons.IH [OF represents_add [OF Cons.prems, of c p]] by blast
  then show ?case by (intro exI [of _ N'] exI [of _ es']) auto
qed auto

lemma represents_canonical_fold:
  assumes "represents ts N es" "set N \<subseteq> set ns" "set ps \<subseteq> set ns"
  shows "\<exists>N' es'. represents (fold (\<lambda>p ts. fold (\<lambda>c. sorter_add_one c p)
      (sort (remdups (filter (\<lambda>c. c \<in> set ns) (links ch p)))) (get_nodeinfo p ts)) ps ts) N' es' \<and>
    set N \<union> set ps \<subseteq> set N' \<and> set N' \<subseteq> set ns \<and>
    set es' = set es \<union> {(p, c) \<in> canonical_pairs ns ch. p \<in> set ps}"
  using assms
proof (induction ps arbitrary: ts N es)
  case (Cons p ps)
  let ?cs = "sort (remdups (filter (\<lambda>c. c \<in> set ns) (links ch p)))"
  obtain N1 es1 where 1: "represents (fold (\<lambda>c. sorter_add_one c p) ?cs (get_nodeinfo p ts)) N1 es1"
    "set (add_name p N) \<subseteq> set N1" "set N1 \<subseteq> insert p (set (add_name p N) \<union> set ?cs)"
    "set es1 = set es \<union> Pair p ` set ?cs"
    using represents_children [OF represents_get [OF Cons.prems(1)], of p ?cs p] by blast
  have "set N1 \<subseteq> set ns" using 1(3) Cons.prems(2,3) by auto
  then obtain N' es' where 2: "represents (fold (\<lambda>p ts. fold (\<lambda>c. sorter_add_one c p)
      (sort (remdups (filter (\<lambda>c. c \<in> set ns) (links ch p)))) (get_nodeinfo p ts)) ps
        (fold (\<lambda>c. sorter_add_one c p) ?cs (get_nodeinfo p ts))) N' es'"
    "set N1 \<union> set ps \<subseteq> set N'" "set N' \<subseteq> set ns"
    "set es' = set es1 \<union> {(p, c) \<in> canonical_pairs ns ch. p \<in> set ps}"
    using Cons.IH [OF 1(1)] Cons.prems(3) by auto
  show ?case
    using 1 2 Cons.prems(3)
    by (intro exI [of _ N'] exI [of _ es']) (auto simp: canonical_pairs_def)
qed auto

lemma canonical_represents:
  obtains N es where "represents (canonical_sorter ns ch) N es" "set N = set ns"
    "set es = canonical_pairs ns ch"
proof -
  obtain N es where "represents (canonical_sorter ns ch) N es" "set ns \<subseteq> set N" "set N \<subseteq> set ns"
    "set es = {(p, c) \<in> canonical_pairs ns ch. p \<in> set ns}"
    using represents_canonical_fold [OF represents_new, of ns "sort (remdups ns)" ch]
    by (auto simp: canonical_sorter_def)
  then show thesis by (intro that [of N es]) (auto simp: canonical_pairs_def)
qed

text \<open>The nodes that may come next once \<open>taken\<close> has been handed out.\<close>

definition next_ready :: "'n set \<Rightarrow> ('n \<times> 'n) set \<Rightarrow> 'n set \<Rightarrow> 'n set" where
  "next_ready V R taken = {n \<in> V - taken. \<forall>s. (s, n) \<in> R \<longrightarrow> s \<in> taken}"

definition least_first :: "('n::linorder) set \<Rightarrow> ('n \<times> 'n) set \<Rightarrow> 'n list \<Rightarrow> bool" where
  "least_first V R out \<longleftrightarrow> (\<forall>k < length out. out ! k = Min (next_ready V R (set (take k out))))"

lemma least_first_snoc:
  "least_first V R out \<Longrightarrow> n = Min (next_ready V R (set out)) \<Longrightarrow> least_first V R (out @ [n])"
  by (auto simp: least_first_def nth_append less_Suc_eq)

context counted_graph
begin

lemma ready_next:
  assumes "ok (deg, ready, out)"
  shows "set ready = next_ready (set N) (set es) (set out)"
proof -
  have "n \<in> set ready \<longleftrightarrow> n \<in> set N \<and> n \<notin> set out \<and> pending (set out) n = 0" for n
    using okD(1,2) [OF assms] okD(4) [OF assms, of n] by auto
  then show ?thesis by (auto simp: next_ready_def pending_0)
qed

end

lemma heap_loop_least:
  assumes c: "counted_graph N es ch deg0"
    and ok: "counted_graph.ok N es (deg, ready, out)" and least: "least_first (set N) (set es) out"
  shows "least_first (set N) (set es) (heap_loop ch deg ready out)"
  using c ok least
proof (induction ch deg ready out rule: heap_loop.induct)
  case (1 ch deg out)
  then show ?case by simp
next
  case (2 ch deg v va out)
  let ?n = "Min (set (v # va))"
  obtain d1 n1 where r: "release_all (ch ?n) deg [] = (d1, n1)" by fastforce
  note step = heap_step [where v = v and va = va and ch = ch and out = out, OF refl r]
  have "set (v # va) = next_ready (set N) (set es) (set out)"
    by (rule counted_graph.ready_next [OF "2.prems"(1) "2.prems"(2)])
  then have least: "least_first (set N) (set es) (out @ [?n])"
    using least_first_snoc [OF "2.prems"(3)] by simp
  note ok = counted_graph.peel_keeps_ok [OF "2.prems"(1,2) step(1)]
  show ?case
    unfolding step(2)
    by (rule "2.IH" [of ?n "(d1, n1)" d1 n1]) (rule refl r [symmetric] "2.prems"(1) ok least)+
qed

lemma initial_next_ready: "least_first V R []"
  by (simp add: least_first_def)

text \<open>
  C4: \<open>canonical_topological_order\<close> fails exactly when the children map, cut down to the given
  nodes, has a cycle. Otherwise its order lists every node once, respects every edge, and at
  every position takes the smallest of the nodes that are ready there. As those two conditions
  determine the order, it does not depend on the order the nodes arrive in.
\<close>

theorem canonical_order_spec:
  "case canonical_topological_order ns children_of of
     None \<Rightarrow> \<not> acyclic (canonical_pairs ns children_of)
   | Some order \<Rightarrow> acyclic (canonical_pairs ns children_of) \<and>
       distinct order \<and> set order = set ns \<and>
       (\<forall>p c. (p, c) \<in> canonical_pairs ns children_of \<longrightarrow> before order p c) \<and>
       least_first (set ns) (canonical_pairs ns children_of) order"
proof -
  let ?ts = "canonical_sorter ns children_of"
  let ?deg = "npredecessors ?ts" and ?ch = "links (successors ?ts)"
  let ?out = "heap_loop ?ch ?deg (initially_ready ?deg) []"
  obtain N es where rep: "represents ?ts N es" and N: "set N = set ns"
    and es: "set es = canonical_pairs ns children_of" by (rule canonical_represents)
  note c = represents_counted [OF rep]
  obtain deg' where "(peel ?ch)\<^sup>*\<^sup>* (?deg, initially_ready ?deg, []) (deg', [], ?out)"
    using heap_loop_peels by blast
  note order = counted_graph.peeled_order [OF c this]
  have least: "least_first (set ns) (canonical_pairs ns children_of) ?out"
    using heap_loop_least [OF c counted_graph.ok_initial [OF c] initial_next_ready] N es by simp
  show ?thesis
  proof (cases "acyclic (canonical_pairs ns children_of)")
    case True
    have res: "canonical_topological_order ns children_of = Some ?out"
      using has_cycle_iff [OF rep] es True by (simp add: canonical_topological_order_def Let_def)
    have "\<not> below_cycle (canonical_pairs ns children_of) n" for n
      using True by (simp add: acyclic_below)
    then have "set ?out = set ns" using order(2) N es by auto
    moreover have "before ?out p c" if "(p, c) \<in> canonical_pairs ns children_of" for p c
      using order(3) that es calculation by (auto simp: canonical_pairs_def)
    ultimately show ?thesis unfolding res using order(1) least True by simp
  next
    case False
    then show ?thesis
      using has_cycle_iff [OF rep] es by (simp add: canonical_topological_order_def Let_def)
  qed
qed

theorem canonical_order_spec_witness:
  "canonical_topological_order [''c'', ''b'', ''a''] [(''b'', [''a'', ''x''])] = Some [''b'', ''a'', ''c''] \<and>
   before [''b'', ''a'', ''c''] ''b'' ''a''"
proof -
  have eq: "canonical_topological_order [''c'', ''b'', ''a''] [(''b'', [''a'', ''x''])] =
      Some [''b'', ''a'', ''c'']" by code_simp
  then show ?thesis
    using canonical_order_spec [of "[''c'', ''b'', ''a'']" "[(''b'', [''a'', ''x''])]"]
    by (simp add: canonical_pairs_def links_def)
qed

text \<open>
  C5: The depth-first walk over parents terminates on every graph, cyclic ones included, and
  returns exactly the nodes from which the start is reachable over one or more edges, each once.
\<close>

theorem upstream_node_ids_reachability:
  "distinct (upstream_node_ids n (build_parents_of edges None)) \<and>
   set (upstream_node_ids n (build_parents_of edges None)) = {p. (p, n) \<in> (edge_rel edges)\<^sup>+}"
  by (simp add: distinct_upstream_node_ids set_upstream_parents)

text \<open>
  In a graph whose edges join nodes of it, \<open>upstream_subgraph\<close> keeps the chosen node and everything
  upstream of it, and no kept node loses an incoming edge: the kept edges are exactly the edges
  into kept nodes.
\<close>

theorem upstream_subgraph_closed:
  assumes "upstream_subgraph g n = Inr g'"
    and "set (map edge_source (graph_edges g) @ map edge_target (graph_edges g))
      \<subseteq> set (keys (graph_nodes g))"
  shows "n \<in> set (keys (graph_nodes g')) \<and>
    set (keys (graph_nodes g')) =
      {m \<in> set (keys (graph_nodes g)). (m, n) \<in> (edge_rel (graph_edges g))\<^sup>*} \<and>
    graph_edges g' = filter (\<lambda>e. edge_target e \<in> set (keys (graph_nodes g'))) (graph_edges g)"
proof -
  let ?R = "edge_rel (graph_edges g)"
  have inc: "{p. (p, n) \<in> ?R\<^sup>+} \<union> {n} = {p. (p, n) \<in> ?R\<^sup>*}"
    by (auto simp: rtrancl_eq_or_trancl)
  have n: "n \<in> set (keys (graph_nodes g))"
    and g': "graph_nodes g' = filter (\<lambda>m. (fst m, n) \<in> ?R\<^sup>*) (graph_nodes g)"
      "graph_edges g' = filter (\<lambda>e. (edge_source e, n) \<in> ?R\<^sup>* \<and> (edge_target e, n) \<in> ?R\<^sup>*) (graph_edges g)"
    using assms(1) inc
    by (auto simp: upstream_subgraph_def set_upstream_parents Let_def split: if_splits)
  have nodes: "set (keys (graph_nodes g')) = {m \<in> set (keys (graph_nodes g)). (m, n) \<in> ?R\<^sup>*}"
    unfolding g' by (auto simp: keys_def)
  have "edge_source e \<in> set (keys (graph_nodes g)) \<and> (edge_source e, edge_target e) \<in> ?R"
    if "e \<in> set (graph_edges g)" for e
    using assms(2) that by (auto simp: edge_rel_def)
  moreover have "edge_target e \<in> set (keys (graph_nodes g))" if "e \<in> set (graph_edges g)" for e
    using assms(2) that by auto
  ultimately have "graph_edges g' = filter (\<lambda>e. edge_target e \<in> set (keys (graph_nodes g'))) (graph_edges g)"
    unfolding g'(2) nodes by (intro filter_cong) (auto intro: converse_rtrancl_into_rtrancl)
  then show ?thesis using n nodes by simp
qed

definition sample_graph :: "(unit, unit) pipeline_graph" where
  "sample_graph = \<lparr>graph_nodes = [(''a'', ()), (''b'', ()), (''c'', ())],
     graph_edges = [plain_edge ''1'' ''a'' ''b'', plain_edge ''2'' ''b'' ''c''], graph_meta = ()\<rparr>"

definition sample_subgraph :: "(unit, unit) pipeline_graph" where
  "sample_subgraph = \<lparr>graph_nodes = [(''a'', ()), (''b'', ())],
     graph_edges = [plain_edge ''1'' ''a'' ''b''], graph_meta = ()\<rparr>"

theorem upstream_subgraph_closed_witness:
  "upstream_subgraph sample_graph ''b'' = Inr sample_subgraph \<and>
   graph_edges sample_subgraph =
     filter (\<lambda>e. edge_target e \<in> set (keys (graph_nodes sample_subgraph))) (graph_edges sample_graph)"
proof -
  have eq: "upstream_subgraph sample_graph ''b'' = Inr sample_subgraph" by code_simp
  moreover have "set (map edge_source (graph_edges sample_graph) @ map edge_target (graph_edges sample_graph))
      \<subseteq> set (keys (graph_nodes sample_graph))"
    by code_simp
  ultimately show ?thesis using upstream_subgraph_closed [OF eq] by blast
qed

end
