(* ===== verification/Node_Specs.thy ===== *)
theory Node_Specs
  imports Prelude
begin

text \<open>
  The node specification: \<^verbatim>\<open>src/haute/_node_type.py\<close> and \<^verbatim>\<open>src/haute/_node_specs.py\<close>.
  One record per node type with every fact the code holds about it, the import-time validator
  \<open>_validate_node_specs\<close>, the lookups and the sets and name tables derived from the
  entries. The validator is characterised for any table; what the derived tables rely on is
  then read off the fact that it accepts the one the code declares. A problem is a constructor
  instead of its message text.
\<close>

section \<open>Node types and their facts\<close>

datatype node_type =
    API_INPUT
  | WORKBENCH_INPUT
  | WORKBENCH_OUTPUT
  | DATA_INPUT
  | DATA_OUTPUT
  | POLARS
  | EDGE_JOIN
  | MODEL_SCORE
  | BANDING
  | RATING_STEP
  | OUTPUT
  | EXPLORE
  | EXTERNAL_FILE
  | LIVE_SWITCH
  | MODELLING
  | OPTIMISER
  | SCENARIO_EXPANDER
  | OPTIMISER_APPLY
  | CONSTANT
  | SUBMODEL
  | SUBMODEL_PORT

fun node_type_value :: "node_type \<Rightarrow> string" where
  "node_type_value API_INPUT = ''apiInput''"
| "node_type_value WORKBENCH_INPUT = ''workbenchInput''"
| "node_type_value WORKBENCH_OUTPUT = ''workbenchOutput''"
| "node_type_value DATA_INPUT = ''dataInput''"
| "node_type_value DATA_OUTPUT = ''dataOutput''"
| "node_type_value POLARS = ''polars''"
| "node_type_value EDGE_JOIN = ''edgeJoin''"
| "node_type_value MODEL_SCORE = ''modelScore''"
| "node_type_value BANDING = ''banding''"
| "node_type_value RATING_STEP = ''ratingStep''"
| "node_type_value OUTPUT = ''output''"
| "node_type_value EXPLORE = ''explore''"
| "node_type_value EXTERNAL_FILE = ''externalFile''"
| "node_type_value LIVE_SWITCH = ''liveSwitch''"
| "node_type_value MODELLING = ''modelling''"
| "node_type_value OPTIMISER = ''optimiser''"
| "node_type_value SCENARIO_EXPANDER = ''scenarioExpander''"
| "node_type_value OPTIMISER_APPLY = ''optimiserApply''"
| "node_type_value CONSTANT = ''constant''"
| "node_type_value SUBMODEL = ''submodel''"
| "node_type_value SUBMODEL_PORT = ''submodelPort''"

definition all_node_types :: "node_type list" where
  "all_node_types = [API_INPUT, WORKBENCH_INPUT, WORKBENCH_OUTPUT, DATA_INPUT, DATA_OUTPUT,
     POLARS, EDGE_JOIN, MODEL_SCORE, BANDING, RATING_STEP,
     OUTPUT, EXPLORE, EXTERNAL_FILE, LIVE_SWITCH, MODELLING,
     OPTIMISER, SCENARIO_EXPANDER, OPTIMISER_APPLY, CONSTANT, SUBMODEL,
     SUBMODEL_PORT]"

datatype sidecar_policy = Sidecar_required | Sidecar_decorator | Sidecar_none

datatype input_cardinality =
  No_inputs | Exactly_one | Exactly_two | Zero_or_more | One_or_more | Structural_inputs

datatype recompute_cost = Cheap | Costly | Code_cost | Source_cost

datatype code_surface = Code_transform | Code_frame_hook | Code_object_hook | Code_none

datatype pass_through = Pass_none | Pass_first | Pass_selected

datatype singleton_group = Group_request_input | Group_response

datatype structural_role = Role_occurrence | Role_port

datatype step_start = Start_input | Start_frame

datatype step_inputs = Inputs_edges | Inputs_none

record stepped_surface =
  surface_start :: step_start
  surface_inputs :: step_inputs

record node_spec =
  spec_node_type :: node_type
  spec_display_name :: string
  spec_decorator :: "string option"
  spec_sidecar :: sidecar_policy
  spec_config_folder :: "string option"
  spec_inputs :: input_cardinality
  spec_recompute_cost :: recompute_cost
  spec_request_input :: bool
  spec_response :: bool
  spec_source :: bool
  spec_sink_only :: bool
  spec_structural :: bool
  spec_workbench :: bool
  spec_input_count_enforced :: bool
  spec_input_roles :: "string list"
  spec_input_selectors :: "string list"
  spec_pass_through_selector :: "string option"
  spec_scenario_router :: bool
  spec_runs_unconnected :: bool
  spec_singleton_group :: "singleton_group option"
  spec_singleton_name :: "string option"
  spec_code :: code_surface
  spec_stepped :: "stepped_surface option"
  spec_behavioural :: bool
  spec_slice_transparent :: bool
  spec_pass_through :: pass_through
  spec_standalone_passthrough :: bool
  spec_structural_role :: "structural_role option"
  spec_batch_scored :: bool

definition spec_base :: "node_type \<Rightarrow> string \<Rightarrow> string option \<Rightarrow> sidecar_policy \<Rightarrow> string option \<Rightarrow>
    input_cardinality \<Rightarrow> recompute_cost \<Rightarrow> node_spec" where
  "spec_base ty name dec side folder ins cost =
    \<lparr>spec_node_type = ty,
      spec_display_name = name,
      spec_decorator = dec,
      spec_sidecar = side,
      spec_config_folder = folder,
      spec_inputs = ins,
      spec_recompute_cost = cost,
      spec_request_input = False,
      spec_response = False,
      spec_source = False,
      spec_sink_only = False,
      spec_structural = False,
      spec_workbench = False,
      spec_input_count_enforced = False,
      spec_input_roles = [],
      spec_input_selectors = [],
      spec_pass_through_selector = None,
      spec_scenario_router = False,
      spec_runs_unconnected = False,
      spec_singleton_group = None,
      spec_singleton_name = None,
      spec_code = Code_none,
      spec_stepped = None,
      spec_behavioural = False,
      spec_slice_transparent = True,
      spec_pass_through = Pass_none,
      spec_standalone_passthrough = False,
      spec_structural_role = None,
      spec_batch_scored = False\<rparr>"

definition frame_steps :: stepped_surface where
  "frame_steps = \<lparr>surface_start = Start_frame, surface_inputs = Inputs_none\<rparr>"

section \<open>The entries\<close>

definition api_input_spec :: node_spec where
  "api_input_spec =
     (spec_base API_INPUT ''Quote Input'' (Some ''api_input'') Sidecar_required (Some ''quote_input'') No_inputs Source_cost)\<lparr>spec_request_input := True,
        spec_source := True,
        spec_singleton_group := Some Group_request_input,
        spec_singleton_name := Some ''quote_input''\<rparr>"

definition workbench_input_spec :: node_spec where
  "workbench_input_spec =
     (spec_base WORKBENCH_INPUT ''Workbench Input'' (Some ''workbench_input'') Sidecar_required (Some ''workbench_input'') No_inputs Source_cost)\<lparr>spec_request_input := True,
        spec_source := True,
        spec_workbench := True,
        spec_singleton_group := Some Group_request_input,
        spec_singleton_name := Some ''workbench_input''\<rparr>"

definition workbench_output_spec :: node_spec where
  "workbench_output_spec =
     (spec_base WORKBENCH_OUTPUT ''Workbench Output'' (Some ''workbench_output'') Sidecar_required (Some ''workbench_output'') One_or_more Cheap)\<lparr>spec_response := True,
        spec_sink_only := True,
        spec_workbench := True,
        spec_runs_unconnected := True,
        spec_singleton_group := Some Group_response,
        spec_singleton_name := Some ''workbench_output'',
        spec_behavioural := True\<rparr>"

definition data_input_spec :: node_spec where
  "data_input_spec =
     (spec_base DATA_INPUT ''Data Input'' (Some ''data_input'') Sidecar_required (Some ''data_input'') No_inputs Source_cost)\<lparr>spec_source := True,
        spec_code := Code_frame_hook,
        spec_stepped := Some frame_steps\<rparr>"

definition data_output_spec :: node_spec where
  "data_output_spec =
     (spec_base DATA_OUTPUT ''Data Output'' (Some ''data_output'') Sidecar_required (Some ''data_output'') Exactly_one Cheap)\<lparr>spec_sink_only := True,
        spec_pass_through := Pass_first,
        spec_standalone_passthrough := True\<rparr>"

definition polars_spec :: node_spec where
  "polars_spec =
     (spec_base POLARS ''Transform'' (Some ''polars'') Sidecar_decorator None One_or_more Code_cost)\<lparr>spec_code := Code_transform,
        spec_stepped := Some \<lparr>surface_start = Start_input, surface_inputs = Inputs_edges\<rparr>\<rparr>"

definition edge_join_spec :: node_spec where
  "edge_join_spec =
     (spec_base EDGE_JOIN ''Edge Join'' (Some ''edge_join'') Sidecar_decorator None Exactly_two Costly)\<lparr>spec_input_roles := [''base'', ''join'']\<rparr>"

definition model_score_spec :: node_spec where
  "model_score_spec =
     (spec_base MODEL_SCORE ''Model Scoring'' (Some ''model_score'') Sidecar_required (Some ''model_scoring'') Exactly_one Costly)\<lparr>spec_code := Code_frame_hook,
        spec_stepped := Some frame_steps,
        spec_behavioural := True,
        spec_batch_scored := True\<rparr>"

definition banding_spec :: node_spec where
  "banding_spec =
     (spec_base BANDING ''Banding'' (Some ''banding'') Sidecar_required (Some ''banding'') Exactly_one Cheap)\<lparr>spec_behavioural := True\<rparr>"

definition rating_step_spec :: node_spec where
  "rating_step_spec =
     (spec_base RATING_STEP ''Rating Step'' (Some ''rating_step'') Sidecar_required (Some ''rating_step'') Exactly_one Costly)\<lparr>spec_code := Code_frame_hook,
        spec_stepped := Some frame_steps,
        spec_behavioural := True\<rparr>"

definition output_spec :: node_spec where
  "output_spec =
     (spec_base OUTPUT ''Quote Response'' (Some ''output'') Sidecar_required (Some ''quote_response'') One_or_more Cheap)\<lparr>spec_response := True,
        spec_sink_only := True,
        spec_singleton_group := Some Group_response,
        spec_singleton_name := Some ''quote_response'',
        spec_behavioural := True\<rparr>"

definition explore_spec :: node_spec where
  "explore_spec =
     (spec_base EXPLORE ''Explore'' (Some ''explore'') Sidecar_required (Some ''explore'') Exactly_one Cheap)\<lparr>spec_sink_only := True,
        spec_input_count_enforced := True,
        spec_code := Code_frame_hook,
        spec_stepped := Some frame_steps,
        spec_standalone_passthrough := True\<rparr>"

definition external_file_spec :: node_spec where
  "external_file_spec =
     (spec_base EXTERNAL_FILE ''Load File'' (Some ''external_file'') Sidecar_required (Some ''load_file'') Zero_or_more Code_cost)\<lparr>spec_code := Code_object_hook,
        spec_stepped := Some \<lparr>surface_start = Start_frame, surface_inputs = Inputs_edges\<rparr>,
        spec_standalone_passthrough := True\<rparr>"

definition live_switch_spec :: node_spec where
  "live_switch_spec =
     (spec_base LIVE_SWITCH ''Source Switch'' (Some ''live_switch'') Sidecar_required (Some ''source_switch'') One_or_more Cheap)\<lparr>spec_scenario_router := True,
        spec_behavioural := True\<rparr>"

definition modelling_spec :: node_spec where
  "modelling_spec =
     (spec_base MODELLING ''Model Training'' (Some ''modelling'') Sidecar_required (Some ''model_training'') Exactly_one Cheap)\<lparr>spec_sink_only := True,
        spec_pass_through := Pass_first,
        spec_standalone_passthrough := True\<rparr>"

definition optimiser_spec :: node_spec where
  "optimiser_spec =
     (spec_base OPTIMISER ''Optimisation'' (Some ''optimiser'') Sidecar_required (Some ''optimisation'') One_or_more Cheap)\<lparr>spec_sink_only := True,
        spec_input_selectors := [''data_input'', ''banding_source'', ''analysis_input''],
        spec_pass_through_selector := Some ''data_input'',
        spec_pass_through := Pass_selected,
        spec_standalone_passthrough := True\<rparr>"

definition scenario_expander_spec :: node_spec where
  "scenario_expander_spec =
     (spec_base SCENARIO_EXPANDER ''Expander'' (Some ''scenario_expander'') Sidecar_required (Some ''expander'') Exactly_one Cheap)\<lparr>spec_code := Code_frame_hook,
        spec_stepped := Some frame_steps,
        spec_behavioural := True,
        spec_slice_transparent := False\<rparr>"

definition optimiser_apply_spec :: node_spec where
  "optimiser_apply_spec =
     (spec_base OPTIMISER_APPLY ''Apply Optimisation'' (Some ''optimiser_apply'') Sidecar_required (Some ''apply_optimisation'') One_or_more Costly)\<lparr>spec_input_selectors := [''ratebook_input''],
        spec_behavioural := True\<rparr>"

definition constant_spec :: node_spec where
  "constant_spec =
     (spec_base CONSTANT ''Constant'' (Some ''constant'') Sidecar_required (Some ''constant'') No_inputs Source_cost)\<lparr>spec_source := True\<rparr>"

definition submodel_spec :: node_spec where
  "submodel_spec =
     (spec_base SUBMODEL ''Submodel'' None Sidecar_none None One_or_more Cheap)\<lparr>spec_structural := True,
        spec_structural_role := Some Role_occurrence\<rparr>"

definition submodel_port_spec :: node_spec where
  "submodel_port_spec =
     (spec_base SUBMODEL_PORT ''Port'' None Sidecar_none None Structural_inputs Cheap)\<lparr>spec_structural := True,
        spec_structural_role := Some Role_port\<rparr>"

definition node_specs :: "(node_type, node_spec) odict" where
  "node_specs = [
     (API_INPUT, api_input_spec),
     (WORKBENCH_INPUT, workbench_input_spec),
     (WORKBENCH_OUTPUT, workbench_output_spec),
     (DATA_INPUT, data_input_spec),
     (DATA_OUTPUT, data_output_spec),
     (POLARS, polars_spec),
     (EDGE_JOIN, edge_join_spec),
     (MODEL_SCORE, model_score_spec),
     (BANDING, banding_spec),
     (RATING_STEP, rating_step_spec),
     (OUTPUT, output_spec),
     (EXPLORE, explore_spec),
     (EXTERNAL_FILE, external_file_spec),
     (LIVE_SWITCH, live_switch_spec),
     (MODELLING, modelling_spec),
     (OPTIMISER, optimiser_spec),
     (SCENARIO_EXPANDER, scenario_expander_spec),
     (OPTIMISER_APPLY, optimiser_apply_spec),
     (CONSTANT, constant_spec),
     (SUBMODEL, submodel_spec),
     (SUBMODEL_PORT, submodel_port_spec)]"

lemmas spec_defs = spec_base_def frame_steps_def
  api_input_spec_def workbench_input_spec_def workbench_output_spec_def data_input_spec_def
  data_output_spec_def polars_spec_def edge_join_spec_def model_score_spec_def
  banding_spec_def rating_step_spec_def output_spec_def explore_spec_def
  external_file_spec_def live_switch_spec_def modelling_spec_def optimiser_spec_def
  scenario_expander_spec_def optimiser_apply_spec_def constant_spec_def submodel_spec_def
  submodel_port_spec_def

section \<open>The validator\<close>

datatype spec_problem =
    Keyed_wrongly
  | Decorator_taken node_type
  | Folder_taken node_type
  | Request_input_not_source
  | Response_not_sink_only
  | Decorator_structural_mismatch
  | Sidecar_folder_mismatch
  | Singleton_name_mismatch
  | Input_roles_mismatch
  | Pass_through_selector_mismatch
  | Pass_through_selector_not_input
  | Stepped_without_code
  | Pass_through_not_standalone
  | Behavioural_passthrough
  | Structural_role_mismatch

datatype spec_error =
    Missing_types "node_type list"
  | Inconsistent "(node_type \<times> spec_problem) list"

definition report :: "bool \<Rightarrow> spec_problem \<Rightarrow> spec_problem list" where
  "report bad p = (if bad then [p] else [])"

definition entry_problems :: "node_type \<Rightarrow> node_spec \<Rightarrow> (string, node_type) odict \<Rightarrow>
    (string, node_type) odict \<Rightarrow> spec_problem list" where
  "entry_problems key spec decorators folders =
     report (spec_node_type spec \<noteq> key) Keyed_wrongly
     @ (case Option.bind (spec_decorator spec) (map_of decorators) of
          None \<Rightarrow> [] | Some other \<Rightarrow> [Decorator_taken other])
     @ (case Option.bind (spec_config_folder spec) (map_of folders) of
          None \<Rightarrow> [] | Some other \<Rightarrow> [Folder_taken other])
     @ report (spec_request_input spec \<and> \<not> spec_source spec) Request_input_not_source
     @ report (spec_response spec \<and> \<not> spec_sink_only spec) Response_not_sink_only
     @ report ((spec_decorator spec = None) \<noteq> spec_structural spec) Decorator_structural_mismatch
     @ report ((spec_sidecar spec = Sidecar_required) \<noteq> (spec_config_folder spec \<noteq> None))
         Sidecar_folder_mismatch
     @ report ((spec_singleton_group spec = None) \<noteq> (spec_singleton_name spec = None))
         Singleton_name_mismatch
     @ report ((spec_inputs spec = Exactly_two) \<noteq>
         (length (spec_input_roles spec) = 2 \<and> card (set (spec_input_roles spec)) = 2))
         Input_roles_mismatch
     @ report ((spec_pass_through spec = Pass_selected) \<noteq> (spec_pass_through_selector spec \<noteq> None))
         Pass_through_selector_mismatch
     @ report (case spec_pass_through_selector spec of None \<Rightarrow> False
         | Some sel \<Rightarrow> sel \<notin> set (spec_input_selectors spec)) Pass_through_selector_not_input
     @ report (spec_stepped spec \<noteq> None \<and> spec_code spec = Code_none) Stepped_without_code
     @ report (spec_pass_through spec \<noteq> Pass_none \<and> \<not> spec_standalone_passthrough spec)
         Pass_through_not_standalone
     @ report (spec_behavioural spec \<and> spec_standalone_passthrough spec) Behavioural_passthrough
     @ report (spec_structural spec \<noteq> (spec_structural_role spec \<noteq> None)) Structural_role_mismatch"

definition note_name :: "string option \<Rightarrow> node_type \<Rightarrow> (string, node_type) odict \<Rightarrow>
    (string, node_type) odict" where
  "note_name name key d = (case name of None \<Rightarrow> d | Some n \<Rightarrow> AList.update n key d)"

fun problems_loop :: "(node_type, node_spec) odict \<Rightarrow> (string, node_type) odict \<Rightarrow>
    (string, node_type) odict \<Rightarrow> (node_type \<times> spec_problem) list" where
  "problems_loop [] decorators folders = []"
| "problems_loop ((key, spec) # rest) decorators folders =
     map (Pair key) (entry_problems key spec decorators folders)
     @ problems_loop rest (note_name (spec_decorator spec) key decorators)
         (note_name (spec_config_folder spec) key folders)"

definition validate_node_specs :: "(node_type, node_spec) odict \<Rightarrow> spec_error + unit" where
  "validate_node_specs specs =
     (let missing = filter (\<lambda>t. \<not> has_key t specs) all_node_types
      in if missing \<noteq> [] then Inl (Missing_types missing)
         else let problems = problems_loop specs [] []
           in if problems \<noteq> [] then Inl (Inconsistent problems) else Inr ())"

section \<open>Lookups and derived tables\<close>

definition node_type_of :: "string \<Rightarrow> node_type option" where
  "node_type_of value = List.find (\<lambda>t. node_type_value t = value) all_node_types"

definition known_node_spec :: "string \<Rightarrow> node_spec option" where
  "known_node_spec value = Option.bind (node_type_of value) (map_of node_specs)"

definition types_where :: "(node_spec \<Rightarrow> bool) \<Rightarrow> node_type list" where
  "types_where test = map fst (filter (\<lambda>(_, spec). test spec) node_specs)"

definition request_input_kinds :: "string list" where
  "request_input_kinds = map node_type_value (types_where spec_request_input)"

definition response_node_types :: "node_type list" where
  "response_node_types = types_where spec_response"

definition sink_only_node_types :: "node_type list" where
  "sink_only_node_types = types_where spec_sink_only"

definition source_node_types :: "node_type list" where
  "source_node_types = types_where spec_source"

definition code_node_types :: "node_type list" where
  "code_node_types = types_where (\<lambda>s. spec_code s = Code_frame_hook \<or> spec_code s = Code_object_hook)"

definition standalone_passthrough_types :: "node_type list" where
  "standalone_passthrough_types = types_where spec_standalone_passthrough"

definition pass_through_node_types :: "node_type list" where
  "pass_through_node_types = types_where (\<lambda>s. spec_pass_through s \<noteq> Pass_none)"

definition workbench_node_types :: "node_type list" where
  "workbench_node_types = types_where spec_workbench"

definition structural_node_types :: "node_type list" where
  "structural_node_types = types_where spec_structural"

fun collect_field :: "(node_spec \<Rightarrow> 'v option) \<Rightarrow> (node_type, node_spec) odict \<Rightarrow>
    (node_type \<times> 'v) list" where
  "collect_field f [] = []"
| "collect_field f ((key, spec) # rest) =
     (case f spec of None \<Rightarrow> collect_field f rest | Some v \<Rightarrow> (key, v) # collect_field f rest)"

definition stepped_node_types :: "(node_type, stepped_surface) odict" where
  "stepped_node_types = collect_field spec_stepped node_specs"

definition node_type_to_decorator :: "(node_type, string) odict" where
  "node_type_to_decorator = collect_field spec_decorator node_specs"

definition node_type_to_folder :: "(node_type, string) odict" where
  "node_type_to_folder = collect_field spec_config_folder node_specs"

definition singleton_node_names :: "(node_type, string) odict" where
  "singleton_node_names = collect_field spec_singleton_name node_specs"

text \<open>\<open>{v: k for k, v in d.items()}\<close>\<close>

definition invert :: "('k, 'v) odict \<Rightarrow> ('v, 'k) odict" where
  "invert d = fold (\<lambda>(k, v). AList.update v k) d []"

definition decorator_to_node_type :: "(string, node_type) odict" where
  "decorator_to_node_type = invert node_type_to_decorator"

definition folder_to_node_type :: "(string, node_type) odict" where
  "folder_to_node_type = invert node_type_to_folder"

definition add_member :: "node_type \<Rightarrow> singleton_group \<Rightarrow> (singleton_group, node_type list) odict \<Rightarrow>
    (singleton_group, node_type list) odict" where
  "add_member key g groups =
     AList.update g ((case map_of groups g of None \<Rightarrow> [] | Some ms \<Rightarrow> ms) @ [key]) groups"

definition display_of :: "node_type \<Rightarrow> string" where
  "display_of t = (case map_of node_specs t of None \<Rightarrow> [] | Some s \<Rightarrow> spec_display_name s)"

definition is_workbench :: "node_type \<Rightarrow> bool" where
  "is_workbench t = (case map_of node_specs t of None \<Rightarrow> False | Some s \<Rightarrow> spec_workbench s)"

fun join_or :: "string list \<Rightarrow> string" where
  "join_or [] = []"
| "join_or [x] = x"
| "join_or (x # xs) = x @ '' or '' @ join_or xs"

definition singleton_groups :: "(node_type list \<times> string) list" where
  "singleton_groups =
     map (\<lambda>(_, members). (members, join_or (map display_of (sort_key is_workbench members))))
       (fold (\<lambda>(key, g). add_member key g) (collect_field spec_singleton_group node_specs) [])"

text \<open>Why a node cannot have a name: the display name, the fixed name and the refused one.\<close>

definition singleton_name_problem :: "string \<Rightarrow> string \<Rightarrow> (string \<times> string \<times> string) option" where
  "singleton_name_problem ty name =
     (case known_node_spec ty of None \<Rightarrow> None
      | Some spec \<Rightarrow> (case spec_singleton_name spec of None \<Rightarrow> None
          | Some fixed \<Rightarrow> if name = fixed then None else Some (spec_display_name spec, fixed, name)))"

definition default_node_type :: node_type where
  "default_node_type = POLARS"

definition node_type_table :: "(node_type, 'v) odict \<Rightarrow> spec_error + (node_type, 'v) odict" where
  "node_type_table entries =
     (let missing = filter (\<lambda>t. \<not> has_key t entries) all_node_types
      in if missing \<noteq> [] then Inl (Missing_types missing) else Inr entries)"

section \<open>What the validator accepts\<close>

lemma all_node_types_complete: "t \<in> set all_node_types"
  by (cases t) (simp_all add: all_node_types_def)

definition coherent :: "node_type \<Rightarrow> node_spec \<Rightarrow> bool" where
  "coherent key s \<longleftrightarrow>
     spec_node_type s = key \<and>
     (spec_request_input s \<longrightarrow> spec_source s) \<and>
     (spec_response s \<longrightarrow> spec_sink_only s) \<and>
     (spec_decorator s = None \<longleftrightarrow> spec_structural s) \<and>
     (spec_sidecar s = Sidecar_required \<longleftrightarrow> spec_config_folder s \<noteq> None) \<and>
     (spec_singleton_group s = None \<longleftrightarrow> spec_singleton_name s = None) \<and>
     (spec_inputs s = Exactly_two \<longleftrightarrow> (\<exists>a b. a \<noteq> b \<and> spec_input_roles s = [a, b])) \<and>
     (spec_pass_through s = Pass_selected \<longleftrightarrow> spec_pass_through_selector s \<noteq> None) \<and>
     (\<forall>sel. spec_pass_through_selector s = Some sel \<longrightarrow> sel \<in> set (spec_input_selectors s)) \<and>
     (spec_stepped s \<noteq> None \<longrightarrow> spec_code s \<noteq> Code_none) \<and>
     (spec_pass_through s \<noteq> Pass_none \<longrightarrow> spec_standalone_passthrough s) \<and>
     \<not> (spec_behavioural s \<and> spec_standalone_passthrough s) \<and>
     (spec_structural s \<longleftrightarrow> spec_structural_role s \<noteq> None)"

lemma report_Nil [simp]: "report b p = [] \<longleftrightarrow> \<not> b"
  by (simp add: report_def)

lemma two_roles: "length xs = 2 \<and> card (set xs) = 2 \<longleftrightarrow> (\<exists>a b. a \<noteq> b \<and> xs = [a, b])"
  by (auto simp: numeral_2_eq_2 length_Suc_conv card_insert_if split: if_splits)

lemma option_case_Nil: "(case x of None \<Rightarrow> [] | Some y \<Rightarrow> [f y]) = [] \<longleftrightarrow> x = None"
  by (cases x) auto

lemma not_iff_not: "\<not> (a \<noteq> b) \<longleftrightarrow> a = b"
  by simp

lemma selector_known:
  "\<not> (case x of None \<Rightarrow> False | Some sel \<Rightarrow> sel \<notin> S) \<longleftrightarrow> (\<forall>sel. x = Some sel \<longrightarrow> sel \<in> S)"
  by (cases x) auto

lemma entry_problems_Nil:
  "entry_problems key s decorators folders = [] \<longleftrightarrow>
     coherent key s \<and> Option.bind (spec_decorator s) (map_of decorators) = None \<and>
     Option.bind (spec_config_folder s) (map_of folders) = None"
  unfolding entry_problems_def append_is_Nil_conv report_Nil option_case_Nil two_roles coherent_def
    not_iff_not selector_known
  by (simp only: not_not de_Morgan_conj imp_conv_disj conj_ac disj_ac)

definition names_of :: "(node_spec \<Rightarrow> string option) \<Rightarrow> (node_type, node_spec) odict \<Rightarrow> string list" where
  "names_of f specs = map snd (collect_field f specs)"

lemma set_keys_note: "set (keys (note_name n k d)) = set_option n \<union> set (keys d)"
  by (cases n) (auto simp: note_name_def dict_simps)

lemma bind_None: "Option.bind x (map_of d) = None \<longleftrightarrow> set_option x \<inter> set (keys d) = {}"
  by (cases x) (auto simp: map_of_None_keys)

lemma names_fresh_Cons:
  "distinct (names_of f ((k, s) # rest)) \<and> set (names_of f ((k, s) # rest)) \<inter> K = {} \<longleftrightarrow>
   set_option (f s) \<inter> K = {} \<and> distinct (names_of f rest) \<and>
   set (names_of f rest) \<inter> (set_option (f s) \<union> K) = {}"
  by (cases "f s") (auto simp: names_of_def)

lemma problems_loop_Nil:
  "problems_loop specs decorators folders = [] \<longleftrightarrow>
     (\<forall>(k, s) \<in> set specs. coherent k s) \<and>
     distinct (names_of spec_decorator specs) \<and>
     set (names_of spec_decorator specs) \<inter> set (keys decorators) = {} \<and>
     distinct (names_of spec_config_folder specs) \<and>
     set (names_of spec_config_folder specs) \<inter> set (keys folders) = {}"
proof (induction specs decorators folders rule: problems_loop.induct)
  case (2 key spec rest decorators folders)
  show ?case
    unfolding problems_loop.simps append_is_Nil_conv map_is_Nil_conv entry_problems_Nil bind_None
      "2.IH" set_keys_note
    using names_fresh_Cons [of spec_decorator key spec rest "set (keys decorators)"]
      names_fresh_Cons [of spec_config_folder key spec rest "set (keys folders)"]
    by auto
qed (simp add: names_of_def)

section \<open>Inverting a name table\<close>

lemma map_of_fold_assign:
  "distinct (map snd d) \<Longrightarrow> set (map snd d) \<inter> set (keys acc) = {} \<Longrightarrow>
    map_of (fold (\<lambda>(k, v). AList.update v k) d acc) v =
      (case find (\<lambda>p. snd p = v) d of Some p \<Rightarrow> Some (fst p) | None \<Rightarrow> map_of acc v)"
proof (induction d arbitrary: acc)
  case (Cons p d)
  obtain k w where p: "p = (k, w)" by (cases p)
  have "w \<notin> set (map snd d)" using Cons.prems(1) p by simp
  then have none: "find (\<lambda>p. snd p = w) d = None" by (force simp: find_None_iff)
  have "map_of (fold (\<lambda>(k, v). AList.update v k) d (AList.update w k acc)) v =
      (case find (\<lambda>p. snd p = v) d of Some p \<Rightarrow> Some (fst p)
       | None \<Rightarrow> map_of (AList.update w k acc) v)"
    using Cons.prems p by (intro Cons.IH) (auto simp: dict_simps)
  then show ?case using p none by (cases "w = v") (auto simp: dict_simps split: option.splits)
qed simp

lemma map_of_invert:
  assumes "distinct (map snd d)"
  shows "map_of (invert d) v = Some k \<longleftrightarrow> (k, v) \<in> set d"
proof -
  have "map_of (invert d) v = (case find (\<lambda>p. snd p = v) d of Some p \<Rightarrow> Some (fst p) | None \<Rightarrow> None)"
    using map_of_fold_assign [of d "[]" v] assms by (simp add: invert_def cong: option.case_cong)
  also have "\<dots> = Some k \<longleftrightarrow> (k, v) \<in> set d"
    using assms
    by (induction d) (force split: option.splits)+
  finally show ?thesis .
qed

lemma keys_collect: "set (keys (collect_field f specs)) \<subseteq> set (keys specs)"
  by (induction f specs rule: collect_field.induct) (auto split: option.splits)

lemma wf_collect:
  "wf_dict specs \<Longrightarrow> wf_dict (collect_field f specs)"
proof (induction f specs rule: collect_field.induct)
  case (2 f key spec rest)
  then have "wf_dict (collect_field f rest)" "key \<notin> set (keys (collect_field f rest))"
    using keys_collect [of f rest] by (auto simp: wf_dict_def)
  then show ?case by (simp add: wf_dict_def split: option.splits)
qed simp

lemma in_collect: "(k, v) \<in> set (collect_field f specs) \<longleftrightarrow> (\<exists>s. (k, s) \<in> set specs \<and> f s = Some v)"
  by (induction f specs rule: collect_field.induct) (auto split: option.splits)

lemma wf_map_of: "wf_dict d \<Longrightarrow> map_of d k = Some v \<longleftrightarrow> (k, v) \<in> set d"
  unfolding wf_dict_def keys_def by (rule map_of_eq_Some_iff)

section \<open>Properties\<close>

text \<open>
  The import-time validator is exact, for any table. It accepts a table just when every node
  type has an entry, every entry is coherent (a request input is a source, a response is
  sink-only, exactly the structural types lack a decorator, a sidecar goes with a config folder,
  a selected pass-through names one of its selectors, a stepped type has a code surface, a
  behavioural type is no standalone passthrough, and so on) and no two entries share a decorator
  or a config folder.
\<close>

theorem validate_node_specs_exact:
  "validate_node_specs specs = Inr () \<longleftrightarrow>
     set (keys specs) = UNIV \<and> list_all (\<lambda>(key, s). coherent key s) specs \<and>
     distinct (names_of spec_decorator specs) \<and> distinct (names_of spec_config_folder specs)"
proof -
  have "filter (\<lambda>t. \<not> has_key t specs) all_node_types = [] \<longleftrightarrow> set (keys specs) = UNIV"
    using all_node_types_complete by (auto simp: filter_empty_conv has_key_iff)
  then show ?thesis
    by (simp add: validate_node_specs_def Let_def problems_loop_Nil list_all_iff)
qed

lemma node_specs_accepted: "validate_node_specs node_specs = Inr ()"
  by code_simp

lemma node_specs_wf: "wf_dict node_specs"
  by (simp add: node_specs_def wf_dict_def)

lemma known_specs_computed:
  "list_all (\<lambda>t. case known_node_spec (node_type_value t) of None \<Rightarrow> False | Some s \<Rightarrow>
     spec_node_type s = t \<and> spec_singleton_name s = map_of singleton_node_names t) all_node_types"
  by code_simp

lemma known_spec_of:
  "case known_node_spec (node_type_value t) of None \<Rightarrow> False | Some s \<Rightarrow>
     spec_node_type s = t \<and> spec_singleton_name s = map_of singleton_node_names t"
  using known_specs_computed all_node_types_complete [of t] by (simp add: list_all_iff)

lemmas node_specs_facts = node_specs_accepted [unfolded validate_node_specs_exact]

text \<open>
  The declared table passes the validator, so decorators and config folders read back: for
  every node type and name, the type is found under the name exactly when it was given that
  name, in both tables, and every node type has a specification under its value.
\<close>

theorem name_tables_round_trip:
  "validate_node_specs node_specs = Inr () \<and>
   (map_of decorator_to_node_type d = Some t \<longleftrightarrow> map_of node_type_to_decorator t = Some d) \<and>
   (map_of folder_to_node_type f = Some t \<longleftrightarrow> map_of node_type_to_folder t = Some f) \<and>
   (\<exists>s. known_node_spec (node_type_value t) = Some s \<and> spec_node_type s = t)"
proof -
  have d: "distinct (map snd node_type_to_decorator)" "distinct (map snd node_type_to_folder)"
    using node_specs_facts by (simp_all add: names_of_def node_type_to_decorator_def node_type_to_folder_def)
  have w: "wf_dict node_type_to_decorator" "wf_dict node_type_to_folder"
    by (simp_all add: node_type_to_decorator_def node_type_to_folder_def wf_collect node_specs_wf)
  obtain s where "known_node_spec (node_type_value t) = Some s" "spec_node_type s = t"
    using known_spec_of [of t] by (auto split: option.splits)
  then show ?thesis
    using node_specs_accepted map_of_invert [OF d(1)] map_of_invert [OF d(2)] wf_map_of [OF w(1)]
      wf_map_of [OF w(2)]
    by (auto simp: decorator_to_node_type_def folder_to_node_type_def)
qed

text \<open>
  The groups a pipeline holds one node of are the two request inputs and the two responses,
  each named editor type first; a node of a grouped type has exactly one acceptable name, and
  any other type accepts every name.
\<close>

theorem singleton_groups_and_names:
  "singleton_groups =
     [([API_INPUT, WORKBENCH_INPUT], ''Quote Input or Workbench Input''),
      ([WORKBENCH_OUTPUT, OUTPUT], ''Quote Response or Workbench Output'')] \<and>
   set (keys singleton_node_names) = set (concat (map fst singleton_groups)) \<and>
   (singleton_name_problem (node_type_value t) name = None \<longleftrightarrow>
     (case map_of singleton_node_names t of None \<Rightarrow> True | Some fixed \<Rightarrow> name = fixed))"
proof -
  have "singleton_groups =
     [([API_INPUT, WORKBENCH_INPUT], ''Quote Input or Workbench Input''),
      ([WORKBENCH_OUTPUT, OUTPUT], ''Quote Response or Workbench Output'')]"
    by code_simp
  moreover have "set (keys singleton_node_names) = set (concat (map fst singleton_groups))"
    by code_simp
  moreover have "singleton_name_problem (node_type_value t) name = None \<longleftrightarrow>
     (case map_of singleton_node_names t of None \<Rightarrow> True | Some fixed \<Rightarrow> name = fixed)"
    using known_spec_of [of t]
    by (cases "map_of singleton_node_names t") (auto simp: singleton_name_problem_def split: option.splits)
  ultimately show ?thesis by blast
qed

end
