(* ===== verification/Edge_Names.thy ===== *)
theory Edge_Names
  imports Graph_Order Node_Specs
begin

text \<open>
  Names of edges and inputs: the naming part of \<^verbatim>\<open>src/haute/_graph_utils.py\<close>. A name is
  a list of code points, since the sanitiser distinguishes ASCII from the rest. Every
  \<open>raise\<close> is a constructor of an error type. The connection of two nodes is written as an
  injective id; the executable input names are derived from labels and handles; input mappings
  rename them one to one.
\<close>

type_synonym ustr = "nat list"

definition cps :: "string \<Rightarrow> ustr" where
  "cps s = map of_char s"

section \<open>Edge ids\<close>

datatype name_error =
    Empty_edge_id_field
  | Request_handle_missing
  | Malformed_output_handle
  | Undeclared_output_handle
  | Port_handle_missing
  | Definition_id_missing
  | Unknown_definition
  | Missing_source_node ustr
  | Input_not_connected "ustr list"
  | Input_ambiguous "ustr list"
  | No_frames_emitted
  | Frame_handle_missing
  | Unknown_frame

definition replace_char :: "nat \<Rightarrow> ustr \<Rightarrow> ustr \<Rightarrow> ustr" where
  "replace_char c new xs = concat (map (\<lambda>x. if x = c then new else [x]) xs)"

definition edge_id_field :: "ustr \<Rightarrow> name_error + ustr" where
  "edge_id_field value =
     (if value = [] then Inl Empty_edge_id_field
      else Inr (replace_char 45 [126, 49] (replace_char 126 [126, 48] value)))"

fun join_with :: "nat \<Rightarrow> ustr list \<Rightarrow> ustr" where
  "join_with sep [] = []"
| "join_with sep [x] = x"
| "join_with sep (x # y # ys) = x @ [sep] @ join_with sep (y # ys)"

definition port_fields :: "ustr option \<Rightarrow> ustr option \<Rightarrow> name_error + ustr list" where
  "port_fields source_port target_port =
     (case target_port of
        Some tp \<Rightarrow>
          bind_result (case source_port of None \<Rightarrow> Inr [] | Some sp \<Rightarrow> edge_id_field sp)
            (\<lambda>s. bind_result (edge_id_field tp) (\<lambda>t. Inr [s, t]))
      | None \<Rightarrow>
          (case source_port of None \<Rightarrow> Inr []
           | Some sp \<Rightarrow> bind_result (edge_id_field sp) (\<lambda>s. Inr [s])))"

definition mint_edge_id :: "ustr \<Rightarrow> ustr \<Rightarrow> ustr option \<Rightarrow> ustr option \<Rightarrow> name_error + ustr" where
  "mint_edge_id source target source_port target_port =
     bind_result (edge_id_field source)
       (\<lambda>s. bind_result (edge_id_field target)
         (\<lambda>t. bind_result (port_fields source_port target_port)
           (\<lambda>ports. Inr (join_with 45 ([101] # s # t # ports)))))"

definition escape_char :: "nat \<Rightarrow> ustr" where
  "escape_char c = (if c = 126 then [126, 48] else if c = 45 then [126, 49] else [c])"

lemma escape_two_passes:
  "replace_char 45 [126, 49] (replace_char 126 [126, 48] xs) = concat (map escape_char xs)"
  by (induction xs) (simp_all add: replace_char_def escape_char_def)

lemma escape_no_dash: "45 \<notin> set (concat (map escape_char xs))"
  by (auto simp: escape_char_def split: if_splits)

lemma escape_char_prefix: "escape_char a @ u = escape_char b @ v \<Longrightarrow> a = b \<and> u = v"
  by (auto simp: escape_char_def split: if_splits)

lemma escape_inj: "concat (map escape_char xs) = concat (map escape_char ys) \<Longrightarrow> xs = ys"
proof (induction xs arbitrary: ys)
  case Nil
  then show ?case by (cases ys) (auto simp: escape_char_def split: if_splits)
next
  case (Cons x xs)
  then obtain y ys' where ys: "ys = y # ys'"
    by (cases ys) (auto simp: escape_char_def split: if_splits)
  have "x = y \<and> concat (map escape_char xs) = concat (map escape_char ys')"
    using Cons.prems by (intro escape_char_prefix) (simp add: ys)
  then show ?case using Cons.IH ys by blast
qed

lemma edge_id_field_Inr:
  "edge_id_field v = Inr f \<longleftrightarrow> v \<noteq> [] \<and> f = concat (map escape_char v)"
  by (auto simp: edge_id_field_def escape_two_passes)

lemma edge_id_field_props:
  assumes "edge_id_field v = Inr f"
  shows "45 \<notin> set f" "f \<noteq> []"
proof -
  show "45 \<notin> set f" using assms escape_no_dash by (simp add: edge_id_field_Inr)
  have "escape_char c \<noteq> []" for c by (simp add: escape_char_def)
  then show "f \<noteq> []" using assms by (cases v) (auto simp: edge_id_field_Inr)
qed

lemma edge_id_field_inj: "edge_id_field v = Inr f \<Longrightarrow> edge_id_field w = Inr f \<Longrightarrow> v = w"
  by (auto simp: edge_id_field_Inr dest: escape_inj)

lemma split_at_sep:
  "sep \<notin> set x \<Longrightarrow> sep \<notin> set y \<Longrightarrow> x @ sep # u = y @ sep # v \<Longrightarrow> x = y \<and> u = v"
proof (induction x arbitrary: y)
  case Nil
  then show ?case by (cases y) auto
next
  case (Cons a x)
  then show ?case by (cases y) auto
qed

lemma join_with_Cons: "ys \<noteq> [] \<Longrightarrow> join_with sep (x # ys) = x @ sep # join_with sep ys"
  by (cases ys) simp_all

lemma join_with_inj:
  assumes "\<forall>x \<in> set xs. sep \<notin> set x" "\<forall>y \<in> set ys. sep \<notin> set y" "xs \<noteq> []" "ys \<noteq> []"
    and "join_with sep xs = join_with sep ys"
  shows "xs = ys"
  using assms
proof (induction xs arbitrary: ys)
  case (Cons x xs)
  obtain y zs where ys: "ys = y # zs" using Cons.prems(4) by (cases ys) auto
  have sep: "sep \<notin> set x" "sep \<notin> set y" using Cons.prems(1,2) ys by auto
  show ?case
  proof (cases "xs = [] \<or> zs = []")
    case True
    have "sep \<in> set (join_with sep (u # v # w))" for u v w by simp
    then have "xs = [] \<longleftrightarrow> zs = []"
      using Cons.prems(5) ys sep by (cases xs; cases zs) (auto simp del: join_with.simps(3))
    then show ?thesis using True Cons.prems(5) ys by auto
  next
    case False
    then have "x @ sep # join_with sep xs = y @ sep # join_with sep zs"
      using Cons.prems(5) ys by (simp add: join_with_Cons)
    from split_at_sep [OF sep this] show ?thesis
      using Cons.IH [of zs] Cons.prems(1,2) ys False by simp
  qed
qed simp

lemma port_fields_inj:
  assumes "port_fields a b = Inr ps" "port_fields c d = Inr ps"
  shows "a = c \<and> b = d"
  using assms
  by (cases a; cases b; cases c; cases d)
    (auto simp: port_fields_def bind_result_Inr dest: edge_id_field_inj edge_id_field_props(2))

lemma port_fields_no_dash: "port_fields a b = Inr ps \<Longrightarrow> f \<in> set ps \<Longrightarrow> 45 \<notin> set f"
  by (cases a; cases b) (auto simp: port_fields_def bind_result_Inr dest: edge_id_field_props(1))

text \<open>
  C6: An edge id is an injective encoding: two connections that get the same id agree in source,
  target, source handle and target handle, whatever the names, dashes and tildes included.
\<close>

theorem edge_id_injective:
  assumes "mint_edge_id source target sp tp = Inr i" "mint_edge_id source' target' sp' tp' = Inr i"
  shows "source = source' \<and> target = target' \<and> sp = sp' \<and> tp = tp'"
proof -
  obtain s t ps where 1: "edge_id_field source = Inr s" "edge_id_field target = Inr t"
    "port_fields sp tp = Inr ps" "i = join_with 45 ([101] # s # t # ps)"
    using assms(1) by (auto simp: mint_edge_id_def bind_result_Inr)
  obtain s' t' ps' where 2: "edge_id_field source' = Inr s'" "edge_id_field target' = Inr t'"
    "port_fields sp' tp' = Inr ps'" "i = join_with 45 ([101] # s' # t' # ps')"
    using assms(2) by (auto simp: mint_edge_id_def bind_result_Inr)
  have "[101] # s # t # ps = [101] # s' # t' # ps'"
    using 1 2 edge_id_field_props(1) port_fields_no_dash
    by (intro join_with_inj [where sep = 45]) auto
  then show ?thesis
    using 1 2 edge_id_field_inj port_fields_inj by blast
qed

theorem edge_id_injective_witness:
  "mint_edge_id (cps ''a-b'') (cps ''c'') None (Some (cps ''join'')) = Inr (cps ''e-a~1b-c--join'') \<and>
   mint_edge_id (rev (cps ''b-a'')) (cps ''c'') None (Some (cps ''join'')) = Inr (cps ''e-a~1b-c--join'') \<and>
   cps ''a-b'' = rev (cps ''b-a'')"
proof -
  have 1: "mint_edge_id (cps ''a-b'') (cps ''c'') None (Some (cps ''join'')) = Inr (cps ''e-a~1b-c--join'')"
    by code_simp
  have 2: "mint_edge_id (rev (cps ''b-a'')) (cps ''c'') None (Some (cps ''join'')) =
      Inr (cps ''e-a~1b-c--join'')"
    by code_simp
  show ?thesis using 1 2 edge_id_injective [OF 1 2] by simp
qed

section \<open>Sanitised names\<close>

definition is_ascii_alnum :: "nat \<Rightarrow> bool" where
  "is_ascii_alnum c \<longleftrightarrow> (48 \<le> c \<and> c \<le> 57) \<or> (65 \<le> c \<and> c \<le> 90) \<or> (97 \<le> c \<and> c \<le> 122)"

definition is_digit_cp :: "nat \<Rightarrow> bool" where
  "is_digit_cp c \<longleftrightarrow> 48 \<le> c \<and> c \<le> 57"

definition word_cp :: "nat \<Rightarrow> bool" where
  "word_cp c \<longleftrightarrow> is_ascii_alnum c \<or> c = 95"

text \<open>\<open>str.isspace\<close>, which \<open>strip\<close> removes.\<close>

definition is_space_cp :: "nat \<Rightarrow> bool" where
  "is_space_cp c \<longleftrightarrow> (9 \<le> c \<and> c \<le> 13) \<or> (28 \<le> c \<and> c \<le> 32) \<or> (8192 \<le> c \<and> c \<le> 8202) \<or>
     c = 133 \<or> c = 160 \<or> c = 5760 \<or> c = 8232 \<or> c = 8233 \<or> c = 8239 \<or> c = 8287 \<or> c = 12288"

definition strip :: "ustr \<Rightarrow> ustr" where
  "strip s = rev (dropWhile is_space_cp (rev (dropWhile is_space_cp s)))"

definition hex_digit :: "nat \<Rightarrow> nat" where
  "hex_digit d = (if d < 10 then 48 + d else 87 + d)"

function hex_digits :: "nat \<Rightarrow> ustr" where
  "hex_digits n =
     (case n < 16 of True \<Rightarrow> [hex_digit n] | False \<Rightarrow> hex_digits (n div 16) @ [hex_digit (n mod 16)])"
  by pat_completeness auto
termination by (relation "measure id") auto

declare hex_digits.simps [simp del]

definition encode_cp :: "nat \<Rightarrow> ustr" where
  "encode_cp c =
     (if c < 128 then (if is_ascii_alnum c \<or> c = 95 then [c] else [])
      else [95, 120] @ hex_digits c @ [95])"

definition sanitize_identifier_characters :: "ustr \<Rightarrow> ustr" where
  "sanitize_identifier_characters label =
     concat (map encode_cp (replace_char 45 [95] (replace_char 32 [95] (strip label))))"

text \<open>\<open>keyword.kwlist\<close>\<close>

definition python_keywords :: "ustr list" where
  "python_keywords = map cps
     [''False'', ''None'', ''True'', ''and'', ''as'', ''assert'', ''async'', ''await'', ''break'',
      ''class'', ''continue'', ''def'', ''del'', ''elif'', ''else'', ''except'', ''finally'', ''for'',
      ''from'', ''global'', ''if'', ''import'', ''in'', ''is'', ''lambda'', ''nonlocal'', ''not'', ''or'',
      ''pass'', ''raise'', ''return'', ''try'', ''while'', ''with'', ''yield'']"

definition sanitize_func_name :: "ustr \<Rightarrow> ustr" where
  "sanitize_func_name label =
     (let name = sanitize_identifier_characters label;
          name = (case name of c # _ \<Rightarrow> if is_digit_cp c then cps ''node_'' @ name else name | [] \<Rightarrow> name);
          name = (if name \<in> set python_keywords then cps ''node_'' @ name else name)
      in if name = [] then cps ''unnamed_node'' else name)"

definition is_frame_label :: "ustr \<Rightarrow> bool" where
  "is_frame_label label \<longleftrightarrow>
     list_all word_cp label \<and> label \<noteq> [] \<and> \<not> is_digit_cp (hd label) \<and>
     label \<notin> set python_keywords"

lemma hex_digits_word: "list_all word_cp (hex_digits n)"
proof (induction n rule: hex_digits.induct)
  case (1 n)
  have "word_cp (hex_digit d)" if "d < 16" for d
    using that by (auto simp: hex_digit_def word_cp_def is_ascii_alnum_def)
  then show ?case using 1 by (subst hex_digits.simps) (auto split: bool.split)
qed

lemma encode_cp_word: "list_all word_cp (encode_cp c)"
  using hex_digits_word by (auto simp: encode_cp_def word_cp_def is_ascii_alnum_def)

lemma sanitized_word: "list_all word_cp (sanitize_identifier_characters label)"
  using encode_cp_word by (auto simp: sanitize_identifier_characters_def list_all_iff)

lemma word_cp_plain: "word_cp c \<Longrightarrow> encode_cp c = [c] \<and> c \<noteq> 32 \<and> c \<noteq> 45 \<and> \<not> is_space_cp c"
  by (auto simp: word_cp_def is_ascii_alnum_def encode_cp_def is_space_cp_def)

lemma strip_word: "list_all word_cp s \<Longrightarrow> strip s = s"
proof -
  assume w: "list_all word_cp s"
  have "dropWhile is_space_cp s = s" if "list_all word_cp s" for s
    using that word_cp_plain by (cases s) auto
  from this [OF w] this [of "rev s"] w show ?thesis by (simp add: strip_def)
qed

lemma sanitize_characters_fixed:
  assumes "list_all word_cp s"
  shows "sanitize_identifier_characters s = s"
proof -
  have "concat (map encode_cp (replace_char 45 [95] (replace_char 32 [95] s))) = s"
    using assms by (induction s) (auto simp: replace_char_def dest: word_cp_plain)
  then show ?thesis using assms by (simp add: sanitize_identifier_characters_def strip_word)
qed

lemma node_prefix: "cps ''node_'' @ s \<notin> set python_keywords"
proof
  assume "cps ''node_'' @ s \<in> set python_keywords"
  moreover have "list_all (\<lambda>k. take 5 k \<noteq> cps ''node_'') python_keywords" by code_simp
  ultimately have "take 5 (cps ''node_'' @ s) \<noteq> cps ''node_''" by (auto simp: list_all_iff)
  then show False by (simp add: cps_def)
qed

lemma sanitize_frame_label: "is_frame_label (sanitize_func_name label)"
proof -
  let ?c = "sanitize_identifier_characters label"
  have pre: "list_all word_cp (cps ''node_'')" "hd (cps ''node_'' @ s) = 110" for s by code_simp+
  have un: "is_frame_label (cps ''unnamed_node'')" by code_simp
  have lab: "is_frame_label (cps ''node_'' @ s)" if "list_all word_cp s" for s
    using that pre node_prefix [of s] by (simp add: is_frame_label_def is_digit_cp_def cps_def)
  show ?thesis
    using sanitized_word [of label] lab un node_prefix [of "[]"]
    by (cases ?c) (auto simp: sanitize_func_name_def Let_def is_frame_label_def)
qed

lemma sanitize_fixes_labels: "is_frame_label l \<Longrightarrow> sanitize_func_name l = l"
  by (cases l) (auto simp: sanitize_func_name_def is_frame_label_def sanitize_characters_fixed Let_def)

text \<open>
  A sanitised name is always an ASCII Python identifier and not a keyword, so it can name a
  function and a frame; sanitising again changes nothing; and the labels left alone are exactly
  the admissible ones.
\<close>

theorem sanitize_func_name_spec:
  "is_frame_label (sanitize_func_name label) \<and>
   sanitize_func_name (sanitize_func_name label) = sanitize_func_name label \<and>
   (sanitize_func_name label = label \<longleftrightarrow> is_frame_label label)"
proof (intro conjI iffI)
  show label: "is_frame_label (sanitize_func_name label)" by (rule sanitize_frame_label)
  show "sanitize_func_name (sanitize_func_name label) = sanitize_func_name label"
    by (rule sanitize_fixes_labels [OF label])
  show "is_frame_label label" if "sanitize_func_name label = label" using label that by simp
qed (rule sanitize_fixes_labels)

text \<open>
  The hexadecimal form of a non-ASCII character is not kept apart from ASCII text: a letter
  e with an acute accent and the ASCII label spelling its code get the same function name.
\<close>

theorem sanitize_not_reversible:
  "sanitize_func_name [233] = sanitize_func_name (cps ''_xe9_'') \<and> [233] \<noteq> cps ''_xe9_''"
proof -
  have hex: "hex_digits 233 = cps ''e9''"
    by (simp add: hex_digits.simps hex_digit_def cps_def)
  have "sanitize_identifier_characters [233] = cps ''_xe9_''"
    by (simp add: sanitize_identifier_characters_def strip_def replace_char_def encode_cp_def hex
        is_space_cp_def) (simp add: cps_def)
  moreover have "sanitize_func_name (cps ''_xe9_'') = cps ''_xe9_''"
    by (rule sanitize_fixes_labels) code_simp
  moreover have "sanitize_identifier_characters (cps ''_xe9_'') = cps ''_xe9_''"
    by (rule sanitize_characters_fixed) code_simp
  ultimately have "sanitize_func_name [233] = sanitize_func_name (cps ''_xe9_'')"
    by (simp add: sanitize_func_name_def)
  then show ?thesis by (simp add: cps_def)
qed

section \<open>Executable input names\<close>

definition kind_is_request_input :: "string \<Rightarrow> bool" where
  "kind_is_request_input kind \<longleftrightarrow> kind \<in> set request_input_kinds"

definition structural_role_of :: "string \<Rightarrow> structural_role option" where
  "structural_role_of kind = Option.bind (known_node_spec kind) spec_structural_role"

fun strip_prefix :: "'a list \<Rightarrow> 'a list \<Rightarrow> 'a list option" where
  "strip_prefix [] s = Some s"
| "strip_prefix (p # ps) [] = None"
| "strip_prefix (p # ps) (c # s) = (if p = c then strip_prefix ps s else None)"

definition executable_input_name :: "string \<Rightarrow> ustr \<Rightarrow> ustr option \<Rightarrow> ustr option \<Rightarrow> ustr list option \<Rightarrow>
    name_error + ustr" where
  "executable_input_name kind label source_handle instance_of source_handles =
     (if kind_is_request_input kind then
        (case source_handle of None \<Rightarrow> Inl Request_handle_missing | Some h \<Rightarrow> Inr h)
      else case structural_role_of kind of
        Some Role_occurrence \<Rightarrow>
          (case Option.bind source_handle (strip_prefix (cps ''out__'')) of
             None \<Rightarrow> Inl Malformed_output_handle
           | Some [] \<Rightarrow> Inl Malformed_output_handle
           | Some port \<Rightarrow>
               let port_name = sanitize_func_name port
               in case instance_of of
                    None \<Rightarrow> Inr port_name
                  | Some _ \<Rightarrow>
                      (case source_handles of
                         None \<Rightarrow> Inl Undeclared_output_handle
                       | Some handles \<Rightarrow>
                           if source_handle \<notin> Some ` set handles then Inl Undeclared_output_handle
                           else let instance_name = sanitize_func_name label
                             in Inr (if length handles = 1 then instance_name
                                     else instance_name @ [95] @ port_name)))
      | Some Role_port \<Rightarrow>
          (case source_handle of
             None \<Rightarrow> Inl Port_handle_missing
           | Some h \<Rightarrow> if h = [] then Inl Port_handle_missing else Inr (sanitize_func_name h))
      | None \<Rightarrow> Inr (sanitize_func_name label))"

record source_node =
  src_type :: string
  src_label :: ustr
  src_instance_of :: "ustr option"
  src_definition_id :: "ustr option"

type_synonym uedge = "ustr named_edge"

text \<open>A submodel definition is the list of its output port names.\<close>

definition edge_input_name :: "uedge \<Rightarrow> source_node \<Rightarrow> (ustr, ustr list) odict \<Rightarrow> name_error + ustr" where
  "edge_input_name e src submodels =
     (if kind_is_request_input (src_type src) \<and> edge_source_handle e = None
      then Inl Request_handle_missing
      else let instance_of = (if structural_role_of (src_type src) = Some Role_occurrence
                              then src_instance_of src else None);
               name = executable_input_name (src_type src) (src_label src) (edge_source_handle e) instance_of
        in case instance_of of
             None \<Rightarrow> name None
           | Some _ \<Rightarrow>
               (case src_definition_id src of
                  None \<Rightarrow> Inl Definition_id_missing
                | Some d \<Rightarrow>
                    (case map_of submodels d of
                       None \<Rightarrow> Inl Unknown_definition
                     | Some ports \<Rightarrow> name (Some (map (\<lambda>p. cps ''out__'' @ p) ports)))))"

record input_graph =
  ig_nodes :: "(ustr, source_node) odict"
  ig_edges :: "uedge list"
  ig_submodels :: "(ustr, ustr list) odict"

definition incoming_edge_bindings :: "input_graph \<Rightarrow> ustr \<Rightarrow> name_error + (uedge \<times> ustr) list" where
  "incoming_edge_bindings g node_id =
     map_result (\<lambda>e. case map_of (ig_nodes g) (edge_source e) of
         None \<Rightarrow> Inl (Missing_source_node (edge_source e))
       | Some src \<Rightarrow> bind_result (edge_input_name e src (ig_submodels g)) (\<lambda>name. Inr (e, name)))
       (filter (\<lambda>e. edge_target e = node_id) (ig_edges g))"

definition incoming_edge_for_name :: "input_graph \<Rightarrow> ustr \<Rightarrow> ustr \<Rightarrow> name_error + uedge" where
  "incoming_edge_for_name g node_id input_name =
     bind_result (incoming_edge_bindings g node_id)
       (\<lambda>bindings.
          let found = map fst (filter (\<lambda>(e, name). name = input_name) bindings)
          in if length found \<noteq> 1
             then if found = [] then Inl (Input_not_connected (map snd bindings))
                  else Inl (Input_ambiguous (map edge_id found))
             else Inr (hd found))"

datatype 'f node_output = Single 'f | Frames "(ustr, 'f) odict"

definition select_edge_source_output :: "'f node_output \<Rightarrow> uedge \<Rightarrow> name_error + 'f" where
  "select_edge_source_output out e =
     (case out of
        Single f \<Rightarrow> Inr f
      | Frames frames \<Rightarrow>
          if frames = [] then Inl No_frames_emitted
          else case edge_source_handle e of
                 None \<Rightarrow> Inl Frame_handle_missing
               | Some h \<Rightarrow> (case map_of frames h of None \<Rightarrow> Inl Unknown_frame | Some f \<Rightarrow> Inr f))"

lemma bindings_edges:
  assumes "incoming_edge_bindings g node_id = Inr bs"
  shows "map fst bs = filter (\<lambda>e. edge_target e = node_id) (ig_edges g)"
    "(e, name) \<in> set bs \<Longrightarrow> \<exists>src. map_of (ig_nodes g) (edge_source e) = Some src \<and>
      edge_input_name e src (ig_submodels g) = Inr name"
proof -
  let ?es = "filter (\<lambda>e. edge_target e = node_id) (ig_edges g)"
  have all: "list_all2 (\<lambda>e b. fst b = e \<and> (\<exists>src. map_of (ig_nodes g) (edge_source e) = Some src \<and>
      edge_input_name e src (ig_submodels g) = Inr (snd b))) ?es bs"
    using assms [unfolded incoming_edge_bindings_def map_result_Inr]
    by (rule list_all2_mono) (auto split: option.splits simp: bind_result_Inr)
  then show "map fst bs = ?es"
    by (induction rule: list_all2_induct) auto
  show "(e, name) \<in> set bs \<Longrightarrow> \<exists>src. map_of (ig_nodes g) (edge_source e) = Some src \<and>
      edge_input_name e src (ig_submodels g) = Inr name"
    using all by (induction rule: list_all2_induct) auto
qed

text \<open>
  Resolving an input name picks an edge into the node that carries that name, and no other
  edge into the node does.
\<close>

theorem incoming_edge_unique:
  assumes "incoming_edge_for_name g node_id name = Inr e"
  shows "\<exists>bs. incoming_edge_bindings g node_id = Inr bs \<and>
    map fst bs = filter (\<lambda>e. edge_target e = node_id) (ig_edges g) \<and>
    filter (\<lambda>b. snd b = name) bs = [(e, name)]"
proof -
  obtain bs where bs: "incoming_edge_bindings g node_id = Inr bs"
    and one: "length (filter (\<lambda>b. snd b = name) bs) = 1" "hd (map fst (filter (\<lambda>b. snd b = name) bs)) = e"
    using assms
    by (auto simp: incoming_edge_for_name_def bind_result_Inr Let_def case_prod_unfold split: if_splits)
  obtain b where b: "filter (\<lambda>b. snd b = name) bs = [b]"
    using one(1) by (auto simp: length_Suc_conv)
  then have "b \<in> set (filter (\<lambda>b. snd b = name) bs)" by simp
  then have "snd b = name" by simp
  then have "b = (e, name)" using one(2) b by (cases b) simp
  then show ?thesis using bs b bindings_edges(1) [OF bs] by blast
qed

definition sample_inputs :: input_graph where
  "sample_inputs = \<lparr>ig_nodes = [(cps ''q'', \<lparr>src_type = ''apiInput'', src_label = cps ''Q'',
        src_instance_of = None, src_definition_id = None\<rparr>),
      (cps ''t'', \<lparr>src_type = ''polars'', src_label = cps ''My rates'',
        src_instance_of = None, src_definition_id = None\<rparr>)],
     ig_edges = [\<lparr>edge_id = cps ''1'', edge_source = cps ''q'', edge_target = cps ''n'',
         edge_source_handle = Some (cps ''policy''), edge_target_handle = None\<rparr>,
       \<lparr>edge_id = cps ''2'', edge_source = cps ''t'', edge_target = cps ''n'',
         edge_source_handle = None, edge_target_handle = None\<rparr>],
     ig_submodels = []\<rparr>"

theorem incoming_edge_unique_witness:
  "\<exists>e. incoming_edge_for_name sample_inputs (cps ''n'') (cps ''My_rates'') = Inr e \<and>
     edge_id e = cps ''2'' \<and>
     (\<exists>bs. incoming_edge_bindings sample_inputs (cps ''n'') = Inr bs \<and>
       filter (\<lambda>b. snd b = cps ''My_rates'') bs = [(e, cps ''My_rates'')])"
proof -
  have eq: "incoming_edge_for_name sample_inputs (cps ''n'') (cps ''My_rates'') =
      Inr (ig_edges sample_inputs ! 1)" "edge_id (ig_edges sample_inputs ! 1) = cps ''2''"
    by code_simp+
  show ?thesis using incoming_edge_unique [OF eq(1)] eq by blast
qed

section \<open>Input mappings\<close>

fun duplicates_loop :: "'n list \<Rightarrow> 'n set \<Rightarrow> 'n list \<Rightarrow> 'n list" where
  "duplicates_loop [] seen duplicates = duplicates"
| "duplicates_loop (name # names) seen duplicates =
     (if name \<in> seen
      then duplicates_loop names seen
        (if name \<notin> set duplicates then duplicates @ [name] else duplicates)
      else duplicates_loop names (insert name seen) duplicates)"

definition duplicate_input_names :: "'n list \<Rightarrow> 'n list" where
  "duplicate_input_names names = duplicates_loop names {} []"

lemma duplicates_loop_spec:
  assumes "set dups \<subseteq> seen" "distinct dups"
  shows "distinct (duplicates_loop names seen dups) \<and>
    set (duplicates_loop names seen dups) =
      set dups \<union> {n. n \<in> set names \<and> (n \<in> seen \<or> 2 \<le> count_list names n)}"
  using assms
proof (induction names seen dups rule: duplicates_loop.induct)
  case (2 name names seen dups)
  show ?case
  proof (cases "name \<in> seen")
    case True
    then show ?thesis using 2 by (cases "name \<in> set dups") auto
  next
    case False
    then have "name \<notin> set dups" using 2 by auto
    moreover have "name \<in> set names \<longleftrightarrow> 1 \<le> count_list names name"
      using count_list_0_iff [of names name] by linarith
    ultimately show ?thesis using False 2 by auto
  qed
qed simp

lemma distinct_count_list: "distinct xs \<longleftrightarrow> (\<forall>x. count_list xs x \<le> 1)"
proof (induction xs)
  case (Cons a xs)
  have "a \<notin> set xs \<longleftrightarrow> count_list xs a = 0" by (simp add: count_list_0_iff)
  then show ?case using Cons by (auto simp: le_Suc_eq)
qed simp

lemma duplicate_input_names_spec:
  "distinct (duplicate_input_names names) \<and>
   set (duplicate_input_names names) = {n. 2 \<le> count_list names n}"
proof -
  have "n \<in> set names" if "2 \<le> count_list names n" for n
    using that count_list_0_iff [of names n] by auto
  then show ?thesis
    using duplicates_loop_spec [of "[]" "{}" names] by (auto simp: duplicate_input_names_def)
qed

lemma no_duplicates: "duplicate_input_names names = [] \<longleftrightarrow> distinct names"
proof -
  have "duplicate_input_names names = [] \<longleftrightarrow> set (duplicate_input_names names) = {}" by simp
  also have "\<dots> \<longleftrightarrow> (\<forall>n. \<not> 2 \<le> count_list names n)"
    using duplicate_input_names_spec [of names] by simp
  also have "\<dots> \<longleftrightarrow> distinct names" by (simp add: distinct_count_list not_le less_Suc_eq_le numeral_2_eq_2)
  finally show ?thesis .
qed

datatype mapping_error =
    Mapping_not_an_object
  | Invalid_mapping_entries
  | Not_one_to_one "(ustr \<times> ustr) list" "ustr list"
  | Duplicate_logical_names "ustr list"

definition valid_mapping_entry :: "ustr pyval \<times> ustr pyval \<Rightarrow> bool" where
  "valid_mapping_entry entry =
     (case entry of
        (PStr logical, PStr current) \<Rightarrow>
          logical \<noteq> [] \<and> sanitize_func_name logical = logical \<and> current \<noteq> []
      | _ \<Rightarrow> False)"

fun string_entries :: "(ustr pyval \<times> ustr pyval) list \<Rightarrow> (ustr \<times> ustr) list" where
  "string_entries [] = []"
| "string_entries ((PStr k, PStr v) # rest) = (k, v) # string_entries rest"
| "string_entries (_ # rest) = string_entries rest"

definition logical_by_current :: "(ustr \<times> ustr) list \<Rightarrow> (ustr, ustr) odict" where
  "logical_by_current mapping = invert mapping"

definition resolve_input_mapping_names :: "ustr list \<Rightarrow> ustr pyval \<Rightarrow> mapping_error + ustr list" where
  "resolve_input_mapping_names source_names input_mapping =
     (case input_mapping of
        PDict entries \<Rightarrow>
          if \<not> list_all valid_mapping_entry entries then Inl Invalid_mapping_entries
          else
            let mapping = string_entries entries;
                stale = filter (\<lambda>(logical, current). current \<notin> set source_names) mapping;
                dups = duplicate_input_names (map snd mapping)
            in if stale \<noteq> [] \<or> dups \<noteq> [] then Inl (Not_one_to_one stale dups)
               else
                 let by_current = logical_by_current mapping;
                     resolved = map (\<lambda>c. case map_of by_current c of Some l \<Rightarrow> l | None \<Rightarrow> c) source_names;
                     dup_logical = duplicate_input_names resolved
                 in if dup_logical \<noteq> [] then Inl (Duplicate_logical_names dup_logical) else Inr resolved
      | _ \<Rightarrow> Inl Mapping_not_an_object)"

text \<open>
  When an input mapping resolves, the names it gives the incoming edges are distinct, one
  per edge and aligned with them; every mapping entry renames exactly the edge it names, which
  exists; and an edge no entry names keeps its own name.
\<close>

theorem resolve_input_mapping_one_to_one:
  assumes "resolve_input_mapping_names source_names (PDict entries) = Inr resolved"
  shows "length resolved = length source_names \<and> distinct resolved \<and>
    (\<forall>(logical, current) \<in> set (string_entries entries).
      \<exists>i < length source_names. source_names ! i = current \<and> resolved ! i = logical) \<and>
    (\<forall>i < length source_names. source_names ! i \<notin> snd ` set (string_entries entries) \<longrightarrow>
      resolved ! i = source_names ! i)"
proof -
  let ?m = "string_entries entries"
  let ?f = "\<lambda>c. case map_of (invert ?m) c of Some l \<Rightarrow> l | None \<Rightarrow> c"
  have known: "\<forall>(l, c) \<in> set ?m. c \<in> set source_names"
    and dist: "distinct (map snd ?m)"
    and res: "resolved = map ?f source_names" "distinct resolved"
    using assms
    by (auto simp: resolve_input_mapping_names_def Let_def no_duplicates logical_by_current_def
        filter_empty_conv split: if_splits)
  have hit: "?f c = l" if "(l, c) \<in> set ?m" for l c
    using map_of_invert [OF dist, of c l] that by simp
  have miss: "?f c = c" if "c \<notin> snd ` set ?m" for c
    using map_of_invert [OF dist, of c] that by (auto simp: image_iff split: option.splits)
  have "\<exists>i < length source_names. source_names ! i = c \<and> resolved ! i = l" if "(l, c) \<in> set ?m" for l c
  proof -
    have "c \<in> set source_names" using known that by auto
    then obtain i where "i < length source_names" "source_names ! i = c" by (auto simp: in_set_conv_nth)
    then show ?thesis using hit [OF that] res(1) by auto
  qed
  moreover have "resolved ! i = source_names ! i"
    if "i < length source_names" "source_names ! i \<notin> snd ` set ?m" for i
    using miss [OF that(2)] that(1) res(1) by simp
  ultimately show ?thesis using res by auto
qed

theorem resolve_input_mapping_one_to_one_witness:
  "resolve_input_mapping_names [cps ''a'', cps ''b''] (PDict [(PStr (cps ''rates''), PStr (cps ''b''))])
     = Inr [cps ''a'', cps ''rates''] \<and> distinct [cps ''a'', cps ''rates'']"
proof -
  have eq: "resolve_input_mapping_names [cps ''a'', cps ''b'']
      (PDict [(PStr (cps ''rates''), PStr (cps ''b''))]) = Inr [cps ''a'', cps ''rates'']"
    by code_simp
  show ?thesis using resolve_input_mapping_one_to_one [OF eq] eq by blast
qed

section \<open>Names a node's code can see\<close>

definition bind_name :: "ustr \<Rightarrow> ustr \<Rightarrow> (ustr, ustr) odict \<Rightarrow> (ustr, ustr) odict option" where
  "bind_name name eid by_name =
     (case map_of by_name name of
        Some previous \<Rightarrow> if previous \<noteq> eid then None else Some (AList.update name eid by_name)
      | None \<Rightarrow> Some (AList.update name eid by_name))"

fun bind_names :: "(ustr \<times> ustr) list \<Rightarrow> (ustr, ustr) odict \<Rightarrow> (ustr, ustr) odict option" where
  "bind_names [] by_name = Some by_name"
| "bind_names ((name, eid) # rest) by_name =
     (case bind_name name eid by_name of None \<Rightarrow> None | Some d \<Rightarrow> bind_names rest d)"

definition edge_names :: "(ustr, source_node) odict \<Rightarrow> (ustr, ustr list) odict \<Rightarrow> uedge list \<Rightarrow>
    name_error + ustr list" where
  "edge_names nodes submodels edges =
     map_result (\<lambda>e. case map_of nodes (edge_source e) of
         None \<Rightarrow> Inl (Missing_source_node (edge_source e))
       | Some src \<Rightarrow> edge_input_name e src submodels) edges"

definition stepped_surface_allows_input_references :: "node_type \<Rightarrow> bool" where
  "stepped_surface_allows_input_references t =
     (case map_of stepped_node_types t of None \<Rightarrow> False | Some s \<Rightarrow> surface_inputs s = Inputs_edges)"

text \<open>
  \<open>resolve_orig_source_names\<close>: the outer \<open>Inl\<close> is an edge without an executable name, the
  inner one the resolver's exception; None says no aliasing is required.
\<close>

definition resolve_orig_source_names :: "node_type \<Rightarrow> ustr pyval option \<Rightarrow> uedge list \<Rightarrow>
    (ustr, source_node) odict \<Rightarrow> (ustr, ustr list) odict \<Rightarrow>
    name_error + mapping_error + ustr list option" where
  "resolve_orig_source_names ty raw incoming nodes submodels =
     (case raw of
        None \<Rightarrow> Inr (Inr None)
      | Some m \<Rightarrow>
          if \<not> stepped_surface_allows_input_references ty then Inr (Inr None)
          else bind_result (edge_names nodes submodels incoming)
                 (\<lambda>names. Inr (bind_result (resolve_input_mapping_names names m) (\<lambda>l. Inr (Some l)))))"

definition plain_entry :: "ustr pyval \<times> ustr pyval \<Rightarrow> bool" where
  "plain_entry entry =
     (case entry of (PStr l, PStr c) \<Rightarrow> l \<noteq> [] \<and> c \<noteq> [] | _ \<Rightarrow> False)"

definition bind_mapping :: "ustr pyval option \<Rightarrow> ustr list \<Rightarrow> ustr list \<Rightarrow> (ustr, ustr) odict \<Rightarrow>
    mapping_error + (ustr, ustr) odict option" where
  "bind_mapping raw source_names ids by_name =
     (case raw of
        None \<Rightarrow> Inr (Some by_name)
      | Some (PDict entries) \<Rightarrow>
          if \<not> list_all plain_entry entries then Inr None
          else bind_result (resolve_input_mapping_names source_names (PDict entries))
                 (\<lambda>logical. Inr (bind_names (zip logical ids) by_name))
      | Some _ \<Rightarrow> Inr None)"

definition alias_first :: "bool \<Rightarrow> uedge list \<Rightarrow> (ustr, ustr) odict \<Rightarrow> (ustr, ustr) odict option" where
  "alias_first alias_first_as_df edges by_name =
     (if \<not> alias_first_as_df then Some by_name
      else (case edges of [] \<Rightarrow> None | e # _ \<Rightarrow> bind_name (cps ''df'') (edge_id e) by_name))"

text \<open>
  \<open>code_input_bindings\<close>: \<open>Inr None\<close> is the \<open>None\<close> that says the names cannot be derived; an
  error is the resolver's exception. \<open>raw\<close> is the node's \<open>input_mapping\<close>, None when absent.
\<close>

definition code_input_bindings :: "ustr pyval option \<Rightarrow> uedge list \<Rightarrow> (ustr, source_node) odict \<Rightarrow>
    (ustr, ustr list) odict \<Rightarrow> bool \<Rightarrow> mapping_error + (ustr, ustr) odict option" where
  "code_input_bindings raw edges nodes submodels alias_first_as_df =
     (case edge_names nodes submodels edges of
        Inl _ \<Rightarrow> Inr None
      | Inr source_names \<Rightarrow>
          let ids = map edge_id edges
          in case bind_names (zip source_names ids) [] of
               None \<Rightarrow> Inr None
             | Some by_name \<Rightarrow>
                 bind_result (bind_mapping raw source_names ids by_name)
                   (\<lambda>r. Inr (Option.bind r (alias_first alias_first_as_df edges))))"

lemma bind_name_keeps:
  assumes "bind_name n i d = Some d'"
  shows "map_of d' n = Some i" "map_of d m = Some j \<Longrightarrow> map_of d' m = Some j"
  using assms by (auto simp: bind_name_def dict_simps split: option.splits if_splits)

lemma bind_names_keeps:
  "bind_names ps d = Some d' \<Longrightarrow> map_of d m = Some j \<Longrightarrow> map_of d' m = Some j"
  by (induction ps d rule: bind_names.induct) (auto split: option.splits dest: bind_name_keeps)

lemma bind_names_binds:
  "bind_names ps d = Some d' \<Longrightarrow> (n, i) \<in> set ps \<Longrightarrow> map_of d' n = Some i"
proof (induction ps d rule: bind_names.induct)
  case (2 name eid rest by_name)
  then show ?case by (auto split: option.splits dest: bind_names_keeps bind_name_keeps(1))
qed simp

lemma bind_names_zip:
  "bind_names (zip ns ids) d = Some d' \<Longrightarrow> length ns = length ids \<Longrightarrow> i < length ns \<Longrightarrow>
    map_of d' (ns ! i) = Some (ids ! i)"
  by (rule bind_names_binds) (auto simp: set_zip)

definition logical_names :: "ustr pyval option \<Rightarrow> ustr list \<Rightarrow> mapping_error + ustr list" where
  "logical_names raw names =
     (case raw of None \<Rightarrow> Inr names | Some m \<Rightarrow> resolve_input_mapping_names names m)"

lemma bind_mapping_spec:
  assumes "bind_mapping raw names ids d = Inr (Some d')" "length names = length ids"
    and "\<forall>i < length names. map_of d (names ! i) = Some (ids ! i)"
  shows "(\<forall>m j. map_of d m = Some j \<longrightarrow> map_of d' m = Some j) \<and>
    (\<exists>logical. logical_names raw names = Inr logical \<and> length logical = length names \<and>
      (\<forall>i < length names. map_of d' (logical ! i) = Some (ids ! i)))"
proof (cases raw)
  case None
  then show ?thesis using assms by (auto simp: bind_mapping_def logical_names_def)
next
  case (Some m)
  with assms(1) obtain entries logical where m: "m = PDict entries"
    and l: "resolve_input_mapping_names names (PDict entries) = Inr logical"
    and b: "bind_names (zip logical ids) d = Some d'"
    by (auto simp: bind_mapping_def bind_result_Inr split: pyval.splits if_splits)
  have len: "length logical = length names"
    using l by (auto simp: resolve_input_mapping_names_def Let_def split: if_splits)
  then have "\<forall>i < length names. map_of d' (logical ! i) = Some (ids ! i)"
    using bind_names_zip [OF b] assms(2) by simp
  then show ?thesis using Some m l len bind_names_keeps [OF b] by (auto simp: logical_names_def)
qed

text \<open>
  C7: What a node's code can see is consistent: when the bindings are derived, the executable name
  of every incoming edge and its logical name under the input mapping are both bound to that
  edge's id, and with the alias \<open>df\<close> is bound to the first edge, so no name was rebound.
\<close>

theorem code_input_bindings_consistent:
  assumes "code_input_bindings raw edges nodes submodels alias_first_as_df = Inr (Some by_name)"
  shows "\<exists>names logical. edge_names nodes submodels edges = Inr names \<and>
    logical_names raw names = Inr logical \<and>
    (\<forall>i < length edges. map_of by_name (names ! i) = Some (edge_id (edges ! i)) \<and>
      map_of by_name (logical ! i) = Some (edge_id (edges ! i))) \<and>
    (alias_first_as_df \<longrightarrow> edges \<noteq> [] \<and> map_of by_name (cps ''df'') = Some (edge_id (hd edges)))"
proof -
  obtain names d0 d1 where n: "edge_names nodes submodels edges = Inr names"
    and 0: "bind_names (zip names (map edge_id edges)) [] = Some d0"
    and 1: "bind_mapping raw names (map edge_id edges) d0 = Inr (Some d1)"
    and a: "alias_first alias_first_as_df edges d1 = Some by_name"
    using assms
    by (auto simp: code_input_bindings_def Let_def bind_result_Inr bind_eq_Some_conv
        split: sum.splits option.splits)
  have 2: "if alias_first_as_df then edges \<noteq> [] \<and> bind_name (cps ''df'') (edge_id (hd edges)) d1 = Some by_name
      else by_name = d1"
    using a by (cases edges) (auto simp: alias_first_def)
  have len: "length names = length edges"
    using n by (auto simp: edge_names_def map_result_Inr dest: list_all2_lengthD)
  have b0: "\<forall>i < length names. map_of d0 (names ! i) = Some (map edge_id edges ! i)"
    using bind_names_zip [OF 0] len by simp
  obtain logical where keep: "\<forall>m j. map_of d0 m = Some j \<longrightarrow> map_of d1 m = Some j"
    and l: "logical_names raw names = Inr logical" "length logical = length names"
      "\<forall>i < length names. map_of d1 (logical ! i) = Some (map edge_id edges ! i)"
    using bind_mapping_spec [OF 1 _ b0] len by auto
  have "\<forall>m j. map_of d1 m = Some j \<longrightarrow> map_of by_name m = Some j"
    using 2 by (auto split: if_splits dest: bind_name_keeps(2))
  then have "\<forall>i < length edges. map_of by_name (names ! i) = Some (edge_id (edges ! i)) \<and>
      map_of by_name (logical ! i) = Some (edge_id (edges ! i))"
    using b0 keep l len by simp
  moreover have "alias_first_as_df \<longrightarrow> edges \<noteq> [] \<and> map_of by_name (cps ''df'') = Some (edge_id (hd edges))"
    using 2 by (auto dest: bind_name_keeps(1))
  ultimately show ?thesis using n l by blast
qed

lemma sample_edge_names:
  "edge_names (ig_nodes sample_inputs) [] (ig_edges sample_inputs) = Inr [cps ''policy'', cps ''My_rates'']"
  by code_simp

lemma sample_mapping:
  "resolve_input_mapping_names [cps ''policy'', cps ''My_rates'']
     (PDict [(PStr (cps ''rates''), PStr (cps ''My_rates''))]) = Inr [cps ''policy'', cps ''rates'']"
  by code_simp

theorem code_input_bindings_consistent_witness:
  "code_input_bindings (Some (PDict [(PStr (cps ''rates''), PStr (cps ''My_rates''))]))
     (ig_edges sample_inputs) (ig_nodes sample_inputs) [] True =
     Inr (Some [(cps ''policy'', cps ''1''), (cps ''My_rates'', cps ''2''), (cps ''rates'', cps ''2''),
       (cps ''df'', cps ''1'')]) \<and>
   (\<exists>names. edge_names (ig_nodes sample_inputs) [] (ig_edges sample_inputs) = Inr names)"
proof -
  have ids: "map edge_id (ig_edges sample_inputs) = [cps ''1'', cps ''2'']" by code_simp
  have names: "bind_names (zip [cps ''policy'', cps ''My_rates''] [cps ''1'', cps ''2'']) [] =
      Some [(cps ''policy'', cps ''1''), (cps ''My_rates'', cps ''2'')]" by code_simp
  have mapped: "bind_mapping (Some (PDict [(PStr (cps ''rates''), PStr (cps ''My_rates''))]))
      [cps ''policy'', cps ''My_rates''] [cps ''1'', cps ''2'']
      [(cps ''policy'', cps ''1''), (cps ''My_rates'', cps ''2'')] =
      Inr (Some [(cps ''policy'', cps ''1''), (cps ''My_rates'', cps ''2''), (cps ''rates'', cps ''2'')])"
    by (simp add: bind_mapping_def plain_entry_def sample_mapping bind_name_def) (simp add: cps_def)
  have df: "alias_first True (ig_edges sample_inputs)
      [(cps ''policy'', cps ''1''), (cps ''My_rates'', cps ''2''), (cps ''rates'', cps ''2'')] =
      Some [(cps ''policy'', cps ''1''), (cps ''My_rates'', cps ''2''), (cps ''rates'', cps ''2''),
        (cps ''df'', cps ''1'')]" by code_simp
  have eq: "code_input_bindings (Some (PDict [(PStr (cps ''rates''), PStr (cps ''My_rates''))]))
     (ig_edges sample_inputs) (ig_nodes sample_inputs) [] True =
     Inr (Some [(cps ''policy'', cps ''1''), (cps ''My_rates'', cps ''2''), (cps ''rates'', cps ''2''),
       (cps ''df'', cps ''1'')])"
    unfolding code_input_bindings_def sample_edge_names sum.case ids Let_def names option.case mapped
      bind_result_simps bind.bind_lunit df ..
  show ?thesis using code_input_bindings_consistent [OF eq] eq by blast
qed

end
