(* ===== verification/Py_Text.thy ===== *)
theory Py_Text
  imports Prelude
begin

text \<open>
  Text as the components read and write it: \<open>str\<close> of a value, \<open>strip\<close>, and \<open>int\<close> of a decimal
  numeral; and reading and writing the dictionaries of a config by key, with Python's defaults. A
  character is one of the first 256 code points; only ASCII digits are digits. The lemmas show that \<open>int\<close> and \<open>str\<close> undo each other on canonical numerals.
\<close>

text \<open>
  \<open>int(raw)\<close> of ASCII text: surrounding white space, a sign, and digits in which single
  underscores may separate groups, at most 4300 of them.
\<close>

definition is_space :: "char \<Rightarrow> bool" where
  "is_space c \<longleftrightarrow> (let n = (of_char c :: nat) in n = 32 \<or> (9 \<le> n \<and> n \<le> 13))"

definition strip_space :: "string \<Rightarrow> string" where
  "strip_space s = rev (dropWhile is_space (rev (dropWhile is_space s)))"

definition digit_of :: "char \<Rightarrow> nat option" where
  "digit_of c = (let n = (of_char c :: nat) in if 48 \<le> n \<and> n \<le> 57 then Some (n - 48) else None)"

fun digits_value :: "string \<Rightarrow> nat \<Rightarrow> nat \<Rightarrow> (nat \<times> nat) option" where
  "digits_value [] seen acc = Some (seen, acc)"
| "digits_value (c # cs) seen acc =
     (case digit_of c of
        Some d \<Rightarrow> digits_value cs (seen + 1) (acc * 10 + d)
      | None \<Rightarrow>
          (case cs of
             c' # cs' \<Rightarrow>
               (case digit_of c' of
                  Some d \<Rightarrow> if c = CHR ''_'' \<and> 0 < seen then digits_value cs' (seen + 1) (acc * 10 + d)
                            else None
                | None \<Rightarrow> None)
           | [] \<Rightarrow> None))"

definition max_str_digits :: nat where
  "max_str_digits = 4300"

definition unsigned_value :: "string \<Rightarrow> int option" where
  "unsigned_value s =
     (case digits_value s 0 0 of
        None \<Rightarrow> None
      | Some (seen, n) \<Rightarrow> if seen = 0 \<or> max_str_digits < seen then None else Some (int n))"

definition py_int :: "string \<Rightarrow> int option" where
  "py_int raw =
     (case strip_space raw of
        [] \<Rightarrow> None
      | c # cs \<Rightarrow> if c = CHR ''-'' then map_option uminus (unsigned_value cs)
                  else if c = CHR ''+'' then unsigned_value cs else unsigned_value (c # cs))"

text \<open>
  \<open>str(value)\<close>; \<open>other\<close> is the text of a float, a list or a dictionary.
\<close>

fun py_str :: "(string pyval \<Rightarrow> string) \<Rightarrow> string pyval \<Rightarrow> string" where
  "py_str other (PStr s) = s"
| "py_str other PNone = ''None''"
| "py_str other (PBool b) = (if b then ''True'' else ''False'')"
| "py_str other (PInt i) = show_int i"
| "py_str other v = other v"

definition py_space :: "char \<Rightarrow> bool" where
  "py_space c = (let n = of_char c :: nat
     in (9 \<le> n \<and> n \<le> 13) \<or> (28 \<le> n \<and> n \<le> 32) \<or> n = 133 \<or> n = 160)"

definition py_strip :: "string \<Rightarrow> string" where
  "py_strip s = rev (dropWhile py_space (rev (dropWhile py_space s)))"

section \<open>Dictionaries with text keys\<close>

type_synonym pv = "string pyval"

type_synonym pydict = "(pv \<times> pv) list"

definition get_or :: "string \<Rightarrow> pv \<Rightarrow> pydict \<Rightarrow> pv" where
  "get_or k dflt d = (case map_of d (PStr k) of None \<Rightarrow> dflt | Some v \<Rightarrow> v)"

definition dict_has :: "string \<Rightarrow> pydict \<Rightarrow> bool" where
  "dict_has k d \<longleftrightarrow> map_of d (PStr k) \<noteq> None"

definition dict_put :: "string \<Rightarrow> pv \<Rightarrow> pydict \<Rightarrow> pydict" where
  "dict_put k v d = AList.update (PStr k) v d"

text \<open>\<open>str(v or "")\<close>.\<close>

definition text_or_empty :: "(pv \<Rightarrow> string) \<Rightarrow> pv \<Rightarrow> string" where
  "text_or_empty other v = (if py_truthy v then py_str other v else [])"

lemma get_or_put: "get_or k dflt (dict_put k' v d) = (if k = k' then v else get_or k dflt d)"
  by (simp add: get_or_def dict_put_def dict_simps)

lemma get_or_cong: "map_of d (PStr k) = map_of d' (PStr k) \<Longrightarrow> get_or k v d = get_or k v d'"
  by (simp add: get_or_def)

section \<open>Numerals\<close>

definition is_digit :: "char \<Rightarrow> bool" where
  "is_digit c \<longleftrightarrow> digit_of c \<noteq> None"

text \<open>The regular expression \<open>-?(?:0|[1-9]\d*)\<close>.\<close>

definition is_natural_text :: "string \<Rightarrow> bool" where
  "is_natural_text s \<longleftrightarrow> s = ''0'' \<or> (s \<noteq> [] \<and> hd s \<noteq> CHR ''0'' \<and> list_all is_digit s)"

definition is_integer_text :: "string \<Rightarrow> bool" where
  "is_integer_text s \<longleftrightarrow>
     is_natural_text (case s of c # r \<Rightarrow> if c = CHR ''-'' then r else s | [] \<Rightarrow> [])"

lemma digit_of_Some: "digit_of c = Some d \<longleftrightarrow> d < 10 \<and> c = digit_char d"
proof -
  have "char_of (of_char c :: nat) = c" by simp
  then show ?thesis
    by (auto simp: digit_of_def digit_char_def Let_def)
qed

lemma is_digit_obtain:
  assumes "is_digit c"
  obtains d where "d < 10" "c = digit_char d"
  using assms by (auto simp: is_digit_def digit_of_Some)

lemma digit_of_char [simp]: "d < 10 \<Longrightarrow> digit_of (digit_char d) = Some d"
  by (simp add: digit_of_Some)

lemma digit_char_inject: "d < 10 \<Longrightarrow> e < 10 \<Longrightarrow> digit_char d = digit_char e \<longleftrightarrow> d = e"
  by (metis digit_of_char option.inject)

lemma digit_char_0 [simp]: "digit_char 0 = CHR ''0''"
  unfolding digit_char_def by code_simp

lemma digits_value_all:
  "list_all is_digit s \<Longrightarrow>
   digits_value s k acc = Some (k + length s, foldl (\<lambda>a c. a * 10 + the (digit_of c)) acc s)"
  by (induction s arbitrary: k acc) (auto simp: is_digit_def)

lemma show_nat_small: "n < 10 \<Longrightarrow> show_nat n = [digit_char n]"
  by (simp add: show_nat.simps)

lemma show_nat_step: "10 \<le> n \<Longrightarrow> show_nat n = show_nat (n div 10) @ [digit_char (n mod 10)]"
  by (simp add: show_nat.simps [of n])

lemma show_nat_digits: "list_all is_digit (show_nat n) \<and> show_nat n \<noteq> []"
proof (induction n rule: show_nat.induct)
  case (1 n)
  show ?case
  proof (cases "n < 10")
    case True
    then show ?thesis by (simp add: show_nat_small is_digit_def)
  next
    case False
    then show ?thesis using 1 by (simp add: show_nat_step is_digit_def)
  qed
qed

lemma value_show_nat: "foldl (\<lambda>a c. a * 10 + the (digit_of c)) 0 (show_nat n) = n"
proof (induction n rule: show_nat.induct)
  case (1 n)
  show ?case
  proof (cases "n < 10")
    case True
    then show ?thesis by (simp add: show_nat_small)
  next
    case False
    then show ?thesis using 1 by (simp add: show_nat_step)
  qed
qed

text \<open>A numeral without a leading zero is the text of its value.\<close>

lemma show_nat_value_pos:
  "list_all is_digit s \<Longrightarrow> s \<noteq> [] \<Longrightarrow> hd s \<noteq> CHR ''0'' \<Longrightarrow>
   show_nat (foldl (\<lambda>a c. a * 10 + the (digit_of c)) 0 s) = s \<and>
   0 < foldl (\<lambda>a c. a * 10 + the (digit_of c)) 0 s"
proof (induction s rule: rev_induct)
  case (snoc c s)
  let ?v = "foldl (\<lambda>a c. a * 10 + the (digit_of c)) 0 :: string \<Rightarrow> nat"
  obtain d where d: "d < 10" "c = digit_char d" using snoc.prems by (auto elim: is_digit_obtain)
  show ?case
  proof (cases "s = []")
    case True
    have "d \<noteq> 0" using snoc.prems(3) d(2) True digit_char_0 by (metis append_Nil list.sel(1))
    then show ?thesis using True d by (simp add: show_nat_small)
  next
    case False
    then have ih: "show_nat (?v s) = s" "0 < ?v s" using snoc by auto
    have v: "?v (s @ [c]) = ?v s * 10 + d" using d by simp
    have "show_nat (?v s * 10 + d) = show_nat (?v s) @ [digit_char d]"
      using ih(2) d(1) by (subst show_nat_step) simp_all
    then show ?thesis using v ih d by simp
  qed
qed simp

lemma show_nat_value:
  assumes "is_natural_text s"
  shows "show_nat (foldl (\<lambda>a c. a * 10 + the (digit_of c)) 0 s) = s"
proof (cases "s = ''0''")
  case True
  then show ?thesis by (simp add: digit_of_def show_nat_small)
next
  case False
  then show ?thesis using assms show_nat_value_pos [of s] by (simp add: is_natural_text_def)
qed

lemma natural_text_digits: "is_natural_text s \<Longrightarrow> list_all is_digit s \<and> s \<noteq> []"
  by (auto simp: is_natural_text_def is_digit_def digit_of_def)

lemma digit_not_space: "is_digit c \<Longrightarrow> \<not> is_space c"
  by (auto simp: is_digit_def digit_of_def is_space_def Let_def split: if_splits)

lemma strip_space_text:
  assumes "list_all (\<lambda>c. \<not> is_space c) s"
  shows "strip_space s = s"
proof -
  have w: "dropWhile is_space t = t" if "list_all (\<lambda>c. \<not> is_space c) t" for t
    using that by (cases t) auto
  have "list_all (\<lambda>c. \<not> is_space c) (rev s)" using assms by (simp add: list_all_iff)
  from w [OF this] w [OF assms] show ?thesis by (simp add: strip_space_def)
qed

lemma unsigned_value_natural:
  assumes "is_natural_text s" "unsigned_value s = Some i"
  shows "0 \<le> i \<and> show_nat (nat i) = s"
  using assms natural_text_digits [OF assms(1)] show_nat_value [OF assms(1)]
  by (auto simp: unsigned_value_def digits_value_all split: if_splits)

lemma natural_text_head: "is_natural_text (c # r) \<Longrightarrow> c \<noteq> CHR ''-'' \<and> c \<noteq> CHR ''+''"
  using natural_text_digits [of "c # r"] by (auto simp: is_digit_def digit_of_def)

lemma natural_text_no_space: "is_natural_text s \<Longrightarrow> list_all (\<lambda>c. \<not> is_space c) s"
  using natural_text_digits [of s] digit_not_space by (auto simp: list_all_iff)

text \<open>A canonical integer reads back to itself, minus zero to zero.\<close>

lemma show_py_int:
  assumes "is_integer_text s" "py_int s = Some i"
  shows "show_int i = (if s = ''-0'' then ''0'' else s)"
proof (cases s)
  case Nil
  then show ?thesis using assms by (simp add: is_integer_text_def is_natural_text_def)
next
  case (Cons c r)
  show ?thesis
  proof (cases "c = CHR ''-''")
    case True
    then have n: "is_natural_text r" using assms(1) Cons by (simp add: is_integer_text_def)
    have "\<not> is_space c" using True by (simp add: is_space_def)
    then have "strip_space s = s"
      using natural_text_no_space [OF n] Cons by (intro strip_space_text) simp
    then obtain j where j: "unsigned_value r = Some j" "i = - j"
      using assms(2) Cons True by (auto simp: py_int_def)
    have r: "0 \<le> j" "show_nat (nat j) = r" using unsigned_value_natural [OF n j(1)] by auto
    show ?thesis
    proof (cases "j = 0")
      case True
      then show ?thesis using j r \<open>c = CHR ''-''\<close> Cons
        by (auto simp: show_int_def show_nat_small)
    next
      case False
      then have "show_int i = s" using j r \<open>c = CHR ''-''\<close> Cons by (simp add: show_int_def)
      moreover have "s \<noteq> ''-0''"
      proof
        assume "s = ''-0''"
        then have "show_nat (nat j) = show_nat 0" using r Cons by (simp add: show_nat_small)
        then have "nat j = 0" using value_show_nat by metis
        then show False using False r(1) by simp
      qed
      ultimately show ?thesis by simp
    qed
  next
    case False
    then have n: "is_natural_text s" using assms(1) Cons by (simp add: is_integer_text_def)
    then have "strip_space s = s" by (intro strip_space_text natural_text_no_space)
    then have "unsigned_value s = Some i"
      using assms(2) Cons natural_text_head [of c r] n by (simp add: py_int_def)
    then show ?thesis using unsigned_value_natural [OF n] False Cons by (auto simp: show_int_def)
  qed
qed

end
