(* ===== verification/Config_Rules.thy ===== *)
theory Config_Rules
  imports Node_Specs Py_Text "HOL-Library.Sublist"
begin

text \<open>
  The validation boundary of node configs: \<^verbatim>\<open>src/haute/_config_validation.py\<close>. The retired
  and form-given key tables, the camelCase refusals, the exact-edge input selectors, the
  optimiser's analysis rules and \<open>validate_node_config\<close>, the pipeline of checks every config
  passes. A config is an ordered dictionary from keys to JSON values. What a node type's model
  declares (its keys, its Pydantic shape, its engine hooks) is the record \<open>config_model\<close>: the
  shape's validator is third-party code, so it is a field that returns the problems it reports.
  An exception is a constructor of \<open>config_error\<close> with the data its message is built from.
  Strings hold characters up to U+00FF.
\<close>

section \<open>Configs, sites and errors\<close>

type_synonym cval = "string pyval"

type_synonym config = "(string, cval) odict"

datatype loc_part = Key string | Index int

datatype key_site =
    Decorator_site string
  | Node_site string node_type
  | Port_site string cval

datatype retired_group =
    Input_identity string
  | Registry
  | Feature_selection
  | Column_mapping
  | Response_format
  | Evaluation

datatype selector_problem =
    Selector_required
  | Selector_not_text
  | Selector_unknown string "string list"
  | Selector_ambiguous string "string list"

datatype analysis_problem =
    Analysis_input_not_name
  | Analysis_not_a_list
  | Analysis_too_many nat
  | Analysis_not_names
  | Analysis_duplicates "string list"
  | Analysis_quote_id string
  | Analysis_reserved "string list"

datatype config_error =
    Removed_instance_form string
  | Retired_keys retired_group node_type "string list"
  | Form_given node_type "string list" "string list"
  | Camel_case key_site "(string \<times> string) list" "string list"
  | Camel_case_setting key_site "(string \<times> string) list" string
  | Undeclared_keys string node_type "string list"
  | Bad_selector string string selector_problem
  | Data_input_required string string
  | Not_pass_through string
  | Unsupported_selectors node_type
  | Assertion_failed
  | Bad_analysis analysis_problem
  | Bad_alias node_type cval
  | Version_and_alias node_type string cval
  | Bad_deploy_key node_type string
  | Shape_refused string node_type string string
  | Incomplete string string
  | Engine_refusal string

section \<open>The camelCase keys earlier schemas wrote\<close>

definition snake_case_keys :: "(string, string) odict" where
  "snake_case_keys =
    [(''inputMapping'', ''input_mapping''),
     (''inputType'', ''input_type''),
     (''outputType'', ''output_type''),
     (''sourceType'', ''source_type''),
     (''fileType'', ''file_type''),
     (''leftOn'', ''left_on''),
     (''rightOn'', ''right_on''),
     (''maintainOrder'', ''maintain_order''),
     (''outputMapping'', ''output_mapping''),
     (''outputColumn'', ''output_column''),
     (''rightClosed'', ''right_closed''),
     (''defaultValue'', ''default_value''),
     (''onMissing'', ''on_missing''),
     (''factorDtypes'', ''factor_dtypes''),
     (''timeUnit'', ''time_unit''),
     (''timeZone'', ''time_zone''),
     (''combinedOutputs'', ''combined_outputs''),
     (''baseValue'', ''base_value''),
     (''stepCount'', ''step_count''),
     (''definitionId'', ''definition_id''),
     (''instanceOf'', ''instance_of''),
     (''displayPath'', ''display_path''),
     (''orderBy'', ''order_by''),
     (''nullsLast'', ''nulls_last''),
     (''numberType'', ''number_type''),
     (''variableName'', ''variable_name''),
     (''valueName'', ''value_name''),
     (''nodeId'', ''node_id''),
     (''handleId'', ''handle_id'')]"

definition camel_case_key_message :: "key_site \<Rightarrow> string list \<Rightarrow>
    (key_site \<times> (string \<times> string) list) option" where
  "camel_case_key_message site ks =
     (let renamed = filter (\<lambda>k. has_key k snake_case_keys) ks
      in if renamed = [] then None
         else Some (site, map (\<lambda>k. (k, the (map_of snake_case_keys k))) renamed))"

fun text_keys :: "(cval \<times> cval) list \<Rightarrow> string list" where
  "text_keys [] = []"
| "text_keys ((PStr k, _) # rest) = k # text_keys rest"
| "text_keys (_ # rest) = text_keys rest"

fun first_endpoint_message :: "key_site \<Rightarrow> cval list \<Rightarrow>
    (key_site \<times> (string \<times> string) list) option" where
  "first_endpoint_message site [] = None"
| "first_endpoint_message site (PDict d # rest) =
     (case camel_case_key_message site (text_keys d) of
        Some m \<Rightarrow> Some m
      | None \<Rightarrow> first_endpoint_message site rest)"
| "first_endpoint_message site (_ # rest) = first_endpoint_message site rest"

definition camel_case_endpoint_message :: "string \<Rightarrow> (cval \<times> cval) list \<Rightarrow>
    (key_site \<times> (string \<times> string) list) option" where
  "camel_case_endpoint_message field port =
     (let endpoints =
        (if has_key (PStr ''targets'') port then py_get (PStr ''targets'') port
         else PList [py_get (PStr ''source'') port])
      in case endpoints of
           PList es \<Rightarrow> first_endpoint_message (Port_site field (py_get (PStr ''name'') port)) es
         | _ \<Rightarrow> None)"

definition reject_camel_case_decorator_kwargs :: "config \<Rightarrow> string \<Rightarrow> config_error + unit" where
  "reject_camel_case_decorator_kwargs kwargs func_name =
     (case camel_case_key_message (Decorator_site func_name) (filter (\<lambda>k. k \<noteq> ''_node_type'') (keys kwargs)) of
        None \<Rightarrow> Inr ()
      | Some (site, pairs) \<Rightarrow>
          Inl (Camel_case site pairs (sort (filter (\<lambda>k. has_key k snake_case_keys) (keys kwargs)))))"

section \<open>Retired and form-given keys\<close>

record removed_config_keys =
  rk_instance_of :: bool
  rk_input_identity :: "string list"
  rk_input_identity_guidance :: string
  rk_registry :: "string list"
  rk_feature_selection :: "string list"
  rk_column_mapping :: "string list"
  rk_response_format :: "string list"
  rk_evaluation :: "string list"

definition none_removed :: removed_config_keys where
  "none_removed = \<lparr>rk_instance_of = True, rk_input_identity = [], rk_input_identity_guidance = [],
     rk_registry = [], rk_feature_selection = [], rk_column_mapping = [], rk_response_format = [],
     rk_evaluation = []\<rparr>"

fun removed_config_keys_of :: "node_type \<Rightarrow> removed_config_keys" where
  "removed_config_keys_of WORKBENCH_OUTPUT = none_removed\<lparr>rk_column_mapping := [''mapping'']\<rparr>"
| "removed_config_keys_of EDGE_JOIN = none_removed\<lparr>rk_input_identity := [''baseInput'', ''joinInput''],
     rk_input_identity_guidance := ''use incoming target ports 'base' and 'join'' @ [CHR 0x27]\<rparr>"
| "removed_config_keys_of OUTPUT = none_removed\<lparr>rk_response_format := [''outputFormat'']\<rparr>"
| "removed_config_keys_of MODELLING = none_removed\<lparr>rk_registry := [''model_name''],
     rk_feature_selection := [''exclude''], rk_evaluation := [''split'', ''cross_validation'']\<rparr>"
| "removed_config_keys_of OPTIMISER = none_removed\<lparr>
     rk_input_identity := [''scored_input'', ''factors_input''],
     rk_input_identity_guidance :=
       ''use data_input and banding_source with exact connected input names'',
     rk_registry := [''model_name'']\<rparr>"
| "removed_config_keys_of SUBMODEL = none_removed\<lparr>rk_instance_of := False\<rparr>"
| "removed_config_keys_of _ = none_removed"

fun form_given_keys :: "node_type \<Rightarrow> string list" where
  "form_given_keys WORKBENCH_INPUT = [''tables'', ''sample'']"
| "form_given_keys WORKBENCH_OUTPUT = [''tables'']"
| "form_given_keys _ = []"

definition reject_removed_node_reuse_kwargs :: "config \<Rightarrow> config_error + unit" where
  "reject_removed_node_reuse_kwargs kwargs = run_checks
     [refuse_if (has_key ''of'' kwargs) (Removed_instance_form ''of=''),
      refuse_if (has_key ''instanceOf'' kwargs) (Removed_instance_form ''instanceOf'')]"

definition held_keys :: "string list \<Rightarrow> config \<Rightarrow> string list" where
  "held_keys ks config = filter (\<lambda>k. has_key k config) ks"

definition refuse_retired :: "retired_group \<Rightarrow> node_type \<Rightarrow> string list \<Rightarrow> config_error + unit" where
  "refuse_retired g nt held = refuse_if (held \<noteq> []) (Retired_keys g nt held)"

definition reject_removed_config_keys :: "node_type \<Rightarrow> config \<Rightarrow> config_error + unit" where
  "reject_removed_config_keys nt config =
     (let removed = removed_config_keys_of nt
      in run_checks
        [refuse_if (rk_instance_of removed \<and> has_key ''instanceOf'' config)
           (Removed_instance_form ''instanceOf''),
         refuse_retired (Input_identity (rk_input_identity_guidance removed)) nt
           (sort (held_keys (rk_input_identity removed) config)),
         refuse_retired Registry nt (sort (held_keys (rk_registry removed) config)),
         refuse_retired Feature_selection nt (sort (held_keys (rk_feature_selection removed) config)),
         refuse_retired Column_mapping nt (sort (held_keys (rk_column_mapping removed) config)),
         refuse_retired Response_format nt (sort (held_keys (rk_response_format removed) config)),
         refuse_retired Evaluation nt (held_keys (rk_evaluation removed) config)])"

definition reject_form_given_keys :: "node_type \<Rightarrow> config \<Rightarrow> config_error + unit" where
  "reject_form_given_keys nt config =
     (let given = filter (\<lambda>k. k \<in> set (form_given_keys nt)) [''tables'', ''sample''];
          held = held_keys given config
      in refuse_if (held \<noteq> []) (Form_given nt held given))"

section \<open>Exact-edge input selectors\<close>

definition resolve_exact_input_index :: "cval \<Rightarrow> string list \<Rightarrow> bool \<Rightarrow> string \<Rightarrow> string \<Rightarrow>
    config_error + nat option" where
  "resolve_exact_input_index selector source_names required label field =
     (if selector = PNone \<or> selector = PStr [] then
        (if required then Inl (Bad_selector label field Selector_required) else Inr None)
      else case selector of
        PStr name \<Rightarrow>
          (let matches = filter (\<lambda>i. source_names ! i = name) [0..<length source_names]
           in if matches = [] then Inl (Bad_selector label field (Selector_unknown name source_names))
              else if 1 < length matches
              then Inl (Bad_selector label field (Selector_ambiguous name source_names))
              else Inr (Some (hd matches)))
      | _ \<Rightarrow> Inl (Bad_selector label field Selector_not_text))"

definition validate_exact_input_selector :: "cval \<Rightarrow> string list \<Rightarrow> bool \<Rightarrow> string \<Rightarrow> string \<Rightarrow>
    config_error + string option" where
  "validate_exact_input_selector selector source_names required label field =
     bind_result (resolve_exact_input_index selector source_names required label field)
       (\<lambda>index. Inr (map_option (\<lambda>i. source_names ! i) index))"

definition resolve_optimiser_data_input :: "config \<Rightarrow> string list \<Rightarrow> string \<Rightarrow> string \<Rightarrow>
    config_error + string option" where
  "resolve_optimiser_data_input config source_names label field =
     bind_result (validate_exact_input_selector (py_get field config) source_names False label field)
       (\<lambda>data_input.
          if data_input = None \<and> 1 < length source_names then Inl (Data_input_required label field)
          else Inr data_input)"

definition spec_of :: "node_type \<Rightarrow> node_spec" where
  "spec_of nt = the (map_of node_specs nt)"

definition selected_input_index :: "node_type \<Rightarrow> config \<Rightarrow> string list \<Rightarrow> string \<Rightarrow>
    config_error + nat option" where
  "selected_input_index nt config input_names label =
     (let spec = spec_of nt; default = (if input_names \<noteq> [] then Some 0 else None)
      in case spec_pass_through spec of
           Pass_none \<Rightarrow> Inl (Not_pass_through (spec_display_name spec))
         | Pass_first \<Rightarrow> Inr default
         | Pass_selected \<Rightarrow>
             (case spec_pass_through_selector spec of
                None \<Rightarrow> Inl Assertion_failed
              | Some field \<Rightarrow>
                  bind_result (resolve_optimiser_data_input config input_names label field)
                    (\<lambda>selected. case selected of
                       Some name \<Rightarrow> (case index_of name input_names of
                         None \<Rightarrow> Inl Assertion_failed | Some i \<Rightarrow> Inr (Some i))
                     | None \<Rightarrow> Inr default)))"

definition optimiser_selectors :: "config \<Rightarrow> string list \<Rightarrow> string \<Rightarrow> config_error + string option" where
  "optimiser_selectors config source_names label =
     bind_result (resolve_optimiser_data_input config source_names label ''data_input'') (\<lambda>data_input.
     bind_result (validate_exact_input_selector (py_get ''banding_source'' config) source_names
       (py_get ''mode'' config = PStr ''ratebook'') label ''banding_source'') (\<lambda>_.
     bind_result (validate_exact_input_selector (py_get ''analysis_input'' config) source_names
       False label ''analysis_input'') (\<lambda>_. Inr data_input)))"

definition optimiser_apply_selectors :: "config \<Rightarrow> string list \<Rightarrow> string \<Rightarrow>
    config_error + string option" where
  "optimiser_apply_selectors config source_names label =
     (let mode = py_get ''optimiser_mode'' config
      in if mode \<noteq> PStr ''online''
         then bind_result (validate_exact_input_selector (py_get ''ratebook_input'' config) source_names
           (mode = PStr ''ratebook'') label ''ratebook_input'') (\<lambda>_. Inr None)
         else Inr None)"

fun input_selectors :: "node_type \<Rightarrow>
    (config \<Rightarrow> string list \<Rightarrow> string \<Rightarrow> config_error + string option) option" where
  "input_selectors OPTIMISER = Some optimiser_selectors"
| "input_selectors OPTIMISER_APPLY = Some optimiser_apply_selectors"
| "input_selectors _ = None"

definition validate_optimiser_input_selectors :: "node_type \<Rightarrow> config \<Rightarrow> string list \<Rightarrow> string \<Rightarrow>
    config_error + string option" where
  "validate_optimiser_input_selectors nt config source_names label =
     (case input_selectors nt of
        None \<Rightarrow> Inl (Unsupported_selectors nt)
      | Some validate \<Rightarrow> validate config source_names label)"

section \<open>Undeclared keys\<close>

text \<open>
  What a node type's model holds: the declared keys, the problems the shape's validator
  reports of a config (none when it accepts it), and the engine's hooks.
\<close>

record shape_problem =
  problem_loc :: "loc_part list"
  problem_type :: string
  problem_msg :: string

record config_gap =
  gap_path :: string
  gap_code :: string
  gap_message :: string

record config_model =
  model_keys :: "string list"
  model_adapter :: "config \<Rightarrow> shape_problem list"
  model_check :: "(config \<Rightarrow> config_error + unit) option"
  model_check_inputs :: "(config \<Rightarrow> string list \<Rightarrow> config_error + unit) option"
  model_completeness :: "(config \<Rightarrow> string list option \<Rightarrow> config_gap list) option"
  model_discriminant :: "string option"
  model_builder_checks :: bool

type_synonym config_models = "node_type \<Rightarrow> config_model"

definition valid_keys :: "config_models \<Rightarrow> node_type \<Rightarrow> string list" where
  "valid_keys models nt = model_keys (models nt)"

definition unrecognized_config_keys :: "config_models \<Rightarrow> node_type \<Rightarrow> config \<Rightarrow> string list" where
  "unrecognized_config_keys models nt config =
     sort (filter (\<lambda>k. k \<notin> set (valid_keys models nt)) (keys config))"

definition reject_unrecognized_config_keys :: "config_models \<Rightarrow> node_type \<Rightarrow> config \<Rightarrow> string \<Rightarrow>
    config_error + unit" where
  "reject_unrecognized_config_keys models nt config label =
     (if rk_instance_of (removed_config_keys_of nt) \<and> has_key ''instanceOf'' config
      then Inl (Removed_instance_form ''instanceOf'')
      else
        let unrecognized = unrecognized_config_keys models nt config
        in case camel_case_key_message (Node_site label nt) unrecognized of
             Some (site, pairs) \<Rightarrow> Inl (Camel_case site pairs unrecognized)
           | None \<Rightarrow> refuse_if (unrecognized \<noteq> []) (Undeclared_keys label nt unrecognized))"

section \<open>The optimiser's analysis columns and the registered source\<close>

definition max_analysis_columns :: nat where
  "max_analysis_columns = 12"

definition reserved_analysis_column_prefix :: string where
  "reserved_analysis_column_prefix = ''__haute_''"

fun column_name :: "cval \<Rightarrow> string option" where
  "column_name (PStr (c # cs)) = Some (c # cs)"
| "column_name _ = None"

fun column_names :: "cval list \<Rightarrow> string list option" where
  "column_names [] = Some []"
| "column_names (v # vs) =
     (case column_name v of None \<Rightarrow> None | Some c \<Rightarrow> map_option (Cons c) (column_names vs))"

definition starts_with :: "string \<Rightarrow> string \<Rightarrow> bool" where
  "starts_with start s \<longleftrightarrow> take (length start) s = start"

definition analysis_columns_rules :: "(cval \<Rightarrow> string) \<Rightarrow> config \<Rightarrow> string list \<Rightarrow> config_error + unit" where
  "analysis_columns_rules other config columns =
     (let duplicates = sort (remdups (filter (\<lambda>c. 1 < count_list columns c) columns));
          chosen = py_get ''quote_id'' config;
          quote_id = py_str other (if py_truthy chosen then chosen else PStr ''quote_id'');
          reserved = sort (filter (starts_with reserved_analysis_column_prefix) columns)
      in run_checks
        [refuse_if (duplicates \<noteq> []) (Bad_analysis (Analysis_duplicates duplicates)),
         refuse_if (quote_id \<in> set columns) (Bad_analysis (Analysis_quote_id quote_id)),
         refuse_if (reserved \<noteq> []) (Bad_analysis (Analysis_reserved reserved))])"

definition validate_optimiser_analysis_config :: "(cval \<Rightarrow> string) \<Rightarrow> config \<Rightarrow> config_error + unit" where
  "validate_optimiser_analysis_config other config =
     bind_result
       (case py_get ''analysis_input'' config of
          PNone \<Rightarrow> Inr () | PStr _ \<Rightarrow> Inr () | _ \<Rightarrow> Inl (Bad_analysis Analysis_input_not_name))
     (\<lambda>_. case py_get ''analysis_columns'' config of
        PNone \<Rightarrow> Inr ()
      | PList vs \<Rightarrow>
          if max_analysis_columns < length vs
          then Inl (Bad_analysis (Analysis_too_many (length vs)))
          else (case column_names vs of
              None \<Rightarrow> Inl (Bad_analysis Analysis_not_names)
            | Some columns \<Rightarrow> analysis_columns_rules other config columns)
      | _ \<Rightarrow> Inl (Bad_analysis Analysis_not_a_list))"

definition absent :: "cval \<Rightarrow> bool" where
  "absent v \<longleftrightarrow> v = PNone \<or> v = PStr []"

definition validate_registered_model_alias :: "node_type \<Rightarrow> config \<Rightarrow> config_error + unit" where
  "validate_registered_model_alias nt config =
     (let alias = py_get ''alias'' config
      in if absent alias then Inr ()
         else case alias of
           PStr name \<Rightarrow>
             if py_strip name = [] \<or> name \<noteq> py_strip name then Inl (Bad_alias nt alias)
             else refuse_if (\<not> absent (py_get ''version'' config))
               (Version_and_alias nt name (py_get ''version'' config))
         | _ \<Rightarrow> Inl (Bad_alias nt alias))"

section \<open>Where a shape problem is\<close>

definition setting_part :: "string \<Rightarrow> loc_part \<Rightarrow> string" where
  "setting_part path part =
     (case part of
        Index i \<Rightarrow> path @ ''['' @ show_int i @ '']''
      | Key k \<Rightarrow> if path \<noteq> [] then path @ ''.'' @ k else k)"

definition setting_path :: "loc_part list \<Rightarrow> string" where
  "setting_path location = foldl setting_part [] location"

definition union_tags :: "string list" where
  "union_tags = [''file'', ''database'', ''lakehouse'', ''databricks'', ''inline'']"

definition upper_char :: "char \<Rightarrow> bool" where
  "upper_char c = (let n = of_char c :: nat
     in (65 \<le> n \<and> n \<le> 90) \<or> (192 \<le> n \<and> n \<le> 222 \<and> n \<noteq> 215))"

definition is_union_label :: "string \<Rightarrow> bool" where
  "is_union_label part \<longleftrightarrow> CHR ''['' \<in> set part \<or> CHR ''-'' \<in> set part \<or>
     (case part of [] \<Rightarrow> False | c # _ \<Rightarrow> upper_char c) \<or> part \<in> set union_tags"

fun config_location :: "cval \<Rightarrow> loc_part list \<Rightarrow> loc_part list" where
  "config_location v [] = []"
| "config_location (PDict d) (Key k # rest) =
     (case map_of d (PStr k) of
        Some w \<Rightarrow> Key k # config_location w rest
      | None \<Rightarrow> if is_union_label k then config_location (PDict d) rest else [Key k])"
| "config_location (PDict d) (Index i # rest) = config_location (PDict d) rest"
| "config_location (PList xs) (Index i # rest) =
     (if 0 \<le> i \<and> i < int (length xs) then Index i # config_location (xs ! nat i) rest
      else config_location (PList xs) rest)"
| "config_location (PList xs) (Key k # rest) = config_location (PList xs) rest"
| "config_location v (part # rest) = []"

definition input_prefix :: string where
  "input_prefix = ''Input should be ''"

fun join_with_comma :: "string list \<Rightarrow> string" where
  "join_with_comma [] = []"
| "join_with_comma [x] = x"
| "join_with_comma (x # xs) = x @ '', '' @ join_with_comma xs"

definition union_reason :: "shape_problem list \<Rightarrow> string" where
  "union_reason errors =
     (let messages = rev (remdups (rev (map problem_msg errors)))
      in if 1 < length messages \<and> list_all (starts_with input_prefix) messages
         then let options = map (drop (length input_prefix)) messages
              in input_prefix @ join_with_comma (butlast options) @ '' or '' @ last options
         else hd messages)"

fun deepest :: "shape_problem \<Rightarrow> shape_problem list \<Rightarrow> shape_problem" where
  "deepest best [] = best"
| "deepest best (e # es) =
     deepest (if length (problem_loc best) < length (problem_loc e) then e else best) es"

definition part_text :: "loc_part \<Rightarrow> string" where
  "part_text part = (case part of Key k \<Rightarrow> k | Index i \<Rightarrow> show_int i)"

definition config_dict :: "config \<Rightarrow> cval" where
  "config_dict config = PDict (map (\<lambda>(k, v). (PStr k, v)) config)"

definition shape_error :: "config_models \<Rightarrow> node_type \<Rightarrow> string \<Rightarrow> config \<Rightarrow> shape_problem list \<Rightarrow>
    config_error" where
  "shape_error models nt label config errors =
     (let first = deepest (hd errors) (tl errors);
          place = (\<lambda>e. config_location (config_dict config) (problem_loc e));
          extra = map (\<lambda>e. part_text (last (problem_loc e)))
            (filter (\<lambda>e. problem_type e = ''extra_forbidden'' \<and> problem_loc e \<noteq> []) errors)
      in case camel_case_key_message (Node_site label nt) extra of
           Some (site, pairs) \<Rightarrow> Camel_case_setting site pairs (setting_path (place first))
         | None \<Rightarrow>
             (case (problem_type first = ''union_tag_not_found'' \<or> problem_type first = ''union_tag_invalid'',
                    model_discriminant (models nt)) of
                (True, Some (c # cs)) \<Rightarrow> Shape_refused label nt (c # cs) (problem_msg first)
              | _ \<Rightarrow> Shape_refused label nt (setting_path (place first))
                  (union_reason (filter
                    (\<lambda>e. length (problem_loc e) = length (problem_loc first) \<and> place e = place first)
                    errors))))"

section \<open>The pipeline\<close>

definition answer_per_row_key :: string where
  "answer_per_row_key = ''__haute_deploy_answer_per_row''"

fun deploy_private_keys :: "node_type \<Rightarrow> string list" where
  "deploy_private_keys MODEL_SCORE =
     [''__haute_deploy_model_input_columns'', ''__haute_deploy_model_optional_input_columns'']"
| "deploy_private_keys OUTPUT = [answer_per_row_key]"
| "deploy_private_keys OPTIMISER_APPLY = [''__haute_deploy_optimiser_input_columns'']"
| "deploy_private_keys _ = []"

definition valid_deploy_value :: "string \<Rightarrow> cval \<Rightarrow> bool" where
  "valid_deploy_value key v =
     (if key = answer_per_row_key then v = PBool True
      else case v of
        PList vs \<Rightarrow> (case column_names vs of None \<Rightarrow> False | Some columns \<Rightarrow> distinct columns)
      | _ \<Rightarrow> False)"

definition without_deploy_private_keys :: "node_type \<Rightarrow> config \<Rightarrow> config_error + config" where
  "without_deploy_private_keys nt config =
     (let held = held_keys (deploy_private_keys nt) config
      in bind_result (run_checks (map (\<lambda>key.
             refuse_if (\<not> valid_deploy_value key (py_get key config)) (Bad_deploy_key nt key)) held))
           (\<lambda>_. Inr (filter (\<lambda>(k, v). k \<notin> set held) config)))"

record validation_mode =
  require_complete :: bool
  persisted :: bool
  mode_label :: "string option"
  mode_input_names :: "string list option"
  at_run :: bool
  shape_only :: bool

definition run_hook :: "('h \<Rightarrow> config_error + unit) \<Rightarrow> 'h option \<Rightarrow> config_error + unit" where
  "run_hook run hook = (case hook of None \<Rightarrow> Inr () | Some h \<Rightarrow> run h)"

definition first_gap :: "config_gap list \<Rightarrow> config_error + unit" where
  "first_gap gaps = (case gaps of [] \<Rightarrow> Inr () | g # _ \<Rightarrow> Inl (Incomplete (gap_path g) (gap_message g)))"

definition engine_rules :: "config_model \<Rightarrow> config \<Rightarrow> validation_mode \<Rightarrow> config_error + unit" where
  "engine_rules model config mode = run_checks
     [(if at_run mode \<and> model_builder_checks model then Inr ()
       else run_hook (\<lambda>check. check config) (model_check model)),
      (case mode_input_names mode of None \<Rightarrow> Inr ()
       | Some input_names \<Rightarrow>
           run_hook (\<lambda>check_inputs. check_inputs config input_names) (model_check_inputs model)),
      (if require_complete mode
       then run_hook (\<lambda>completeness. first_gap (completeness config (mode_input_names mode)))
         (model_completeness model)
       else Inr ())]"

definition label_of :: "node_type \<Rightarrow> validation_mode \<Rightarrow> string" where
  "label_of nt mode = (case mode_label mode of None \<Rightarrow> node_type_value nt
     | Some l \<Rightarrow> if l = [] then node_type_value nt else l)"

definition shaped_config :: "node_type \<Rightarrow> config \<Rightarrow> validation_mode \<Rightarrow> config_error + config" where
  "shaped_config nt config mode =
     (if persisted mode then bind_result (reject_form_given_keys nt config) (\<lambda>_. Inr config)
      else without_deploy_private_keys nt config)"

definition validate_node_config :: "config_models \<Rightarrow> node_type \<Rightarrow> config \<Rightarrow> validation_mode \<Rightarrow>
    config_error + config" where
  "validate_node_config models nt config mode =
     (let model = models nt; label = label_of nt mode
      in bind_result (reject_removed_config_keys nt config) (\<lambda>_.
         bind_result (shaped_config nt config mode) (\<lambda>shaped.
         bind_result (reject_unrecognized_config_keys models nt shaped label) (\<lambda>_.
         let problems = model_adapter model shaped
         in if problems \<noteq> [] then Inl (shape_error models nt label shaped problems)
            else if shape_only mode then Inr config
            else bind_result (engine_rules model config mode) (\<lambda>_. Inr config)))))"

definition config_gaps :: "config_models \<Rightarrow> node_type \<Rightarrow> config \<Rightarrow> string list option \<Rightarrow> config_gap list" where
  "config_gaps models nt config input_names =
     (case model_completeness (models nt) of None \<Rightarrow> [] | Some completeness \<Rightarrow> completeness config input_names)"

record config_node =
  node_kind :: node_type
  node_config :: config
  node_title :: string

datatype config_graph = Config_graph "config_node list" "(string \<times> config_graph) list"

definition route_mode :: "config_node \<Rightarrow> validation_mode" where
  "route_mode node = \<lparr>require_complete = False, persisted = True, mode_label = Some (node_title node),
     mode_input_names = None, at_run = False, shape_only = True\<rparr>"

definition validate_graph_node :: "config_models \<Rightarrow> config_node \<Rightarrow> config_error + unit" where
  "validate_graph_node models node =
     bind_result (validate_node_config models (node_kind node) (node_config node) (route_mode node))
       (\<lambda>_. Inr ())"

fun validate_graph_configs :: "config_models \<Rightarrow> config_graph \<Rightarrow> config_error + unit"
  and validate_submodels :: "config_models \<Rightarrow> (string \<times> config_graph) list \<Rightarrow> config_error + unit" where
  "validate_graph_configs models (Config_graph nodes submodels) =
     bind_result (run_checks (map (validate_graph_node models) nodes))
       (\<lambda>_. validate_submodels models submodels)"
| "validate_submodels models [] = Inr ()"
| "validate_submodels models ((_, graph) # rest) =
     bind_result (validate_graph_configs models graph) (\<lambda>_. validate_submodels models rest)"

section \<open>The keys a config may hold\<close>

definition retired_keys :: "node_type \<Rightarrow> string list" where
  "retired_keys nt = (let r = removed_config_keys_of nt in
     (if rk_instance_of r then [''instanceOf''] else []) @ rk_input_identity r @ rk_registry r @
     rk_feature_selection r @ rk_column_mapping r @ rk_response_format r @ rk_evaluation r)"

definition holds_none :: "string list \<Rightarrow> config \<Rightarrow> bool" where
  "holds_none ks config \<longleftrightarrow> (\<forall>k \<in> set ks. \<not> has_key k config)"

definition public_part :: "node_type \<Rightarrow> config \<Rightarrow> bool \<Rightarrow> config" where
  "public_part nt config stored =
     (if stored then config else filter (\<lambda>(k, v). k \<notin> set (deploy_private_keys nt)) config)"

lemma held_keys_Nil: "held_keys ks config = [] \<longleftrightarrow> holds_none ks config"
  by (auto simp: held_keys_def holds_none_def filter_empty_conv)

lemma holds_none_append: "holds_none (ks @ ls) config \<longleftrightarrow> holds_none ks config \<and> holds_none ls config"
  by (auto simp: holds_none_def)

lemma sort_Nil: "sort xs = [] \<longleftrightarrow> xs = []"
  by (metis length_0_conv length_sort)

lemma reject_removed_Inr: "reject_removed_config_keys nt config = Inr u \<longleftrightarrow> holds_none (retired_keys nt) config"
proof -
  let ?r = "removed_config_keys_of nt"
  have "holds_none (retired_keys nt) config \<longleftrightarrow>
      (rk_instance_of ?r \<longrightarrow> \<not> has_key ''instanceOf'' config) \<and>
      holds_none (rk_input_identity ?r) config \<and> holds_none (rk_registry ?r) config \<and>
      holds_none (rk_feature_selection ?r) config \<and> holds_none (rk_column_mapping ?r) config \<and>
      holds_none (rk_response_format ?r) config \<and> holds_none (rk_evaluation ?r) config"
    unfolding retired_keys_def Let_def holds_none_append by (simp add: holds_none_def)
  then show ?thesis
    unfolding reject_removed_config_keys_def Let_def run_checks_Inr refuse_retired_def
    by (simp add: sort_Nil held_keys_Nil imp_conjL)
qed

lemma form_given_in_order:
  "filter (\<lambda>k. k \<in> set (form_given_keys nt)) [''tables'', ''sample''] = form_given_keys nt"
  by (cases nt) simp_all

lemma reject_form_given_Inr: "reject_form_given_keys nt config = Inr u \<longleftrightarrow> holds_none (form_given_keys nt) config"
  unfolding reject_form_given_keys_def Let_def form_given_in_order by (simp add: held_keys_Nil)

lemma set_held_keys: "set (held_keys ks config) = {k \<in> set ks. has_key k config}"
  by (auto simp: held_keys_def)

lemma filter_held:
  "filter (\<lambda>(k, v). k \<notin> set (held_keys ks config)) config = filter (\<lambda>(k, v). k \<notin> set ks) config"
proof (rule filter_cong [OF refl])
  fix p assume p: "p \<in> set config"
  then have "has_key (fst p) config" by (force simp: has_key_iff keys_def)
  then show "(case p of (k, v) \<Rightarrow> k \<notin> set (held_keys ks config)) = (case p of (k, v) \<Rightarrow> k \<notin> set ks)"
    by (simp add: set_held_keys split_beta)
qed

lemma without_deploy_Inr:
  "without_deploy_private_keys nt config = Inr c \<longleftrightarrow>
     c = public_part nt config False \<and>
     (\<forall>k \<in> set (deploy_private_keys nt). has_key k config \<longrightarrow> valid_deploy_value k (py_get k config))"
  unfolding without_deploy_private_keys_def Let_def bind_result_Inr run_checks_Inr filter_held
  by (auto simp: public_part_def set_held_keys)

lemma shaped_config_Inr:
  "shaped_config nt config mode = Inr c \<longleftrightarrow> c = public_part nt config (persisted mode) \<and>
     (if persisted mode then holds_none (form_given_keys nt) config
      else \<forall>k \<in> set (deploy_private_keys nt). has_key k config \<longrightarrow> valid_deploy_value k (py_get k config))"
  by (auto simp: shaped_config_def without_deploy_Inr bind_result_Inr reject_form_given_Inr public_part_def)

lemma camel_case_None: "camel_case_key_message site [] = None"
  by (simp add: camel_case_key_message_def)

lemma unrecognized_Nil:
  "unrecognized_config_keys models nt config = [] \<longleftrightarrow> set (keys config) \<subseteq> set (valid_keys models nt)"
  by (auto simp: unrecognized_config_keys_def sort_Nil filter_empty_conv)

lemma reject_unrecognized_Inr:
  assumes "holds_none (retired_keys nt) config"
  shows "reject_unrecognized_config_keys models nt config label = Inr u \<longleftrightarrow>
    set (keys config) \<subseteq> set (valid_keys models nt)"
proof -
  have "\<not> (rk_instance_of (removed_config_keys_of nt) \<and> has_key ''instanceOf'' config)"
    using assms by (auto simp: retired_keys_def Let_def holds_none_append) (auto simp: holds_none_def)
  then show ?thesis
    unfolding reject_unrecognized_config_keys_def Let_def unrecognized_Nil [symmetric]
    by (auto simp: camel_case_None split: option.splits)
qed

lemma holds_none_filter: "holds_none ks config \<Longrightarrow> holds_none ks (filter P config)"
  by (auto simp: holds_none_def has_key_iff keys_def)

lemma holds_none_public: "holds_none ks config \<Longrightarrow> holds_none ks (public_part nt config b)"
  by (simp add: public_part_def holds_none_filter)

text \<open>
  C13: A config passes the validation boundary exactly when it holds no retired key, no
  form-given key (persisted) or only well-formed transport keys of the deploy scorer (built by a
  run), declares every other key, its shape is accepted, and, unless only the shape is checked,
  the engine rules pass; and then the config itself is returned, unchanged.
\<close>

theorem validate_node_config_accepts:
  "validate_node_config models nt config mode = Inr c \<longleftrightarrow>
     c = config \<and>
     holds_none (retired_keys nt) config \<and>
     (if persisted mode then holds_none (form_given_keys nt) config
      else \<forall>k \<in> set (deploy_private_keys nt). has_key k config \<longrightarrow> valid_deploy_value k (py_get k config)) \<and>
     set (keys (public_part nt config (persisted mode))) \<subseteq> set (valid_keys models nt) \<and>
     model_adapter (models nt) (public_part nt config (persisted mode)) = [] \<and>
     (shape_only mode \<or> engine_rules (models nt) config mode = Inr ())"
proof (cases "holds_none (retired_keys nt) config")
  case True
  note reject = reject_unrecognized_Inr [OF holds_none_public [OF True]]
  from True show ?thesis
    unfolding validate_node_config_def Let_def bind_result_Inr reject_removed_Inr shaped_config_Inr
    by (auto simp: reject bind_result_Inr)
next
  case False
  then show ?thesis
    unfolding validate_node_config_def Let_def bind_result_Inr reject_removed_Inr by blast
qed

section \<open>Selectors name one edge\<close>

lemma matches_single:
  "filter (\<lambda>i. xs ! i = x) [0..<length xs] = [i] \<longleftrightarrow> i < length xs \<and> xs ! i = x \<and> count_list xs x = 1"
proof -
  have len: "length (filter (\<lambda>i. xs ! i = x) [0..<length xs]) = count_list xs x"
  proof (induction xs rule: rev_induct)
    case (snoc y ys)
    have "filter (\<lambda>i. (ys @ [y]) ! i = x) [0..<length ys] = filter (\<lambda>i. ys ! i = x) [0..<length ys]"
      by (rule filter_cong) (auto simp: nth_append)
    then show ?case using snoc by (simp add: nth_append)
  qed simp
  have mem: "j \<in> set (filter (\<lambda>i. xs ! i = x) [0..<length xs]) \<longleftrightarrow> j < length xs \<and> xs ! j = x" for j
    by auto
  show ?thesis
  proof
    assume eq: "filter (\<lambda>i. xs ! i = x) [0..<length xs] = [i]"
    then show "i < length xs \<and> xs ! i = x \<and> count_list xs x = 1"
      using mem [of i] len by simp
  next
    assume r: "i < length xs \<and> xs ! i = x \<and> count_list xs x = 1"
    then have "length (filter (\<lambda>i. xs ! i = x) [0..<length xs]) = 1" using len by simp
    then obtain j where "filter (\<lambda>i. xs ! i = x) [0..<length xs] = [j]"
      by (auto simp: length_Suc_conv)
    then show "filter (\<lambda>i. xs ! i = x) [0..<length xs] = [i]"
      using r mem [of i] by simp
  qed
qed

lemma resolve_exact_Inr:
  "resolve_exact_input_index selector names required label field = Inr r \<longleftrightarrow>
     (if absent selector then \<not> required \<and> r = None
      else \<exists>i. r = Some i \<and> i < length names \<and> selector = PStr (names ! i) \<and> count_list names (names ! i) = 1)"
proof (cases "absent selector")
  case True
  then show ?thesis by (auto simp: resolve_exact_input_index_def absent_def)
next
  case present: False
  show ?thesis
  proof (cases selector)
    case (PStr name)
    let ?m = "filter (\<lambda>i. names ! i = name) [0..<length names]"
    have "resolve_exact_input_index selector names required label field = Inr r \<longleftrightarrow>
        (\<exists>i. ?m = [i] \<and> r = Some i)"
      using present PStr by (cases ?m) (auto simp: resolve_exact_input_index_def absent_def Let_def)
    also have "\<dots> \<longleftrightarrow> (\<exists>i. r = Some i \<and> i < length names \<and> name = names ! i \<and> count_list names (names ! i) = 1)"
      unfolding matches_single by auto
    finally show ?thesis using present PStr by simp
  qed (use present in \<open>auto simp: resolve_exact_input_index_def absent_def\<close>)
qed

lemma resolve_data_input_Inr:
  "resolve_optimiser_data_input config names label field = Inr r \<longleftrightarrow>
     (if absent (py_get field config) then length names \<le> 1 \<and> r = None
      else \<exists>i. r = Some (names ! i) \<and> i < length names \<and> py_get field config = PStr (names ! i) \<and>
        count_list names (names ! i) = 1)"
  by (auto simp: resolve_optimiser_data_input_def validate_exact_input_selector_def bind_result_Inr
      resolve_exact_Inr)

lemma index_of_unique:
  "i < length xs \<Longrightarrow> count_list xs (xs ! i) = 1 \<Longrightarrow> index_of (xs ! i) xs = Some i"
proof (induction xs arbitrary: i)
  case (Cons y ys)
  then show ?case
    by (cases i) (auto simp: count_list_0_iff split: if_splits)
qed simp

lemma pass_through_selectors:
  "list_all (\<lambda>t. (spec_pass_through (spec_of t) = Pass_selected) =
     (spec_pass_through_selector (spec_of t) \<noteq> None)) all_node_types"
  by code_simp

lemma pass_through_selector:
  "spec_pass_through (spec_of t) = Pass_selected \<longleftrightarrow> spec_pass_through_selector (spec_of t) \<noteq> None"
  using pass_through_selectors all_node_types_complete [of t] by (simp add: list_all_iff)

lemma data_input_asserts_nothing:
  "resolve_optimiser_data_input config names label field \<noteq> Inl Assertion_failed"
  by (auto simp: resolve_optimiser_data_input_def validate_exact_input_selector_def bind_result_Inl
      resolve_exact_input_index_def Let_def split: pyval.splits if_splits)

text \<open>
  A pass-through node returns no input only when none is connected. Otherwise a
  \<^verbatim>\<open>first\<close> type returns the first, and a \<^verbatim>\<open>selected\<close> type the one input its selector names
  exactly, or its only input when the selector is empty; the lookup never fails an assertion.
\<close>

theorem selected_input_index_spec:
  "(case selected_input_index nt config names label of
      Inl e \<Rightarrow> e \<noteq> Assertion_failed
    | Inr None \<Rightarrow> names = []
    | Inr (Some i) \<Rightarrow> i < length names \<and>
        (case spec_pass_through_selector (spec_of nt) of
           None \<Rightarrow> spec_pass_through (spec_of nt) = Pass_first \<and> i = 0
         | Some field \<Rightarrow>
             if absent (py_get field config) then length names = 1
             else py_get field config = PStr (names ! i) \<and> count_list names (names ! i) = 1))"
proof (cases "spec_pass_through (spec_of nt)")
  case Pass_none
  then show ?thesis by (simp add: selected_input_index_def)
next
  case Pass_first
  then have "spec_pass_through_selector (spec_of nt) = None"
    using pass_through_selector [of nt] by auto
  with Pass_first show ?thesis by (simp add: selected_input_index_def Let_def)
next
  case Pass_selected
  then obtain field where field: "spec_pass_through_selector (spec_of nt) = Some field"
    using pass_through_selector [of nt] by auto
  show ?thesis
  proof (cases "resolve_optimiser_data_input config names label field")
    case (Inl e)
    then show ?thesis
      using data_input_asserts_nothing [of config names label field] Pass_selected field
      by (auto simp: selected_input_index_def Let_def)
  next
    case (Inr r)
    note resolved = Inr [unfolded resolve_data_input_Inr]
    show ?thesis
    proof (cases "absent (py_get field config)")
      case True
      then show ?thesis
        using resolved Inr Pass_selected field by (cases names) (auto simp: selected_input_index_def Let_def)
    next
      case False
      then obtain i where "r = Some (names ! i)" "i < length names"
        and "py_get field config = PStr (names ! i)" "count_list names (names ! i) = 1"
        using resolved by auto
      then show ?thesis
        using False Inr Pass_selected field index_of_unique [of i names]
        by (simp add: selected_input_index_def Let_def)
    qed
  qed
qed

section \<open>Graphs and setting paths\<close>

fun config_nodes :: "config_graph \<Rightarrow> config_node list"
  and submodel_nodes :: "(string \<times> config_graph) list \<Rightarrow> config_node list" where
  "config_nodes (Config_graph nodes submodels) = nodes @ submodel_nodes submodels"
| "submodel_nodes [] = []"
| "submodel_nodes ((_, graph) # rest) = config_nodes graph @ submodel_nodes rest"

lemma validate_graph_node_Inr:
  "validate_graph_node models node = Inr u \<longleftrightarrow>
     validate_node_config models (node_kind node) (node_config node) (route_mode node) = Inr (node_config node)"
  by (auto simp: validate_graph_node_def bind_result_Inr validate_node_config_accepts)

lemma validate_graph_iff:
  "validate_graph_configs models graph = Inr u \<longleftrightarrow> (\<forall>node \<in> set (config_nodes graph). validate_graph_node models node = Inr ())"
  "validate_submodels models submodels = Inr u \<longleftrightarrow> (\<forall>node \<in> set (submodel_nodes submodels). validate_graph_node models node = Inr ())"
  by (induction models graph and models submodels rule: validate_graph_configs_validate_submodels.induct)
    (auto simp: bind_result_Inr run_checks_Inr)

text \<open>
  A graph's configs validate exactly when every node's config, its embedded submodels'
  at any depth included, passes the boundary in the mode a route answers with.
\<close>

theorem validate_graph_configs_all:
  "validate_graph_configs models graph = Inr u \<longleftrightarrow>
     (\<forall>node \<in> set (config_nodes graph).
        validate_node_config models (node_kind node) (node_config node) (route_mode node) =
          Inr (node_config node))"
  by (simp only: validate_graph_iff validate_graph_node_Inr)

fun cval_at :: "cval \<Rightarrow> loc_part list \<Rightarrow> cval option" where
  "cval_at v [] = Some v"
| "cval_at (PDict d) (Key k # rest) = Option.bind (map_of d (PStr k)) (\<lambda>w. cval_at w rest)"
| "cval_at (PList xs) (Index i # rest) =
     (if 0 \<le> i \<and> i < int (length xs) then cval_at (xs ! nat i) rest else None)"
| "cval_at v (part # rest) = None"

definition missing_key_at :: "cval \<Rightarrow> loc_part list \<Rightarrow> bool" where
  "missing_key_at v location \<longleftrightarrow> (\<exists>outer d k. location = outer @ [Key k] \<and>
     cval_at v outer = Some (PDict d) \<and> map_of d (PStr k) = None \<and> \<not> is_union_label k)"

lemma missing_here: "map_of d (PStr k) = None \<Longrightarrow> \<not> is_union_label k \<Longrightarrow> missing_key_at (PDict d) [Key k]"
  by (auto simp: missing_key_at_def intro!: exI [of _ "[]"])

lemma missing_below_key:
  assumes "map_of d (PStr k) = Some w" "missing_key_at w loc"
  shows "missing_key_at (PDict d) (Key k # loc)"
proof -
  obtain outer d' k' where "loc = outer @ [Key k']" "cval_at w outer = Some (PDict d')"
    and "map_of d' (PStr k') = None" "\<not> is_union_label k'"
    using assms(2) unfolding missing_key_at_def by blast
  then have "Key k # loc = (Key k # outer) @ [Key k'] \<and> cval_at (PDict d) (Key k # outer) = Some (PDict d') \<and>
      map_of d' (PStr k') = None \<and> \<not> is_union_label k'"
    using assms(1) by simp
  then show ?thesis unfolding missing_key_at_def by blast
qed

lemma missing_below_index:
  assumes "0 \<le> i" "i < int (length xs)" "missing_key_at (xs ! nat i) loc"
  shows "missing_key_at (PList xs) (Index i # loc)"
proof -
  obtain outer d' k' where "loc = outer @ [Key k']" "cval_at (xs ! nat i) outer = Some (PDict d')"
    and "map_of d' (PStr k') = None" "\<not> is_union_label k'"
    using assms(3) unfolding missing_key_at_def by blast
  then have "Index i # loc = (Index i # outer) @ [Key k'] \<and> cval_at (PList xs) (Index i # outer) = Some (PDict d') \<and>
      map_of d' (PStr k') = None \<and> \<not> is_union_label k'"
    using assms(1,2) by simp
  then show ?thesis unfolding missing_key_at_def by blast
qed

lemma config_location_subseq: "subseq (config_location v loc) loc"
  by (induction v loc rule: config_location.induct) (auto split: option.splits)

lemma config_location_exists:
  "cval_at v (config_location v loc) \<noteq> None \<or> missing_key_at v (config_location v loc)"
  by (induction v loc rule: config_location.induct)
    (auto split: option.splits intro: missing_here missing_below_key missing_below_index)

lemma config_location_full: "cval_at v loc = None \<or> config_location v loc = loc"
  by (induction v loc rule: cval_at.induct) (auto split: option.splits)

text \<open>
  The location a shape refusal names is a path of the config: it keeps parts of the
  validator's location in order, drops none of a location that exists in the config, and leads
  to a value of the config or to a key that a mapping in it lacks.
\<close>

theorem config_location_in_config:
  "subseq (config_location v loc) loc \<and>
   (cval_at v loc = None \<or> config_location v loc = loc) \<and>
   (cval_at v (config_location v loc) \<noteq> None \<or> missing_key_at v (config_location v loc))"
  using config_location_subseq config_location_full config_location_exists by blast

definition sample_setting :: cval where
  "sample_setting = PDict [(PStr ''factors'', PList [PDict [(PStr ''banding'', PNone)]])]"

definition sample_location :: "loc_part list" where
  "sample_location = [Key ''factors'', Index 0, Key ''file'', Key ''column'']"

theorem config_location_in_config_witness:
  "config_location sample_setting sample_location = [Key ''factors'', Index 0, Key ''column''] \<and>
   subseq [Key ''factors'', Index 0, Key ''column''] sample_location \<and>
   missing_key_at sample_setting [Key ''factors'', Index 0, Key ''column'']"
proof -
  have at: "config_location sample_setting sample_location = [Key ''factors'', Index 0, Key ''column'']"
    "cval_at sample_setting [Key ''factors'', Index 0, Key ''column''] = None"
    by code_simp+
  then show ?thesis using config_location_in_config [of sample_setting sample_location] by simp
qed

section \<open>The optimiser's analysis columns\<close>

lemma column_name_Some: "column_name v = Some c \<longleftrightarrow> v = PStr c \<and> c \<noteq> []"
  by (cases v rule: column_name.cases) auto

lemma column_names_Some: "column_names vs = Some cs \<longleftrightarrow> vs = map PStr cs \<and> [] \<notin> set cs"
proof (induction vs arbitrary: cs)
  case (Cons v vs)
  show ?case
  proof (cases "column_name v")
    case None
    then have "\<not> (\<exists>c. v = PStr c \<and> c \<noteq> [])" by (metis column_name_Some option.discI)
    then show ?thesis using None by (cases cs) auto
  next
    case (Some c)
    moreover from this have "v = PStr c" "c \<noteq> []" by (simp_all add: column_name_Some)
    ultimately show ?thesis
      by (cases cs) (auto simp: Cons.IH map_eq_Cons_conv)
  qed
qed auto

lemma column_names_map: "column_names (map PStr cs) = (if [] \<in> set cs then None else Some cs)"
proof (cases "column_names (map PStr cs)")
  case (Some ds)
  then show ?thesis by (auto simp: column_names_Some inj_map_eq_map inj_def)
next
  case None
  then show ?thesis using column_names_Some [of "map PStr cs" cs] by auto
qed

lemma no_duplicate_columns:
  "sort (remdups (filter (\<lambda>c. 1 < count_list columns c) columns)) = [] \<longleftrightarrow> distinct columns"
proof -
  have "distinct columns \<longleftrightarrow> (\<forall>c \<in> set columns. count_list columns c \<le> 1)"
    by (induction columns) (auto simp: count_list_0_iff)
  then show ?thesis by (auto simp: sort_Nil filter_empty_conv not_less)
qed

lemma analysis_columns_accepted:
  "validate_optimiser_analysis_config other config = Inr u \<longleftrightarrow>
     (py_get ''analysis_input'' config = PNone \<or> (\<exists>s. py_get ''analysis_input'' config = PStr s)) \<and>
     (py_get ''analysis_columns'' config = PNone \<or>
      (\<exists>columns. py_get ''analysis_columns'' config = PList (map PStr columns) \<and>
         length columns \<le> 12 \<and> [] \<notin> set columns \<and> distinct columns \<and>
         py_str other (if py_truthy (py_get ''quote_id'' config) then py_get ''quote_id'' config
           else PStr ''quote_id'') \<notin> set columns \<and>
         list_all (\<lambda>c. \<not> starts_with ''__haute_'' c) columns))"
proof -
  have rules: "analysis_columns_rules other config columns = Inr () \<longleftrightarrow> distinct columns \<and>
      py_str other (if py_truthy (py_get ''quote_id'' config) then py_get ''quote_id'' config
        else PStr ''quote_id'') \<notin> set columns \<and>
      list_all (\<lambda>c. \<not> starts_with ''__haute_'' c) columns" for columns
    unfolding analysis_columns_rules_def Let_def run_checks_Inr no_duplicate_columns [symmetric]
    by (auto simp: sort_Nil filter_empty_conv list_all_iff reserved_analysis_column_prefix_def)
  have columns: "(case py_get ''analysis_columns'' config of PNone \<Rightarrow> Inr ()
      | PList vs \<Rightarrow>
          if max_analysis_columns < length vs
          then Inl (Bad_analysis (Analysis_too_many (length vs)))
          else (case column_names vs of
              None \<Rightarrow> Inl (Bad_analysis Analysis_not_names)
            | Some columns \<Rightarrow> analysis_columns_rules other config columns)
      | _ \<Rightarrow> Inl (Bad_analysis Analysis_not_a_list)) = Inr () \<longleftrightarrow>
    py_get ''analysis_columns'' config = PNone \<or>
    (\<exists>columns. py_get ''analysis_columns'' config = PList (map PStr columns) \<and> length columns \<le> 12 \<and>
      [] \<notin> set columns \<and> analysis_columns_rules other config columns = Inr ())"
  proof (cases "py_get ''analysis_columns'' config")
    case (PList vs)
    show ?thesis
    proof (cases "column_names vs")
      case None
      then have "\<not> (\<exists>cs. vs = map PStr cs \<and> [] \<notin> set cs)" by (metis column_names_Some option.discI)
      then show ?thesis using PList None by auto
    next
      case (Some cs)
      then have "vs = map PStr cs" "[] \<notin> set cs" by (simp_all add: column_names_Some)
      then show ?thesis
        using PList Some by (auto simp: max_analysis_columns_def inj_map_eq_map inj_def)
    qed
  qed auto
  show ?thesis
    unfolding validate_optimiser_analysis_config_def bind_result_Inr rules [symmetric] columns [symmetric]
    by (auto split: pyval.splits)
qed

text \<open>A model table for the witnesses: an Edge Join's keys, an open shape and one completeness rule.\<close>

definition sample_models :: config_models where
  "sample_models nt = \<lparr>model_keys = [''how'', ''maintain_order''], model_adapter = (\<lambda>_. []),
     model_check = None, model_check_inputs = None,
     model_completeness = Some (\<lambda>config _. if has_key ''how'' config then []
       else [\<lparr>gap_path = ''how'', gap_code = ''required'', gap_message = ''how is required''\<rparr>]),
     model_discriminant = None, model_builder_checks = False\<rparr>"

definition run_mode :: validation_mode where
  "run_mode = \<lparr>require_complete = True, persisted = False, mode_label = None, mode_input_names = None,
     at_run = True, shape_only = False\<rparr>"

definition sample_run_config :: config where
  "sample_run_config = [(''how'', PStr ''left''), (answer_per_row_key, PBool True)]"

theorem validate_node_config_accepts_witness:
  "validate_node_config sample_models OUTPUT sample_run_config run_mode = Inr sample_run_config"
  unfolding validate_node_config_accepts by code_simp

text \<open>
  A persisted config with an undeclared key, and without a retired or form-given one, is refused
  before its shape or any engine rule is consulted, with an error that lists every undeclared key in sorted order and, when some of
  them are camelCase spellings, the snake-case key of each.
\<close>

theorem undeclared_keys_refused:
  assumes "holds_none (retired_keys nt) config"
    and "holds_none (form_given_keys nt) config"
    and "persisted mode"
    and "\<not> set (keys config) \<subseteq> set (valid_keys models nt)"
  shows "\<exists>undeclared.
    set undeclared = set (keys config) - set (valid_keys models nt) \<and> sorted undeclared \<and>
    validate_node_config models nt config mode =
      Inl (let camel = filter (\<lambda>k. has_key k snake_case_keys) undeclared
           in if camel = [] then Undeclared_keys (label_of nt mode) nt undeclared
              else Camel_case (Node_site (label_of nt mode) nt)
                (map (\<lambda>k. (k, the (map_of snake_case_keys k))) camel) undeclared)"
proof -
  let ?u = "unrecognized_config_keys models nt config"
  have shaped: "reject_removed_config_keys nt config = Inr ()" "shaped_config nt config mode = Inr config"
    using assms(1-3) by (simp_all add: reject_removed_Inr shaped_config_Inr public_part_def)
  have some: "?u \<noteq> []" using assms(4) by (simp add: unrecognized_Nil)
  have "\<not> (rk_instance_of (removed_config_keys_of nt) \<and> has_key ''instanceOf'' config)"
    using assms(1) by (auto simp: retired_keys_def Let_def holds_none_append) (auto simp: holds_none_def)
  then have "validate_node_config models nt config mode =
      Inl (let camel = filter (\<lambda>k. has_key k snake_case_keys) ?u
           in if camel = [] then Undeclared_keys (label_of nt mode) nt ?u
              else Camel_case (Node_site (label_of nt mode) nt)
                (map (\<lambda>k. (k, the (map_of snake_case_keys k))) camel) ?u)"
    using some unfolding validate_node_config_def Let_def shaped bind_result_simps
      reject_unrecognized_config_keys_def camel_case_key_message_def
    by (simp add: refuse_if_def)
  then show ?thesis
    by (intro exI [of _ ?u]) (auto simp: unrecognized_config_keys_def)
qed

definition stored_mode :: validation_mode where
  "stored_mode = run_mode\<lparr>persisted := True, require_complete := False\<rparr>"

theorem undeclared_keys_refused_witness:
  "\<exists>undeclared. set undeclared = {''leftOn'', ''extra''} \<and> sorted undeclared \<and>
    validate_node_config sample_models EDGE_JOIN
      [(''leftOn'', PStr ''id''), (''how'', PStr ''left''), (''extra'', PNone)] stored_mode =
    Inl (Camel_case (Node_site ''edgeJoin'' EDGE_JOIN) [(''leftOn'', ''left_on'')] undeclared)"
  (is "\<exists>u. _ \<and> _ \<and> validate_node_config _ _ ?c _ = _")
proof -
  have label: "label_of EDGE_JOIN stored_mode = ''edgeJoin''" by code_simp
  have rest: "set (keys ?c) - set (valid_keys sample_models EDGE_JOIN) = {''leftOn'', ''extra''}"
    by (auto simp: valid_keys_def sample_models_def)
  have "\<exists>u. set u = {''leftOn'', ''extra''} \<and> sorted u \<and>
    validate_node_config sample_models EDGE_JOIN ?c stored_mode =
      Inl (let camel = filter (\<lambda>k. has_key k snake_case_keys) u
           in if camel = [] then Undeclared_keys ''edgeJoin'' EDGE_JOIN u
              else Camel_case (Node_site ''edgeJoin'' EDGE_JOIN)
                (map (\<lambda>k. (k, the (map_of snake_case_keys k))) camel) u)"
    unfolding rest [symmetric] label [symmetric]
    by (rule undeclared_keys_refused) code_simp+
  then obtain u where u: "set u = {''leftOn'', ''extra''}" "sorted u"
    and eq: "validate_node_config sample_models EDGE_JOIN ?c stored_mode =
      Inl (let camel = filter (\<lambda>k. has_key k snake_case_keys) u
           in if camel = [] then Undeclared_keys ''edgeJoin'' EDGE_JOIN u
              else Camel_case (Node_site ''edgeJoin'' EDGE_JOIN)
                (map (\<lambda>k. (k, the (map_of snake_case_keys k))) camel) u)" by blast
  have "validate_node_config sample_models EDGE_JOIN ?c stored_mode =
    Inl (Camel_case (Node_site ''edgeJoin'' EDGE_JOIN) [(''leftOn'', ''left_on'')] [''extra'', ''leftOn''])"
    by code_simp
  with eq have "u = [''extra'', ''leftOn'']" by (auto simp: Let_def split: if_splits)
  then show ?thesis using u \<open>validate_node_config _ _ _ _ = Inl (Camel_case _ _ _)\<close> by auto
qed

definition sample_config_graph :: config_graph where
  "sample_config_graph =
     Config_graph [\<lparr>node_kind = EDGE_JOIN, node_config = [(''how'', PStr ''left'')], node_title = ''join''\<rparr>]
       [(''pricing'', Config_graph
          [\<lparr>node_kind = EDGE_JOIN, node_config = [(''maintain_order'', PStr ''left'')], node_title = []\<rparr>] [])]"

theorem validate_graph_configs_all_witness:
  "validate_graph_configs sample_models sample_config_graph = Inr ()"
  unfolding validate_graph_configs_all by code_simp

end
