(* ===== verification/Joins.thy ===== *)
theory Joins
  imports Config_Rules
begin

text \<open>
  Joins: the row-cardinality bounds of \<^verbatim>\<open>src/haute/_cardinality.py\<close> and the Edge Join node of
  \<^verbatim>\<open>src/haute/_edge_join.py\<close>. A value whose type the code tests is a \<open>cval\<close>. The joins the
  bounds speak of are stated here as the relational definition of each strategy over an
  arbitrary matching relation, and the columns a join returns as Polars documents them; both
  are specifications, the code itself leaves the join to Polars.
\<close>

section \<open>Cardinality bounds\<close>

datatype cardinality_error =
    Row_bound_invalid string
  | How_not_text
  | Unsupported_how string
  | Validate_not_text
  | Unsupported_validate string
  | Bound_not_rows
  | Evidence_empty

record join_cardinality_bound =
  max_rows :: int
  evidence :: "string list"

definition join_how_values :: "string list" where
  "join_how_values = [''inner'', ''left'', ''right'', ''full'', ''semi'', ''anti'', ''cross'']"

definition join_validation_values :: "string list" where
  "join_validation_values = [''m:m'', ''1:1'', ''1:m'', ''m:1'']"

definition make_cardinality_bound :: "int \<Rightarrow> string list \<Rightarrow> cardinality_error + join_cardinality_bound" where
  "make_cardinality_bound rows texts =
     (if rows < 0 then Inl Bound_not_rows
      else if texts = [] \<or> [] \<in> set texts then Inl Evidence_empty
      else Inr \<lparr>max_rows = rows, evidence = texts\<rparr>)"

definition row_bound :: "cval \<Rightarrow> string \<Rightarrow> cardinality_error + int" where
  "row_bound value name =
     (case value of PInt i \<Rightarrow> if i < 0 then Inl (Row_bound_invalid name) else Inr i
      | _ \<Rightarrow> Inl (Row_bound_invalid name))"

definition join_how_of :: "cval \<Rightarrow> cardinality_error + string" where
  "join_how_of value =
     (case value of PStr s \<Rightarrow> if s \<notin> set join_how_values then Inl (Unsupported_how s) else Inr s
      | _ \<Rightarrow> Inl How_not_text)"

definition normalise_join_validation :: "cval \<Rightarrow> cardinality_error + string" where
  "normalise_join_validation value =
     (if absent value then Inr ''m:m''
      else case value of
        PStr s \<Rightarrow> if s \<notin> set join_validation_values then Inl (Unsupported_validate s) else Inr s
      | _ \<Rightarrow> Inl Validate_not_text)"

definition bound_formula :: "string \<Rightarrow> bool \<Rightarrow> bool \<Rightarrow> int \<Rightarrow> int \<Rightarrow> int \<times> string" where
  "bound_formula strategy unique_left unique_right left right =
     (if strategy = ''cross'' then (left * right, ''left_rows*right_rows'')
      else if strategy \<in> {''semi'', ''anti''} then (left, ''left_rows'')
      else if strategy = ''inner'' then
        (if unique_left \<and> unique_right
         then (min left right, ''min(left_rows,right_rows):both_keys_unique'')
         else if unique_right then (left, ''left_rows:right_key_unique'')
         else if unique_left then (right, ''right_rows:left_key_unique'')
         else (left * right, ''left_rows*right_rows''))
      else if strategy = ''left'' then
        (if unique_right then (left, ''left_rows:right_key_unique'')
         else if unique_left
         then (if right = 0 then left else left + right - 1,
           ''left_rows+right_rows-1:left_key_unique_and_right_nonempty'')
         else (left * max right 1, ''left_rows*max(right_rows,1)''))
      else if strategy = ''right'' then
        (if unique_left then (right, ''right_rows:left_key_unique'')
         else if unique_right
         then (if left = 0 then right else left + right - 1,
           ''left_rows+right_rows-1:right_key_unique_and_left_nonempty'')
         else (right * max left 1, ''right_rows*max(left_rows,1)''))
      else if left = 0 then (right, ''right_rows:left_empty'')
      else if right = 0 then (left, ''left_rows:right_empty'')
      else if unique_left \<or> unique_right
      then (left + right, ''left_rows+right_rows:at_least_one_key_unique'')
      else (max (left * right) (left + right), ''max(left_rows*right_rows,left_rows+right_rows)''))"

definition left_unique_contract :: "string \<Rightarrow> bool" where
  "left_unique_contract validation \<longleftrightarrow> validation \<in> {''1:1'', ''1:m''}"

definition right_unique_contract :: "string \<Rightarrow> bool" where
  "right_unique_contract validation \<longleftrightarrow> validation \<in> {''1:1'', ''m:1''}"

definition join_cardinality_upper_bound :: "cval \<Rightarrow> cval \<Rightarrow> cval \<Rightarrow> cval \<Rightarrow>
    cardinality_error + join_cardinality_bound" where
  "join_cardinality_upper_bound left_rows right_rows how validate =
     bind_result (row_bound left_rows ''left_rows'') (\<lambda>left.
     bind_result (row_bound right_rows ''right_rows'') (\<lambda>right.
     bind_result (join_how_of how) (\<lambda>strategy.
     bind_result (normalise_join_validation validate) (\<lambda>validation.
     let (rows, formula) = bound_formula strategy (left_unique_contract validation)
           (right_unique_contract validation) left right
     in make_cardinality_bound rows
          [''join_how='' @ strategy, ''join_validate='' @ validation,
           ''join_cardinality_formula='' @ formula,
           ''join_cardinality_upper_bound='' @ show_int rows]))))"

section \<open>The relational joins\<close>

text \<open>
  The rows each strategy returns when \<open>m a b\<close> says that a left and a right row match. A
  uniqueness contract means that a row of the other side matches at most one row of the side
  whose keys are unique.
\<close>

definition matched_pairs :: "('a \<Rightarrow> 'b \<Rightarrow> bool) \<Rightarrow> 'a list \<Rightarrow> 'b list \<Rightarrow> nat" where
  "matched_pairs m L R = (\<Sum>a\<leftarrow>L. length (filter (m a) R))"

definition unmatched :: "('a \<Rightarrow> 'b \<Rightarrow> bool) \<Rightarrow> 'a list \<Rightarrow> 'b list \<Rightarrow> nat" where
  "unmatched m L R = length (filter (\<lambda>a. filter (m a) R = []) L)"

definition flip :: "('a \<Rightarrow> 'b \<Rightarrow> bool) \<Rightarrow> 'b \<Rightarrow> 'a \<Rightarrow> bool" where
  "flip m b a = m a b"

definition join_rows :: "string \<Rightarrow> ('a \<Rightarrow> 'b \<Rightarrow> bool) \<Rightarrow> 'a list \<Rightarrow> 'b list \<Rightarrow> nat" where
  "join_rows how m L R =
     (if how = ''cross'' then length L * length R
      else if how = ''semi'' then length L - unmatched m L R
      else if how = ''anti'' then unmatched m L R
      else if how = ''inner'' then matched_pairs m L R
      else if how = ''left'' then matched_pairs m L R + unmatched m L R
      else if how = ''right'' then matched_pairs m L R + unmatched (flip m) R L
      else matched_pairs m L R + unmatched m L R + unmatched (flip m) R L)"

definition keys_unique :: "('a \<Rightarrow> 'b \<Rightarrow> bool) \<Rightarrow> 'a list \<Rightarrow> 'b list \<Rightarrow> bool" where
  "keys_unique m L R \<longleftrightarrow> list_all (\<lambda>b. length (filter (\<lambda>a. m a b) L) \<le> 1) R"

definition contract_holds :: "string \<Rightarrow> ('a \<Rightarrow> 'b \<Rightarrow> bool) \<Rightarrow> 'a list \<Rightarrow> 'b list \<Rightarrow> bool" where
  "contract_holds validation m L R \<longleftrightarrow>
     (if left_unique_contract validation then keys_unique m L R else True) \<and>
     (if right_unique_contract validation then keys_unique (flip m) R L else True)"

lemma flip_flip [simp]: "flip (flip m) = m"
  by (intro ext) (simp add: flip_def)

lemma matched_pairs_Nil [simp]: "matched_pairs m [] R = 0" "matched_pairs m L [] = 0"
  by (simp_all add: matched_pairs_def)

lemma matched_pairs_Cons_left: "matched_pairs m (a # L) R = length (filter (m a) R) + matched_pairs m L R"
  by (simp add: matched_pairs_def)

lemma matched_pairs_Cons_right:
  "matched_pairs m L (b # R) = length (filter (\<lambda>a. m a b) L) + matched_pairs m L R"
  by (induction L) (auto simp: matched_pairs_def)

lemma matched_pairs_flip: "matched_pairs (flip m) R L = matched_pairs m L R"
  by (induction R) (simp_all add: matched_pairs_Cons_left matched_pairs_Cons_right flip_def [abs_def])

lemma unmatched_le: "unmatched m L R \<le> length L"
  by (simp add: unmatched_def)

lemma matched_pairs_product: "matched_pairs m L R \<le> length L * length R"
  by (induction L) (auto simp: matched_pairs_Cons_left intro: add_mono length_filter_le)

lemma matched_pairs_unique: "keys_unique m L R \<Longrightarrow> matched_pairs m L R \<le> length R"
  by (induction R) (auto simp: keys_unique_def matched_pairs_Cons_right)

lemma left_rows_each: "matched_pairs m L R + unmatched m L R \<le> length L * max (length R) 1"
proof (induction L)
  case (Cons a L)
  have "length (filter (m a) R) + (if filter (m a) R = [] then 1 else 0) \<le> max (length R) 1"
    by (cases "filter (m a) R = []") (simp_all add: le_max_iff_disj)
  with Cons show ?case by (auto simp: matched_pairs_Cons_left unmatched_def split: if_splits)
qed (simp add: unmatched_def)

lemma left_rows_right_unique:
  "keys_unique (flip m) R L \<Longrightarrow> matched_pairs m L R + unmatched m L R = length L"
proof (induction L)
  case (Cons a L)
  then have "length (filter (m a) R) \<le> 1" by (simp add: keys_unique_def flip_def [abs_def])
  then have "length (filter (m a) R) + (if filter (m a) R = [] then 1 else 0) = 1"
    by (cases "filter (m a) R") auto
  with Cons show ?case by (auto simp: matched_pairs_Cons_left unmatched_def keys_unique_def split: if_splits)
qed (simp add: unmatched_def)

lemma unmatched_all: "matched_pairs m L R = 0 \<longleftrightarrow> unmatched m L R = length L"
proof (induction L)
  case (Cons a L)
  have "length (filter (\<lambda>a. filter (m a) R = []) L) \<noteq> Suc (length L)"
    by (metis length_filter_le not_less_eq_eq order_refl)
  with Cons show ?case by (auto simp: matched_pairs_Cons_left unmatched_def)
qed (simp add: unmatched_def)

lemma left_rows_left_unique:
  assumes "keys_unique m L R" "R \<noteq> []"
  shows "matched_pairs m L R + unmatched m L R \<le> length L + length R - 1"
proof (cases "matched_pairs m L R = 0")
  case True
  then show ?thesis using unmatched_le [of m L R] assms(2) by (cases R) auto
next
  case False
  then have "unmatched m L R < length L" using unmatched_all [of m L R] unmatched_le [of m L R] by linarith
  then show ?thesis using matched_pairs_unique [OF assms(1)] by linarith
qed

lemma matched_sides:
  "matched_pairs m L R \<le> (length L - unmatched m L R) * (length R - unmatched (flip m) R L)"
proof -
  let ?l = "filter (\<lambda>a. filter (m a) R \<noteq> []) L" and ?r = "filter (\<lambda>b. filter (flip m b) L \<noteq> []) R"
  have sizes: "length ?l = length L - unmatched m L R" "length ?r = length R - unmatched (flip m) R L"
    using sum_length_filter_compl [of "\<lambda>a. filter (m a) R = []" L]
      sum_length_filter_compl [of "\<lambda>b. filter (flip m b) L = []" R]
    by (simp_all add: unmatched_def)
  have row: "filter (m a) R = filter (m a) ?r" if "a \<in> set L" for a
    unfolding filter_filter by (rule filter_cong) (use that in \<open>auto simp: flip_def filter_empty_conv\<close>)
  have "matched_pairs m L R = matched_pairs m L ?r"
    unfolding matched_pairs_def by (intro arg_cong [of _ _ sum_list] map_cong refl) (use row in simp)
  also have "\<dots> = matched_pairs m ?l ?r"
  proof -
    have "matched_pairs m xs ys = matched_pairs m (filter (\<lambda>a. filter (m a) R \<noteq> []) xs) ys"
      if "set ys \<subseteq> set R" for xs ys
      using that by (induction xs) (auto simp: matched_pairs_Cons_left filter_empty_conv)
    then show ?thesis by (meson filter_is_subset)
  qed
  also have "\<dots> \<le> length ?l * length ?r" by (rule matched_pairs_product)
  finally show ?thesis unfolding sizes .
qed

lemma cross_terms:
  fixes a b l r :: nat
  assumes "1 \<le> a" "a \<le> l" "1 \<le> b" "b \<le> r"
  shows "a * b + (l - a) + (r - b) \<le> l * r"
proof -
  obtain x y z w where "a = Suc x" "b = Suc y" "l = Suc x + z" "r = Suc y + w"
    using assms by (metis Suc_le_D add.commute le_Suc_ex One_nat_def)
  then show ?thesis by (simp add: algebra_simps)
qed

lemma full_rows:
  assumes "L \<noteq> []" "R \<noteq> []"
  shows "matched_pairs m L R + unmatched m L R + unmatched (flip m) R L \<le>
    max (length L * length R) (length L + length R)"
proof (cases "matched_pairs m L R = 0")
  case True
  then show ?thesis using unmatched_le [of m L R] unmatched_le [of "flip m" R L] by simp
next
  case False
  let ?a = "length L - unmatched m L R" and ?b = "length R - unmatched (flip m) R L"
  have "?a * ?b \<noteq> 0" using False matched_sides [of m L R] by linarith
  then have "1 \<le> ?a" "1 \<le> ?b" by (metis One_nat_def Suc_leI bot_nat_0.not_eq_extremum mult_is_0)+
  then have "?a * ?b + (length L - ?a) + (length R - ?b) \<le> length L * length R"
    by (intro cross_terms) simp_all
  then show ?thesis
    using matched_sides [of m L R] unmatched_le [of m L R] unmatched_le [of "flip m" R L] by simp
qed

lemma full_rows_unique:
  assumes "keys_unique m L R \<or> keys_unique (flip m) R L"
  shows "matched_pairs m L R + unmatched m L R + unmatched (flip m) R L \<le> length L + length R"
  using assms
proof
  assume "keys_unique (flip m) R L"
  then show ?thesis using left_rows_right_unique [of m R L] unmatched_le [of "flip m" R L] by simp
next
  assume "keys_unique m L R"
  then have "matched_pairs m L R + unmatched (flip m) R L = length R"
    using left_rows_right_unique [of "flip m" L R] by (simp add: matched_pairs_flip)
  then show ?thesis using unmatched_le [of m L R] by simp
qed

text \<open>The mirror images, for right joins.\<close>

lemma right_rows_each: "matched_pairs m L R + unmatched (flip m) R L \<le> length R * max (length L) 1"
  using left_rows_each [of "flip m" R L] by (simp add: matched_pairs_flip)

lemma right_rows_left_unique:
  "keys_unique m L R \<Longrightarrow> matched_pairs m L R + unmatched (flip m) R L = length R"
  using left_rows_right_unique [of "flip m" L R] by (simp add: matched_pairs_flip)

lemma right_rows_right_unique:
  "keys_unique (flip m) R L \<Longrightarrow> L \<noteq> [] \<Longrightarrow>
    matched_pairs m L R + unmatched (flip m) R L \<le> length R + length L - 1"
  using left_rows_left_unique [of "flip m" R L] by (simp add: matched_pairs_flip)

lemma matched_pairs_unique_right: "keys_unique (flip m) R L \<Longrightarrow> matched_pairs m L R \<le> length L"
  using matched_pairs_unique [of "flip m" R L] by (simp add: matched_pairs_flip)

lemma join_rows_at:
  "join_rows ''inner'' m L R = matched_pairs m L R"
  "join_rows ''left'' m L R = matched_pairs m L R + unmatched m L R"
  "join_rows ''right'' m L R = matched_pairs m L R + unmatched (flip m) R L"
  "join_rows ''full'' m L R = matched_pairs m L R + unmatched m L R + unmatched (flip m) R L"
  "join_rows ''semi'' m L R = length L - unmatched m L R"
  "join_rows ''anti'' m L R = unmatched m L R"
  "join_rows ''cross'' m L R = length L * length R"
  by (simp_all add: join_rows_def)

lemma bound_at:
  "fst (bound_formula ''inner'' lu ru l r) = (if lu \<and> ru then min l r else if ru then l else if lu then r else l * r)"
  "fst (bound_formula ''left'' lu ru l r) =
     (if ru then l else if lu then if r = 0 then l else l + r - 1 else l * max r 1)"
  "fst (bound_formula ''right'' lu ru l r) =
     (if lu then r else if ru then if l = 0 then r else l + r - 1 else r * max l 1)"
  "fst (bound_formula ''full'' lu ru l r) = (if l = 0 then r else if r = 0 then l
     else if lu \<or> ru then l + r else max (l * r) (l + r))"
  "fst (bound_formula ''semi'' lu ru l r) = l"
  "fst (bound_formula ''anti'' lu ru l r) = l"
  "fst (bound_formula ''cross'' lu ru l r) = l * r"
  by (simp_all add: bound_formula_def)

lemma rows_product: "int (length xs * max (length ys) 1) = int (length xs) * max (int (length ys)) 1"
  by (simp add: of_nat_max)

lemma bound_formula_safe:
  assumes how: "how \<in> set join_how_values"
    and left: "unique_left \<Longrightarrow> keys_unique m L R"
    and right: "unique_right \<Longrightarrow> keys_unique (flip m) R L"
  shows "int (join_rows how m L R) \<le>
    fst (bound_formula how unique_left unique_right (int (length L)) (int (length R)))"
proof -
  consider "how = ''inner''" | "how = ''left''" | "how = ''right''" | "how = ''full''"
    | "how = ''semi''" | "how = ''anti''" | "how = ''cross''"
    using how unfolding join_how_values_def list.set insert_iff empty_iff by argo
  then show ?thesis
  proof cases
    case 1
    have "int (matched_pairs m L R) \<le> int (length L) * int (length R)"
      using matched_pairs_product [of m L R] by (metis of_nat_le_iff of_nat_mult)
    moreover have "unique_left \<Longrightarrow> matched_pairs m L R \<le> length R" using left matched_pairs_unique by blast
    moreover have "unique_right \<Longrightarrow> matched_pairs m L R \<le> length L" using right matched_pairs_unique_right by blast
    ultimately show ?thesis unfolding 1 join_rows_at bound_at by simp
  next
    case 2
    have "matched_pairs m L R + unmatched m L R \<le> length L * max (length R) 1" by (rule left_rows_each)
    then have "int (matched_pairs m L R + unmatched m L R) \<le> int (length L) * max (int (length R)) 1"
      by (simp only: rows_product [symmetric] of_nat_le_iff)
    moreover have "unique_right \<Longrightarrow> matched_pairs m L R + unmatched m L R = length L"
      using right left_rows_right_unique by blast
    moreover have "unique_left \<Longrightarrow> R \<noteq> [] \<Longrightarrow> matched_pairs m L R + unmatched m L R \<le> length L + length R - 1"
      using left left_rows_left_unique by blast
    ultimately show ?thesis unfolding 2
      by (cases R) (auto simp: join_rows_at bound_at unmatched_le)
  next
    case 3
    have "matched_pairs m L R + unmatched (flip m) R L \<le> length R * max (length L) 1" by (rule right_rows_each)
    then have "int (matched_pairs m L R + unmatched (flip m) R L) \<le> int (length R) * max (int (length L)) 1"
      by (simp only: rows_product [symmetric] of_nat_le_iff)
    moreover have "unique_left \<Longrightarrow> matched_pairs m L R + unmatched (flip m) R L = length R"
      using left right_rows_left_unique by blast
    moreover have "unique_right \<Longrightarrow> L \<noteq> [] \<Longrightarrow>
        matched_pairs m L R + unmatched (flip m) R L \<le> length R + length L - 1"
      using right right_rows_right_unique by blast
    ultimately show ?thesis unfolding 3
      by (cases L) (auto simp: join_rows_at bound_at unmatched_le)
  next
    case 4
    have empty: "L = [] \<Longrightarrow> unmatched (flip m) R L = length R" "R = [] \<Longrightarrow> unmatched m L R = length L"
      by (simp_all add: unmatched_def)
    have product: "int (max (length L * length R) (length L + length R)) =
        max (int (length L) * int (length R)) (int (length L) + int (length R))"
      by (simp add: of_nat_max)
    consider "L = []" | "R = []" | "L \<noteq> []" "R \<noteq> []" by blast
    then show ?thesis
    proof cases
      case a: 1
      then show ?thesis unfolding 4 by (simp add: join_rows_at bound_at empty unmatched_def)
    next
      case a: 2
      then show ?thesis unfolding 4 by (simp add: join_rows_at bound_at empty unmatched_def)
    next
      case a: 3
      show ?thesis
      proof (cases "unique_left \<or> unique_right")
        case True
        then have "keys_unique m L R \<or> keys_unique (flip m) R L" using left right by blast
        from full_rows_unique [OF this] show ?thesis
          using True a unfolding 4 by (auto simp: join_rows_at bound_at)
      next
        case False
        then show ?thesis
          using full_rows [OF a, of m, folded of_nat_le_iff [where 'a=int], unfolded product] a
          unfolding 4 join_rows_at bound_at by simp
      qed
    qed
  next
    case 5
    then show ?thesis by (simp add: join_rows_at bound_at)
  next
    case 6
    then show ?thesis by (simp add: join_rows_at bound_at unmatched_le)
  next
    case 7
    then show ?thesis by (simp add: join_rows_at bound_at)
  qed
qed

lemma bound_formula_text: "snd (bound_formula how lu ru l r) \<noteq> []"
  by (simp add: bound_formula_def)

lemma bound_formula_nonneg: "0 \<le> l \<Longrightarrow> 0 \<le> r \<Longrightarrow> 0 \<le> fst (bound_formula how lu ru l r)"
  by (auto simp: bound_formula_def)

lemma cardinality_Inr:
  "join_cardinality_upper_bound (PInt l) (PInt r) (PStr how) validate = Inr bound \<Longrightarrow>
     0 \<le> l \<and> 0 \<le> r \<and> how \<in> set join_how_values \<and>
     (\<exists>validation. normalise_join_validation validate = Inr validation \<and>
       max_rows bound = fst (bound_formula how (left_unique_contract validation)
         (right_unique_contract validation) l r))"
  by (auto simp: join_cardinality_upper_bound_def bind_result_Inr row_bound_def join_how_of_def
      make_cardinality_bound_def split_beta Let_def split: if_splits)

lemma cardinality_total:
  assumes "0 \<le> l" "0 \<le> r" "how \<in> set join_how_values" "normalise_join_validation validate = Inr validation"
  shows "\<exists>bound. join_cardinality_upper_bound (PInt l) (PInt r) (PStr how) validate = Inr bound \<and>
    max_rows bound = fst (bound_formula how (left_unique_contract validation)
      (right_unique_contract validation) l r)"
  using assms bound_formula_nonneg [of l r how "left_unique_contract validation" "right_unique_contract validation"]
  by (simp add: join_cardinality_upper_bound_def row_bound_def join_how_of_def make_cardinality_bound_def
      split_beta Let_def)

text \<open>
  C14: The cardinality bound is safe: whatever the tables and the matching relation, a join whose
  uniqueness contract holds returns at most the bound's rows, for every strategy.
\<close>

theorem join_cardinality_safe:
  assumes "join_cardinality_upper_bound (PInt (int (length L))) (PInt (int (length R))) (PStr how) validate = Inr bound"
    and "normalise_join_validation validate = Inr validation"
    and "contract_holds validation m L R"
  shows "int (join_rows how m L R) \<le> max_rows bound"
proof -
  have "how \<in> set join_how_values"
    and rows: "max_rows bound = fst (bound_formula how (left_unique_contract validation)
      (right_unique_contract validation) (int (length L)) (int (length R)))"
    using cardinality_Inr [OF assms(1)] assms(2) by auto
  then show ?thesis
    unfolding rows using assms(3)
    by (intro bound_formula_safe) (simp_all add: contract_holds_def)
qed

theorem join_cardinality_safe_witness:
  "int (join_rows ''left'' (\<lambda>a b. a = b mod 10) [1, 2, 3 :: nat] [1, 11, 4 :: nat]) \<le> 5"
proof -
  have "join_cardinality_upper_bound (PInt (int (length [1, 2, 3 :: nat]))) (PInt (int (length [1, 11, 4 :: nat])))
      (PStr ''left'') (PStr ''1:m'') = Inr \<lparr>max_rows = 5, evidence =
        [''join_how=left'', ''join_validate=1:m'',
         ''join_cardinality_formula=left_rows+right_rows-1:left_key_unique_and_right_nonempty'',
         ''join_cardinality_upper_bound=5'']\<rparr>"
    by code_simp
  from join_cardinality_safe [OF this] show ?thesis
    by (simp add: contract_holds_def normalise_join_validation_def absent_def join_validation_values_def
        left_unique_contract_def right_unique_contract_def keys_unique_def)
qed

section \<open>The bounds are reached\<close>

definition no_match :: "nat \<Rightarrow> nat \<Rightarrow> bool" where "no_match a b = False"
definition all_match :: "nat \<Rightarrow> nat \<Rightarrow> bool" where "all_match a b = True"
definition same_match :: "nat \<Rightarrow> nat \<Rightarrow> bool" where "same_match a b = (a = b)"
definition first_match :: "nat \<Rightarrow> nat \<Rightarrow> bool" where "first_match a b = (a = 0)"

lemma no_match_rows:
  "matched_pairs no_match L R = 0" "unmatched no_match L R = length L" "flip no_match = no_match"
  "keys_unique no_match L R"
  by (simp_all add: matched_pairs_def unmatched_def flip_def [abs_def] no_match_def keys_unique_def list_all_iff fun_eq_iff)

lemma all_match_rows:
  "matched_pairs all_match L R = length L * length R" "flip all_match = all_match"
  "R \<noteq> [] \<Longrightarrow> unmatched all_match L R = 0"
  by (simp_all add: matched_pairs_def unmatched_def flip_def [abs_def] all_match_def fun_eq_iff sum_list_triv)

lemma filter_upt_same: "length (filter (\<lambda>x. x = (i :: nat)) [0..<n]) = (if i < n then 1 else 0)"
  by (induction n) auto

lemma filter_upt_same': "length (filter (\<lambda>x. (i :: nat) = x) [0..<n]) = (if i < n then 1 else 0)"
  by (simp add: eq_commute [of i] filter_upt_same)

lemma same_match_rows:
  "matched_pairs same_match [0..<l] [0..<r] = min l r" "flip same_match = same_match"
  "keys_unique same_match [0..<l] R"
proof -
  have "(\<Sum>a\<leftarrow>[0..<l]. length (filter (same_match a) [0..<r])) = min l r"
    by (induction l) (simp_all add: same_match_def [abs_def] filter_upt_same' min_def)
  then show "matched_pairs same_match [0..<l] [0..<r] = min l r" by (simp add: matched_pairs_def)
qed (auto simp: same_match_def flip_def fun_eq_iff keys_unique_def list_all_iff filter_upt_same)

lemma first_match_rows:
  assumes "0 < l" "0 < r"
  shows "matched_pairs first_match [0..<l] [0..<r] = r" "keys_unique first_match [0..<l] R"
    "unmatched first_match [0..<l] [0..<r] = l - 1" "unmatched (flip first_match) [0..<r] [0..<l] = 0"
proof -
  have start: "[0..<l] = 0 # [1..<l]" using assms(1) by (simp add: upt_rec)
  have nonzero: "filter (\<lambda>a. a = 0) [1..<l] = []" by (auto simp: filter_empty_conv)
  show "matched_pairs first_match [0..<l] [0..<r] = r"
    unfolding start matched_pairs_Cons_left by (simp add: matched_pairs_def first_match_def [abs_def] cong: map_cong)
  show "keys_unique first_match [0..<l] R"
    by (auto simp: keys_unique_def list_all_iff first_match_def filter_upt_same)
  show "unmatched first_match [0..<l] [0..<r] = l - 1"
    using assms unfolding start unmatched_def by (simp add: first_match_def [abs_def] cong: filter_cong)
  show "unmatched (flip first_match) [0..<r] [0..<l] = 0"
    unfolding start by (simp add: unmatched_def flip_def first_match_def)
qed

definition reaches :: "string \<Rightarrow> bool \<Rightarrow> bool \<Rightarrow> nat \<Rightarrow> nat \<Rightarrow> (nat \<Rightarrow> nat \<Rightarrow> bool) \<Rightarrow> bool" where
  "reaches how lu ru l r m \<longleftrightarrow>
     (lu \<longrightarrow> keys_unique m [0..<l] [0..<r]) \<and> (ru \<longrightarrow> keys_unique (flip m) [0..<r] [0..<l]) \<and>
     int (join_rows how m [0..<l] [0..<r]) = fst (bound_formula how lu ru (int l) (int r))"

lemma flipped_first_rows:
  assumes "0 < l" "0 < r"
  shows "matched_pairs (flip first_match) [0..<l] [0..<r] = l" "keys_unique first_match [0..<r] L"
    "unmatched (flip first_match) [0..<l] [0..<r] = 0" "unmatched first_match [0..<r] [0..<l] = r - 1"
  using first_match_rows [OF assms(2,1)] by (simp_all add: matched_pairs_flip)

lemma inner_reached: "0 < l \<Longrightarrow> 0 < r \<Longrightarrow> \<exists>m. reaches ''inner'' lu ru l r m"
  by (rule exI [of _ "if lu then if ru then same_match else first_match
      else if ru then flip first_match else all_match"])
    (auto simp: reaches_def join_rows_at bound_at same_match_rows first_match_rows flipped_first_rows
      all_match_rows)

lemma left_reached: "0 < l \<Longrightarrow> 0 < r \<Longrightarrow> \<exists>m. reaches ''left'' lu ru l r m"
  by (rule exI [of _ "if ru then no_match else if lu then first_match else all_match"])
    (auto simp: reaches_def join_rows_at bound_at no_match_rows first_match_rows all_match_rows)

lemma right_reached: "0 < l \<Longrightarrow> 0 < r \<Longrightarrow> \<exists>m. reaches ''right'' lu ru l r m"
  by (rule exI [of _ "if lu then no_match else if ru then flip first_match else all_match"])
    (auto simp: reaches_def join_rows_at bound_at no_match_rows flipped_first_rows all_match_rows)

lemma full_reached: "0 < l \<Longrightarrow> 0 < r \<Longrightarrow> \<exists>m. reaches ''full'' lu ru l r m"
proof (rule exI [of _ "if lu \<or> ru \<or> l * r \<le> l + r then no_match else all_match"])
  assume "0 < l" "0 < r"
  moreover have "int l * int r \<le> int l + int r \<longleftrightarrow> l * r \<le> l + r"
    by (metis of_nat_add of_nat_le_iff of_nat_mult)
  ultimately show "reaches ''full'' lu ru l r (if lu \<or> ru \<or> l * r \<le> l + r then no_match else all_match)"
    by (auto simp: reaches_def join_rows_at bound_at no_match_rows all_match_rows max_def)
qed

lemma one_sided_reached:
  assumes "0 < l" "0 < r"
  shows "\<exists>m. reaches ''cross'' lu ru l r m" "\<exists>m. reaches ''anti'' lu ru l r m"
    "\<not> lu \<Longrightarrow> \<exists>m. reaches ''semi'' lu ru l r m"
proof -
  have "reaches ''cross'' lu ru l r no_match" "reaches ''anti'' lu ru l r no_match"
    by (simp_all add: reaches_def join_rows_at bound_at no_match_rows)
  then show "\<exists>m. reaches ''cross'' lu ru l r m" "\<exists>m. reaches ''anti'' lu ru l r m" by blast+
  show "\<exists>m. reaches ''semi'' lu ru l r m" if "\<not> lu"
    using that assms
    by (intro exI [of _ "flip first_match"]) (simp add: reaches_def join_rows_at bound_at flipped_first_rows)
qed

text \<open>
  C15: The bound is the least one: for non-empty tables of any two sizes there are tables of these
  sizes and a matching relation under which the contract holds and the join returns exactly the
  bound's rows. Only a semi join under a contract that makes the left keys unique is left out:
  its bound is the left row count whatever the right side can match.
\<close>

theorem join_cardinality_exact:
  assumes "0 < l" "0 < r" and "how \<in> set join_how_values"
    and "normalise_join_validation validate = Inr validation"
    and "how \<noteq> ''semi'' \<or> \<not> left_unique_contract validation"
  shows "\<exists>m bound.
    join_cardinality_upper_bound (PInt (int l)) (PInt (int r)) (PStr how) validate = Inr bound \<and>
    contract_holds validation m [0..<l] [0..<r] \<and>
    int (join_rows how m [0..<l] [0..<r]) = max_rows bound"
proof -
  let ?lu = "left_unique_contract validation" and ?ru = "right_unique_contract validation"
  have "\<exists>m. reaches how ?lu ?ru l r m"
    using assms(3,5) inner_reached [OF assms(1,2)] left_reached [OF assms(1,2)]
      right_reached [OF assms(1,2)] full_reached [OF assms(1,2)] one_sided_reached [OF assms(1,2)]
    unfolding join_how_values_def list.set insert_iff empty_iff by metis
  then obtain m where m: "reaches how ?lu ?ru l r m" ..
  obtain bound where
    "join_cardinality_upper_bound (PInt (int l)) (PInt (int r)) (PStr how) validate = Inr bound"
    "max_rows bound = fst (bound_formula how ?lu ?ru (int l) (int r))"
    using cardinality_total [of "int l" "int r" how validate validation] assms by auto
  with m show ?thesis
    by (intro exI [of _ m] exI [of _ bound]) (simp add: reaches_def contract_holds_def)
qed

theorem join_cardinality_exact_witness:
  "\<exists>m bound. join_cardinality_upper_bound (PInt 3) (PInt 2) (PStr ''full'') PNone = Inr bound \<and>
     contract_holds ''m:m'' m [0..<3] [0..<2] \<and> int (join_rows ''full'' m [0..<3] [0..<2]) = max_rows bound"
  using join_cardinality_exact [of 3 2 "''full''" PNone "''m:m''"]
  by (simp add: join_how_values_def normalise_join_validation_def absent_def)

section \<open>The Edge Join node\<close>

datatype edge_join_error =
    Retired_config config_error
  | Legacy_arguments "string list"
  | Handles_not_two "string option list option"
  | Handles_wrong_roles "string option list"
  | Bad_how cval
  | Bad_key_items string cval
  | Bad_key_kind string cval
  | Cross_with_keys
  | On_with_sides
  | Keys_missing
  | Key_counts_differ cval cval
  | Suffix_not_text cval
  | Bad_validate cval
  | Bad_coalesce cval
  | Bad_order cval

definition edge_join_default_how :: string where
  "edge_join_default_how = ''left''"

definition edge_join_default_suffix :: string where
  "edge_join_default_suffix = ''_right''"

definition allowed_how :: "string list" where
  "allowed_how = [''inner'', ''left'', ''right'', ''full'', ''semi'', ''anti'', ''cross'']"

definition role_handles :: "string list" where
  "role_handles = [''base'', ''join'']"

definition legacy_role_decorator_args :: "string list" where
  "legacy_role_decorator_args = [''base_input'', ''join_input'']"

definition join_maintain_order :: "string list" where
  "join_maintain_order = [''none'', ''left'', ''right'', ''left_right'', ''right_left'']"

definition edge_join_config_keys :: "string list" where
  "edge_join_config_keys = [''how'', ''on'', ''left_on'', ''right_on'', ''suffix'', ''coalesce'',
     ''validate'', ''maintain_order'']"

definition column_config_keys :: "string list" where
  "column_config_keys = [''selected_columns'', ''column_renames'']"

definition normalise_edge_join_decorator_kwargs :: "config \<Rightarrow> edge_join_error + config" where
  "normalise_edge_join_decorator_kwargs kwargs =
     (let legacy = sort (held_keys legacy_role_decorator_args kwargs)
      in if legacy \<noteq> [] then Inl (Legacy_arguments legacy) else Inr kwargs)"

definition empty_setting :: "cval \<Rightarrow> bool" where
  "empty_setting v \<longleftrightarrow> v = PNone \<or> v = PStr [] \<or> v = PList []"

definition decorator_item :: "config \<Rightarrow> string \<Rightarrow> config" where
  "decorator_item config key =
     (case map_of config key of
        None \<Rightarrow> []
      | Some value \<Rightarrow>
          if empty_setting value then []
          else if key = ''suffix'' \<and> value = PStr edge_join_default_suffix then []
          else [(key, value)])"

definition edge_join_config_to_decorator_kwargs :: "config \<Rightarrow> config" where
  "edge_join_config_to_decorator_kwargs config =
     concat (map (decorator_item config) (edge_join_config_keys @ column_config_keys))"

definition resolve_edge_join_role_indices :: "string option list option \<Rightarrow> edge_join_error + nat \<times> nat" where
  "resolve_edge_join_role_indices target_handles =
     (case target_handles of
        None \<Rightarrow> Inl (Handles_not_two None)
      | Some handles \<Rightarrow>
          if length handles \<noteq> 2 then Inl (Handles_not_two (Some handles))
          else if set handles \<noteq> Some ` set role_handles then Inl (Handles_wrong_roles handles)
          else case (index_of (Some ''base'') handles, index_of (Some ''join'') handles) of
              (Some i, Some j) \<Rightarrow> Inr (i, j)
            | _ \<Rightarrow> Inl (Handles_wrong_roles handles))"

definition normalise_key :: "cval \<Rightarrow> string \<Rightarrow> edge_join_error + cval option" where
  "normalise_key value field =
     (if empty_setting value then Inr None
      else case value of
        PStr s \<Rightarrow> Inr (Some value)
      | PList items \<Rightarrow>
          if list_all (\<lambda>item. column_name item \<noteq> None) items then Inr (Some value)
          else Inl (Bad_key_items field value)
      | _ \<Rightarrow> Inl (Bad_key_kind field value))"

definition key_count :: "cval \<Rightarrow> nat" where
  "key_count value = (case value of PList items \<Rightarrow> length items | _ \<Rightarrow> 1)"

definition key_columns :: "cval \<Rightarrow> string list" where
  "key_columns value =
     (case value of PList items \<Rightarrow> map (py_str (\<lambda>_. [])) items | _ \<Rightarrow> [py_str (\<lambda>_. []) value])"

definition join_how :: "config \<Rightarrow> edge_join_error + string" where
  "join_how config =
     (let how = py_get ''how'' config
      in case (if py_truthy how then how else PStr edge_join_default_how) of
           PStr s \<Rightarrow> if s \<in> set allowed_how then Inr s else Inl (Bad_how (PStr s))
         | v \<Rightarrow> Inl (Bad_how v))"

definition check_join_keys :: "string \<Rightarrow> cval option \<Rightarrow> cval option \<Rightarrow> cval option \<Rightarrow>
    edge_join_error + unit" where
  "check_join_keys how on left_on right_on =
     (if how = ''cross'' then refuse_if (on \<noteq> None \<or> left_on \<noteq> None \<or> right_on \<noteq> None) Cross_with_keys
      else if on \<noteq> None \<and> (left_on \<noteq> None \<or> right_on \<noteq> None) then Inl On_with_sides
      else if on \<noteq> None then Inr ()
      else case (left_on, right_on) of
          (Some l, Some r) \<Rightarrow> refuse_if (key_count l \<noteq> key_count r) (Key_counts_differ l r)
        | _ \<Rightarrow> Inl Keys_missing)"

definition join_suffix :: "config \<Rightarrow> edge_join_error + cval" where
  "join_suffix config =
     (let ending = py_get ''suffix'' config
      in case (if absent ending then PStr edge_join_default_suffix else ending) of
           PStr s \<Rightarrow> Inr (PStr s)
         | v \<Rightarrow> Inl (Suffix_not_text v))"

definition join_validate :: "config \<Rightarrow> edge_join_error + cval option" where
  "join_validate config =
     (let raw = py_get ''validate'' config
      in if absent raw then Inr None
         else case normalise_join_validation raw of
             Inl _ \<Rightarrow> Inl (Bad_validate raw)
           | Inr validation \<Rightarrow> Inr (Some (PStr validation)))"

definition join_coalesce :: "config \<Rightarrow> edge_join_error + cval option" where
  "join_coalesce config =
     (let coalesce = py_get ''coalesce'' config
      in if absent coalesce then Inr None
         else case coalesce of PBool b \<Rightarrow> Inr (Some coalesce) | _ \<Rightarrow> Inl (Bad_coalesce coalesce))"

definition require_edge_join_order :: "config \<Rightarrow> edge_join_error + unit" where
  "require_edge_join_order config =
     (let order = py_get ''maintain_order'' config
      in refuse_if (order \<notin> set (map PStr join_maintain_order)) (Bad_order order))"

definition optional_kwarg :: "string \<Rightarrow> cval option \<Rightarrow> config" where
  "optional_kwarg k v = (case v of None \<Rightarrow> [] | Some x \<Rightarrow> [(k, x)])"

definition join_kwargs :: "string \<Rightarrow> cval option \<Rightarrow> cval option \<Rightarrow> cval option \<Rightarrow> cval \<Rightarrow> cval option \<Rightarrow>
    cval option \<Rightarrow> cval \<Rightarrow> config" where
  "join_kwargs how on left_on right_on ending validate coalesce order =
     [(''how'', PStr how)] @ optional_kwarg ''on'' on @ optional_kwarg ''left_on'' left_on @
     optional_kwarg ''right_on'' right_on @ [(''suffix'', ending)] @ optional_kwarg ''validate'' validate @
     optional_kwarg ''coalesce'' coalesce @ [(''maintain_order'', order)]"

definition build_edge_join_kwargs :: "config \<Rightarrow> edge_join_error + config" where
  "build_edge_join_kwargs config =
     bind_result (map_error Retired_config (reject_removed_config_keys EDGE_JOIN config)) (\<lambda>_.
     bind_result (join_how config) (\<lambda>how.
     bind_result (normalise_key (py_get ''on'' config) ''on'') (\<lambda>on.
     bind_result (normalise_key (py_get ''left_on'' config) ''left_on'') (\<lambda>left_on.
     bind_result (normalise_key (py_get ''right_on'' config) ''right_on'') (\<lambda>right_on.
     bind_result (check_join_keys how on left_on right_on) (\<lambda>_.
     bind_result (join_suffix config) (\<lambda>ending.
     bind_result (join_validate config) (\<lambda>validate.
     bind_result (join_coalesce config) (\<lambda>coalesce.
     bind_result (require_edge_join_order config) (\<lambda>_.
     Inr (join_kwargs how on left_on right_on ending validate coalesce
       (py_get ''maintain_order'' config))))))))))))"

definition edge_join_key_columns_by_role :: "config \<Rightarrow> edge_join_error + string set \<times> string set" where
  "edge_join_key_columns_by_role config =
     bind_result (build_edge_join_kwargs config) (\<lambda>kwargs.
       if py_get ''how'' kwargs = PStr ''cross'' then Inr ({}, {})
       else case map_of kwargs ''on'' of
           Some on \<Rightarrow> Inr (set (key_columns on), set (key_columns on))
         | None \<Rightarrow> Inr (set (key_columns (py_get ''left_on'' kwargs)), set (key_columns (py_get ''right_on'' kwargs))))"

section \<open>Routing a join's demand to its parents\<close>

definition ends_with :: "string \<Rightarrow> string \<Rightarrow> bool" where
  "ends_with ending s \<longleftrightarrow> length ending \<le> length s \<and> drop (length s - length ending) s = ending"

definition without_suffix :: "string \<Rightarrow> string \<Rightarrow> string" where
  "without_suffix ending s = take (length s - length ending) s"

record join_sides =
  left_keys :: "string set"
  right_keys :: "string set"
  left_schema :: "string set"
  right_schema :: "string set"

type_synonym demand = "string set \<times> string set"

definition suffixed_copy :: "join_sides \<Rightarrow> string \<Rightarrow> string \<Rightarrow> bool" where
  "suffixed_copy sides ending column \<longleftrightarrow> ends_with ending column \<and>
     (let original = without_suffix ending column
      in original \<noteq> [] \<and> original \<in> left_schema sides \<and> original \<in> right_schema sides)"

definition route_column :: "join_sides \<Rightarrow> string \<Rightarrow> string \<Rightarrow> demand \<Rightarrow> demand option" where
  "route_column sides ending column d =
     (if column \<in> left_keys sides then Some d
      else if suffixed_copy sides ending column then
        (if column \<in> left_schema sides \<or> column \<in> right_schema sides then None
         else let original = without_suffix ending column
              in Some (insert original (fst d), insert original (snd d)))
      else
        let on_left = column \<in> left_schema sides;
            on_right = column \<in> right_schema sides \<and> column \<notin> left_schema sides;
            on_key = column \<in> right_keys sides
        in if on_left \<or> on_right \<or> on_key
           then Some (if on_left then insert column (fst d) else fst d,
             if on_right \<or> on_key then insert column (snd d) else snd d)
           else None)"

fun route_columns :: "join_sides \<Rightarrow> string \<Rightarrow> string list \<Rightarrow> demand \<Rightarrow> demand option" where
  "route_columns sides ending [] d = Some d"
| "route_columns sides ending (column # rest) d =
     (case route_column sides ending column d of
        None \<Rightarrow> None
      | Some d' \<Rightarrow> route_columns sides ending rest d')"

definition narrow_join_parent_demand :: "string list \<Rightarrow> join_sides \<Rightarrow> string \<Rightarrow> string \<Rightarrow> demand option" where
  "narrow_join_parent_demand demanded sides how ending =
     (if how \<notin> {''inner'', ''left'', ''semi'', ''anti''} then None
      else if left_keys sides = {} \<and> right_keys sides = {} then None
      else if ending = [] then None
      else route_columns sides ending demanded (left_keys sides, right_keys sides))"

section \<open>Accepted join settings\<close>

lemma build_Inr:
  "build_edge_join_kwargs config = Inr kw \<longleftrightarrow>
     holds_none (retired_keys EDGE_JOIN) config \<and>
     (\<exists>how on left_on right_on ending validate coalesce.
        join_how config = Inr how \<and>
        normalise_key (py_get ''on'' config) ''on'' = Inr on \<and>
        normalise_key (py_get ''left_on'' config) ''left_on'' = Inr left_on \<and>
        normalise_key (py_get ''right_on'' config) ''right_on'' = Inr right_on \<and>
        check_join_keys how on left_on right_on = Inr () \<and>
        join_suffix config = Inr ending \<and>
        join_validate config = Inr validate \<and>
        join_coalesce config = Inr coalesce \<and>
        require_edge_join_order config = Inr () \<and>
        kw = join_kwargs how on left_on right_on ending validate coalesce (py_get ''maintain_order'' config))"
  by (auto simp: build_edge_join_kwargs_def bind_result_Inr reject_removed_Inr)

definition setting_of :: "cval option \<Rightarrow> cval" where
  "setting_of v = (case v of None \<Rightarrow> PNone | Some x \<Rightarrow> x)"

lemma map_of_optional: "map_of (optional_kwarg k v) k' = (if k' = k then v else None)"
  by (auto simp: optional_kwarg_def split: option.splits)

lemma map_of_kwargs:
  "map_of (join_kwargs how on left_on right_on ending validate coalesce order) k =
     (if k = ''how'' then Some (PStr how) else if k = ''on'' then on else if k = ''left_on'' then left_on
      else if k = ''right_on'' then right_on else if k = ''suffix'' then Some ending
      else if k = ''validate'' then validate else if k = ''coalesce'' then coalesce
      else if k = ''maintain_order'' then Some order else None)"
  unfolding join_kwargs_def map_of_append map_add_def map_of_optional
  by (simp split: option.split)

lemma get_kwargs:
  fixes how on left_on right_on ending validate coalesce order
  defines "kw \<equiv> join_kwargs how on left_on right_on ending validate coalesce order"
  shows "py_get ''how'' kw = PStr how" "py_get ''on'' kw = setting_of on"
    "py_get ''left_on'' kw = setting_of left_on" "py_get ''right_on'' kw = setting_of right_on"
    "py_get ''suffix'' kw = ending" "py_get ''validate'' kw = setting_of validate"
    "py_get ''coalesce'' kw = setting_of coalesce" "py_get ''maintain_order'' kw = order"
  unfolding kw_def py_get_def map_of_kwargs by (simp_all add: setting_of_def)

lemma retired_edge_join: "retired_keys EDGE_JOIN = [''instanceOf'', ''baseInput'', ''joinInput'']"
  by code_simp

lemma kwargs_none_retired:
  "holds_none (retired_keys EDGE_JOIN) (join_kwargs how on left_on right_on ending validate coalesce order)"
  by (simp add: retired_edge_join holds_none_def has_key_def map_of_kwargs)

lemma normalise_key_again: "normalise_key v field = Inr r \<Longrightarrow> normalise_key (setting_of r) field = Inr r"
  by (auto simp: normalise_key_def setting_of_def empty_setting_def split: if_splits pyval.splits)

lemma join_how_allowed: "join_how config = Inr how \<Longrightarrow> how \<in> set allowed_how \<and> how \<noteq> []"
  by (auto simp: join_how_def Let_def allowed_how_def split: if_splits pyval.splits)

lemma join_how_text: "py_get ''how'' c = PStr how \<Longrightarrow> how \<in> set allowed_how \<Longrightarrow> how \<noteq> [] \<Longrightarrow> join_how c = Inr how"
  by (simp add: join_how_def)

lemma join_suffix_text: "join_suffix config = Inr e \<Longrightarrow> \<exists>s. e = PStr s \<and> s \<noteq> []"
  by (auto simp: join_suffix_def Let_def absent_def edge_join_default_suffix_def
      split: if_splits pyval.splits dest!: sym [of "PStr _"])

lemma join_suffix_again: "join_suffix config = Inr e \<Longrightarrow> py_get ''suffix'' c = e \<Longrightarrow> join_suffix c = Inr e"
  by (drule join_suffix_text) (auto simp: join_suffix_def absent_def)

lemma join_validate_again:
  "join_validate config = Inr v \<Longrightarrow> py_get ''validate'' c = setting_of v \<Longrightarrow> join_validate c = Inr v"
  by (auto simp: join_validate_def Let_def setting_of_def absent_def normalise_join_validation_def
      split: if_splits pyval.splits sum.splits)

lemma join_coalesce_again:
  "join_coalesce config = Inr v \<Longrightarrow> py_get ''coalesce'' c = setting_of v \<Longrightarrow> join_coalesce c = Inr v"
  by (auto simp: join_coalesce_def Let_def setting_of_def absent_def split: if_splits pyval.splits)

lemma require_order_cong:
  "py_get ''maintain_order'' c = py_get ''maintain_order'' config \<Longrightarrow>
     require_edge_join_order c = require_edge_join_order config"
  by (simp add: require_edge_join_order_def)

definition same_settings :: "config \<Rightarrow> config \<Rightarrow> bool" where
  "same_settings config c \<longleftrightarrow>
     join_how c = join_how config \<and>
     (\<forall>f \<in> {''on'', ''left_on'', ''right_on''}. normalise_key (py_get f c) f = normalise_key (py_get f config) f) \<and>
     join_suffix c = join_suffix config \<and> join_validate c = join_validate config \<and>
     join_coalesce c = join_coalesce config \<and>
     py_get ''maintain_order'' c = py_get ''maintain_order'' config"

lemma build_same_settings:
  assumes "build_edge_join_kwargs config = Inr kw" "holds_none (retired_keys EDGE_JOIN) c"
    and "same_settings config c"
  shows "build_edge_join_kwargs c = Inr kw"
  using assms(1,2) assms(3) [unfolded same_settings_def] require_order_cong [of c config]
  unfolding build_Inr by auto

lemma kwargs_same_settings:
  assumes "build_edge_join_kwargs config = Inr kw"
  shows "same_settings config kw"
proof -
  obtain how on left_on right_on ending validate coalesce where
    parts: "join_how config = Inr how" "normalise_key (py_get ''on'' config) ''on'' = Inr on"
      "normalise_key (py_get ''left_on'' config) ''left_on'' = Inr left_on"
      "normalise_key (py_get ''right_on'' config) ''right_on'' = Inr right_on"
      "join_suffix config = Inr ending" "join_validate config = Inr validate"
      "join_coalesce config = Inr coalesce"
    and kw: "kw = join_kwargs how on left_on right_on ending validate coalesce (py_get ''maintain_order'' config)"
    using assms unfolding build_Inr by blast
  have "join_how kw = Inr how"
    using join_how_text [of kw] join_how_allowed [OF parts(1)] by (simp add: kw get_kwargs)
  moreover have "join_suffix kw = Inr ending"
    using join_suffix_again [OF parts(5), of kw] by (simp add: kw get_kwargs)
  moreover have "join_validate kw = Inr validate"
    using join_validate_again [OF parts(6), of kw] by (simp add: kw get_kwargs)
  moreover have "join_coalesce kw = Inr coalesce"
    using join_coalesce_again [OF parts(7), of kw] by (simp add: kw get_kwargs)
  ultimately show ?thesis
    using parts(2-4) [THEN normalise_key_again]
    by (simp add: same_settings_def parts) (simp add: kw get_kwargs)
qed

text \<open>
  Normalising join settings is idempotent and gives what the join call needs: the accepted
  keyword arguments, read as settings again, are accepted and are their own arguments; a cross
  join has no keys, and any other join has either \<open>on\<close> alone or as many left as right keys.
\<close>

theorem build_edge_join_kwargs_idempotent:
  assumes "build_edge_join_kwargs config = Inr kwargs"
  shows "build_edge_join_kwargs kwargs = Inr kwargs \<and>
    (if py_get ''how'' kwargs = PStr ''cross''
     then holds_none [''on'', ''left_on'', ''right_on''] kwargs
     else if has_key ''on'' kwargs then holds_none [''left_on'', ''right_on''] kwargs
     else has_key ''left_on'' kwargs \<and> has_key ''right_on'' kwargs \<and>
       key_count (py_get ''left_on'' kwargs) = key_count (py_get ''right_on'' kwargs))"
proof -
  obtain how on left_on right_on ending validate coalesce where
    keys: "check_join_keys how on left_on right_on = Inr ()"
    and kw: "kwargs = join_kwargs how on left_on right_on ending validate coalesce (py_get ''maintain_order'' config)"
    using assms unfolding build_Inr by blast
  have "build_edge_join_kwargs kwargs = Inr kwargs"
    by (rule build_same_settings [OF assms _ kwargs_same_settings [OF assms]])
      (simp add: kw kwargs_none_retired)
  then show ?thesis
    using keys
    by (auto simp: kw get_kwargs has_key_def map_of_kwargs holds_none_def check_join_keys_def
        setting_of_def split: if_splits option.splits)
qed

lemma decorator_item_keys: "map_of (decorator_item config k) k' = None" if "k' \<noteq> k"
  using that by (auto simp: decorator_item_def split: option.splits)

lemma map_of_items:
  "map_of (concat (map (decorator_item config) ks)) k = (if k \<in> set ks then map_of (decorator_item config k) k else None)"
proof (induction ks)
  case (Cons a ks)
  then show ?case
    by (cases "a = k") (auto simp: map_add_def decorator_item_keys split: option.splits)
qed simp

lemma get_items:
  "k \<in> set edge_join_config_keys \<Longrightarrow>
   py_get k (edge_join_config_to_decorator_kwargs config) =
     (if empty_setting (py_get k config) \<or>
         (k = ''suffix'' \<and> py_get k config = PStr edge_join_default_suffix) then PNone
      else py_get k config)"
  unfolding edge_join_config_to_decorator_kwargs_def py_get_def map_of_items
  by (cases "map_of config k") (simp_all add: decorator_item_def empty_setting_def)

lemma items_keys:
  "has_key k (edge_join_config_to_decorator_kwargs config) \<Longrightarrow> k \<in> set (edge_join_config_keys @ column_config_keys)"
  unfolding edge_join_config_to_decorator_kwargs_def has_key_def map_of_items by (simp split: if_splits)

lemma items_none_of:
  assumes "set ks \<inter> set (edge_join_config_keys @ column_config_keys) = {}"
  shows "holds_none ks (edge_join_config_to_decorator_kwargs config)"
  using assms items_keys [of _ config] unfolding holds_none_def by blast

lemma items_same_settings:
  assumes "build_edge_join_kwargs config = Inr kw"
  shows "same_settings config (edge_join_config_to_decorator_kwargs config)"
proof -
  let ?c = "edge_join_config_to_decorator_kwargs config"
  note get = get_items [of _ config, unfolded edge_join_config_keys_def]
  obtain ending validate coalesce where ok: "join_suffix config = Inr ending" "join_validate config = Inr validate"
      "join_coalesce config = Inr coalesce" "require_edge_join_order config = Inr ()"
    using assms unfolding build_Inr by blast
  have how: "join_how ?c = join_how config"
    by (auto simp: join_how_def get empty_setting_def)
  have keys: "normalise_key (py_get f ?c) f = normalise_key (py_get f config) f"
    if "f \<in> {''on'', ''left_on'', ''right_on''}" for f
  proof -
    have "f \<in> set edge_join_config_keys" "f \<noteq> ''suffix''" using that by (auto simp: edge_join_config_keys_def)
    then show ?thesis using get_items [of f config] by (simp add: normalise_key_def empty_setting_def)
  qed
  have ending: "join_suffix ?c = join_suffix config"
    using ok(1) by (auto simp: join_suffix_def get empty_setting_def absent_def)
  have validate: "join_validate ?c = join_validate config"
    using ok(2) by (auto simp: join_validate_def get empty_setting_def absent_def normalise_join_validation_def)
  have coalesce: "join_coalesce ?c = join_coalesce config"
    using ok(3) by (auto simp: join_coalesce_def get empty_setting_def absent_def)
  have order: "py_get ''maintain_order'' ?c = py_get ''maintain_order'' config"
    using ok(4) by (auto simp: require_edge_join_order_def join_maintain_order_def get empty_setting_def)
  show ?thesis unfolding same_settings_def using how keys ending validate coalesce order by blast
qed

text \<open>
  Join settings survive the decorator: the keywords written for an accepted config read back
  as a config that is accepted and runs the same join call, defaults and empty settings dropped.
\<close>

theorem edge_join_decorator_round_trip:
  assumes "build_edge_join_kwargs config = Inr kwargs"
  shows "bind_result (normalise_edge_join_decorator_kwargs (edge_join_config_to_decorator_kwargs config))
    build_edge_join_kwargs = Inr kwargs"
proof -
  let ?c = "edge_join_config_to_decorator_kwargs config"
  have "holds_none (retired_keys EDGE_JOIN) ?c" "holds_none legacy_role_decorator_args ?c"
    by (rule items_none_of, code_simp)+
  then have "normalise_edge_join_decorator_kwargs ?c = Inr ?c" "build_edge_join_kwargs ?c = Inr kwargs"
    using build_same_settings [OF assms _ items_same_settings [OF assms]]
    by (simp_all add: normalise_edge_join_decorator_kwargs_def sort_Nil held_keys_Nil)
  then show ?thesis by simp
qed

section \<open>Narrowed parents give the demanded columns\<close>

text \<open>
  Where Polars takes an output column from: a left column keeps its name, a right column is
  renamed with the suffix when the left side has its name, the right keys are dropped when they
  are coalesced into the left ones, and a semi or anti join returns left columns only.
\<close>

datatype column_origin = From_left string | From_right string

definition right_output :: "string \<Rightarrow> bool \<Rightarrow> join_sides \<Rightarrow> string set" where
  "right_output how coalesced sides =
     (if how \<in> {''semi'', ''anti''} then {}
      else right_schema sides - (if coalesced then right_keys sides else {}))"

definition column_origin :: "string \<Rightarrow> bool \<Rightarrow> string \<Rightarrow> join_sides \<Rightarrow> string \<Rightarrow> column_origin option" where
  "column_origin how coalesced ending sides c =
     (if c \<in> left_schema sides then Some (From_left c)
      else if c \<in> right_output how coalesced sides then Some (From_right c)
      else if ends_with ending c \<and> without_suffix ending c \<in> left_schema sides
        \<and> without_suffix ending c \<in> right_output how coalesced sides
      then Some (From_right (without_suffix ending c))
      else None)"

definition narrowed :: "join_sides \<Rightarrow> demand \<Rightarrow> join_sides" where
  "narrowed sides d = sides\<lparr>left_schema := left_schema sides \<inter> fst d,
     right_schema := right_schema sides \<inter> snd d\<rparr>"

definition covered :: "join_sides \<Rightarrow> string \<Rightarrow> demand \<Rightarrow> string \<Rightarrow> bool" where
  "covered sides ending d c \<longleftrightarrow>
     c \<in> left_keys sides \<or>
     (suffixed_copy sides ending c \<and> c \<notin> left_schema sides \<and> c \<notin> right_schema sides \<and>
        without_suffix ending c \<in> fst d \<and> without_suffix ending c \<in> snd d) \<or>
     (\<not> suffixed_copy sides ending c \<and> (c \<in> left_schema sides \<longrightarrow> c \<in> fst d) \<and>
        (c \<in> right_schema sides \<longrightarrow> c \<notin> left_schema sides \<longrightarrow> c \<in> snd d) \<and>
        c \<in> left_schema sides \<union> right_schema sides \<union> right_keys sides)"

definition below :: "demand \<Rightarrow> demand \<Rightarrow> bool" where
  "below d d' \<longleftrightarrow> fst d \<subseteq> fst d' \<and> snd d \<subseteq> snd d'"

lemma covered_mono: "covered sides ending d c \<Longrightarrow> below d d' \<Longrightarrow> covered sides ending d' c"
  unfolding covered_def below_def by blast

lemma route_column_Some:
  assumes "route_column sides ending c d = Some d'"
  shows "below d d' \<and> covered sides ending d' c \<and>
    below d' (fst d \<union> left_schema sides, snd d \<union> right_schema sides \<union> right_keys sides)"
proof -
  consider "c \<in> left_keys sides" | "c \<notin> left_keys sides" "suffixed_copy sides ending c"
    | "c \<notin> left_keys sides" "\<not> suffixed_copy sides ending c" by blast
  then show ?thesis
  proof cases
    case 1
    then show ?thesis using assms by (auto simp: route_column_def below_def covered_def)
  next
    case 2
    then have "without_suffix ending c \<in> left_schema sides" "without_suffix ending c \<in> right_schema sides"
      by (simp_all add: suffixed_copy_def Let_def)
    with 2 show ?thesis
      using assms by (auto simp: route_column_def below_def covered_def Let_def split: if_splits)
  next
    case 3
    then show ?thesis
      using assms by (auto simp: route_column_def below_def covered_def Let_def split: if_splits)
  qed
qed

lemma route_columns_Some:
  "route_columns sides ending demanded d = Some d' \<Longrightarrow>
     below d d' \<and> (\<forall>c \<in> set demanded. covered sides ending d' c) \<and>
     below d' (fst d \<union> left_schema sides, snd d \<union> right_schema sides \<union> right_keys sides)"
proof (induction sides ending demanded d rule: route_columns.induct)
  case (2 sides ending c rest d)
  then obtain d1 where d1: "route_column sides ending c d = Some d1"
    and rest: "route_columns sides ending rest d1 = Some d'"
    by (auto split: option.splits)
  have one: "below d d1" "covered sides ending d1 c"
      "below d1 (fst d \<union> left_schema sides, snd d \<union> right_schema sides \<union> right_keys sides)"
    using route_column_Some [OF d1] by auto
  have more_: "below d1 d'" "\<forall>c \<in> set rest. covered sides ending d' c"
      "below d' (fst d1 \<union> left_schema sides, snd d1 \<union> right_schema sides \<union> right_keys sides)"
    using "2.IH" [OF d1 rest] by auto
  have "below d d'" using one(1) more_(1) unfolding below_def by blast
  moreover have "below d' (fst d \<union> left_schema sides, snd d \<union> right_schema sides \<union> right_keys sides)"
    using one(3) more_(3) unfolding below_def by auto
  ultimately show ?case using covered_mono [OF one(2) more_(1)] more_(2) by auto
qed (auto simp: below_def)

lemma covered_origin:
  assumes "covered sides ending d c" "below (left_keys sides, right_keys sides) d"
    and "left_keys sides \<subseteq> left_schema sides" "right_keys sides \<subseteq> right_schema sides"
    and "[] \<notin> left_schema sides"
  shows "column_origin how coalesced ending (narrowed sides d) c = column_origin how coalesced ending sides c"
proof -
  have out: "right_output how coalesced (narrowed sides d) = right_output how coalesced sides \<inter> snd d"
    by (auto simp: right_output_def narrowed_def)
  have sub: "right_output how coalesced sides \<subseteq> right_schema sides"
    by (auto simp: right_output_def)
  have left: "left_schema (narrowed sides d) = left_schema sides \<inter> fst d"
    by (simp add: narrowed_def)
  from assms(1) consider "c \<in> left_keys sides"
    | "suffixed_copy sides ending c" "c \<notin> left_schema sides" "c \<notin> right_schema sides"
      "without_suffix ending c \<in> fst d" "without_suffix ending c \<in> snd d"
    | "\<not> suffixed_copy sides ending c" "c \<in> left_schema sides \<longrightarrow> c \<in> fst d"
      "c \<in> right_schema sides \<longrightarrow> c \<notin> left_schema sides \<longrightarrow> c \<in> snd d"
      "c \<in> left_schema sides \<union> right_schema sides \<union> right_keys sides"
    unfolding covered_def by blast
  then show ?thesis
  proof cases
    case 1
    then have "c \<in> left_schema sides" "c \<in> fst d" using assms(2,3) by (auto simp: below_def)
    then show ?thesis by (simp add: column_origin_def left)
  next
    case 2
    then have "c \<notin> right_output how coalesced sides" using sub by blast
    with 2 show ?thesis by (simp add: column_origin_def left out)
  next
    case 3
    have copy: "\<not> (ends_with ending c \<and> without_suffix ending c \<in> left_schema sides \<and>
        without_suffix ending c \<in> right_output how coalesced sides)"
    proof (cases "without_suffix ending c = []")
      case True
      then show ?thesis using assms(5) by simp
    next
      case False
      then show ?thesis using 3(1) sub unfolding suffixed_copy_def Let_def by blast
    qed
    show ?thesis
    proof (cases "c \<in> left_schema sides")
      case True
      then show ?thesis using 3(2) by (simp add: column_origin_def left)
    next
      case False
      then have "c \<in> snd d" using 3(3,4) assms(4) by blast
      then show ?thesis using False copy by (auto simp: column_origin_def left out)
    qed
  qed
qed

text \<open>
  C16: Narrowing loses nothing: when the demand of a join whose keys are columns of its
  parents, and whose left parent has no column without a name, is routed, every demanded column comes from
  the same column of the same parent in the join of the narrowed parents as in the full join,
  whether or not the keys are coalesced, the join keys are kept, and each parent is asked only
  for columns it has.
\<close>

theorem narrow_join_keeps_demanded:
  assumes "narrow_join_parent_demand demanded sides how ending = Some d"
    and "left_keys sides \<subseteq> left_schema sides" "right_keys sides \<subseteq> right_schema sides"
    and "[] \<notin> left_schema sides"
  shows "(\<forall>c \<in> set demanded. column_origin how coalesced ending (narrowed sides d) c =
      column_origin how coalesced ending sides c) \<and>
    left_keys sides \<subseteq> fst d \<and> right_keys sides \<subseteq> snd d \<and>
    fst d \<subseteq> left_schema sides \<and> snd d \<subseteq> right_schema sides"
proof -
  have "route_columns sides ending demanded (left_keys sides, right_keys sides) = Some d"
    using assms(1) by (simp add: narrow_join_parent_demand_def split: if_splits)
  note routed = route_columns_Some [OF this]
  then show ?thesis
    using covered_origin [OF _ _ assms(2-4)] assms(2,3) by (auto simp: below_def)
qed

definition sample_sides :: join_sides where
  "sample_sides = \<lparr>left_keys = {''id''}, right_keys = {''id''},
     left_schema = {''id'', ''age'', ''x''}, right_schema = {''id'', ''rate'', ''x''}\<rparr>"

theorem narrow_join_keeps_demanded_witness:
  "\<exists>d. narrow_join_parent_demand [''rate'', ''x_right''] sample_sides ''left'' ''_right'' = Some d \<and>
    column_origin ''left'' True ''_right'' (narrowed sample_sides d) ''x_right'' = Some (From_right ''x'') \<and>
    ''age'' \<notin> fst d"
proof -
  have d: "narrow_join_parent_demand [''rate'', ''x_right''] sample_sides ''left'' ''_right'' =
      Some ({''x'', ''id''}, {''x'', ''rate'', ''id''})"
    by code_simp
  have "column_origin ''left'' True ''_right'' sample_sides ''x_right'' = Some (From_right ''x'')"
    by code_simp
  with narrow_join_keeps_demanded [OF d, of True] d show ?thesis
    by (simp add: sample_sides_def)
qed

definition sample_join_config :: config where
  "sample_join_config = [(''how'', PStr []), (''left_on'', PList [PStr ''id'']), (''right_on'', PStr ''key''),
     (''suffix'', PStr ''_right''), (''validate'', PStr ''m:1''), (''coalesce'', PNone),
     (''maintain_order'', PStr ''left'')]"

definition sample_join_kwargs :: config where
  "sample_join_kwargs = [(''how'', PStr ''left''), (''left_on'', PList [PStr ''id'']), (''right_on'', PStr ''key''),
     (''suffix'', PStr ''_right''), (''validate'', PStr ''m:1''), (''maintain_order'', PStr ''left'')]"

lemma sample_join_built: "build_edge_join_kwargs sample_join_config = Inr sample_join_kwargs"
  by code_simp

theorem build_edge_join_kwargs_idempotent_witness:
  "build_edge_join_kwargs sample_join_kwargs = Inr sample_join_kwargs"
  using build_edge_join_kwargs_idempotent [OF sample_join_built] by blast

theorem edge_join_decorator_round_trip_witness:
  "bind_result (normalise_edge_join_decorator_kwargs (edge_join_config_to_decorator_kwargs sample_join_config))
    build_edge_join_kwargs = Inr sample_join_kwargs"
  by (rule edge_join_decorator_round_trip [OF sample_join_built])

lemma resolve_roles:
  "resolve_edge_join_role_indices (Some handles) = Inr (i, j) \<Longrightarrow>
     handles ! i = Some ''base'' \<and> handles ! j = Some ''join'' \<and> {i, j} = {0, 1}"
proof -
  assume r: "resolve_edge_join_role_indices (Some handles) = Inr (i, j)"
  then have "length handles = 2" "index_of (Some ''base'') handles = Some i" "index_of (Some ''join'') handles = Some j"
    by (auto simp: resolve_edge_join_role_indices_def split: if_splits option.splits)
  then have "i < 2" "j < 2" "handles ! i = Some ''base''" "handles ! j = Some ''join''"
    using index_of_SomeD by fastforce+
  moreover from this have "i \<noteq> j" by auto
  ultimately show ?thesis by auto
qed

end
