(* ===== verification/Job_Store.thy ===== *)
theory Job_Store
  imports Prelude
begin

text \<open>
  The in-memory job store, \<^verbatim>\<open>src/haute/routes/_job_store.py\<close>. A job is a dictionary of
  values; the store is the jobs with their activity times, the clean-up timers, the leases on
  artifacts and the collectors of deferred work. Each operation is one locked section followed
  by the drain of the work it collected, which the code runs just after it gives up the lock and
  the model in the same step; a second locked section (scheduling a timer) is an
  operation of its own as well, so that others may come between. Readings of the clock, fresh
  ids and the completion publisher are arguments. Values are immutable here, so a detached
  snapshot is the value itself; a heavy value that owns a resource is an object with an identity.
  What the store does to the world is two logs: the handles given to their cleaner and the
  resources released. Times are exact rationals; artifact handles that are no dictionary, on which
  the code raises AttributeError when it removes the job, count as none.
\<close>

section \<open>Records\<close>

record handle =
  handle_kind :: string
  handle_path :: string

datatype jobval =
    VNone
  | VBool bool
  | VInt int
  | VFloat pyfloat
  | VStr string
  | VHandles "(string, handle) odict"
  | VObj nat bool

type_synonym job = "(string, jobval) odict"

definition k_status :: string where "k_status = ''status''"
definition k_terminal_reason :: string where "k_terminal_reason = ''terminal_reason''"
definition k_created_at :: string where "k_created_at = ''created_at''"
definition k_ended_at :: string where "k_ended_at = ''ended_at''"
definition k_completed_at :: string where "k_completed_at = ''completed_at''"
definition k_message :: string where "k_message = ''message''"
definition k_elapsed_seconds :: string where "k_elapsed_seconds = ''elapsed_seconds''"
definition k_artifact_handles :: string where "k_artifact_handles = ''artifact_handles''"
definition k_expires_at :: string where "k_expires_at = ''heavy_objects_expires_at''"
definition k_cleared_at :: string where "k_cleared_at = ''heavy_objects_cleared_at''"
definition k_retention :: string where "k_retention = ''heavy_objects_retention_seconds''"

definition default_heavy_object_keys :: "string list" where
  "default_heavy_object_keys = [''solver'', ''solve_result'', ''quote_grid'']"

definition heavy_object_keys :: "string list" where
  "heavy_object_keys = default_heavy_object_keys @ [''ratebook_factor_contexts'', ''solver_session'']"

definition st_running :: string where "st_running = ''running''"
definition st_completed :: string where "st_completed = ''completed''"
definition st_error :: string where "st_error = ''error''"

definition terminal_reason_precedence :: "(string, nat) odict" where
  "terminal_reason_precedence =
     [(st_error, 10), (''contract_error'', 20), (''memory_limited'', 30), (''cancelled'', 40),
      (''timed_out'', 50), (''superseded'', 60)]"

definition terminal_reasons :: "string list" where
  "terminal_reasons =
     [st_completed, ''superseded'', ''timed_out'', ''cancelled'', ''memory_limited'', ''contract_error'', st_error]"

definition job_statuses :: "string list" where
  "job_statuses = st_running # terminal_reasons"

definition lifecycle_keys :: "string list" where
  "lifecycle_keys = [k_status, k_terminal_reason, k_created_at, k_ended_at, k_completed_at]"

lemmas key_defs = k_status_def k_terminal_reason_def k_created_at_def k_ended_at_def k_completed_at_def
  k_message_def k_elapsed_seconds_def k_artifact_handles_def k_expires_at_def k_cleared_at_def
  k_retention_def heavy_object_keys_def default_heavy_object_keys_def

lemma lifecycle_distinct [simp]:
  "distinct [k_status, k_terminal_reason, k_created_at, k_ended_at, k_completed_at, k_message,
     k_elapsed_seconds, k_artifact_handles, k_expires_at, k_cleared_at, k_retention]"
  by (simp add: key_defs)

lemmas key_neq = lifecycle_distinct [unfolded distinct.simps list.set insert_iff empty_iff de_Morgan_disj simp_thms]

lemma heavy_fresh [simp]:
  "k_status \<notin> set heavy_object_keys" "k_terminal_reason \<notin> set heavy_object_keys"
  "k_created_at \<notin> set heavy_object_keys" "k_ended_at \<notin> set heavy_object_keys"
  "k_completed_at \<notin> set heavy_object_keys" "k_message \<notin> set heavy_object_keys"
  "k_elapsed_seconds \<notin> set heavy_object_keys" "k_artifact_handles \<notin> set heavy_object_keys"
  "k_expires_at \<notin> set heavy_object_keys" "k_cleared_at \<notin> set heavy_object_keys"
  "k_retention \<notin> set heavy_object_keys"
  by (simp_all add: key_defs)

lemma status_neq [simp]:
  "st_running \<noteq> st_completed" "st_running \<noteq> st_error" "st_completed \<noteq> st_error"
  "st_completed \<noteq> st_running" "st_error \<noteq> st_running" "st_error \<noteq> st_completed"
  "st_running \<notin> set terminal_reasons"
  by (simp_all add: st_running_def st_completed_def st_error_def terminal_reasons_def)

text \<open>
  \<open>_validate_timestamp\<close>: a finite number that is no bool and not negative. An integer too large for
  a float raises OverflowError in the code; here it is refused like the rest.
\<close>

definition validate_timestamp :: "jobval \<Rightarrow> time option" where
  "validate_timestamp v =
     (case v of
        VInt i \<Rightarrow> if i < 0 \<or> 2 ^ 1024 - 2 ^ 970 \<le> i then None else Some (of_int i)
      | VFloat (Fin r) \<Rightarrow> if r < 0 then None else Some r
      | _ \<Rightarrow> None)"

definition status_of :: "job \<Rightarrow> jobval option" where
  "status_of job = map_of job k_status"

definition is_status :: "string \<Rightarrow> job \<Rightarrow> bool" where
  "is_status st job \<longleftrightarrow> status_of job = Some (VStr st)"

definition timestamp_at :: "string \<Rightarrow> job \<Rightarrow> bool" where
  "timestamp_at k job = (case map_of job k of None \<Rightarrow> False | Some v \<Rightarrow> validate_timestamp v \<noteq> None)"

definition valid_record :: "job \<Rightarrow> bool" where
  "valid_record job \<longleftrightarrow>
     (case status_of job of Some (VStr st) \<Rightarrow> st \<in> set job_statuses | _ \<Rightarrow> False) \<and>
     timestamp_at k_created_at job \<and>
     (case map_of job k_message of None \<Rightarrow> True | Some (VStr _) \<Rightarrow> True | _ \<Rightarrow> False) \<and>
     (if is_status st_running job
      then \<not> has_key k_terminal_reason job \<and> \<not> has_key k_ended_at job \<and> \<not> has_key k_completed_at job
      else map_of job k_terminal_reason = status_of job \<and>
           timestamp_at k_ended_at job \<and>
           (is_status st_completed job \<longrightarrow> has_key k_completed_at job) \<and>
           (has_key k_completed_at job \<longrightarrow> timestamp_at k_completed_at job))"

definition has_heavy :: "job \<Rightarrow> bool" where
  "has_heavy job = list_ex (\<lambda>k. has_key k job) heavy_object_keys"

definition owns_resource :: "jobval \<Rightarrow> bool" where
  "owns_resource v = (case v of VObj _ owns \<Rightarrow> owns | _ \<Rightarrow> False)"

definition handles_of :: "job \<Rightarrow> (string, handle) odict" where
  "handles_of job = (case map_of job k_artifact_handles of Some (VHandles hs) \<Rightarrow> hs | _ \<Rightarrow> [])"

definition merge_fields :: "job \<Rightarrow> job \<Rightarrow> job" where
  "merge_fields old upd = fold (\<lambda>(k, v). AList.update k v) upd old"

definition set_default :: "string \<Rightarrow> jobval \<Rightarrow> job \<Rightarrow> job" where
  "set_default k v job = (if has_key k job then job else AList.update k v job)"

definition drop_keys :: "string list \<Rightarrow> job \<Rightarrow> job" where
  "drop_keys ks job = filter (\<lambda>(k, _). k \<notin> set ks) job"

section \<open>The store\<close>

datatype store_error =
    Invalid_record
  | Invalid_timestamp
  | Invalid_number
  | Forbidden_lifecycle_fields
  | Unknown_status
  | Unsupported_transition
  | Missing_job
  | New_job_not_running
  | New_job_with_terminal_fields
  | Publisher_failed
  | Publisher_replaced_record
  | Handle_unavailable
  | Job_not_found
  | Job_not_completed
  | Unknown_prefix
  | Negative_ttl

type_synonym artifact = "string \<times> string"

record store =
  jobs :: "(string, job) odict"
  running_activity :: "(string, time) odict"
  ttl_seconds :: int
  heavy_ttl_seconds :: int
  timers :: "(string, nat) odict"
  armed :: "nat list"
  next_timer :: nat
  leases :: "(artifact, nat) odict"
  deferred :: "(artifact, string \<times> handle) odict"
  cleanups :: "(string \<times> handle list) list"
  releases :: "jobval list"
  cleaned :: "(string \<times> handle) list"
  released :: "jobval list"

type_synonym 'a action = "store \<Rightarrow> (store_error + 'a) \<times> store"

definition return :: "'a \<Rightarrow> 'a action" where
  "return x s = (Inr x, s)"

definition throw :: "store_error \<Rightarrow> 'a action" where
  "throw e s = (Inl e, s)"

definition andthen :: "'a action \<Rightarrow> ('a \<Rightarrow> 'b action) \<Rightarrow> 'b action" where
  "andthen m f s = (case m s of (Inl e, s') \<Rightarrow> (Inl e, s') | (Inr x, s') \<Rightarrow> f x s')"

definition modify :: "(store \<Rightarrow> store) \<Rightarrow> unit action" where
  "modify f s = (Inr (), f s)"

definition require :: "store_error \<Rightarrow> bool \<Rightarrow> unit action" where
  "require e b s = (if b then Inr () else Inl e, s)"

definition new_store :: "int \<Rightarrow> int \<Rightarrow> store_error + store" where
  "new_store ttl heavy_ttl =
     (if ttl < 0 \<or> heavy_ttl < 0 then Inl Negative_ttl
      else Inr \<lparr>jobs = [], running_activity = [], ttl_seconds = ttl, heavy_ttl_seconds = heavy_ttl,
        timers = [], armed = [], next_timer = 0, leases = [], deferred = [], cleanups = [],
        releases = [], cleaned = [], released = []\<rparr>)"

definition put_job :: "string \<Rightarrow> job \<Rightarrow> store \<Rightarrow> store" where
  "put_job job_id job s = s\<lparr>jobs := AList.update job_id job (jobs s)\<rparr>"

section \<open>Deferred work\<close>

definition artifact_lease_key :: "handle \<Rightarrow> artifact" where
  "artifact_lease_key h = (handle_kind h, handle_path h)"

definition detach_heavy_values :: "job \<Rightarrow> string list \<Rightarrow> store \<Rightarrow> store" where
  "detach_heavy_values job ks s =
     s\<lparr>releases := releases s @
        filter owns_resource (map the (filter (\<lambda>v. v \<noteq> None) (map (map_of job) ks)))\<rparr>"

definition lease_count :: "artifact \<Rightarrow> store \<Rightarrow> nat" where
  "lease_count key s = (case map_of (leases s) key of None \<Rightarrow> 0 | Some n \<Rightarrow> n)"

fun cleanup_artifact_handles :: "string \<Rightarrow> handle list \<Rightarrow> store \<Rightarrow> store" where
  "cleanup_artifact_handles job_id [] s = s"
| "cleanup_artifact_handles job_id (h # hs) s =
     (let key = artifact_lease_key h
      in cleanup_artifact_handles job_id hs
           (if lease_count key s > 0 then s\<lparr>deferred := AList.update key (job_id, h) (deferred s)\<rparr>
            else s\<lparr>cleaned := cleaned s @ [(job_id, h)]\<rparr>))"

fun run_artifact_cleanups :: "(string \<times> handle list) list \<Rightarrow> store \<Rightarrow> store" where
  "run_artifact_cleanups [] s = s"
| "run_artifact_cleanups ((job_id, hs) # rest) s =
     run_artifact_cleanups rest (cleanup_artifact_handles job_id hs s)"

definition drain :: "store \<Rightarrow> store" where
  "drain s =
     (let s1 = run_artifact_cleanups (cleanups s) (s\<lparr>cleanups := [], releases := []\<rparr>)
      in s1\<lparr>released := released s1 @ releases s\<rparr>)"

text \<open>The lock with its clean-up: the section runs, then, raised or not, what it collected is drained.\<close>

definition write_locked :: "'a action \<Rightarrow> 'a action" where
  "write_locked body s = (let (r, s') = body s in (r, drain s'))"

definition cancel_timer :: "string \<Rightarrow> store \<Rightarrow> store" where
  "cancel_timer job_id s =
     (case map_of (timers s) job_id of
        None \<Rightarrow> s
      | Some t \<Rightarrow> s\<lparr>timers := AList.delete job_id (timers s), armed := removeAll t (armed s)\<rparr>)"

section \<open>Retention of heavy values\<close>

definition number_of :: "jobval \<Rightarrow> time option" where
  "number_of v =
     (case v of VInt i \<Rightarrow> Some (of_int i) | VFloat (Fin r) \<Rightarrow> Some r
      | VBool b \<Rightarrow> Some (if b then 1 else 0) | _ \<Rightarrow> None)"

text \<open>
  \<open>_heavy_objects_expires_at\<close>; None is the exception of \<open>float\<close> (an expiry that is no finite
  number, which only a caller's own field could introduce, is counted with it).
\<close>

definition heavy_objects_expires_at :: "int \<Rightarrow> job \<Rightarrow> time option" where
  "heavy_objects_expires_at heavy_ttl job =
     (case map_of job k_expires_at of
        Some v \<Rightarrow> if v = VNone
          then map_option (\<lambda>t. t + of_int heavy_ttl) (Option.bind (map_of job k_completed_at) number_of)
          else number_of v
      | None \<Rightarrow>
          map_option (\<lambda>t. t + of_int heavy_ttl) (Option.bind (map_of job k_completed_at) number_of))"

definition stripped :: "int \<Rightarrow> time \<Rightarrow> job \<Rightarrow> job" where
  "stripped heavy_ttl now job =
     AList.update k_retention (VInt heavy_ttl)
       (AList.update k_cleared_at (VFloat (Fin now))
         (AList.delete k_expires_at (drop_keys heavy_object_keys job)))"

definition clear_heavy_objects :: "string \<Rightarrow> job \<Rightarrow> time \<Rightarrow> unit action" where
  "clear_heavy_objects job_id job now s =
     (if \<not> valid_record job then (Inl Invalid_record, s)
      else let s1 = detach_heavy_values job heavy_object_keys s;
               slim = stripped (heavy_ttl_seconds s) now job
        in if \<not> valid_record slim then (Inl Invalid_record, s1)
           else (Inr (), cancel_timer job_id (put_job job_id slim s1)))"

definition clear_if_expired :: "string \<Rightarrow> job \<Rightarrow> time \<Rightarrow> unit action" where
  "clear_if_expired job_id job now s =
     (if \<not> valid_record job then (Inl Invalid_record, s)
      else if \<not> is_status st_completed job \<or> \<not> has_heavy job then (Inr (), s)
      else case heavy_objects_expires_at (heavy_ttl_seconds s) job of
             None \<Rightarrow> (Inl Invalid_number, s)
           | Some t \<Rightarrow> if t > now then (Inr (), s) else clear_heavy_objects job_id job now s)"

fun clear_expired_loop :: "(string \<times> job) list \<Rightarrow> time \<Rightarrow> unit action" where
  "clear_expired_loop [] now = return ()"
| "clear_expired_loop ((job_id, job) # rest) now =
     andthen (clear_if_expired job_id job now) (\<lambda>_. clear_expired_loop rest now)"

definition clear_expired_heavy_objects_locked :: "time \<Rightarrow> unit action" where
  "clear_expired_heavy_objects_locked now s = clear_expired_loop (jobs s) now s"

section \<open>Expiry of jobs\<close>

definition created_time :: "job \<Rightarrow> time" where
  "created_time job = (case Option.bind (map_of job k_created_at) number_of of Some t \<Rightarrow> t | None \<Rightarrow> 0)"

definition job_eviction_timestamp :: "string \<Rightarrow> job \<Rightarrow> store \<Rightarrow> time" where
  "job_eviction_timestamp job_id job s =
     (if is_status st_running job
      then (case map_of (running_activity s) job_id of Some t \<Rightarrow> t | None \<Rightarrow> created_time job)
      else created_time job)"

text \<open>Asking for the timestamp of a job that no longer runs forgets its activity.\<close>

definition forget_activity :: "string \<Rightarrow> store \<Rightarrow> store" where
  "forget_activity job_id s = s\<lparr>running_activity := AList.delete job_id (running_activity s)\<rparr>"

definition remove_job :: "string \<Rightarrow> store \<Rightarrow> store" where
  "remove_job job_id s =
     (case map_of (jobs s) job_id of
        None \<Rightarrow> s
      | Some job \<Rightarrow>
          let s1 = detach_heavy_values job heavy_object_keys s;
              s2 = s1\<lparr>jobs := AList.delete job_id (jobs s1),
                      cleanups := cleanups s1 @ [(job_id, map snd (handles_of job))]\<rparr>
          in cancel_timer job_id (forget_activity job_id s2))"

definition evict_stale :: "time \<Rightarrow> unit action" where
  "evict_stale now =
     andthen (clear_expired_heavy_objects_locked now)
       (\<lambda>_ s.
          let cutoff = now - of_int (ttl_seconds s);
              stale = map fst (filter (\<lambda>(jid, job). job_eviction_timestamp jid job s < cutoff) (jobs s));
              settled = map fst (filter (\<lambda>(_, job). \<not> is_status st_running job) (jobs s))
          in (Inr (), fold remove_job stale (fold forget_activity settled s)))"

section \<open>Merging fields\<close>

text \<open>
  \<open>_prepare_heavy_object_policy_locked\<close>: the job with its lifecycle metadata stamped and
  whether a timer is needed; None is the exception of reading \<open>completed_at\<close>.
\<close>

definition prepare_heavy_object_policy :: "int \<Rightarrow> time \<Rightarrow> job \<Rightarrow> (job \<times> bool) option" where
  "prepare_heavy_object_policy heavy_ttl now job =
     (if \<not> is_status st_completed job then Some (job, False)
      else let job = set_default k_completed_at (VFloat (Fin now)) job
        in if \<not> has_heavy job then Some (AList.delete k_expires_at job, False)
           else if has_key k_expires_at job then Some (job, False)
           else map_option (\<lambda>t. (AList.update k_expires_at (VFloat (Fin t)) job, True))
                  (heavy_objects_expires_at heavy_ttl job))"

definition record_running_activity :: "string \<Rightarrow> job \<Rightarrow> time \<Rightarrow> store \<Rightarrow> store" where
  "record_running_activity job_id job now s =
     (if is_status st_running job
      then s\<lparr>running_activity := AList.update job_id now (running_activity s)\<rparr>
      else forget_activity job_id s)"

definition replaced_heavy :: "job \<Rightarrow> job \<Rightarrow> string list" where
  "replaced_heavy old upd =
     filter (\<lambda>k. has_key k upd \<and> has_key k old \<and> map_of old k \<noteq> map_of (merge_fields old upd) k)
       heavy_object_keys"

definition owning_keys :: "job \<Rightarrow> string list" where
  "owning_keys job =
     filter (\<lambda>k. case map_of job k of None \<Rightarrow> False | Some v \<Rightarrow> owns_resource v) heavy_object_keys"

definition shed_owned :: "job \<Rightarrow> store \<Rightarrow> job \<times> store" where
  "shed_owned job s =
     (if is_status st_running job \<or> is_status st_completed job then (job, s)
      else (drop_keys (owning_keys job) job, detach_heavy_values job (owning_keys job) s))"

definition store_merged_job :: "string \<Rightarrow> job \<Rightarrow> job \<Rightarrow> time \<Rightarrow> (job \<times> bool \<times> jobval option) action" where
  "store_merged_job job_id old upd now s =
     (let s1 = detach_heavy_values old (replaced_heavy old upd) s;
          (merged, s2) = shed_owned (merge_fields old upd) s1
      in case prepare_heavy_object_policy (heavy_ttl_seconds s) now merged of
           None \<Rightarrow> (Inl Invalid_number, s2)
         | Some (job, schedule) \<Rightarrow>
             if \<not> valid_record job then (Inl Invalid_record, s2)
             else let s3 = record_running_activity job_id job now (put_job job_id job s2);
                      s4 = (if \<not> is_status st_completed job \<or> \<not> has_heavy job
                            then cancel_timer job_id s3 else s3)
               in (Inr (job, schedule, map_of job k_expires_at), s4))"

definition payload_allowed :: "job \<Rightarrow> bool" where
  "payload_allowed upd \<longleftrightarrow> \<not> list_ex (\<lambda>k. has_key k upd) lifecycle_keys"

definition status_allowed :: "string option \<Rightarrow> bool" where
  "status_allowed expected = (case expected of None \<Rightarrow> True | Some st \<Rightarrow> st \<in> set job_statuses)"

section \<open>Timers\<close>

text \<open>
  The locked section of \<open>_schedule_heavy_object_cleanup\<close>; the timer made for it is started
  when it was recorded. \<open>timer_due\<close> is the callback of a started timer.
\<close>

definition schedule_heavy_object_cleanup :: "string \<Rightarrow> time \<Rightarrow> unit action" where
  "schedule_heavy_object_cleanup job_id expires_at s =
     (let t = next_timer s; s = s\<lparr>next_timer := t + 1\<rparr>
      in case map_of (jobs s) job_id of
           None \<Rightarrow> (Inr (), s)
         | Some job \<Rightarrow>
             if \<not> valid_record job then (Inl Invalid_record, s)
             else if \<not> is_status st_completed job then (Inr (), s)
             else if \<not> has_heavy job then (Inr (), cancel_timer job_id s)
             else case heavy_objects_expires_at (heavy_ttl_seconds s) job of
                    None \<Rightarrow> (Inl Invalid_number, s)
                  | Some e \<Rightarrow>
                      if e \<noteq> expires_at then (Inr (), s)
                      else let s1 = cancel_timer job_id s
                        in (Inr (), s1\<lparr>timers := AList.update job_id t (timers s1), armed := armed s1 @ [t]\<rparr>))"

definition schedule_if_needed :: "string \<Rightarrow> bool \<Rightarrow> jobval option \<Rightarrow> unit action" where
  "schedule_if_needed job_id schedule expires_at s =
     (if \<not> schedule then (Inr (), s)
      else case Option.bind expires_at number_of of
             None \<Rightarrow> (Inl Invalid_number, s)
           | Some e \<Rightarrow> schedule_heavy_object_cleanup job_id e s)"

definition timer_due :: "string \<Rightarrow> nat \<Rightarrow> time \<Rightarrow> unit action" where
  "timer_due job_id timer now =
     write_locked (\<lambda>s.
       let s = s\<lparr>armed := removeAll timer (armed s)\<rparr>;
           job = map_of (jobs s) job_id;
           s1 = (if map_of (timers s) job_id = Some timer
                 then s\<lparr>timers := AList.delete job_id (timers s)\<rparr> else s)
       in case job of
            None \<Rightarrow> (Inr (), s1)
          | Some job \<Rightarrow>
              if \<not> valid_record job then (Inl Invalid_record, s)
              else if \<not> is_status st_completed job then (Inr (), s1)
              else case heavy_objects_expires_at (heavy_ttl_seconds s1) job of
                     None \<Rightarrow> (Inl Invalid_number, s1)
                   | Some e \<Rightarrow> if e \<le> now \<and> has_heavy job then clear_heavy_objects job_id job now s1
                             else (Inr (), s1))"

text \<open>The sweep, without a job id.\<close>

definition sweep_heavy_objects :: "time \<Rightarrow> unit action" where
  "sweep_heavy_objects now = write_locked (clear_expired_heavy_objects_locked now)"

text \<open>An update followed by the timer it asks for.\<close>

definition finish_update :: "string \<Rightarrow> (job \<times> bool \<times> jobval option) option action \<Rightarrow> job option action" where
  "finish_update job_id body =
     andthen (write_locked body)
       (\<lambda>r. case r of
          None \<Rightarrow> return None
        | Some (merged, schedule, expires_at) \<Rightarrow>
            andthen (schedule_if_needed job_id schedule expires_at)
              (\<lambda>_. andthen (require Invalid_record (valid_record merged)) (\<lambda>_. return (Some merged))))"

definition merge_some :: "string \<Rightarrow> job \<Rightarrow> job \<Rightarrow> time \<Rightarrow> (job \<times> bool \<times> jobval option) option action" where
  "merge_some job_id old upd now = andthen (store_merged_job job_id old upd now) (\<lambda>r. return (Some r))"

section \<open>Public operations\<close>

definition lookup_job :: "string \<Rightarrow> job action" where
  "lookup_job job_id s =
     (case map_of (jobs s) job_id of None \<Rightarrow> (Inl Missing_job, s) | Some job \<Rightarrow> (Inr job, s))"

definition all_present :: "string list \<Rightarrow> job \<Rightarrow> bool" where
  "all_present required job =
     list_all (\<lambda>k. case map_of job k of None \<Rightarrow> False | Some v \<Rightarrow> v \<noteq> VNone) required"

definition touch_section :: "string \<Rightarrow> string list \<Rightarrow> time \<Rightarrow> time \<Rightarrow> (bool \<times> bool \<times> jobval option) action" where
  "touch_section job_id required t1 now =
     andthen (evict_stale t1) (\<lambda>_ s.
       case map_of (jobs s) job_id of
         None \<Rightarrow> (Inr (False, False, None), s)
       | Some job \<Rightarrow>
           if \<not> is_status st_completed job \<or> \<not> all_present required job
           then (Inr (False, False, None), s)
           else let refreshed = min (now + of_int (heavy_ttl_seconds s))
                      (created_time job + of_int (ttl_seconds s))
             in case heavy_objects_expires_at (heavy_ttl_seconds s) job of
                  None \<Rightarrow> (Inl Invalid_number, s)
                | Some current \<Rightarrow>
                    if refreshed > current then
                      let updated = AList.update k_expires_at (VFloat (Fin refreshed)) job
                      in if \<not> valid_record updated then (Inl Invalid_record, s)
                         else (Inr (True, True, Some (VFloat (Fin refreshed))), put_job job_id updated s)
                    else (Inr (True, False, None), s))"

definition touch_heavy_objects :: "string \<Rightarrow> string list \<Rightarrow> time \<Rightarrow> time \<Rightarrow> bool action" where
  "touch_heavy_objects job_id required t1 now =
     andthen (write_locked (touch_section job_id required t1 now))
       (\<lambda>(result, schedule, expires_at).
          andthen (schedule_if_needed job_id schedule expires_at) (\<lambda>_. return result))"

definition opt_update :: "string \<Rightarrow> jobval option \<Rightarrow> job \<Rightarrow> job" where
  "opt_update k v job = (case v of None \<Rightarrow> job | Some x \<Rightarrow> AList.update k x job)"

definition terminal_payload :: "job \<Rightarrow> string \<Rightarrow> time \<Rightarrow> string option \<Rightarrow> jobval option \<Rightarrow> job" where
  "terminal_payload upd to timestamp message elapsed =
     (let p = AList.update k_ended_at (VFloat (Fin timestamp))
                (AList.update k_terminal_reason (VStr to) (AList.update k_status (VStr to) upd));
          p = (if to = st_completed then set_default k_completed_at (VFloat (Fin timestamp)) p else p)
      in opt_update k_elapsed_seconds elapsed (opt_update k_message (map_option VStr message) p))"

text \<open>May a terminal record of one reason be corrected to another?\<close>

definition outranks :: "string \<Rightarrow> job \<Rightarrow> bool" where
  "outranks to old =
     (case map_of old k_terminal_reason of
        Some (VStr reason) \<Rightarrow>
          reason \<in> set terminal_reasons \<and> reason \<noteq> st_completed \<and> to \<noteq> st_completed \<and>
          (case (map_of terminal_reason_precedence to, map_of terminal_reason_precedence reason) of
             (Some new, Some cur) \<Rightarrow> new > cur | _ \<Rightarrow> False)
      | _ \<Rightarrow> False)"

definition transition_section :: "string \<Rightarrow> string \<Rightarrow> job \<Rightarrow> string \<Rightarrow> time \<Rightarrow>
    (job \<times> bool \<times> jobval option) option action" where
  "transition_section job_id to payload expected timestamp =
     andthen (lookup_job job_id) (\<lambda>old.
       andthen (require Invalid_record (valid_record old)) (\<lambda>_.
         if is_status expected old \<or> outranks to old then merge_some job_id old payload timestamp
         else return None))"

definition transition_terminal :: "string \<Rightarrow> string \<Rightarrow> string option \<Rightarrow> job \<Rightarrow> string \<Rightarrow> jobval option \<Rightarrow>
    jobval option \<Rightarrow> time \<Rightarrow> job option action" where
  "transition_terminal job_id to message upd expected elapsed now clock =
     andthen (require Unsupported_transition
         (to \<in> set terminal_reasons \<and> (expected = st_running \<or> expected = st_completed) \<and>
          (expected = st_completed \<longrightarrow> to = st_error)))
       (\<lambda>_. andthen (require Forbidden_lifecycle_fields (payload_allowed upd))
         (\<lambda>_. case validate_timestamp (case now of None \<Rightarrow> VFloat (Fin clock) | Some v \<Rightarrow> v) of
            None \<Rightarrow> throw Invalid_timestamp
          | Some timestamp \<Rightarrow>
              finish_update job_id
                (transition_section job_id to (terminal_payload upd to timestamp message elapsed)
                   expected timestamp)))"

text \<open>
  The publisher runs inside the lock, may call the store again, and returns the result fields
  and whether the record it publishes for was replaced meanwhile.
\<close>

definition completion_payload :: "job \<Rightarrow> time \<Rightarrow> string option \<Rightarrow> jobval option \<Rightarrow> job" where
  "completion_payload upd timestamp message elapsed =
     (let p = AList.update k_completed_at (VFloat (Fin timestamp))
                (AList.update k_ended_at (VFloat (Fin timestamp))
                  (AList.update k_terminal_reason (VStr st_completed)
                    (AList.update k_status (VStr st_completed) upd)))
      in opt_update k_elapsed_seconds elapsed (opt_update k_message (map_option VStr message) p))"

definition publish_section :: "string \<Rightarrow> (job \<times> bool) action \<Rightarrow> string option \<Rightarrow> jobval option \<Rightarrow>
    jobval option \<Rightarrow> time \<Rightarrow> (job \<times> bool \<times> jobval option) option action" where
  "publish_section job_id publish message elapsed now clock =
     andthen (lookup_job job_id) (\<lambda>old.
       andthen (require Invalid_record (valid_record old)) (\<lambda>_.
         if \<not> is_status st_running old then return None
         else andthen publish (\<lambda>(upd, replaced).
           andthen (require Publisher_replaced_record (\<not> replaced)) (\<lambda>_.
             andthen (require Forbidden_lifecycle_fields (payload_allowed upd)) (\<lambda>_.
               case validate_timestamp (case now of None \<Rightarrow> VFloat (Fin clock) | Some v \<Rightarrow> v) of
                 None \<Rightarrow> throw Invalid_timestamp
               | Some timestamp \<Rightarrow>
                   merge_some job_id old (completion_payload upd timestamp message elapsed) timestamp)))))"

definition compare_and_publish_completion :: "string \<Rightarrow> (job \<times> bool) action \<Rightarrow> string option \<Rightarrow>
    jobval option \<Rightarrow> jobval option \<Rightarrow> time \<Rightarrow> job option action" where
  "compare_and_publish_completion job_id publish message elapsed now clock =
     andthen (require Invalid_timestamp (case now of None \<Rightarrow> True | Some v \<Rightarrow> validate_timestamp v \<noteq> None))
       (\<lambda>_. finish_update job_id (publish_section job_id publish message elapsed now clock))"

definition create_section :: "string \<Rightarrow> job \<Rightarrow> time \<Rightarrow> time \<Rightarrow> string action" where
  "create_section job_id job t1 now =
     andthen (evict_stale t1) (\<lambda>_ s.
       let job = set_default k_created_at (VFloat (Fin now)) job
       in if \<not> valid_record job then (Inl Invalid_record, s)
          else (Inr job_id, record_running_activity job_id job now (put_job job_id job s)))"

definition create_job :: "string \<Rightarrow> job \<Rightarrow> time \<Rightarrow> time \<Rightarrow> string action" where
  "create_job job_id job t1 now =
     andthen (require New_job_not_running (is_status st_running job))
       (\<lambda>_. andthen (require New_job_with_terminal_fields
           (\<not> has_key k_terminal_reason job \<and> \<not> has_key k_ended_at job \<and> \<not> has_key k_completed_at job))
         (\<lambda>_. andthen (require Invalid_timestamp
             (case map_of job k_created_at of None \<Rightarrow> True | Some v \<Rightarrow> v = VNone \<or> validate_timestamp v \<noteq> None))
           (\<lambda>_. write_locked (create_section job_id job t1 now))))"

definition get_job :: "string \<Rightarrow> time \<Rightarrow> job option action" where
  "get_job job_id now =
     andthen (write_locked (andthen (evict_stale now) (\<lambda>_ s. (Inr (map_of (jobs s) job_id), s))))
       (\<lambda>job. case job of None \<Rightarrow> return None
          | Some j \<Rightarrow> andthen (require Invalid_record (valid_record j)) (\<lambda>_. return (Some j)))"

definition list_jobs :: "time \<Rightarrow> (string, job) odict action" where
  "list_jobs now =
     write_locked (andthen (evict_stale now) (\<lambda>_ s.
       (if list_all (\<lambda>(_, job). valid_record job) (jobs s) then Inr (jobs s) else Inl Invalid_record, s)))"

definition update_section :: "string \<Rightarrow> job \<Rightarrow> string list \<Rightarrow> string option \<Rightarrow> time \<Rightarrow>
    (job \<times> bool \<times> jobval option) option action" where
  "update_section job_id upd required expected now =
     andthen (lookup_job job_id) (\<lambda>old.
       andthen (require Invalid_record (valid_record old)) (\<lambda>_.
         if (\<exists>st \<in> set_option expected. \<not> is_status st old) \<or> \<not> all_present required old
         then return None
         else merge_some job_id old upd now))"

definition atomic_update_if_heavy_present :: "string \<Rightarrow> job \<Rightarrow> string list \<Rightarrow> string option \<Rightarrow> time \<Rightarrow>
    job option action" where
  "atomic_update_if_heavy_present job_id upd required expected now =
     andthen (require Forbidden_lifecycle_fields (payload_allowed upd))
       (\<lambda>_. andthen (require Unknown_status (status_allowed expected))
         (\<lambda>_. finish_update job_id (update_section job_id upd required expected now)))"

definition atomic_update :: "string \<Rightarrow> job \<Rightarrow> string option \<Rightarrow> time \<Rightarrow> job option action" where
  "atomic_update job_id upd expected now = atomic_update_if_heavy_present job_id upd [] expected now"

definition update_job :: "string \<Rightarrow> job \<Rightarrow> time \<Rightarrow> job action" where
  "update_job job_id upd now =
     andthen (atomic_update job_id upd None now)
       (\<lambda>r. case r of None \<Rightarrow> throw Unsupported_transition | Some job \<Rightarrow> return job)"

definition require_job :: "string \<Rightarrow> time \<Rightarrow> job action" where
  "require_job job_id now =
     andthen (get_job job_id now)
       (\<lambda>r. case r of None \<Rightarrow> throw Job_not_found | Some job \<Rightarrow> return job)"

definition require_completed_job :: "string \<Rightarrow> time \<Rightarrow> job action" where
  "require_completed_job job_id now =
     andthen (require_job job_id now)
       (\<lambda>job. if is_status st_completed job then return job else throw Job_not_completed)"

definition detach_artifact_handle :: "string \<Rightarrow> string \<Rightarrow> bool action" where
  "detach_artifact_handle job_id key =
     write_locked (\<lambda>s.
       case map_of (jobs s) job_id of
         None \<Rightarrow> (Inr False, s)
       | Some old \<Rightarrow>
           (case map_of (handles_of old) key of
              None \<Rightarrow> (Inr False, s)
            | Some h \<Rightarrow>
                let s1 = put_job job_id
                  (AList.update k_artifact_handles (VHandles (AList.delete key (handles_of old))) old) s
                in (Inr True, s1\<lparr>cleanups := cleanups s1 @ [(job_id, [h])]\<rparr>)))"

definition release_detached_artifact_handles :: "string \<Rightarrow> handle list \<Rightarrow> unit action" where
  "release_detached_artifact_handles job_id hs = modify (cleanup_artifact_handles job_id hs)"

definition lease_begin :: "string \<Rightarrow> string \<Rightarrow> time \<Rightarrow> handle action" where
  "lease_begin job_id key now =
     write_locked (andthen (evict_stale now) (\<lambda>_ s.
       case Option.bind (map_of (jobs s) job_id) (\<lambda>job. map_of (handles_of job) key) of
         None \<Rightarrow> (Inl Handle_unavailable, s)
       | Some h \<Rightarrow>
           (Inr h, s\<lparr>leases := AList.update (artifact_lease_key h)
                       (lease_count (artifact_lease_key h) s + 1) (leases s)\<rparr>)))"

definition lease_end :: "artifact \<Rightarrow> unit action" where
  "lease_end key s =
     (case map_of (leases s) key of
        None \<Rightarrow> (Inl Missing_job, s)
      | Some n \<Rightarrow>
          if n - 1 > 0 then (Inr (), s\<lparr>leases := AList.update key (n - 1) (leases s)\<rparr>)
          else let s1 = s\<lparr>leases := AList.delete key (leases s), deferred := AList.delete key (deferred s)\<rparr>
            in (Inr (), case map_of (deferred s) key of
                  None \<Rightarrow> s1
                | Some (job_id, h) \<Rightarrow> s1\<lparr>cleaned := cleaned s1 @ [(job_id, h)]\<rparr>))"

definition delete_job :: "string \<Rightarrow> unit action" where
  "delete_job job_id = write_locked (modify (remove_job job_id))"

definition has_job_matching :: "(job \<Rightarrow> bool) \<Rightarrow> time \<Rightarrow> bool action" where
  "has_job_matching test now =
     write_locked (andthen (evict_stale now) (\<lambda>_ s. (Inr (list_ex (\<lambda>(_, job). test job) (jobs s)), s)))"

definition has_job_with_status :: "string \<Rightarrow> time \<Rightarrow> bool action" where
  "has_job_with_status st now =
     andthen (require Unknown_status (status_allowed (Some st))) (\<lambda>_. has_job_matching (is_status st) now)"

definition clear_section :: "string \<Rightarrow> string list \<Rightarrow> unit action" where
  "clear_section job_id ks s =
     (case map_of (jobs s) job_id of
        None \<Rightarrow> (Inr (), s)
      | Some job \<Rightarrow>
          if \<not> valid_record job then (Inl Invalid_record, s)
          else let s1 = detach_heavy_values job (filter (\<lambda>k. k \<in> set heavy_object_keys) ks) s;
                   slim = drop_keys ks job;
                   slim' = (if has_heavy slim then slim else AList.delete k_expires_at slim);
                   s2 = (if has_heavy slim then s1 else cancel_timer job_id s1)
            in if \<not> valid_record slim' then (Inl Invalid_record, s2)
               else (Inr (), put_job job_id slim' s2))"

definition clear_result_data :: "string \<Rightarrow> string list \<Rightarrow> unit action" where
  "clear_result_data job_id ks = write_locked (clear_section job_id ks)"

definition clear_all :: "unit action" where
  "clear_all = write_locked (modify (\<lambda>s.
     let s1 = fold remove_job (keys (jobs s)) s;
         s2 = fold cancel_timer (keys (timers s1)) s1
     in s2\<lparr>running_activity := []\<rparr>))"

definition known_prefixes :: "string list" where
  "known_prefixes =
     [''training'', ''optimiser'', ''optimiser_worker'', ''explore'', ''input_cache'', ''node_data'']"

text \<open>The factory: one store per known prefix, made at the first call with the default times.\<close>

definition get_job_store :: "string \<Rightarrow> (string, store) odict \<Rightarrow> (store_error + store) \<times> (string, store) odict" where
  "get_job_store prefix made =
     (if prefix \<notin> set known_prefixes then (Inl Unknown_prefix, made)
      else case map_of made prefix of
             Some s \<Rightarrow> (Inr s, made)
           | None \<Rightarrow>
               (case new_store (24 * 60 * 60) (15 * 60) of
                  Inl e \<Rightarrow> (Inl e, made) | Inr s \<Rightarrow> (Inr s, AList.update prefix s made)))"

section \<open>Facts about records\<close>

lemma map_of_drop_keys: "map_of (drop_keys ks job) k = (if k \<in> set ks then None else map_of job k)"
  by (induction job) (auto simp: drop_keys_def)

lemma map_of_set_default:
  "map_of (set_default k v job) k' = (if k' = k \<and> map_of job k = None then Some v else map_of job k')"
  by (auto simp: set_default_def dict_simps map_of_None_keys)

lemma map_of_merge_skip: "\<not> has_key k upd \<Longrightarrow> map_of (merge_fields old upd) k = map_of old k"
proof (induction upd arbitrary: old)
  case (Cons p upd)
  then show ?case by (cases p) (auto simp: merge_fields_def dict_simps)
qed (simp add: merge_fields_def)

lemma has_key_map: "has_key k job \<longleftrightarrow> map_of job k \<noteq> None"
  by (simp add: has_key_def)

lemmas record_lookups = map_of_drop_keys map_of_set_default dict_simps has_key_map

definition resource_values :: "job \<Rightarrow> jobval set" where
  "resource_values job = {v. owns_resource v \<and> (\<exists>k \<in> set heavy_object_keys. map_of job k = Some v)}"

definition doomed :: "job \<Rightarrow> bool" where
  "doomed job \<longleftrightarrow> \<not> is_status st_running job \<and> \<not> is_status st_completed job"

definition stage :: "job \<Rightarrow> nat" where
  "stage job =
     (case status_of job of
        Some (VStr st) \<Rightarrow>
          if st = st_running then 0
          else if st = st_completed then 1
          else (case map_of terminal_reason_precedence st of Some n \<Rightarrow> n + 2 | None \<Rightarrow> 1)
      | _ \<Rightarrow> 0)"

lemma valid_status: "valid_record job \<Longrightarrow> \<exists>st \<in> set job_statuses. status_of job = Some (VStr st)"
  by (auto simp: valid_record_def split: option.splits jobval.splits)

lemma status_cong: "map_of a k_status = map_of b k_status \<Longrightarrow>
    is_status st a = is_status st b \<and> stage a = stage b \<and> status_of a = status_of b"
  by (simp add: is_status_def stage_def status_of_def)

lemma prepare_policy_props:
  assumes "prepare_heavy_object_policy ttl now job = Some (job', sched)"
  shows "map_of job' k_status = map_of job k_status"
    "k \<in> set heavy_object_keys \<Longrightarrow> map_of job' k = map_of job k"
proof -
  have "k_completed_at \<noteq> k_status" "k_expires_at \<noteq> k_status" using key_neq by auto
  moreover have "k \<in> set heavy_object_keys \<Longrightarrow> k \<noteq> k_completed_at \<and> k \<noteq> k_expires_at"
    using heavy_fresh by auto
  ultimately show "map_of job' k_status = map_of job k_status"
    "k \<in> set heavy_object_keys \<Longrightarrow> map_of job' k = map_of job k"
    using assms
    by (auto simp: prepare_heavy_object_policy_def Let_def record_lookups split: if_splits)
qed

lemma heavy_lookup_cong:
  assumes "\<And>k. k \<in> set heavy_object_keys \<Longrightarrow> map_of a k = map_of b k"
  shows "resource_values a = resource_values b" "has_heavy a = has_heavy b" "owning_keys a = owning_keys b"
  using assms
  by (auto simp: resource_values_def has_heavy_def has_key_map owning_keys_def list_ex_iff intro!: filter_cong)

lemma owning_keys_Nil: "owning_keys job = [] \<longleftrightarrow> resource_values job = {}"
  by (force simp: owning_keys_def resource_values_def filter_empty_conv split: option.splits)

section \<open>How the store evolves\<close>

text \<open>Only leased artifacts are deferred, each under its own key.\<close>

definition deferred_ok :: "(artifact, nat) odict \<Rightarrow> (artifact, string \<times> handle) odict \<Rightarrow> bool" where
  "deferred_ok held d \<longleftrightarrow>
     set (keys d) \<subseteq> set (keys held) \<and> list_all (\<lambda>(key, _, h). artifact_lease_key h = key) d"

lemma deferred_ok_add:
  "deferred_ok held d \<Longrightarrow> artifact_lease_key h \<in> set (keys held) \<Longrightarrow>
    deferred_ok held (AList.update (artifact_lease_key h) (j, h) d)"
proof -
  have "list_all (\<lambda>(key, _, h). artifact_lease_key h = key) d \<Longrightarrow>
      list_all (\<lambda>(key, _, h). artifact_lease_key h = key) (AList.update (artifact_lease_key h) (j, h) d)"
    by (induction d) auto
  then show "deferred_ok held d \<Longrightarrow> artifact_lease_key h \<in> set (keys held) \<Longrightarrow>
      deferred_ok held (AList.update (artifact_lease_key h) (j, h) d)"
    by (simp add: deferred_ok_def dict_simps)
qed

lemma deferred_ok_delete:
  "deferred_ok held d \<Longrightarrow> deferred_ok (AList.delete key held) (AList.delete key d)"
proof -
  have "set (AList.delete key d) \<subseteq> set d" by (induction d) auto
  then show "deferred_ok held d \<Longrightarrow> deferred_ok (AList.delete key held) (AList.delete key d)"
    by (auto simp: deferred_ok_def dict_simps list_all_iff)
qed

lemma deferred_ok_more: "deferred_ok held d \<Longrightarrow> deferred_ok (AList.update key n held) d"
  by (auto simp: deferred_ok_def dict_simps)

lemma deferred_ok_key: "deferred_ok held d \<Longrightarrow> map_of d key = Some (j, h) \<Longrightarrow> artifact_lease_key h = key"
  by (auto simp: deferred_ok_def list_all_iff dest!: map_of_SomeD)

definition store_ok :: "store \<Rightarrow> bool" where
  "store_ok s \<longleftrightarrow>
     wf_dict (jobs s) \<and>
     (\<forall>j job. map_of (jobs s) j = Some job \<longrightarrow>
        valid_record job \<and> (doomed job \<longrightarrow> resource_values job = {})) \<and>
     (\<forall>j. j \<in> set (keys (running_activity s)) \<longleftrightarrow>
        (\<exists>job. map_of (jobs s) j = Some job \<and> is_status st_running job)) \<and>
     (\<forall>j \<in> set (keys (timers s)). \<exists>job. map_of (jobs s) j = Some job \<and>
        is_status st_completed job \<and> has_heavy job) \<and>
     (\<forall>key n. map_of (leases s) key = Some n \<longrightarrow> 0 < n) \<and>
     deferred_ok (leases s) (deferred s)"

definition held_resources :: "store \<Rightarrow> jobval set" where
  "held_resources s = {v. \<exists>j job. map_of (jobs s) j = Some job \<and> v \<in> resource_values job}"

definition accounted :: "store \<Rightarrow> jobval set" where
  "accounted s = held_resources s \<union> set (releases s) \<union> set (released s)"

text \<open>
  One move inside the lock: the invariant is kept, no owned resource is lost, no job appears and
  none goes back, and neither the leases nor what was cleaned change.
\<close>

definition advances :: "job \<Rightarrow> job \<Rightarrow> bool" where
  "advances job job' \<longleftrightarrow> stage job < stage job' \<or> status_of job' = status_of job"

definition jobs_advance :: "store \<Rightarrow> store \<Rightarrow> bool" where
  "jobs_advance s s' \<longleftrightarrow>
     (\<forall>j job'. map_of (jobs s') j = Some job' \<longrightarrow>
        (\<exists>job. map_of (jobs s) j = Some job \<and> advances job job'))"

definition evolves :: "store \<Rightarrow> store \<Rightarrow> bool" where
  "evolves s s' \<longleftrightarrow>
     store_ok s' \<and> accounted s \<subseteq> accounted s' \<and>
     jobs_advance s s' \<and>
     leases s' = leases s \<and> deferred s' = deferred s \<and> cleaned s' = cleaned s \<and>
     released s' = released s \<and> ttl_seconds s' = ttl_seconds s"

lemma advances_refl [simp]: "advances job job"
  by (simp add: advances_def)

lemma advances_trans: "advances a b \<Longrightarrow> advances b c \<Longrightarrow> advances a c"
  by (auto simp: advances_def stage_def)

lemma jobs_advance_same: "jobs s' = jobs s \<Longrightarrow> jobs_advance s s'"
  by (auto simp: jobs_advance_def)

lemma jobs_advance_trans:
  assumes "jobs_advance a b" "jobs_advance b c"
  shows "jobs_advance a c"
  unfolding jobs_advance_def
proof (intro allI impI)
  fix j job' assume "map_of (jobs c) j = Some job'"
  then obtain mid where "map_of (jobs b) j = Some mid" "advances mid job'"
    using assms(2) unfolding jobs_advance_def by blast
  then show "\<exists>job. map_of (jobs a) j = Some job \<and> advances job job'"
    using assms(1) advances_trans unfolding jobs_advance_def by blast
qed

lemma evolves_refl: "store_ok s \<Longrightarrow> evolves s s"
  by (simp add: evolves_def jobs_advance_same)

lemma evolves_trans: "evolves a b \<Longrightarrow> evolves b c \<Longrightarrow> evolves a c"
  using jobs_advance_trans [of a b c] by (auto simp: evolves_def)

lemma evolves_ok: "evolves s s' \<Longrightarrow> store_ok s'"
  by (simp add: evolves_def)

definition evolving :: "(store \<Rightarrow> bool) \<Rightarrow> 'a action \<Rightarrow> bool" where
  "evolving P m \<longleftrightarrow> (\<forall>s. store_ok s \<longrightarrow> P s \<longrightarrow> evolves s (snd (m s)))"

abbreviation always :: "store \<Rightarrow> bool" where
  "always \<equiv> \<lambda>_. True"

named_theorems evolve_intros \<open>actions that evolve the store\<close>

lemma evolving_return [evolve_intros]: "evolving P (return x)"
  by (simp add: evolving_def return_def evolves_refl)

lemma evolving_throw [evolve_intros]: "evolving P (throw e)"
  by (simp add: evolving_def throw_def evolves_refl)

lemma evolving_andthen [evolve_intros]:
  assumes "evolving P m" "\<And>x. evolving always (f x)"
  shows "evolving P (andthen m f)"
  unfolding evolving_def
proof (intro allI impI)
  fix s assume "store_ok s" "P s"
  then have m: "evolves s (snd (m s))" using assms(1) by (simp add: evolving_def)
  show "evolves s (snd (andthen m f s))"
  proof (cases "m s")
    case (Pair r t)
    then have t: "evolves s t" using m by simp
    have "evolves t (snd (f x t))" for x
      using assms(2) evolves_ok [OF t] by (simp add: evolving_def)
    then show ?thesis
      using Pair t evolves_trans by (auto simp: andthen_def split: sum.splits)
  qed
qed

lemma evolving_require [evolve_intros]:
  "(b \<Longrightarrow> evolving P (f ())) \<Longrightarrow> evolving P (andthen (require e b) f)"
  by (auto simp: evolving_def andthen_def require_def evolves_refl)

lemma evolving_lookup [evolve_intros]:
  "(\<And>old. evolving (\<lambda>s. map_of (jobs s) j = Some old) (f old)) \<Longrightarrow>
    evolving always (andthen (lookup_job j) f)"
  by (auto simp: evolving_def andthen_def lookup_job_def evolves_refl split: option.splits)

lemma evolving_if [evolve_intros]:
  "(b \<Longrightarrow> evolving P m) \<Longrightarrow> (\<not> b \<Longrightarrow> evolving P m') \<Longrightarrow> evolving P (if b then m else m')"
  by simp

section \<open>Elementary moves\<close>

lemma evolves_detach: "store_ok s \<Longrightarrow> evolves s (detach_heavy_values job ks s)"
  by (auto simp: evolves_def detach_heavy_values_def store_ok_def accounted_def held_resources_def
      jobs_advance_same)

lemma detach_selects [simp]:
  "jobs (detach_heavy_values job ks s) = jobs s" "timers (detach_heavy_values job ks s) = timers s"
  "running_activity (detach_heavy_values job ks s) = running_activity s"
  "heavy_ttl_seconds (detach_heavy_values job ks s) = heavy_ttl_seconds s"
  by (simp_all add: detach_heavy_values_def)

lemma detach_keeps_releases: "set (releases s) \<subseteq> set (releases (detach_heavy_values job ks s))"
  by (auto simp: detach_heavy_values_def)

lemma in_detached:
  "k \<in> set ks \<Longrightarrow> map_of job k = Some v \<Longrightarrow> owns_resource v \<Longrightarrow>
    v \<in> set (releases (detach_heavy_values job ks s))"
  by (force simp: detach_heavy_values_def)

lemma cancel_timer_selects [simp]:
  "jobs (cancel_timer j s) = jobs s" "running_activity (cancel_timer j s) = running_activity s"
  "leases (cancel_timer j s) = leases s" "deferred (cancel_timer j s) = deferred s"
  "releases (cancel_timer j s) = releases s" "released (cancel_timer j s) = released s"
  "cleaned (cancel_timer j s) = cleaned s" "ttl_seconds (cancel_timer j s) = ttl_seconds s"
  "cleanups (cancel_timer j s) = cleanups s"
  by (auto simp: cancel_timer_def split: option.splits)

lemma keys_cancel_timer [simp]: "set (keys (timers (cancel_timer j s))) = set (keys (timers s)) - {j}"
  by (auto simp: cancel_timer_def dict_simps map_of_None_keys split: option.splits)

lemma evolves_cancel: "store_ok s \<Longrightarrow> evolves s (cancel_timer j s)"
  by (auto simp: evolves_def store_ok_def accounted_def held_resources_def jobs_advance_same)

lemma evolves_put:
  assumes ok: "store_ok s" and old: "map_of (jobs s) j = Some old"
    and new: "valid_record new" "doomed new \<Longrightarrow> resource_values new = {}" "advances old new"
      "resource_values old \<subseteq> resource_values new \<union> set (releases s)"
    and jobs: "jobs s' = AList.update j new (jobs s)"
    and act: "set (keys (running_activity s')) =
      (if is_status st_running new then insert j (set (keys (running_activity s)))
       else set (keys (running_activity s)) - {j})"
    and tim: "set (keys (timers s')) \<subseteq>
      (if is_status st_completed new \<and> has_heavy new then insert j (set (keys (timers s)))
       else set (keys (timers s)) - {j})"
    and same: "leases s' = leases s" "deferred s' = deferred s" "cleaned s' = cleaned s"
      "releases s' = releases s" "released s' = released s" "ttl_seconds s' = ttl_seconds s"
  shows "evolves s s'"
proof -
  have look: "map_of (jobs s') k = (if k = j then Some new else map_of (jobs s) k)" for k
    by (simp add: jobs dict_simps)
  have "store_ok s'"
    unfolding store_ok_def
  proof (intro conjI allI impI ballI)
    show "wf_dict (jobs s')" using ok by (simp add: jobs store_ok_def)
    show "valid_record job" "doomed job \<Longrightarrow> resource_values job = {}"
      if "map_of (jobs s') k = Some job" for k job
      using that look new(1,2) ok by (auto simp: store_ok_def split: if_splits)
    show "k \<in> set (keys (running_activity s')) \<longleftrightarrow>
        (\<exists>job. map_of (jobs s') k = Some job \<and> is_status st_running job)" for k
      using ok by (auto simp: act look store_ok_def)
    show "\<exists>job. map_of (jobs s') k = Some job \<and> is_status st_completed job \<and> has_heavy job"
      if "k \<in> set (keys (timers s'))" for k
      using ok subsetD [OF tim that] by (cases "k = j") (auto simp: look store_ok_def split: if_splits)
    show "0 < n" if "map_of (leases s') key = Some n" for key n
      using ok that unfolding same store_ok_def by blast
    show "deferred_ok (leases s') (deferred s')" using ok by (simp add: same store_ok_def)
  qed
  moreover have "accounted s \<subseteq> accounted s'"
  proof -
    have "v \<in> held_resources s' \<union> set (releases s)" if v: "v \<in> held_resources s" for v
    proof -
      obtain k job where k: "map_of (jobs s) k = Some job" "v \<in> resource_values job"
        using v by (auto simp: held_resources_def)
      show ?thesis
      proof (cases "k = j")
        case True
        then show ?thesis using k old new(4) look [of j] by (auto simp: held_resources_def)
      next
        case False
        then show ?thesis using k look [of k] by (auto simp: held_resources_def)
      qed
    qed
    then show ?thesis by (auto simp: accounted_def same)
  qed
  ultimately show ?thesis
    using new(3) old by (auto simp: evolves_def same look jobs_advance_def)
qed

lemma store_okD:
  assumes "store_ok s" "map_of (jobs s) j = Some job"
  shows "valid_record job" "doomed job \<Longrightarrow> resource_values job = {}"
    "j \<in> set (keys (running_activity s)) \<longleftrightarrow> is_status st_running job"
    "j \<in> set (keys (timers s)) \<Longrightarrow> is_status st_completed job \<and> has_heavy job"
  using assms by (auto simp: store_ok_def)

lemma put_selects [simp]:
  "jobs (put_job j job s) = AList.update j job (jobs s)" "timers (put_job j job s) = timers s"
  "running_activity (put_job j job s) = running_activity s" "leases (put_job j job s) = leases s"
  "deferred (put_job j job s) = deferred s" "cleaned (put_job j job s) = cleaned s"
  "releases (put_job j job s) = releases s" "released (put_job j job s) = released s"
  "ttl_seconds (put_job j job s) = ttl_seconds s"
  by (simp_all add: put_job_def)

lemma record_activity_selects [simp]:
  "jobs (record_running_activity j job now s) = jobs s"
  "timers (record_running_activity j job now s) = timers s"
  "leases (record_running_activity j job now s) = leases s"
  "deferred (record_running_activity j job now s) = deferred s"
  "cleaned (record_running_activity j job now s) = cleaned s"
  "releases (record_running_activity j job now s) = releases s"
  "released (record_running_activity j job now s) = released s"
  "ttl_seconds (record_running_activity j job now s) = ttl_seconds s"
  by (simp_all add: record_running_activity_def forget_activity_def)

lemma keys_record_activity [simp]:
  "set (keys (running_activity (record_running_activity j job now s))) =
     (if is_status st_running job then insert j (set (keys (running_activity s)))
      else set (keys (running_activity s)) - {j})"
  by (auto simp: record_running_activity_def forget_activity_def dict_simps)

lemma merged_resources:
  assumes "v \<in> resource_values old" "v \<notin> resource_values (merge_fields old upd)"
  shows "v \<in> set (releases (detach_heavy_values old (replaced_heavy old upd) s))"
proof -
  obtain k where k: "k \<in> set heavy_object_keys" "map_of old k = Some v" "owns_resource v"
    using assms(1) by (auto simp: resource_values_def)
  then have "map_of (merge_fields old upd) k \<noteq> Some v" using assms(2) by (auto simp: resource_values_def)
  moreover from this have "has_key k upd" using k map_of_merge_skip [of k upd old] by auto
  ultimately have "k \<in> set (replaced_heavy old upd)" using k by (auto simp: replaced_heavy_def has_key_map)
  then show ?thesis using k(2,3) by (rule in_detached)
qed

lemma shed_owned_props:
  assumes "shed_owned job s = (job', s')" "store_ok s"
  shows "evolves s s'" "jobs s' = jobs s" "map_of job' k_status = map_of job k_status"
    "doomed job' \<Longrightarrow> resource_values job' = {}"
    "resource_values job \<subseteq> resource_values job' \<union> set (releases s')"
    "set (releases s) \<subseteq> set (releases s')"
proof -
  have own: "resource_values (drop_keys (owning_keys job) job) = {}"
    by (auto simp: resource_values_def map_of_drop_keys owning_keys_def)
  have "v \<in> set (releases (detach_heavy_values job (owning_keys job) s))" if "v \<in> resource_values job" for v
    using that by (auto simp: resource_values_def owning_keys_def intro!: in_detached)
  moreover have "k_status \<notin> set (owning_keys job)" by (auto simp: owning_keys_def)
  ultimately show "evolves s s'" "jobs s' = jobs s" "map_of job' k_status = map_of job k_status"
    "doomed job' \<Longrightarrow> resource_values job' = {}"
    "resource_values job \<subseteq> resource_values job' \<union> set (releases s')"
    "set (releases s) \<subseteq> set (releases s')"
    using assms own
      detach_keeps_releases [of s job "owning_keys job"]
    by (auto simp: shed_owned_def doomed_def evolves_refl evolves_detach map_of_drop_keys split: if_splits)
qed

lemma evolves_store_merged:
  assumes ok: "store_ok s" and old: "map_of (jobs s) j = Some old"
    and adv: "advances old (merge_fields old upd)"
  shows "evolves s (snd (store_merged_job j old upd now s))"
proof -
  define s1 where "s1 = detach_heavy_values old (replaced_heavy old upd) s"
  obtain merged s2 where sh: "shed_owned (merge_fields old upd) s1 = (merged, s2)" by fastforce
  have 1: "evolves s s1" unfolding s1_def by (rule evolves_detach [OF ok])
  note shed = shed_owned_props [OF sh evolves_ok [OF 1]]
  have 2: "evolves s s2" by (rule evolves_trans [OF 1 shed(1)])
  have old2: "map_of (jobs s2) j = Some old" using shed(2) old by (simp add: s1_def)
  show ?thesis
  proof (cases "prepare_heavy_object_policy (heavy_ttl_seconds s) now merged")
    case None
    then show ?thesis using 2 sh by (simp add: store_merged_job_def Let_def flip: s1_def)
  next
    case (Some p)
    then obtain job sched where p: "prepare_heavy_object_policy (heavy_ttl_seconds s) now merged = Some (job, sched)"
      by (cases p) auto
    note prep = prepare_policy_props [OF p]
    have st: "map_of job k_status = map_of (merge_fields old upd) k_status" using prep(1) shed(3) by simp
    note same = status_cong [OF st]
    note heavy = heavy_lookup_cong [OF prep(2)]
    have res: "resource_values old \<subseteq> resource_values job \<union> set (releases s2)"
      using merged_resources [of _ old upd s, folded s1_def] shed(5,6) heavy(1) by blast
    have doom: "doomed job \<Longrightarrow> resource_values job = {}"
      using shed(4) heavy(1) status_cong [OF prep(1)] by (auto simp: doomed_def)
    have adv': "advances old job" using adv same by (simp add: advances_def)
    show ?thesis
    proof (cases "valid_record job")
      case False
      then show ?thesis using 2 sh p by (simp add: store_merged_job_def Let_def flip: s1_def)
    next
      case True
      let ?s3 = "record_running_activity j job now (put_job j job s2)"
      let ?s4 = "if \<not> is_status st_completed job \<or> \<not> has_heavy job then cancel_timer j ?s3 else ?s3"
      have "evolves s2 ?s4"
        by (rule evolves_put [OF evolves_ok [OF 2] old2 True doom adv' res]) (auto simp: dict_simps)
      then show ?thesis
        using evolves_trans [OF 2] sh p True by (simp add: store_merged_job_def Let_def flip: s1_def)
    qed
  qed
qed

lemma stripped_props:
  "map_of (stripped ttl now job) k_status = map_of job k_status"
  "resource_values (stripped ttl now job) = {}" "\<not> has_heavy (stripped ttl now job)"
proof -
  have h: "k \<noteq> k_retention \<and> k \<noteq> k_cleared_at \<and> k \<noteq> k_expires_at" if "k \<in> set heavy_object_keys" for k
    using that heavy_fresh by auto
  have gone: "map_of (stripped ttl now job) k = None" if "k \<in> set heavy_object_keys" for k
    using h [OF that] that by (simp add: stripped_def record_lookups)
  show "map_of (stripped ttl now job) k_status = map_of job k_status"
    using key_neq by (simp add: stripped_def record_lookups)
  show "resource_values (stripped ttl now job) = {}" "\<not> has_heavy (stripped ttl now job)"
    using gone by (auto simp: resource_values_def has_heavy_def has_key_map list_ex_iff)
qed

lemma detach_covers:
  "resource_values job \<subseteq> set (releases (detach_heavy_values job heavy_object_keys s))"
  by (auto simp: resource_values_def intro: in_detached)

lemma evolves_clear_heavy:
  assumes ok: "store_ok s" and old: "map_of (jobs s) j = Some job" and fin: "is_status st_completed job"
  shows "evolves s (snd (clear_heavy_objects j job now s))"
proof -
  let ?s1 = "detach_heavy_values job heavy_object_keys s"
  let ?slim = "stripped (heavy_ttl_seconds s) now job"
  have 1: "evolves s ?s1" by (rule evolves_detach [OF ok])
  have old1: "map_of (jobs ?s1) j = Some job" using old by simp
  note st = status_cong [OF stripped_props(1) [of "heavy_ttl_seconds s" now job]]
  have run: "j \<notin> set (keys (running_activity s))"
    using store_okD(3) [OF ok old] fin status_neq by (auto simp: is_status_def)
  have "evolves ?s1 (cancel_timer j (put_job j ?slim ?s1))" if "valid_record ?slim"
    by (rule evolves_put [OF evolves_ok [OF 1] old1 that])
      (use st stripped_props detach_covers fin run in
        \<open>auto simp: advances_def dict_simps is_status_def\<close>)
  then show ?thesis
    using store_okD(1) [OF ok old] 1 evolves_trans [OF 1] by (auto simp: clear_heavy_objects_def Let_def)
qed

lemma clear_heavy_others:
  "k \<noteq> j \<Longrightarrow> map_of (jobs (snd (clear_heavy_objects j job now s))) k = map_of (jobs s) k"
  by (auto simp: clear_heavy_objects_def Let_def dict_simps)

lemma clear_if_expired_others:
  "k \<noteq> j \<Longrightarrow> map_of (jobs (snd (clear_if_expired j job now s))) k = map_of (jobs s) k"
  using clear_heavy_others by (auto simp: clear_if_expired_def split: option.splits)

lemma evolves_clear_if_expired:
  assumes "store_ok s" "map_of (jobs s) j = Some job"
  shows "evolves s (snd (clear_if_expired j job now s))"
  using assms evolves_clear_heavy [OF assms]
  by (auto simp: clear_if_expired_def evolves_refl split: option.splits)

lemma evolves_clear_loop:
  assumes "store_ok s" "wf_dict d" "\<forall>(j, job) \<in> set d. map_of (jobs s) j = Some job"
  shows "evolves s (snd (clear_expired_loop d now s))"
  using assms
proof (induction d arbitrary: s)
  case Nil
  then show ?case by (simp add: return_def evolves_refl)
next
  case (Cons p d)
  obtain j job where p: "p = (j, job)" by (cases p)
  obtain r t where rt: "clear_if_expired j job now s = (r, t)" by fastforce
  have 1: "evolves s t" using evolves_clear_if_expired [of s j job now] Cons.prems p rt by auto
  have "\<forall>(k, job) \<in> set d. map_of (jobs t) k = Some job"
  proof (clarify)
    fix k job' assume k: "(k, job') \<in> set d"
    then have "k \<noteq> j" using Cons.prems(2) p by (auto simp: wf_dict_def keys_def image_iff)
    then show "map_of (jobs t) k = Some job'"
      using clear_if_expired_others [of k j job now s] rt k Cons.prems(3) by auto
  qed
  then have "evolves t (snd (clear_expired_loop d now t))"
    using Cons.IH [OF evolves_ok [OF 1]] Cons.prems(2) by (auto simp: wf_dict_def)
  then show ?case using 1 evolves_trans rt p by (auto simp: andthen_def split: sum.splits)
qed

lemma evolving_clear_expired [evolve_intros]: "evolving P (clear_expired_heavy_objects_locked now)"
proof -
  have "evolves s (snd (clear_expired_loop (jobs s) now s))" if "store_ok s" for s
  proof (rule evolves_clear_loop [OF that])
    show wf: "wf_dict (jobs s)" using that by (simp add: store_ok_def)
    then show "\<forall>(j, job) \<in> set (jobs s). map_of (jobs s) j = Some job"
      by (auto simp: wf_dict_def keys_def)
  qed
  then show ?thesis by (simp add: evolving_def clear_expired_heavy_objects_locked_def)
qed

lemma evolves_forget:
  assumes "store_ok s" "\<forall>job. map_of (jobs s) j = Some job \<longrightarrow> \<not> is_status st_running job"
  shows "evolves s (forget_activity j s)"
proof -
  have "set (keys (running_activity (forget_activity j s))) = set (keys (running_activity s))"
    using assms by (auto simp: forget_activity_def dict_simps store_ok_def)
  then show ?thesis
    using assms(1)
    by (simp add: evolves_def store_ok_def accounted_def held_resources_def forget_activity_def
        jobs_advance_same)
qed

lemma forget_jobs [simp]: "jobs (forget_activity j s) = jobs s"
  by (simp add: forget_activity_def)

lemma evolves_fold_forget:
  "store_ok s \<Longrightarrow> \<forall>j \<in> set js. \<forall>job. map_of (jobs s) j = Some job \<longrightarrow> \<not> is_status st_running job \<Longrightarrow>
    evolves s (fold forget_activity js s)"
proof (induction js arbitrary: s)
  case (Cons j js)
  have "evolves s (forget_activity j s)" using Cons.prems by (intro evolves_forget) auto
  then show ?case using Cons evolves_trans evolves_ok by fastforce
qed (simp add: evolves_refl)

lemma remove_selects:
  "leases (remove_job j s) = leases s" "deferred (remove_job j s) = deferred s"
  "cleaned (remove_job j s) = cleaned s" "released (remove_job j s) = released s"
  "ttl_seconds (remove_job j s) = ttl_seconds s"
  "jobs (remove_job j s) = AList.delete j (jobs s)"
  "set (keys (timers (remove_job j s))) \<subseteq> set (keys (timers s))"
  "j \<in> set (keys (jobs s)) \<Longrightarrow> set (keys (timers (remove_job j s))) = set (keys (timers s)) - {j}"
  "j \<in> set (keys (jobs s)) \<Longrightarrow>
    set (keys (running_activity (remove_job j s))) = set (keys (running_activity s)) - {j}"
  by (auto simp: remove_job_def forget_activity_def detach_heavy_values_def Let_def dict_simps
      delete_absent split: option.splits dest: map_of_SomeD_keys) (simp_all add: map_of_None_keys)

lemma accounted_remove: "accounted s \<subseteq> accounted (remove_job j s)"
proof (cases "map_of (jobs s) j")
  case None
  then show ?thesis by (simp add: remove_job_def)
next
  case (Some job)
  have rel: "releases (remove_job j s) = releases (detach_heavy_values job heavy_object_keys s)"
    using Some by (simp add: remove_job_def Let_def forget_activity_def detach_heavy_values_def)
  have "v \<in> set (releases (remove_job j s)) \<or> v \<in> held_resources (remove_job j s)"
    if v: "v \<in> held_resources s" for v
  proof -
    obtain k job' where k: "map_of (jobs s) k = Some job'" "v \<in> resource_values job'"
      using v by (auto simp: held_resources_def)
    show ?thesis
    proof (cases "k = j")
      case True
      then show ?thesis using k Some detach_covers rel by auto
    next
      case False
      then have "map_of (jobs (remove_job j s)) k = Some job'"
        using k(1) by (simp add: remove_selects dict_simps)
      then show ?thesis using k(2) by (auto simp: held_resources_def)
    qed
  qed
  then show ?thesis
    using detach_keeps_releases [of s job heavy_object_keys] rel
    by (auto simp: accounted_def remove_selects)
qed

lemma remove_absent: "j \<notin> set (keys (jobs s)) \<Longrightarrow> remove_job j s = s"
  by (simp add: remove_job_def map_of_None_keys [symmetric])

lemma evolves_remove:
  assumes ok: "store_ok s"
  shows "evolves s (remove_job j s)"
proof (cases "j \<in> set (keys (jobs s))")
  case True
  have "store_ok (remove_job j s)"
    using ok True
    by (simp add: store_ok_def remove_selects dict_simps)
  then show ?thesis
    using accounted_remove [of s j]
    by (simp add: evolves_def remove_selects dict_simps jobs_advance_def)
next
  case False
  then show ?thesis using ok by (simp add: remove_absent evolves_refl)
qed

lemma evolves_fold_remove: "store_ok s \<Longrightarrow> evolves s (fold remove_job js s)"
proof (induction js arbitrary: s)
  case (Cons j js)
  then show ?case using evolves_remove [of s j] evolves_trans evolves_ok by fastforce
qed (simp add: evolves_refl)

lemma evolving_evict [evolve_intros]: "evolving P (evict_stale now)"
  unfolding evict_stale_def
proof (rule evolving_andthen [OF evolving_clear_expired])
  show "evolving always (\<lambda>s. let cutoff = now - of_int (ttl_seconds s);
      stale = map fst (filter (\<lambda>(jid, job). job_eviction_timestamp jid job s < cutoff) (jobs s));
      settled = map fst (filter (\<lambda>(_, job). \<not> is_status st_running job) (jobs s))
    in (Inr (), fold remove_job stale (fold forget_activity settled s)))" for x :: unit
    unfolding evolving_def Let_def snd_conv
  proof (intro allI impI)
    fix s assume ok: "store_ok s"
    let ?settled = "map fst (filter (\<lambda>(_, job). \<not> is_status st_running job) (jobs s))"
    have "distinct (map fst (jobs s))" using ok by (simp add: store_ok_def wf_dict_def keys_def)
    then have "\<forall>j \<in> set ?settled. \<forall>job. map_of (jobs s) j = Some job \<longrightarrow> \<not> is_status st_running job"
      by (auto dest: eq_key_imp_eq_value)
    then have 1: "evolves s (fold forget_activity ?settled s)" by (rule evolves_fold_forget [OF ok])
    show "evolves s (fold remove_job (map fst (filter (\<lambda>(jid, job).
        job_eviction_timestamp jid job s < now - of_int (ttl_seconds s)) (jobs s)))
        (fold forget_activity ?settled s))"
      by (rule evolves_trans [OF 1 evolves_fold_remove [OF evolves_ok [OF 1]]])
  qed
qed

section \<open>The sections of the operations\<close>

lemma evolving_merge_some [evolve_intros]:
  assumes "advances old (merge_fields old upd)"
  shows "evolving (\<lambda>s. map_of (jobs s) j = Some old) (merge_some j old upd now)"
  unfolding merge_some_def
  by (rule evolving_andthen) (use assms in \<open>simp_all add: evolving_def evolves_store_merged return_def evolves_refl\<close>)

lemma payload_keeps_status: "payload_allowed upd \<Longrightarrow> advances old (merge_fields old upd)"
proof -
  assume "payload_allowed upd"
  then have "\<not> has_key k_status upd" by (simp add: payload_allowed_def lifecycle_keys_def)
  then show ?thesis by (simp add: advances_def status_of_def map_of_merge_skip)
qed

text \<open>A key that a payload sets once is what the merge stores.\<close>

definition sole :: "string \<Rightarrow> jobval \<Rightarrow> job \<Rightarrow> bool" where
  "sole k v upd \<longleftrightarrow> filter (\<lambda>p. fst p = k) upd = [(k, v)]"

lemma sole_update_same: "\<not> has_key k upd \<Longrightarrow> sole k v (AList.update k v upd)"
  by (induction upd) (auto simp: sole_def has_key_def)

lemma sole_update_other: "k' \<noteq> k \<Longrightarrow> sole k v (AList.update k' v' upd) = sole k v upd"
proof -
  assume "k' \<noteq> k"
  then have "filter (\<lambda>p. fst p = k) (AList.update k' v' upd) = filter (\<lambda>p. fst p = k) upd"
    by (induction upd) auto
  then show ?thesis by (simp add: sole_def)
qed

lemma map_of_merge:
  "map_of (merge_fields old upd) k = (case map_of (rev upd) k of None \<Rightarrow> map_of old k | Some v \<Rightarrow> Some v)"
proof (induction upd arbitrary: old)
  case (Cons p upd)
  then show ?case
    by (cases p) (auto simp: merge_fields_def dict_simps map_add_def split: option.splits)
qed (simp add: merge_fields_def)

lemma map_of_filter_key: "map_of (filter (\<lambda>p. fst p = k) d) k = map_of d k"
  by (induction d) auto

lemma merge_sole:
  assumes "sole k v upd"
  shows "map_of (merge_fields old upd) k = Some v"
proof -
  have "filter (\<lambda>p. fst p = k) (rev upd) = [(k, v)]" using assms by (simp add: sole_def flip: rev_filter)
  then have "map_of (rev upd) k = Some v" using map_of_filter_key [of k "rev upd"] by simp
  then show ?thesis by (simp add: map_of_merge)
qed

lemma opt_update_sole: "k' \<noteq> k \<Longrightarrow> sole k v (opt_update k' x upd) = sole k v upd"
  by (auto simp: opt_update_def sole_update_other split: option.splits)

lemma set_default_sole: "k' \<noteq> k \<Longrightarrow> sole k v (set_default k' x upd) = sole k v upd"
  by (auto simp: set_default_def sole_update_other)

lemma payload_status:
  assumes "payload_allowed upd"
  shows "sole k_status (VStr to) (terminal_payload upd to t msg el)"
    "sole k_status (VStr st_completed) (completion_payload upd t msg el)"
proof -
  have "\<not> has_key k_status upd" using assms by (simp add: payload_allowed_def lifecycle_keys_def)
  moreover have "k_ended_at \<noteq> k_status" "k_terminal_reason \<noteq> k_status" "k_completed_at \<noteq> k_status"
    "k_message \<noteq> k_status" "k_elapsed_seconds \<noteq> k_status" using key_neq by auto
  ultimately show "sole k_status (VStr to) (terminal_payload upd to t msg el)"
    "sole k_status (VStr st_completed) (completion_payload upd t msg el)"
    by (auto simp: terminal_payload_def completion_payload_def Let_def opt_update_sole set_default_sole
        sole_update_other sole_update_same)
qed

lemma merged_status:
  "sole k_status (VStr to) upd \<Longrightarrow> status_of (merge_fields old upd) = Some (VStr to)"
  by (simp add: status_of_def merge_sole)

lemma precedence_rank:
  "reason \<in> set terminal_reasons \<Longrightarrow> reason \<noteq> st_completed \<Longrightarrow>
    \<exists>n > 0. map_of terminal_reason_precedence reason = Some n"
  by (auto simp: terminal_reasons_def terminal_reason_precedence_def st_error_def)

lemma stage_terminal:
  "reason \<in> set terminal_reasons \<Longrightarrow> reason \<noteq> st_completed \<Longrightarrow> status_of job = Some (VStr reason) \<Longrightarrow>
    stage job = the (map_of terminal_reason_precedence reason) + 2"
  using precedence_rank [of reason] by (auto simp: stage_def)

lemma terminal_advances:
  assumes old: "valid_record old" and ok: "is_status expected old \<or> outranks to old"
    and to: "to \<in> set terminal_reasons" "expected = st_running \<or> expected = st_completed \<and> to = st_error"
    and new: "status_of new = Some (VStr to)"
  shows "advances old new"
proof -
  have pos: "to \<noteq> st_running" using to(1) status_neq by metis
  show ?thesis
  proof (cases "outranks to old")
    case True
    then obtain reason where r: "map_of old k_terminal_reason = Some (VStr reason)"
      "reason \<in> set terminal_reasons" "reason \<noteq> st_completed" "to \<noteq> st_completed"
      and gt: "the (map_of terminal_reason_precedence to) > the (map_of terminal_reason_precedence reason)"
      by (auto simp: outranks_def split: option.splits jobval.splits prod.splits)
    then have "has_key k_terminal_reason old" by (simp add: has_key_def)
    then have "status_of old = Some (VStr reason)"
      using old r(1) by (auto simp: valid_record_def split: if_splits)
    then show ?thesis
      using stage_terminal [OF r(2,3)] stage_terminal [OF to(1) r(4) new] gt by (simp add: advances_def)
  next
    case False
    then have "is_status expected old" using ok by simp
    then have st: "status_of old = Some (VStr expected)" by (simp add: is_status_def)
    have "0 < stage new" using pos new precedence_rank [OF to(1)] by (auto simp: stage_def)
    moreover have "1 < stage new" if "to = st_error" using new that stage_terminal [OF to(1)] by auto
    moreover have "stage old = (if expected = st_running then 0 else 1)" using st to(2) by (auto simp: stage_def)
    ultimately show ?thesis using to(2) by (auto simp: advances_def)
  qed
qed

section \<open>Draining\<close>

definition cleaned_for :: "artifact \<Rightarrow> store \<Rightarrow> (string \<times> handle) list" where
  "cleaned_for key s = filter (\<lambda>(_, h). artifact_lease_key h = key) (cleaned s)"

definition idle :: "store \<Rightarrow> bool" where
  "idle s \<longleftrightarrow> releases s = [] \<and> cleanups s = []"

text \<open>One whole operation that leaves the leases alone.\<close>

definition settles :: "store \<Rightarrow> store \<Rightarrow> bool" where
  "settles s s' \<longleftrightarrow>
     store_ok s' \<and> accounted s \<subseteq> accounted s' \<and> (idle s \<longrightarrow> idle s') \<and>
     jobs_advance s s' \<and>
     leases s' = leases s \<and>
     (\<forall>key. 0 < lease_count key s \<longrightarrow> cleaned_for key s' = cleaned_for key s)"

lemma settles_refl: "store_ok s \<Longrightarrow> settles s s"
  by (simp add: settles_def jobs_advance_same)

lemma settles_leased:
  "settles s s' \<Longrightarrow> 0 < lease_count key s \<Longrightarrow> cleaned_for key s' = cleaned_for key s"
  unfolding settles_def by blast

lemma settles_trans:
  assumes "settles a b" "settles b c"
  shows "settles a c"
proof -
  have "lease_count key b = lease_count key a" for key
    using assms(1) by (simp add: settles_def lease_count_def)
  then show ?thesis using assms jobs_advance_trans [of a b c] unfolding settles_def by auto
qed

lemma evolves_settles:
  "evolves s s' \<Longrightarrow> releases s' = releases s \<Longrightarrow> cleanups s' = cleanups s \<Longrightarrow> settles s s'"
  by (simp add: evolves_def settles_def idle_def cleaned_for_def)

lemma cleanup_keeps:
  "jobs (cleanup_artifact_handles j hs s) = jobs s \<and>
   running_activity (cleanup_artifact_handles j hs s) = running_activity s \<and>
   timers (cleanup_artifact_handles j hs s) = timers s \<and>
   leases (cleanup_artifact_handles j hs s) = leases s \<and>
   releases (cleanup_artifact_handles j hs s) = releases s \<and>
   released (cleanup_artifact_handles j hs s) = released s \<and>
   cleanups (cleanup_artifact_handles j hs s) = cleanups s"
  by (induction j hs s rule: cleanup_artifact_handles.induct) (auto simp: Let_def)

lemma cleanup_deferred:
  "deferred_ok (leases s) (deferred s) \<Longrightarrow>
    deferred_ok (leases s) (deferred (cleanup_artifact_handles j hs s))"
proof (induction j hs s rule: cleanup_artifact_handles.induct)
  case (2 job_id h hs s)
  let ?key = "artifact_lease_key h"
  have "0 < lease_count ?key s \<Longrightarrow> ?key \<in> set (keys (leases s))"
    by (auto simp: lease_count_def dest: map_of_SomeD_keys split: option.splits)
  moreover have "leases (if lease_count ?key s > 0 then s\<lparr>deferred := d\<rparr> else s\<lparr>cleaned := c\<rparr>) = leases s"
    for d c by simp
  ultimately show ?case using "2.IH" [OF refl] "2.prems"
    by (cases "lease_count ?key s > 0") (simp_all add: Let_def deferred_ok_add)
qed simp

lemma cleanup_leased:
  "0 < lease_count key s \<Longrightarrow> cleaned_for key (cleanup_artifact_handles j hs s) = cleaned_for key s"
proof (induction j hs s rule: cleanup_artifact_handles.induct)
  case (2 job_id h hs s)
  let ?s = "if lease_count (artifact_lease_key h) s > 0
    then s\<lparr>deferred := AList.update (artifact_lease_key h) (job_id, h) (deferred s)\<rparr>
    else s\<lparr>cleaned := cleaned s @ [(job_id, h)]\<rparr>"
  have "lease_count key ?s = lease_count key s" by (simp add: lease_count_def)
  moreover have "cleaned_for key ?s = cleaned_for key s" using 2(2) by (auto simp: cleaned_for_def)
  ultimately show ?case using 2 by (simp add: Let_def)
qed simp

lemma settles_cleanup:
  "store_ok s \<Longrightarrow> settles s (cleanup_artifact_handles j hs s)"
  using cleanup_keeps [of j hs s] cleanup_deferred [of s j hs] cleanup_leased [of _ s j hs]
  by (simp add: settles_def store_ok_def accounted_def held_resources_def idle_def jobs_advance_same)

lemma settles_run_cleanups: "store_ok s \<Longrightarrow> settles s (run_artifact_cleanups cs s)"
proof (induction cs s rule: run_artifact_cleanups.induct)
  case (2 job_id hs rest s)
  have 1: "settles s (cleanup_artifact_handles job_id hs s)" by (rule settles_cleanup [OF 2(2)])
  then have "store_ok (cleanup_artifact_handles job_id hs s)" by (simp add: settles_def)
  from settles_trans [OF 1 "2.IH" [OF this]] show ?case by simp
qed (simp add: settles_refl)

lemma run_cleanups_keep:
  "jobs (run_artifact_cleanups cs s) = jobs s \<and> releases (run_artifact_cleanups cs s) = releases s \<and>
   released (run_artifact_cleanups cs s) = released s \<and> cleanups (run_artifact_cleanups cs s) = cleanups s"
  by (induction cs s rule: run_artifact_cleanups.induct) (simp_all add: cleanup_keeps)

lemma settles_drain:
  assumes ok: "store_ok s"
  shows "settles s (drain s)" "idle (drain s)"
proof -
  let ?s0 = "s\<lparr>cleanups := [], releases := []\<rparr>"
  have 1: "store_ok ?s0" using ok by (simp add: store_ok_def)
  note run = settles_run_cleanups [OF 1, of "cleanups s"]
  let ?s1 = "run_artifact_cleanups (cleanups s) ?s0"
  note keep = run_cleanups_keep [of "cleanups s" ?s0]
  let ?s1 = "run_artifact_cleanups (cleanups s) ?s0"
  have drain: "drain s = ?s1\<lparr>released := released ?s1 @ releases s\<rparr>" by (simp add: drain_def Let_def)
  have "store_ok ?s1" using run by (simp only: settles_def)
  then have "store_ok (drain s)" by (simp add: drain store_ok_def)
  moreover have "accounted s \<subseteq> accounted (drain s)"
    using keep by (auto simp: accounted_def held_resources_def drain)
  moreover show "idle (drain s)" using keep by (simp add: idle_def drain)
  moreover have "jobs_advance s (drain s)" using keep by (intro jobs_advance_same) (simp add: drain)
  moreover have "leases (drain s) = leases s" using run by (simp add: settles_def drain)
  moreover have "cleaned_for key (drain s) = cleaned_for key s" if "0 < lease_count key s" for key
  proof -
    have "cleaned_for key ?s1 = cleaned_for key ?s0"
      by (rule settles_leased [OF run]) (use that in \<open>simp add: lease_count_def\<close>)
    then show ?thesis by (simp add: drain cleaned_for_def)
  qed
  ultimately show "settles s (drain s)" by (simp add: settles_def)
qed

lemma evolves_drained:
  assumes "evolves s t"
  shows "settles s (drain t)"
proof -
  note d = settles_drain [OF evolves_ok [OF assms]]
  have "lease_count key t = lease_count key s" "cleaned_for key t = cleaned_for key s" for key
    using assms by (simp_all add: evolves_def lease_count_def cleaned_for_def)
  then show ?thesis
    using d assms jobs_advance_trans [of s t "drain t"] by (auto simp: settles_def evolves_def)
qed

definition settling :: "'a action \<Rightarrow> bool" where
  "settling m \<longleftrightarrow> (\<forall>s. store_ok s \<longrightarrow> settles s (snd (m s)))"

named_theorems settle_intros \<open>whole operations that settle\<close>

lemma settling_locked [settle_intros]:
  assumes "evolving always body"
  shows "settling (write_locked body)"
proof -
  have "settles s (snd (write_locked body s))" if ok: "store_ok s" for s
  proof -
    have "evolves s (snd (body s))" using assms ok by (simp add: evolving_def)
    from evolves_drained [OF this] show ?thesis by (simp add: write_locked_def split_def Let_def)
  qed
  then show ?thesis by (simp add: settling_def)
qed

lemma settling_return [settle_intros]: "settling (return x)"
  by (simp add: settling_def return_def settles_refl)

lemma settling_throw [settle_intros]: "settling (throw e)"
  by (simp add: settling_def throw_def settles_refl)

lemma settling_require [settle_intros]: "(b \<Longrightarrow> settling (f ())) \<Longrightarrow> settling (andthen (require e b) f)"
  by (auto simp: settling_def andthen_def require_def settles_refl)

lemma settling_andthen [settle_intros]:
  assumes "settling m" "\<And>x. settling (f x)"
  shows "settling (andthen m f)"
  unfolding settling_def
proof (intro allI impI)
  fix s assume ok: "store_ok s"
  then have m: "settles s (snd (m s))" using assms(1) by (simp add: settling_def)
  show "settles s (snd (andthen m f s))"
  proof (cases "m s")
    case (Pair r t)
    then have t: "settles s t" using m by simp
    then have "store_ok t" by (simp add: settles_def)
    then have "settles t (snd (f x t))" for x using assms(2) by (simp add: settling_def)
    then show ?thesis using Pair t settles_trans by (auto simp: andthen_def split: sum.splits)
  qed
qed

lemma settling_schedule [settle_intros]: "settling (schedule_if_needed j sched e)"
proof -
  have "settles s (snd (schedule_heavy_object_cleanup j t s))" if ok: "store_ok s" for s t
  proof -
    have bump: "store_ok (s\<lparr>next_timer := n\<rparr>)" "settles s (s\<lparr>next_timer := n\<rparr>)" for n
      using ok by (auto simp: store_ok_def settles_def accounted_def held_resources_def idle_def
          cleaned_for_def jobs_advance_same)
    have cancel: "settles s (cancel_timer j (s\<lparr>next_timer := n\<rparr>))" for n
      by (rule settles_trans [OF bump(2) [of n]], rule evolves_settles)
        (use evolves_cancel [OF bump(1)] in simp_all)
    have arm: "settles s ((cancel_timer j (s\<lparr>next_timer := n\<rparr>))\<lparr>timers := AList.update j t' tm, armed := a\<rparr>)"
      if "map_of (jobs s) j = Some job" "is_status st_completed job" "has_heavy job"
        "set (keys tm) = set (keys (timers s)) - {j}" for n t' tm a job
      using cancel [of n] that
      by (auto simp: settles_def store_ok_def accounted_def held_resources_def idle_def cleaned_for_def
          dict_simps jobs_advance_def)
    show ?thesis
      using bump(2) cancel arm
      by (auto simp: schedule_heavy_object_cleanup_def Let_def split: option.splits)
  qed
  then show ?thesis
    by (auto simp: settling_def schedule_if_needed_def settles_refl split: option.splits)
qed

section \<open>Every operation settles\<close>

lemma evolving_read [evolve_intros]: "evolving P (\<lambda>s. (r s, s))"
  by (simp add: evolving_def evolves_refl)

lemma evolving_value: "(\<And>x. r = Inr x \<Longrightarrow> evolving P (f x)) \<Longrightarrow> evolving P (andthen (\<lambda>s. (r, s)) f)"
  by (cases r) (simp_all add: evolving_def andthen_def evolves_refl)

lemma evolves_put_same:
  assumes ok: "store_ok s" and old: "map_of (jobs s) j = Some old" and new: "valid_record new"
    and st: "map_of new k_status = map_of old k_status"
    and heavy: "\<And>k. k \<in> set heavy_object_keys \<Longrightarrow> map_of new k = map_of old k"
  shows "evolves s (put_job j new s)"
proof -
  note same = status_cong [OF st]
  note h = heavy_lookup_cong [OF heavy]
  show ?thesis
    by (rule evolves_put [OF ok old new])
      (use store_okD [OF ok old] same h in \<open>auto simp: advances_def doomed_def\<close>)
qed

lemma valid_update_other:
  assumes "k \<notin> {k_status, k_terminal_reason, k_created_at, k_ended_at, k_completed_at, k_message}"
  shows "valid_record (AList.update k v job) = valid_record job"
proof -
  have "map_of (AList.update k v job) x = map_of job x"
    if "x \<in> {k_status, k_terminal_reason, k_created_at, k_ended_at, k_completed_at, k_message}" for x
    using assms that by (auto simp: dict_simps)
  then show ?thesis
    by (simp add: valid_record_def status_of_def is_status_def timestamp_at_def has_key_map)
qed

lemma evolves_expiry:
  assumes "store_ok s" "map_of (jobs s) j = Some job" "valid_record (AList.update k_expires_at v job)"
  shows "evolves s (put_job j (AList.update k_expires_at v job) s)"
  by (rule evolves_put_same [OF assms]) (use key_neq heavy_fresh in \<open>auto simp: dict_simps\<close>)

lemma evolving_touch: "evolving always (touch_section j required t1 now)"
  unfolding touch_section_def
proof (rule evolving_andthen [OF evolving_evict])
  show "evolving always (\<lambda>s.
       case map_of (jobs s) j of
         None \<Rightarrow> (Inr (False, False, None), s)
       | Some job \<Rightarrow>
           if \<not> is_status st_completed job \<or> \<not> all_present required job
           then (Inr (False, False, None), s)
           else let refreshed = min (now + of_int (heavy_ttl_seconds s))
                      (created_time job + of_int (ttl_seconds s))
             in case heavy_objects_expires_at (heavy_ttl_seconds s) job of
                  None \<Rightarrow> (Inl Invalid_number, s)
                | Some current \<Rightarrow>
                    if refreshed > current then
                      let updated = AList.update k_expires_at (VFloat (Fin refreshed)) job
                      in if \<not> valid_record updated then (Inl Invalid_record, s)
                         else (Inr (True, True, Some (VFloat (Fin refreshed))), put_job j updated s)
                    else (Inr (True, False, None), s))" for x :: unit
    by (auto simp: evolving_def evolves_refl evolves_expiry Let_def split: option.splits)
qed

lemma settling_touch [settle_intros]: "settling (touch_heavy_objects j required t1 now)"
  unfolding touch_heavy_objects_def
  by (rule settling_andthen [OF settling_locked [OF evolving_touch]]) (auto intro!: settle_intros)

lemma settling_finish [settle_intros]: "evolving always body \<Longrightarrow> settling (finish_update j body)"
  unfolding finish_update_def
  by (rule settling_andthen [OF settling_locked]) (auto intro!: settle_intros split: option.splits)

lemma evolving_update_section:
  assumes "payload_allowed upd"
  shows "evolving always (update_section j upd required expected now)"
  unfolding update_section_def by (intro evolving_lookup evolving_require evolving_if evolving_merge_some evolving_return
      payload_keeps_status [OF assms])

lemma settling_update [settle_intros]:
  "settling (atomic_update_if_heavy_present j upd required expected now)"
  unfolding atomic_update_if_heavy_present_def
  by (auto intro!: settling_require settling_finish evolving_update_section)

lemma evolving_transition:
  assumes "payload_allowed upd" "to \<in> set terminal_reasons"
    "expected = st_running \<or> expected = st_completed \<and> to = st_error"
  shows "evolving always (transition_section j to (terminal_payload upd to t msg el) expected t')"
  unfolding transition_section_def
proof (intro evolving_lookup evolving_require evolving_if evolving_merge_some evolving_return)
  fix old assume "valid_record old" "is_status expected old \<or> outranks to old"
  then show "advances old (merge_fields old (terminal_payload upd to t msg el))"
    using assms merged_status [OF payload_status(1) [OF assms(1)]] by (intro terminal_advances)
qed

lemma settling_option:
  "(\<And>x. settling (f x)) \<Longrightarrow> settling (case v of None \<Rightarrow> throw e | Some x \<Rightarrow> f x)"
  by (cases v) (simp_all add: settling_throw)

lemma settling_transition [settle_intros]: "settling (transition_terminal j to msg upd expected el now clock)"
  unfolding transition_terminal_def
  by (intro settling_require settling_option settling_finish evolving_transition) auto

lemma evolving_publish:
  "evolving always (publish_section j (\<lambda>s. (r, s)) msg el now clock)"
  unfolding publish_section_def
proof (intro evolving_lookup evolving_require evolving_if)
  fix old assume old: "valid_record old" "\<not> \<not> is_status st_running old"
  have adv: "advances old (merge_fields old (completion_payload upd t msg el))" if "payload_allowed upd" for upd t
    by (rule terminal_advances [where expected = st_running])
      (use old merged_status [OF payload_status(2) [OF that]] in \<open>auto simp: terminal_reasons_def\<close>)
  show "evolving (\<lambda>s. map_of (jobs s) j = Some old)
     (andthen (\<lambda>s. (r, s)) (\<lambda>(upd, replaced).
        andthen (require Publisher_replaced_record (\<not> replaced)) (\<lambda>_.
          andthen (require Forbidden_lifecycle_fields (payload_allowed upd)) (\<lambda>_.
            case validate_timestamp (case now of None \<Rightarrow> VFloat (Fin clock) | Some v \<Rightarrow> v) of
              None \<Rightarrow> throw Invalid_timestamp
            | Some t \<Rightarrow> merge_some j old (completion_payload upd t msg el) t))))"
    using adv
    by (intro evolving_value) (auto intro!: evolving_require evolving_throw evolving_merge_some split: option.splits)
qed (rule evolving_return)

lemma settling_publish [settle_intros]:
  "settling (compare_and_publish_completion j (\<lambda>s. (r, s)) msg el now clock)"
  unfolding compare_and_publish_completion_def by (intro settling_require settling_finish evolving_publish)

lemma settling_get [settle_intros]: "settling (get_job j now)"
  unfolding get_job_def
  by (rule settling_andthen [OF settling_locked])
    (auto intro!: evolve_intros settle_intros split: option.splits)

lemma settling_list [settle_intros]: "settling (list_jobs now)"
  unfolding list_jobs_def by (intro settling_locked evolving_andthen evolving_evict evolving_read)

lemma settling_matching [settle_intros]: "settling (has_job_matching test now)"
  unfolding has_job_matching_def by (intro settling_locked evolving_andthen evolving_evict evolving_read)

lemma settling_delete [settle_intros]: "settling (delete_job j)"
  unfolding delete_job_def
  by (intro settling_locked) (simp add: evolving_def modify_def evolves_remove)

lemma settling_sweep [settle_intros]: "settling (sweep_heavy_objects now)"
  unfolding sweep_heavy_objects_def by (intro settling_locked evolving_clear_expired)

lemma settling_release [settle_intros]: "settling (release_detached_artifact_handles j hs)"
  by (simp add: release_detached_artifact_handles_def settling_def modify_def settles_cleanup)

lemma evolves_view:
  assumes "evolves s t" "jobs t' = jobs t" "leases t' = leases t" "deferred t' = deferred t"
    "cleaned t' = cleaned t" "releases t' = releases t" "released t' = released t"
    "ttl_seconds t' = ttl_seconds t" "set (keys (timers t')) \<subseteq> set (keys (timers t))"
    "set (keys (running_activity t')) = set (keys (running_activity t))"
  shows "evolves s t'"
proof -
  have "store_ok t'" using evolves_ok [OF assms(1)] assms(2-) unfolding store_ok_def by auto
  moreover have "accounted t' = accounted t" using assms by (simp add: accounted_def held_resources_def)
  moreover have "jobs_advance s t'" using assms(1,2) by (simp add: evolves_def jobs_advance_def)
  ultimately show ?thesis using assms by (simp add: evolves_def)
qed

lemma evolving_detach_handle:
  "evolving always (\<lambda>s.
     case map_of (jobs s) j of
       None \<Rightarrow> (Inr False, s)
     | Some old \<Rightarrow>
         (case map_of (handles_of old) key of
            None \<Rightarrow> (Inr False, s)
          | Some h \<Rightarrow>
              let s1 = put_job j
                (AList.update k_artifact_handles (VHandles (AList.delete key (handles_of old))) old) s
              in (Inr True, s1\<lparr>cleanups := cleanups s1 @ [(j, [h])]\<rparr>)))"
proof -
  have put: "evolves s (put_job j (AList.update k_artifact_handles v old) s)"
    if "store_ok s" "map_of (jobs s) j = Some old" for s old v
  proof (rule evolves_put_same [OF that])
    show "valid_record (AList.update k_artifact_handles v old)"
      using store_okD(1) [OF that] key_neq by (subst valid_update_other) auto
  qed (use key_neq heavy_fresh in \<open>auto simp: dict_simps\<close>)
  have "evolves s (t\<lparr>cleanups := c\<rparr>)" if "evolves s t" for s t c
    by (rule evolves_view [OF that]) simp_all
  then show ?thesis
    using put by (auto simp: evolving_def evolves_refl Let_def split: option.splits)
qed

lemma settling_detach_handle [settle_intros]: "settling (detach_artifact_handle j key)"
  unfolding detach_artifact_handle_def by (rule settling_locked [OF evolving_detach_handle])

lemma evolving_clear_section: "evolving always (clear_section j ks)"
  unfolding evolving_def
proof (intro allI impI)
  fix s assume ok: "store_ok s"
  show "evolves s (snd (clear_section j ks s))"
  proof (cases "map_of (jobs s) j")
    case None
    then show ?thesis by (simp add: clear_section_def evolves_refl ok)
  next
    case (Some job)
    let ?s1 = "detach_heavy_values job (filter (\<lambda>k. k \<in> set heavy_object_keys) ks) s"
    let ?slim = "drop_keys ks job"
    let ?new = "if has_heavy ?slim then ?slim else AList.delete k_expires_at ?slim"
    let ?s2 = "if has_heavy ?slim then ?s1 else cancel_timer j ?s1"
    have 1: "evolves s ?s1" by (rule evolves_detach [OF ok])
    have 2: "evolves s ?s2" using 1 evolves_trans [OF 1 evolves_cancel [OF evolves_ok [OF 1]]] by simp
    have heavy: "map_of ?new k = map_of ?slim k" if "k \<in> set heavy_object_keys" for k
      using that heavy_fresh by (auto simp: dict_simps)
    have h: "resource_values ?new = resource_values ?slim" "has_heavy ?new = has_heavy ?slim"
      by (rule heavy_lookup_cong, rule heavy, assumption)+
    have "evolves ?s2 (put_job j ?new ?s2)" if valid: "valid_record ?new"
    proof -
      have "k_status \<notin> set ks"
        using valid_status [OF valid] key_neq
        by (auto simp: status_of_def record_lookups split: if_splits)
      then have st: "map_of ?new k_status = map_of job k_status"
        using key_neq by (auto simp: record_lookups)
      note same = status_cong [OF st]
      have old2: "map_of (jobs ?s2) j = Some job" using Some by simp
      have res: "resource_values job \<subseteq> resource_values ?new \<union> set (releases ?s2)"
      proof
        fix v assume v: "v \<in> resource_values job"
        then obtain k where k: "k \<in> set heavy_object_keys" "map_of job k = Some v" "owns_resource v"
          by (auto simp: resource_values_def)
        show "v \<in> resource_values ?new \<union> set (releases ?s2)"
        proof (cases "k \<in> set ks")
          case True
          then have "v \<in> set (releases ?s1)" using k by (intro in_detached) auto
          then show ?thesis by simp
        next
          case False
          then have "v \<in> resource_values ?slim" using k by (auto simp: resource_values_def map_of_drop_keys)
          then show ?thesis using h(1) by simp
        qed
      qed
      have "resource_values ?slim \<subseteq> resource_values job"
        by (auto simp: resource_values_def map_of_drop_keys split: if_splits)
      then have sub: "resource_values ?new \<subseteq> resource_values job" using h(1) by simp
      show ?thesis
      proof (rule evolves_put [OF evolves_ok [OF 2] old2 valid _ _ res])
        show "doomed ?new \<Longrightarrow> resource_values ?new = {}"
          using sub store_okD(2) [OF ok Some] same by (auto simp: doomed_def)
        show "advances job ?new" using same by (simp add: advances_def)
        show "set (keys (running_activity (put_job j ?new ?s2))) =
            (if is_status st_running ?new then insert j (set (keys (running_activity ?s2)))
             else set (keys (running_activity ?s2)) - {j})"
          using store_okD(3) [OF ok Some] same by auto
        show "set (keys (timers (put_job j ?new ?s2))) \<subseteq>
            (if is_status st_completed ?new \<and> has_heavy ?new then insert j (set (keys (timers ?s2)))
             else set (keys (timers ?s2)) - {j})"
          using store_okD(4) [OF ok Some] same h(2) by auto
      qed (simp_all)
    qed
    then show ?thesis
      using Some 1 2 evolves_trans [OF 2] store_okD(1) [OF ok Some]
      by (simp add: clear_section_def Let_def evolves_refl)
  qed
qed

lemma settling_clear_result [settle_intros]: "settling (clear_result_data j ks)"
  unfolding clear_result_data_def by (rule settling_locked [OF evolving_clear_section])

lemma evolves_fold_cancel: "store_ok s \<Longrightarrow> evolves s (fold cancel_timer js s)"
proof (induction js arbitrary: s)
  case (Cons j js)
  then show ?case using evolves_cancel [of s j] evolves_trans evolves_ok by fastforce
qed (simp add: evolves_refl)

lemma jobs_fold_remove: "set (keys (jobs (fold remove_job js s))) = set (keys (jobs s)) - set js"
  by (induction js arbitrary: s) (auto simp: remove_selects dict_simps)

lemma jobs_fold_cancel: "jobs (fold cancel_timer js s) = jobs s"
  by (induction js arbitrary: s) simp_all

lemma settling_clear_all [settle_intros]: "settling clear_all"
  unfolding clear_all_def
proof (rule settling_locked)
  have "evolves s (t2\<lparr>running_activity := []\<rparr>)"
    if ok: "store_ok s" and t1: "t1 = fold remove_job (keys (jobs s)) s"
      and t2: "t2 = fold cancel_timer (keys (timers t1)) t1" for s t1 t2
  proof -
    have 1: "evolves s t1" unfolding t1 by (rule evolves_fold_remove [OF ok])
    have 2: "evolves s t2" unfolding t2 by (rule evolves_trans [OF 1 evolves_fold_cancel [OF evolves_ok [OF 1]]])
    have "set (keys (jobs t2)) = {}" unfolding t2 jobs_fold_cancel t1 by (simp add: jobs_fold_remove)
    then have "map_of (jobs t2) j = None" for j by (cases "jobs t2") auto
    then have "set (keys (running_activity t2)) = {}" using evolves_ok [OF 2] by (auto simp: store_ok_def)
    then show ?thesis by (intro evolves_view [OF 2]) simp_all
  qed
  then show "evolving always (modify (\<lambda>s.
     let s1 = fold remove_job (keys (jobs s)) s;
         s2 = fold cancel_timer (keys (timers s1)) s1
     in s2\<lparr>running_activity := []\<rparr>))"
    by (simp add: evolving_def modify_def Let_def)
qed

lemma settling_timer [settle_intros]: "settling (timer_due j t now)"
  unfolding timer_due_def
proof (rule settling_locked)
  have arm: "evolves s (s\<lparr>armed := a\<rparr>)" if "store_ok s" for s a
    using that by (simp add: evolves_def store_ok_def accounted_def held_resources_def jobs_advance_same)
  have drop: "evolves s (s\<lparr>timers := AList.delete j (timers s)\<rparr>)" if "store_ok s" for s
    using that
    by (auto simp: evolves_def store_ok_def accounted_def held_resources_def jobs_advance_same dict_simps)
  show "evolving always (\<lambda>s.
       let s = s\<lparr>armed := removeAll t (armed s)\<rparr>;
           job = map_of (jobs s) j;
           s1 = (if map_of (timers s) j = Some t then s\<lparr>timers := AList.delete j (timers s)\<rparr> else s)
       in case job of
            None \<Rightarrow> (Inr (), s1)
          | Some job \<Rightarrow>
              if \<not> valid_record job then (Inl Invalid_record, s)
              else if \<not> is_status st_completed job then (Inr (), s1)
              else case heavy_objects_expires_at (heavy_ttl_seconds s1) job of
                     None \<Rightarrow> (Inl Invalid_number, s1)
                   | Some e \<Rightarrow> if e \<le> now \<and> has_heavy job then clear_heavy_objects j job now s1
                             else (Inr (), s1))"
    unfolding evolving_def
  proof (intro allI impI)
    fix s assume ok: "store_ok s"
    define a where "a = s\<lparr>armed := removeAll t (armed s)\<rparr>"
    define b where "b = (if map_of (timers a) j = Some t then a\<lparr>timers := AList.delete j (timers a)\<rparr> else a)"
    have a: "evolves s a" unfolding a_def by (rule arm [OF ok])
    have b: "evolves s b"
      using a evolves_trans [OF a drop [OF evolves_ok [OF a]]] by (simp add: b_def)
    have "evolves s (snd (clear_heavy_objects j job now b))"
      if "map_of (jobs a) j = Some job" "is_status st_completed job" for job
      by (rule evolves_trans [OF b evolves_clear_heavy [OF evolves_ok [OF b]]])
        (use that in \<open>simp_all add: b_def\<close>)
    then show "evolves s (snd (let s = s\<lparr>armed := removeAll t (armed s)\<rparr>;
           job = map_of (jobs s) j;
           s1 = (if map_of (timers s) j = Some t then s\<lparr>timers := AList.delete j (timers s)\<rparr> else s)
       in case job of
            None \<Rightarrow> (Inr (), s1)
          | Some job \<Rightarrow>
              if \<not> valid_record job then (Inl Invalid_record, s)
              else if \<not> is_status st_completed job then (Inr (), s1)
              else case heavy_objects_expires_at (heavy_ttl_seconds s1) job of
                     None \<Rightarrow> (Inl Invalid_number, s1)
                   | Some e \<Rightarrow> if e \<le> now \<and> has_heavy job then clear_heavy_objects j job now s1
                             else (Inr (), s1)))"
      unfolding Let_def a_def [symmetric] b_def [symmetric]
      using a b by (auto split: option.splits)
  qed
qed

section \<open>The store as a system of operations\<close>

text \<open>
  The operations threads interleave. A completion publisher is one that leaves the store alone;
  a new job's id is one not in use, which is what \<open>uuid4\<close> promises.
\<close>

datatype store_op =
    Op_create string job time time
  | Op_get string time
  | Op_list time
  | Op_update string job "string list" "string option" time
  | Op_transition string string "string option" job string "jobval option" "jobval option" time
  | Op_publish string "store_error + job \<times> bool" "string option" "jobval option" "jobval option" time
  | Op_touch string "string list" time time
  | Op_schedule string bool "jobval option"
  | Op_timer string nat time
  | Op_sweep time
  | Op_detach string string
  | Op_release string "handle list"
  | Op_lease_begin string string time
  | Op_lease_end artifact
  | Op_delete string
  | Op_matching "job \<Rightarrow> bool" time
  | Op_clear_result string "string list"
  | Op_clear_all

fun store_step :: "store_op \<Rightarrow> store \<Rightarrow> store" where
  "store_step (Op_create j job t1 now) s =
     (if has_key j (jobs s) then s else snd (create_job j job t1 now s))"
| "store_step (Op_get j now) s = snd (get_job j now s)"
| "store_step (Op_list now) s = snd (list_jobs now s)"
| "store_step (Op_update j upd required expected now) s =
     snd (atomic_update_if_heavy_present j upd required expected now s)"
| "store_step (Op_transition j to msg upd expected el now clock) s =
     snd (transition_terminal j to msg upd expected el now clock s)"
| "store_step (Op_publish j r msg el now clock) s =
     snd (compare_and_publish_completion j (\<lambda>s. (r, s)) msg el now clock s)"
| "store_step (Op_touch j required t1 now) s = snd (touch_heavy_objects j required t1 now s)"
| "store_step (Op_schedule j sched e) s = snd (schedule_if_needed j sched e s)"
| "store_step (Op_timer j t now) s = snd (timer_due j t now s)"
| "store_step (Op_sweep now) s = snd (sweep_heavy_objects now s)"
| "store_step (Op_detach j key) s = snd (detach_artifact_handle j key s)"
| "store_step (Op_release j hs) s = snd (release_detached_artifact_handles j hs s)"
| "store_step (Op_lease_begin j key now) s = snd (lease_begin j key now s)"
| "store_step (Op_lease_end key) s = snd (lease_end key s)"
| "store_step (Op_delete j) s = snd (delete_job j s)"
| "store_step (Op_matching test now) s = snd (has_job_matching test now s)"
| "store_step (Op_clear_result j ks) s = snd (clear_result_data j ks s)"
| "store_step Op_clear_all s = snd (clear_all s)"

fun creates :: "string \<Rightarrow> store_op \<Rightarrow> bool" where
  "creates j (Op_create k _ _ _) = (k = j)"
| "creates j _ = False"

text \<open>What any operation may do to the whole store.\<close>

definition moves :: "string set \<Rightarrow> store \<Rightarrow> store \<Rightarrow> bool" where
  "moves new s s' \<longleftrightarrow>
     store_ok s' \<and> accounted s \<subseteq> accounted s' \<and> (idle s \<longrightarrow> idle s') \<and>
     (\<forall>j job'. map_of (jobs s') j = Some job' \<longrightarrow>
        (case map_of (jobs s) j of Some job \<Rightarrow> advances job job' | None \<Rightarrow> j \<in> new \<and> is_status st_running job')) \<and>
     (\<forall>key. 0 < lease_count key s \<longrightarrow> 0 < lease_count key s' \<longrightarrow> cleaned_for key s' = cleaned_for key s)"

lemma settles_moves: "settles s s' \<Longrightarrow> moves new s s'"
  by (fastforce simp: settles_def moves_def jobs_advance_def)

lemma settling_moves: "settling m \<Longrightarrow> store_ok s \<Longrightarrow> moves new s (snd (m s))"
  by (simp add: settling_def settles_moves)

lemma store_ok_new_job:
  assumes ok: "store_ok s" and fresh: "map_of (jobs s) j = None"
    and job: "valid_record job" "is_status st_running job"
  shows "store_ok (record_running_activity j job now (put_job j job s))"
proof -
  let ?t = "record_running_activity j job now (put_job j job s)"
  have j: "j \<notin> set (keys (timers s))" "j \<notin> set (keys (running_activity s))"
    using ok fresh by (auto simp: store_ok_def)
  have look: "map_of (jobs ?t) k = (if k = j then Some job else map_of (jobs s) k)" for k
    by (simp add: dict_simps)
  have act: "set (keys (running_activity ?t)) = insert j (set (keys (running_activity s)))"
    using job(2) by simp
  show ?thesis
    unfolding store_ok_def look act
    using ok j job fresh by (auto simp: store_ok_def doomed_def)
qed

lemma moves_create:
  assumes ok: "store_ok s" and fresh: "\<not> has_key j (jobs s)"
  shows "moves {j} s (snd (create_job j job t1 now s))"
proof -
  have inside: "moves {j} s (drain (snd (create_section j job t1 now s)))" if running: "is_status st_running job"
  proof -
    obtain r t where ev: "evict_stale t1 s = (r, t)" by fastforce
    have 1: "evolves s t" using evolving_evict [of always t1] ok ev by (simp add: evolving_def) (metis snd_conv)
    have fresh1: "map_of (jobs t) j = None"
      using 1 fresh by (cases "map_of (jobs t) j") (fastforce simp: evolves_def jobs_advance_def has_key_def)+
    let ?job = "set_default k_created_at (VFloat (Fin now)) job"
    have run: "is_status st_running ?job"
      using running key_neq by (simp add: is_status_def status_of_def map_of_set_default)
    let ?u = "record_running_activity j ?job now (put_job j ?job t)"
    have new: "moves {j} s (drain ?u)" if valid: "valid_record ?job"
    proof -
      have ok_u: "store_ok ?u" by (rule store_ok_new_job [OF evolves_ok [OF 1] fresh1 valid run])
      note d = settles_drain [OF ok_u]
      have drained: "jobs (drain ?u) = jobs ?u"
        using run_cleanups_keep by (simp add: drain_def Let_def)
      have "held_resources t \<subseteq> held_resources ?u"
      proof
        fix v assume "v \<in> held_resources t"
        then obtain k a where "map_of (jobs t) k = Some a" "v \<in> resource_values a"
          by (auto simp: held_resources_def)
        moreover from this have "map_of (jobs ?u) k = Some a" using fresh1 by (auto simp: dict_simps)
        ultimately show "v \<in> held_resources ?u" unfolding held_resources_def by blast
      qed
      then have "accounted t \<subseteq> accounted ?u" by (auto simp: accounted_def)
      then have "accounted s \<subseteq> accounted (drain ?u)" using 1 d(1) by (auto simp: evolves_def settles_def)
      moreover have "cleaned_for key (drain ?u) = cleaned_for key s" if "0 < lease_count key s" for key
        using 1 that settles_leased [OF d(1), of key]
        by (simp add: evolves_def cleaned_for_def lease_count_def)
      moreover have "case map_of (jobs s) k of Some a \<Rightarrow> advances a b | None \<Rightarrow> k \<in> {j} \<and> is_status st_running b"
        if "map_of (jobs (drain ?u)) k = Some b" for k b
      proof (cases "k = j")
        case True
        then have "b = ?job" using that by (simp add: drained dict_simps)
        then show ?thesis using True fresh run by (simp add: has_key_def)
      next
        case False
        then have "map_of (jobs t) k = Some b" using that by (simp add: drained dict_simps)
        then show ?thesis using 1 by (fastforce simp: evolves_def jobs_advance_def)
      qed
      ultimately show ?thesis using d by (simp add: moves_def settles_def)
    qed
    have "moves {j} s (drain t)" by (rule settles_moves [OF evolves_drained [OF 1]])
    then show ?thesis
      using new by (cases r) (auto simp: create_section_def andthen_def ev Let_def)
  qed
  have "moves {j} s s" by (rule settles_moves [OF settles_refl [OF ok]])
  then show ?thesis
    using inside
    by (auto simp: create_job_def andthen_def require_def write_locked_def split_def Let_def)
qed

lemma moves_lease_begin:
  assumes ok: "store_ok s"
  shows "moves {} s (snd (lease_begin j key now s))"
proof -
  obtain r t where ev: "evict_stale now s = (r, t)" by fastforce
  have 1: "evolves s t" using evolving_evict [of always now] ok ev by (simp add: evolving_def) (metis snd_conv)
  have counted: "moves {} s (drain (t\<lparr>leases := AList.update k (lease_count k t + 1) (leases t)\<rparr>))" for k
  proof -
    let ?u = "t\<lparr>leases := AList.update k (lease_count k t + 1) (leases t)\<rparr>"
    have ok_u: "store_ok ?u" using evolves_ok [OF 1] by (auto simp: store_ok_def dict_simps deferred_ok_more)
    note d = settles_drain [OF ok_u]
    have "accounted ?u = accounted t" by (simp add: accounted_def held_resources_def)
    moreover have "jobs_advance s (drain ?u)"
      using 1 d(1) jobs_advance_trans [of s ?u "drain ?u"] by (simp add: evolves_def settles_def jobs_advance_def)
    moreover have "cleaned_for key (drain ?u) = cleaned_for key s" if "0 < lease_count key s" for key
    proof -
      have "0 < lease_count key ?u"
        using that 1 by (auto simp: lease_count_def dict_simps evolves_def)
      from settles_leased [OF d(1) this] show ?thesis using 1 by (simp add: cleaned_for_def evolves_def)
    qed
    ultimately show ?thesis
      using d 1 by (fastforce simp: moves_def settles_def evolves_def jobs_advance_def)
  qed
  have "moves {} s (drain t)" by (rule settles_moves [OF evolves_drained [OF 1]])
  then show ?thesis
    using counted
    by (cases r) (auto simp: lease_begin_def write_locked_def andthen_def ev Let_def split: option.splits)
qed

lemma moves_lease_end:
  assumes ok: "store_ok s"
  shows "moves {} s (snd (lease_end key s))"
proof (cases "map_of (leases s) key")
  case None
  then show ?thesis
    using settles_moves [OF settles_refl [OF ok]] by (simp add: lease_end_def)
next
  case (Some n)
  let ?less = "s\<lparr>leases := AList.update key (n - 1) (leases s)\<rparr>"
  let ?last = "s\<lparr>leases := AList.delete key (leases s), deferred := AList.delete key (deferred s)\<rparr>"
  have key: "key \<in> set (keys (leases s))" using Some by (rule map_of_SomeD_keys)
  have view: "moves {} s t" if "store_ok t" "jobs t = jobs s" "releases t = releases s"
      "released t = released s" "cleanups t = cleanups s"
      "\<forall>k. 0 < lease_count k s \<longrightarrow> 0 < lease_count k t \<longrightarrow> cleaned_for k t = cleaned_for k s" for t
    using that by (auto simp: moves_def accounted_def held_resources_def idle_def split: option.splits)
  have "moves {} s ?less" if "0 < n - 1"
    by (rule view) (use ok key that in \<open>auto simp: store_ok_def dict_simps cleaned_for_def deferred_ok_more\<close>)
  moreover have "moves {} s (?last\<lparr>cleaned := cleaned s @ c\<rparr>)"
    if "\<forall>(_, h) \<in> set c. artifact_lease_key h = key" for c
  proof (rule view)
    show "store_ok (?last\<lparr>cleaned := cleaned s @ c\<rparr>)"
      using ok by (auto simp: store_ok_def dict_simps deferred_ok_delete split: if_splits)
    show "\<forall>k. 0 < lease_count k s \<longrightarrow> 0 < lease_count k (?last\<lparr>cleaned := cleaned s @ c\<rparr>) \<longrightarrow>
        cleaned_for k (?last\<lparr>cleaned := cleaned s @ c\<rparr>) = cleaned_for k s"
    proof (intro allI impI)
      fix k assume "0 < lease_count k (?last\<lparr>cleaned := cleaned s @ c\<rparr>)"
      then have "k \<noteq> key" by (auto simp: lease_count_def dict_simps)
      then have "filter (\<lambda>(_, h). artifact_lease_key h = k) c = []"
        using that by (auto simp: filter_empty_conv)
      then show "cleaned_for k (?last\<lparr>cleaned := cleaned s @ c\<rparr>) = cleaned_for k s"
        by (simp add: cleaned_for_def)
    qed
  qed simp_all
  note last = this [of "[]"] this [of "[_]"]
  moreover have "artifact_lease_key h = key" if "map_of (deferred s) key = Some (j, h)" for j h
    using ok by (intro deferred_ok_key [where held = "leases s", OF _ that]) (simp add: store_ok_def)
  ultimately show ?thesis
    using Some by (auto simp: lease_end_def Let_def split: option.splits)
qed

lemma step_moves: "store_ok s \<Longrightarrow> moves {j. creates j p} s (store_step p s)"
proof (cases p)
  case (Op_create j job t1 now)
  then show "store_ok s \<Longrightarrow> moves {j. creates j p} s (store_step p s)"
    using moves_create settles_moves [OF settles_refl] by simp
qed (simp_all add: settling_moves settle_intros moves_lease_begin moves_lease_end)

interpretation job_store: invariant_system store_ok store_step
  by unfold_locales (use step_moves in \<open>auto simp: moves_def\<close>)

interpretation idle_store: invariant_system "\<lambda>s. store_ok s \<and> idle s" store_step
  by unfold_locales (use step_moves in \<open>auto simp: moves_def\<close>)

lemma new_store_ok: "new_store ttl heavy_ttl = Inr s \<Longrightarrow> store_ok s \<and> idle s"
  by (auto simp: new_store_def store_ok_def idle_def deferred_ok_def split: if_splits)

section \<open>Properties\<close>

text \<open>
  C8: Whatever operations run on a fresh store, in whatever order and at whatever clock readings,
  every stored record is valid, a job that failed or was stopped holds no resource, exactly the
  running jobs have an activity time, a clean-up timer belongs to a completed job that still has
  heavy values, leases are counted positively and only leased artifacts await cleaning.
\<close>

theorem job_store_reachable_ok:
  assumes "new_store ttl heavy_ttl = Inr s"
  shows "store_ok (fold store_step ops s) \<and> idle (fold store_step ops s)"
  by (rule idle_store.run_inv) (rule new_store_ok [OF assms])

definition sample_store :: store where
  "sample_store = \<lparr>jobs = [], running_activity = [], ttl_seconds = 60, heavy_ttl_seconds = 10,
     timers = [], armed = [], next_timer = 0, leases = [], deferred = [], cleanups = [],
     releases = [], cleaned = [], released = []\<rparr>"

lemma sample_store_new: "new_store 60 10 = Inr sample_store"
  by (simp add: new_store_def sample_store_def)

definition sample_ops :: "store_op list" where
  "sample_ops =
     [Op_create ''j'' [(k_status, VStr st_running), (''solver'', VObj 7 True)] 0 1,
      Op_transition ''j'' ''cancelled'' None [] st_running None None 2]"

theorem job_store_reachable_ok_witness:
  "store_ok (fold store_step sample_ops sample_store)"
  using job_store_reachable_ok [OF sample_store_new] by blast

text \<open>
  C9: No owned resource is lost. An object that owns something beyond memory and sits under a
  heavy key of a stored job is, after any operation, still held by a job or has been released:
  replacing it, stripping it, expiry, deletion and every terminal transition release it.
\<close>

theorem job_store_no_leak:
  assumes "store_ok s" "idle s"
  shows "held_resources s \<subseteq> held_resources (store_step p s) \<union> set (released (store_step p s))"
  using step_moves [OF assms(1), of p] assms(2) by (auto simp: moves_def accounted_def idle_def)

lemma sample_held:
  "fold store_step (take 1 sample_ops) sample_store =
     sample_store\<lparr>jobs := [(''j'', [(k_status, VStr st_running), (''solver'', VObj 7 True),
        (k_created_at, VFloat (Fin 1))])], running_activity := [(''j'', 1)]\<rparr>"
  by code_simp

lemma sample_ok: "store_ok (fold store_step (take 1 sample_ops) sample_store) \<and>
    idle (fold store_step (take 1 sample_ops) sample_store)"
  using idle_store.run_inv [OF new_store_ok [OF sample_store_new]] .

theorem job_store_no_leak_witness:
  "let s = fold store_step (take 1 sample_ops) sample_store; t = store_step (sample_ops ! 1) s
   in VObj 7 True \<in> held_resources s \<and> VObj 7 True \<in> held_resources t \<union> set (released t)"
proof -
  let ?s = "fold store_step (take 1 sample_ops) sample_store"
  have held: "VObj 7 True \<in> held_resources ?s"
    unfolding sample_held
    by (auto simp: held_resources_def resource_values_def owns_resource_def key_defs intro!: exI [of _ "''j''"])
  have "held_resources ?s \<subseteq>
      held_resources (store_step (sample_ops ! 1) ?s) \<union> set (released (store_step (sample_ops ! 1) ?s))"
    by (rule job_store_no_leak [OF conjunct1 [OF sample_ok] conjunct2 [OF sample_ok]])
  then show ?thesis using held unfolding Let_def by blast
qed

text \<open>
  C11: An artifact a reader holds is never cleaned: as long as its lease lasts through an
  operation, that operation hands no handle of the artifact to its cleaner, whether the job
  expires, is deleted or gives the handle up.
\<close>

theorem job_store_leased_not_cleaned:
  assumes "store_ok s" "0 < lease_count key s" "0 < lease_count key (store_step p s)"
  shows "cleaned_for key (store_step p s) = cleaned_for key s"
  using step_moves [OF assms(1), of p] assms(2,3) unfolding moves_def by blast

definition sample_handle :: handle where
  "sample_handle = \<lparr>handle_kind = ''frame'', handle_path = ''/t/a''\<rparr>"

definition lease_ops :: "store_op list" where
  "lease_ops =
     [Op_create ''j'' [(k_status, VStr st_running), (k_artifact_handles, VHandles [(''a'', sample_handle)])] 0 1,
      Op_lease_begin ''j'' ''a'' 2]"

lemma lease_ok: "store_ok (fold store_step lease_ops sample_store)"
  using idle_store.run_inv [OF new_store_ok [OF sample_store_new]] by blast

theorem job_store_leased_not_cleaned_witness:
  "let s = fold store_step lease_ops sample_store; t = store_step (Op_delete ''j'') s
   in jobs t = [] \<and> lease_count (''frame'', ''/t/a'') t = 1 \<and>
      cleaned_for (''frame'', ''/t/a'') t = cleaned_for (''frame'', ''/t/a'') s"
proof -
  have 1: "0 < lease_count (''frame'', ''/t/a'') (fold store_step lease_ops sample_store)" by code_simp
  have 2: "lease_count (''frame'', ''/t/a'') (store_step (Op_delete ''j'') (fold store_step lease_ops sample_store)) = 1"
    "jobs (store_step (Op_delete ''j'') (fold store_step lease_ops sample_store)) = []" by code_simp+
  show ?thesis
    using job_store_leased_not_cleaned [OF lease_ok 1, of "Op_delete ''j''"] 2 by (simp add: Let_def)
qed

text \<open>
  C12: The last reader cleans up: releasing the only lease on an artifact whose cleaning was
  deferred cleans that handle, and nothing of the artifact stays leased or deferred.
\<close>

theorem job_store_last_lease_cleans:
  assumes "store_ok s" "map_of (leases s) key = Some 1" "map_of (deferred s) key = Some (j, h)"
  shows "let t = store_step (Op_lease_end key) s
    in cleaned t = cleaned s @ [(j, h)] \<and> artifact_lease_key h = key \<and> lease_count key t = 0 \<and>
       map_of (deferred t) key = None"
  using assms deferred_ok_key [of "leases s" "deferred s" key j h]
  by (simp add: lease_end_def Let_def lease_count_def dict_simps store_ok_def)

theorem job_store_last_lease_cleans_witness:
  "let s = fold store_step (lease_ops @ [Op_delete ''j'']) sample_store
   in cleaned (store_step (Op_lease_end (''frame'', ''/t/a'')) s) = cleaned s @ [(''j'', sample_handle)]"
proof -
  let ?s = "fold store_step (lease_ops @ [Op_delete ''j'']) sample_store"
  have ok: "store_ok ?s" using idle_store.run_inv [OF new_store_ok [OF sample_store_new]] by blast
  have 1: "map_of (leases ?s) (''frame'', ''/t/a'') = Some 1" by code_simp
  have 2: "map_of (deferred ?s) (''frame'', ''/t/a'') = Some (''j'', sample_handle)" by code_simp
  show ?thesis using job_store_last_lease_cleans [OF ok 1 2] by (simp add: Let_def)
qed

lemma step_absent:
  assumes "store_ok s" "\<not> creates j p" "map_of (jobs s) j = None"
  shows "map_of (jobs (store_step p s)) j = None"
  using step_moves [OF assms(1), of p] assms(2,3)
  by (cases "map_of (jobs (store_step p s)) j") (fastforce simp: moves_def)+

lemma step_advances:
  assumes "store_ok s" "map_of (jobs s) j = Some job" "map_of (jobs (store_step p s)) j = Some job'"
  shows "advances job job'"
  using step_moves [OF assms(1), of p] assms(2,3) by (fastforce simp: moves_def)

lemma run_absent:
  "store_ok s \<Longrightarrow> list_all (\<lambda>p. \<not> creates j p) ops \<Longrightarrow> map_of (jobs s) j = None \<Longrightarrow>
    map_of (jobs (fold store_step ops s)) j = None"
  by (induction ops arbitrary: s) (auto simp: step_absent job_store.step_inv)

text \<open>
  C10: Statuses only move forward. While a job's id is not created anew, any operations leave its
  status as it is or take it to a later stage: running, then completed, then the terminal reasons
  in their order of precedence. A stopped or failed job is never running or completed again, and
  a deleted one never comes back.
\<close>

theorem job_store_status_forward:
  assumes "store_ok s" "list_all (\<lambda>p. \<not> creates j p) ops"
    and "map_of (jobs (fold store_step ops s)) j = Some job'"
  shows "\<exists>job. map_of (jobs s) j = Some job \<and> (stage job < stage job' \<or> status_of job' = status_of job)"
  using assms
proof (induction ops arbitrary: s)
  case Nil
  then show ?case by simp
next
  case (Cons p ops)
  have ok: "store_ok (store_step p s)" by (rule job_store.step_inv [OF Cons.prems(1)])
  obtain mid where mid: "map_of (jobs (store_step p s)) j = Some mid" "advances mid job'"
    using Cons.IH [OF ok] Cons.prems(2,3) unfolding advances_def by auto
  have "map_of (jobs s) j \<noteq> None"
    using step_absent [OF Cons.prems(1), of j p] mid(1) Cons.prems(2) by auto
  then obtain job where job: "map_of (jobs s) j = Some job" by blast
  have "advances job job'"
    by (rule advances_trans [OF step_advances [OF Cons.prems(1) job mid(1)] mid(2)])
  then show ?case using job unfolding advances_def by blast
qed

theorem job_store_status_forward_witness:
  "let s = fold store_step (take 1 sample_ops) sample_store
   in map_of (jobs (fold store_step [sample_ops ! 1, Op_get ''j'' 3] s)) ''j'' \<noteq> None \<and>
      (\<exists>job. map_of (jobs s) ''j'' = Some job)"
proof -
  let ?s = "fold store_step (take 1 sample_ops) sample_store"
  have new: "list_all (\<lambda>p. \<not> creates ''j'' p) [sample_ops ! 1, Op_get ''j'' 3]"
    by (simp add: sample_ops_def)
  have "has_key ''j'' (jobs (fold store_step [sample_ops ! 1, Op_get ''j'' 3] ?s))" by code_simp
  then obtain job' where job': "map_of (jobs (fold store_step [sample_ops ! 1, Op_get ''j'' 3] ?s)) ''j'' = Some job'"
    by (auto simp: has_key_def)
  show ?thesis
    using job_store_status_forward [OF conjunct1 [OF sample_ok] new job'] job' by (simp add: Let_def) blast
qed

section \<open>Expiry\<close>

lemma remove_lookups:
  assumes "k \<noteq> j"
  shows "map_of (running_activity (remove_job j s)) k = map_of (running_activity s) k"
  using assms
  by (auto simp: remove_job_def forget_activity_def detach_heavy_values_def Let_def dict_simps split: option.splits)

lemma fold_remove_lookups:
  "k \<notin> set js \<Longrightarrow> map_of (running_activity (fold remove_job js s)) k = map_of (running_activity s) k \<and>
    map_of (jobs (fold remove_job js s)) k = map_of (jobs s) k"
  by (induction js arbitrary: s) (auto simp: remove_lookups remove_selects dict_simps)

lemma fold_forget_lookups:
  "jobs (fold forget_activity js s) = jobs s \<and>
   (k \<notin> set js \<longrightarrow> map_of (running_activity (fold forget_activity js s)) k = map_of (running_activity s) k)"
  by (induction js arbitrary: s) (auto simp: forget_activity_def dict_simps)

lemma run_cleanups_activity:
  "running_activity (run_artifact_cleanups cs s) = running_activity s"
  by (induction cs s rule: run_artifact_cleanups.induct) (simp_all add: cleanup_keeps)

text \<open>
  Asking for a job never shows an expired one: a returned job's last activity (while it runs)
  or creation (once it ended) lies within the store's time to live before the reading of the clock.
\<close>

theorem job_store_get_fresh:
  assumes "store_ok s" "get_job j now s = (Inr (Some job), s')"
  shows "now - of_int (ttl_seconds s) \<le> job_eviction_timestamp j job s' \<and> valid_record job"
proof -
  obtain r t where ev: "evict_stale now s = (r, t)" by fastforce
  have r: "r = Inr ()" and s': "s' = drain t" and job: "map_of (jobs t) j = Some job" and valid: "valid_record job"
    using assms(2)
    by (auto simp: get_job_def andthen_def write_locked_def ev require_def return_def Let_def
        split: sum.splits option.splits if_splits)
  obtain u where u: "clear_expired_heavy_objects_locked now s = (Inr (), u)"
    and t: "t = fold remove_job (map fst (filter (\<lambda>(jid, job). job_eviction_timestamp jid job u
        < now - of_int (ttl_seconds u)) (jobs u)))
      (fold forget_activity (map fst (filter (\<lambda>(_, job). \<not> is_status st_running job) (jobs u))) u)"
    using ev r by (auto simp: evict_stale_def andthen_def Let_def split: sum.splits prod.splits)
  let ?stale = "map fst (filter (\<lambda>(jid, job). job_eviction_timestamp jid job u < now - of_int (ttl_seconds u)) (jobs u))"
  let ?settled = "map fst (filter (\<lambda>(_, job). \<not> is_status st_running job) (jobs u))"
  have su: "evolves s u"
    using evolving_clear_expired [of always now] assms(1) u by (simp add: evolving_def) (metis snd_conv)
  have kept: "j \<notin> set ?stale"
    using map_of_SomeD_keys [OF job] unfolding t jobs_fold_remove by blast
  then have ju: "map_of (jobs u) j = Some job"
    using job fold_remove_lookups [OF kept] unfolding t by (simp add: fold_forget_lookups)
  have ge: "now - of_int (ttl_seconds u) \<le> job_eviction_timestamp j job u"
    using kept map_of_SomeD [OF ju] by force
  have run: "map_of (running_activity t) j = map_of (running_activity u) j" if "is_status st_running job"
  proof -
    have "distinct (map fst (jobs u))" using evolves_ok [OF su] by (simp add: store_ok_def wf_dict_def keys_def)
    then have "j \<notin> set ?settled" using ju that by (auto dest: eq_key_imp_eq_value)
    then show ?thesis using fold_remove_lookups [OF kept] unfolding t by (simp add: fold_forget_lookups)
  qed
  have "running_activity (drain t) = running_activity t"
    by (simp add: drain_def Let_def run_cleanups_activity)
  then have "job_eviction_timestamp j job s' = job_eviction_timestamp j job u"
    using run by (simp add: job_eviction_timestamp_def s')
  then show ?thesis using ge valid su by (simp add: evolves_def)
qed

theorem job_store_get_fresh_witness:
  "let s = fold store_step (take 1 sample_ops) sample_store; t = snd (get_job ''j'' 2 s)
   in \<exists>job. fst (get_job ''j'' 2 s) = Inr (Some job) \<and> 2 - 60 \<le> job_eviction_timestamp ''j'' job t"
proof -
  let ?s = "fold store_step (take 1 sample_ops) sample_store"
  let ?job = "[(k_status, VStr st_running), (''solver'', VObj 7 True), (k_created_at, VFloat (Fin 1))]"
  have ttl: "ttl_seconds ?s = 60" by code_simp
  have eq: "fst (get_job ''j'' 2 ?s) = Inr (Some ?job)" by code_simp
  then have "get_job ''j'' 2 ?s = (Inr (Some ?job), snd (get_job ''j'' 2 ?s))"
    by (metis prod.collapse)
  from job_store_get_fresh [OF conjunct1 [OF sample_ok] this] show ?thesis
    using eq ttl by (simp add: Let_def)
qed

end
