(* ===== verification/Flights.thy ===== *)
theory Flights
  imports Prelude
begin

text \<open>
  Shared runs: \<^verbatim>\<open>src/haute/routes/_shared_flights.py\<close>. A flight is one run on its own thread
  and a subscription one caller's share of its outcome. Flights and subscriptions are objects
  with identity, so they are positions of lists of records. A locked section is one atomic
  function; what a method does after it releases the lock (starting the thread, cancelling the
  token, settling a replaced or dropped waiter's outcome) is posted to a multiset of pending
  effects that are performed later, in any order and between the other callers' sections. The
  run itself is a parameter: it returns or raises at any time.
\<close>

section \<open>Flights and subscriptions\<close>

datatype 'v outcome = Pending | Value 'v | Raised string | Replaced | Dropped

datatype phase = Created | Thread_running | Returned | Ended

record ('g, 'k, 'v) flight =
  fl_key :: 'k
  fl_group :: 'g
  fl_subscribers :: "nat list"
  fl_outcome :: "'v outcome"
  fl_token :: bool
  fl_cancelling :: bool
  fl_phase :: phase

datatype effect = Start nat | Cancel_token nat | Fail_replaced nat | Cancel_outcome nat

record ('g, 'k, 'v) flights =
  fl_list :: "('g, 'k, 'v) flight list"
  fl_subs :: "(nat \<times> bool) list"
  fl_pending :: "effect multiset"

definition new_flight :: "'g \<Rightarrow> 'k \<Rightarrow> ('g, 'k, 'v) flight" where
  "new_flight g k = \<lparr>fl_key = k, fl_group = g, fl_subscribers = [], fl_outcome = Pending,
     fl_token = False, fl_cancelling = False, fl_phase = Created\<rparr>"

abbreviation flight_at :: "('g, 'k, 'v, 'z) flights_scheme \<Rightarrow> nat \<Rightarrow> ('g, 'k, 'v) flight" where
  "flight_at s i \<equiv> fl_list s ! i"

abbreviation flight_count :: "('g, 'k, 'v, 'z) flights_scheme \<Rightarrow> nat" where
  "flight_count s \<equiv> length (fl_list s)"

definition on_flight :: "nat \<Rightarrow> (('g, 'k, 'v) flight \<Rightarrow> ('g, 'k, 'v) flight) \<Rightarrow>
    ('g, 'k, 'v, 'z) flights_scheme \<Rightarrow> ('g, 'k, 'v, 'z) flights_scheme" where
  "on_flight i f s = s\<lparr>fl_list := (fl_list s)[i := f (flight_at s i)]\<rparr>"

definition create_flight :: "'g \<Rightarrow> 'k \<Rightarrow> ('g, 'k, 'v, 'z) flights_scheme \<Rightarrow> ('g, 'k, 'v, 'z) flights_scheme" where
  "create_flight g k s = s\<lparr>fl_list := fl_list s @ [new_flight g k]\<rparr>"

definition add_subscriber :: "nat \<Rightarrow> ('g, 'k, 'v, 'z) flights_scheme \<Rightarrow> ('g, 'k, 'v, 'z) flights_scheme" where
  "add_subscriber i s =
     (let m = length (fl_subs s)
      in on_flight i (\<lambda>f. f\<lparr>fl_subscribers := fl_subscribers f @ [m]\<rparr>)
           (s\<lparr>fl_subs := fl_subs s @ [(i, False)]\<rparr>))"

definition discard_subscriber :: "nat \<Rightarrow> ('g, 'k, 'v, 'z) flights_scheme \<Rightarrow> ('g, 'k, 'v, 'z) flights_scheme" where
  "discard_subscriber m s =
     (let i = fst (fl_subs s ! m)
      in on_flight i (\<lambda>f. f\<lparr>fl_subscribers := removeAll m (fl_subscribers f)\<rparr>)
           (s\<lparr>fl_subs := (fl_subs s)[m := (i, True)]\<rparr>))"

definition post :: "effect \<Rightarrow> ('g, 'k, 'v, 'z) flights_scheme \<Rightarrow> ('g, 'k, 'v, 'z) flights_scheme" where
  "post e s = s\<lparr>fl_pending := add_mset e (fl_pending s)\<rparr>"

text \<open>
  An outcome is settled once: \<open>set_result\<close> and \<open>set_exception\<close> raise on a future that is done
  and \<open>cancel\<close> leaves it as it is; either way the outcome stays.
\<close>

definition settle :: "'v outcome \<Rightarrow> ('g, 'k, 'v) flight \<Rightarrow> ('g, 'k, 'v) flight" where
  "settle out f = (if fl_outcome f = Pending then f\<lparr>fl_outcome := out\<rparr> else f)"

fun effect_target :: "effect \<Rightarrow> nat" where
  "effect_target (Start i) = i"
| "effect_target (Cancel_token i) = i"
| "effect_target (Fail_replaced i) = i"
| "effect_target (Cancel_outcome i) = i"

fun apply_effect :: "effect \<Rightarrow> ('g, 'k, 'v) flight \<Rightarrow> ('g, 'k, 'v) flight" where
  "apply_effect (Start _) f = f\<lparr>fl_phase := Thread_running\<rparr>"
| "apply_effect (Cancel_token _) f = f\<lparr>fl_token := True\<rparr>"
| "apply_effect (Fail_replaced _) f = settle Replaced f"
| "apply_effect (Cancel_outcome _) f = settle Dropped f"

definition perform :: "effect \<Rightarrow> ('g, 'k, 'v, 'z) flights_scheme \<Rightarrow> ('g, 'k, 'v, 'z) flights_scheme" where
  "perform e s = on_flight (effect_target e) (apply_effect e) (s\<lparr>fl_pending := fl_pending s - {#e#}\<rparr>)"

definition run_returns :: "nat \<Rightarrow> 'v outcome \<Rightarrow> ('g, 'k, 'v, 'z) flights_scheme \<Rightarrow> ('g, 'k, 'v, 'z) flights_scheme" where
  "run_returns i out s = on_flight i (\<lambda>f. (settle out f)\<lparr>fl_phase := Returned\<rparr>) s"

definition run_result :: "'v outcome \<Rightarrow> bool" where
  "run_result out \<longleftrightarrow> (case out of Value _ \<Rightarrow> True | Raised _ \<Rightarrow> True | _ \<Rightarrow> False)"

text \<open>One round of a subscription's \<open>wait\<close>.\<close>

datatype 'v poll =
    Execution_cancelled
  | Poll_again
  | Poll_value 'v
  | Poll_raises string
  | Poll_replaced
  | Waited_on_dropped

definition wait_round :: "(nat \<Rightarrow> ('g, 'k, 'v, 'z) flights_scheme \<Rightarrow> ('g, 'k, 'v, 'z) flights_scheme) \<Rightarrow>
    nat \<Rightarrow> bool \<Rightarrow> ('g, 'k, 'v, 'z) flights_scheme \<Rightarrow> 'v poll \<times> ('g, 'k, 'v, 'z) flights_scheme" where
  "wait_round detach m caller_cancelled s =
     (if caller_cancelled then (Execution_cancelled, detach m s)
      else (case fl_outcome (flight_at s (fst (fl_subs s ! m))) of
              Pending \<Rightarrow> Poll_again
            | Value v \<Rightarrow> Poll_value v
            | Raised e \<Rightarrow> Poll_raises e
            | Replaced \<Rightarrow> Poll_replaced
            | Dropped \<Rightarrow> Waited_on_dropped, s))"

section \<open>One run per key\<close>

record ('k, 'v) shared_flights = "(unit, 'k, 'v) flights" +
  sf_map :: "('k, nat) odict"

definition sf_init :: "('k, 'v) shared_flights" where
  "sf_init = \<lparr>fl_list = [], fl_subs = [], fl_pending = {#}, sf_map = []\<rparr>"

definition sf_subscribe :: "'k \<Rightarrow> ('k, 'v) shared_flights \<Rightarrow> ('k, 'v) shared_flights" where
  "sf_subscribe k s =
     (case map_of (sf_map s) k of
        Some i \<Rightarrow> add_subscriber i s
      | None \<Rightarrow>
          let i = flight_count s
          in post (Start i) (add_subscriber i
               ((create_flight () k s)\<lparr>sf_map := AList.update k i (sf_map s)\<rparr>)))"

definition sf_release :: "nat \<Rightarrow> ('k, 'v) shared_flights \<Rightarrow> ('k, 'v) shared_flights" where
  "sf_release i s =
     (let k = fl_key (flight_at s i)
      in if map_of (sf_map s) k = Some i then s\<lparr>sf_map := AList.delete k (sf_map s)\<rparr> else s)"

definition sf_finished :: "nat \<Rightarrow> ('k, 'v) shared_flights \<Rightarrow> ('k, 'v) shared_flights" where
  "sf_finished i s = on_flight i (\<lambda>f. f\<lparr>fl_phase := Ended\<rparr>) (sf_release i s)"

definition sf_detach :: "nat \<Rightarrow> ('k, 'v) shared_flights \<Rightarrow> ('k, 'v) shared_flights" where
  "sf_detach m s =
     (if snd (fl_subs s ! m) then s
      else
        let i = fst (fl_subs s ! m); s1 = discard_subscriber m s
        in if fl_subscribers (flight_at s1 i) \<noteq> [] \<or> fl_outcome (flight_at s1 i) \<noteq> Pending then s1
           else post (Cancel_token i) (sf_release i s1))"

inductive sf_step :: "('k, 'v) shared_flights \<Rightarrow> ('k, 'v) shared_flights \<Rightarrow> bool" where
  sf_subscribes: "sf_step s (sf_subscribe k s)"
| sf_performs: "e \<in># fl_pending s \<Longrightarrow> sf_step s (perform e s)"
| sf_returns: "i < flight_count s \<Longrightarrow> fl_phase (flight_at s i) = Thread_running \<Longrightarrow> run_result out \<Longrightarrow>
    sf_step s (run_returns i out s)"
| sf_finishes: "i < flight_count s \<Longrightarrow> fl_phase (flight_at s i) = Returned \<Longrightarrow> sf_step s (sf_finished i s)"
| sf_detaches: "m < length (fl_subs s) \<Longrightarrow> sf_step s (sf_detach m s)"

inductive sf_reachable :: "('k, 'v) shared_flights \<Rightarrow> bool" where
  sf_start: "sf_reachable sf_init"
| sf_next: "sf_reachable s \<Longrightarrow> sf_step s s' \<Longrightarrow> sf_reachable s'"

section \<open>One run and one waiter per group\<close>

record lane =
  running :: "nat option"
  waiting :: "nat option"

record ('g, 'k, 'v) latest_wins = "('g, 'k, 'v) flights" +
  lanes :: "('g, lane) odict"
  cancel_abandoned :: bool

definition lw_init :: "bool \<Rightarrow> ('g, 'k, 'v) latest_wins" where
  "lw_init abandon = \<lparr>fl_list = [], fl_subs = [], fl_pending = {#}, lanes = [], cancel_abandoned = abandon\<rparr>"

definition empty_lane :: lane where
  "empty_lane = \<lparr>running = None, waiting = None\<rparr>"

definition lane_of :: "'g \<Rightarrow> ('g, 'k, 'v) latest_wins \<Rightarrow> lane" where
  "lane_of g s = (case map_of (lanes s) g of None \<Rightarrow> empty_lane | Some l \<Rightarrow> l)"

definition joins_running :: "'k \<Rightarrow> lane \<Rightarrow> ('g, 'k, 'v) latest_wins \<Rightarrow> nat option" where
  "joins_running k l s = (case running l of None \<Rightarrow> None
     | Some i \<Rightarrow> if fl_key (flight_at s i) = k \<and> \<not> fl_cancelling (flight_at s i) then Some i else None)"

definition joins_waiting :: "'k \<Rightarrow> lane \<Rightarrow> ('g, 'k, 'v) latest_wins \<Rightarrow> nat option" where
  "joins_waiting k l s = (case waiting l of None \<Rightarrow> None
     | Some i \<Rightarrow> if fl_key (flight_at s i) = k then Some i else None)"

definition post_replaced :: "nat option \<Rightarrow> ('g, 'k, 'v) latest_wins \<Rightarrow> ('g, 'k, 'v) latest_wins" where
  "post_replaced r s = (case r of None \<Rightarrow> s | Some i \<Rightarrow> post (Fail_replaced i) s)"

definition lw_subscribe :: "'g \<Rightarrow> 'k \<Rightarrow> ('g, 'k, 'v) latest_wins \<Rightarrow> ('g, 'k, 'v) latest_wins" where
  "lw_subscribe g k s =
     (let l = lane_of g s; i = flight_count s
      in case joins_running k l s of
           Some j \<Rightarrow> add_subscriber j s
         | None \<Rightarrow> (case joins_waiting k l s of
             Some j \<Rightarrow> add_subscriber j s
           | None \<Rightarrow>
               if running l = None
               then post (Start i) (add_subscriber i
                 ((create_flight g k s)\<lparr>lanes := AList.update g (l\<lparr>running := Some i\<rparr>) (lanes s)\<rparr>))
               else post_replaced (waiting l) (add_subscriber i
                 ((create_flight g k s)\<lparr>lanes := AList.update g (l\<lparr>waiting := Some i\<rparr>) (lanes s)\<rparr>))))"

definition lw_finished :: "nat \<Rightarrow> ('g, 'k, 'v) latest_wins \<Rightarrow> ('g, 'k, 'v) latest_wins" where
  "lw_finished i s =
     (let g = fl_group (flight_at s i); l = lane_of g s;
          s1 = on_flight i (\<lambda>f. f\<lparr>fl_phase := Ended\<rparr>) s
      in case waiting l of
           None \<Rightarrow> s1\<lparr>lanes := AList.delete g (lanes s)\<rparr>
         | Some j \<Rightarrow> post (Start j)
             (s1\<lparr>lanes := AList.update g \<lparr>running = Some j, waiting = None\<rparr> (lanes s)\<rparr>))"

definition lw_detach :: "nat \<Rightarrow> ('g, 'k, 'v) latest_wins \<Rightarrow> ('g, 'k, 'v) latest_wins" where
  "lw_detach m s =
     (if snd (fl_subs s ! m) then s
      else
        let i = fst (fl_subs s ! m); s1 = discard_subscriber m s; f = flight_at s1 i; g = fl_group f
        in case map_of (lanes s1) g of
             None \<Rightarrow> s1
           | Some l \<Rightarrow>
               if fl_subscribers f \<noteq> [] then s1
               else if waiting l = Some i
               then post (Cancel_outcome i) (s1\<lparr>lanes := AList.update g (l\<lparr>waiting := None\<rparr>) (lanes s1)\<rparr>)
               else if cancel_abandoned s1 \<and> running l = Some i \<and> fl_outcome f = Pending
               then post (Cancel_token i) (on_flight i (\<lambda>f. f\<lparr>fl_cancelling := True\<rparr>) s1)
               else s1)"

inductive lw_step :: "('g, 'k, 'v) latest_wins \<Rightarrow> ('g, 'k, 'v) latest_wins \<Rightarrow> bool" where
  lw_subscribes: "lw_step s (lw_subscribe g k s)"
| lw_performs: "e \<in># fl_pending s \<Longrightarrow> lw_step s (perform e s)"
| lw_returns: "i < flight_count s \<Longrightarrow> fl_phase (flight_at s i) = Thread_running \<Longrightarrow> run_result out \<Longrightarrow>
    lw_step s (run_returns i out s)"
| lw_finishes: "i < flight_count s \<Longrightarrow> fl_phase (flight_at s i) = Returned \<Longrightarrow> lw_step s (lw_finished i s)"
| lw_detaches: "m < length (fl_subs s) \<Longrightarrow> lw_step s (lw_detach m s)"

inductive lw_reachable :: "bool \<Rightarrow> ('g, 'k, 'v) latest_wins \<Rightarrow> bool" for abandon where
  lw_start: "lw_reachable abandon (lw_init abandon)"
| lw_next: "lw_reachable abandon s \<Longrightarrow> lw_step s s' \<Longrightarrow> lw_reachable abandon s'"

section \<open>Subscriptions and flights agree\<close>

definition open_subs :: "(nat \<times> bool) list \<Rightarrow> nat \<Rightarrow> nat set" where
  "open_subs subs i = {m. m < length subs \<and> subs ! m = (i, False)}"

definition subs_ok :: "('g, 'k, 'v, 'z) flights_scheme \<Rightarrow> bool" where
  "subs_ok s \<longleftrightarrow>
     (\<forall>i < flight_count s. set (fl_subscribers (flight_at s i)) = open_subs (fl_subs s) i) \<and>
     (\<forall>p \<in> set (fl_subs s). fst p < flight_count s) \<and>
     (\<forall>e \<in># fl_pending s. effect_target e < flight_count s)"

lemma open_subs_append:
  "open_subs (subs @ [(j, False)]) i = (if i = j then insert (length subs) (open_subs subs i) else open_subs subs i)"
  by (auto simp: open_subs_def nth_append less_Suc_eq)

lemma open_subs_close: "open_subs (subs[m := (j, True)]) i = open_subs subs i - {m}"
proof -
  have "m' < length subs \<and> subs[m := (j, True)] ! m' = (i, False) \<longleftrightarrow>
      m' < length subs \<and> subs ! m' = (i, False) \<and> m' \<noteq> m" for m'
    by (cases "m' = m") auto
  then show ?thesis unfolding open_subs_def by auto
qed

lemma subs_ok_target: "subs_ok s \<Longrightarrow> m < length (fl_subs s) \<Longrightarrow> fst (fl_subs s ! m) < flight_count s"
  unfolding subs_ok_def using nth_mem by blast

lemma subs_ok_effect: "subs_ok s \<Longrightarrow> e \<in># fl_pending s \<Longrightarrow> effect_target e < flight_count s"
  unfolding subs_ok_def by blast

lemma subs_ok_member:
  "subs_ok s \<Longrightarrow> m < length (fl_subs s) \<Longrightarrow> \<not> snd (fl_subs s ! m) \<Longrightarrow>
     m \<in> set (fl_subscribers (flight_at s (fst (fl_subs s ! m))))"
  using subs_ok_target [of s m] unfolding subs_ok_def by (simp add: open_subs_def prod_eq_iff)

lemma new_subscribers [simp]: "fl_subscribers (new_flight g k) = []"
  by (simp add: new_flight_def)

lemma on_flight_simps [simp]:
  "flight_count (on_flight i h s) = flight_count s" "fl_subs (on_flight i h s) = fl_subs s"
  "fl_pending (on_flight i h s) = fl_pending s"
  "j < flight_count s \<Longrightarrow> flight_at (on_flight i h s) j = (if j = i then h (flight_at s i) else flight_at s j)"
  by (simp_all add: on_flight_def nth_list_update)

lemma post_simps [simp]:
  "fl_list (post e s) = fl_list s" "fl_subs (post e s) = fl_subs s"
  "fl_pending (post e s) = add_mset e (fl_pending s)"
  by (simp_all add: post_def)

lemma subs_ok_on_flight:
  assumes "subs_ok s" "\<And>f. fl_subscribers (h f) = fl_subscribers f"
  shows "subs_ok (on_flight i h s)"
proof -
  have "fl_subscribers (flight_at (on_flight i h s) j) = fl_subscribers (flight_at s j)" if "j < flight_count s" for j
    using that assms(2) by auto
  then show ?thesis using assms(1) unfolding subs_ok_def by simp
qed

lemma subs_ok_create: "subs_ok s \<Longrightarrow> subs_ok (create_flight g k s)"
proof -
  assume s: "subs_ok s"
  then have "open_subs (fl_subs s) (flight_count s) = {}"
    unfolding subs_ok_def open_subs_def by (force dest: nth_mem)
  with s show ?thesis
    unfolding subs_ok_def create_flight_def by (auto simp: nth_append less_Suc_eq)
qed

lemma add_subscriber_simps [simp]:
  "flight_count (add_subscriber i s) = flight_count s" "fl_subs (add_subscriber i s) = fl_subs s @ [(i, False)]"
  "fl_pending (add_subscriber i s) = fl_pending s"
  "j < flight_count s \<Longrightarrow> flight_at (add_subscriber i s) j =
     (if j = i then (flight_at s i)\<lparr>fl_subscribers := fl_subscribers (flight_at s i) @ [length (fl_subs s)]\<rparr>
      else flight_at s j)"
  by (simp_all add: add_subscriber_def Let_def on_flight_def nth_list_update)

lemma subs_ok_add: "subs_ok s \<Longrightarrow> i < flight_count s \<Longrightarrow> subs_ok (add_subscriber i s)"
  unfolding subs_ok_def by (simp add: open_subs_append)

lemma subs_ok_post: "subs_ok s \<Longrightarrow> effect_target e < flight_count s \<Longrightarrow> subs_ok (post e s)"
  unfolding subs_ok_def by auto

lemma discard_simps [simp]:
  "flight_count (discard_subscriber m s) = flight_count s"
  "fl_subs (discard_subscriber m s) = (fl_subs s)[m := (fst (fl_subs s ! m), True)]"
  "fl_pending (discard_subscriber m s) = fl_pending s"
  "j < flight_count s \<Longrightarrow> flight_at (discard_subscriber m s) j =
     (if j = fst (fl_subs s ! m)
      then (flight_at s j)\<lparr>fl_subscribers := removeAll m (fl_subscribers (flight_at s j))\<rparr>
      else flight_at s j)"
  by (simp_all add: discard_subscriber_def Let_def on_flight_def nth_list_update)

lemma subs_ok_discard:
  assumes s: "subs_ok s" and m: "m < length (fl_subs s)"
  shows "subs_ok (discard_subscriber m s)"
proof -
  let ?i = "fst (fl_subs s ! m)"
  have i: "?i < flight_count s" by (rule subs_ok_target [OF s m])
  have other: "m \<notin> open_subs (fl_subs s) j" if "j \<noteq> ?i" for j using that by (auto simp: open_subs_def)
  have "set (fl_subscribers (flight_at (discard_subscriber m s) j)) = open_subs (fl_subs (discard_subscriber m s)) j"
    if "j < flight_count s" for j
    using s that other [of j] unfolding subs_ok_def by (auto simp: open_subs_close)
  moreover have "\<forall>p \<in> set ((fl_subs s)[m := (?i, True)]). fst p < flight_count s"
    using s i unfolding subs_ok_def by (auto dest!: subsetD [OF set_update_subset_insert])
  ultimately show ?thesis using s unfolding subs_ok_def by simp
qed

lemma apply_effect_keeps [simp]:
  "fl_subscribers (apply_effect e f) = fl_subscribers f" "fl_key (apply_effect e f) = fl_key f"
  "fl_group (apply_effect e f) = fl_group f" "fl_cancelling (apply_effect e f) = fl_cancelling f"
  by (cases e; simp add: settle_def)+

lemma perform_simps [simp]:
  "flight_count (perform e s) = flight_count s" "fl_subs (perform e s) = fl_subs s"
  "fl_pending (perform e s) = fl_pending s - {#e#}"
  "j < flight_count s \<Longrightarrow> flight_at (perform e s) j =
     (if j = effect_target e then apply_effect e (flight_at s j) else flight_at s j)"
  by (simp_all add: perform_def)

lemma subs_ok_perform: "subs_ok s \<Longrightarrow> subs_ok (perform e s)"
proof -
  assume s: "subs_ok s"
  then have "subs_ok (s\<lparr>fl_pending := fl_pending s - {#e#}\<rparr>)"
    unfolding subs_ok_def by (auto dest: in_diffD)
  then show ?thesis unfolding perform_def by (rule subs_ok_on_flight) simp
qed

lemma subs_ok_returns: "subs_ok s \<Longrightarrow> subs_ok (run_returns i out s)"
  unfolding run_returns_def by (rule subs_ok_on_flight) (simp_all add: settle_def)

lemma subs_ok_cong:
  "subs_ok s \<Longrightarrow> fl_list t = fl_list s \<Longrightarrow> fl_subs t = fl_subs s \<Longrightarrow> fl_pending t = fl_pending s \<Longrightarrow> subs_ok t"
  unfolding subs_ok_def by simp

section \<open>The invariant of the latest-wins queue\<close>

text \<open>
  A flight is in its lane's running slot, in the waiting slot, or in no lane. \<open>place_ok\<close> says
  what its fields and the effects posted for it are in each place: \<open>st\<close>, \<open>fr\<close>, \<open>co\<close>
  and \<open>ct\<close> count the posted starts, replacements, drops and token cancellations.
\<close>

datatype place = Running_slot | Waiting_slot | No_lane

definition place_of :: "('g, 'k, 'v) latest_wins \<Rightarrow> nat \<Rightarrow> place" where
  "place_of s i = (let l = lane_of (fl_group (flight_at s i)) s
     in if running l = Some i then Running_slot else if waiting l = Some i then Waiting_slot else No_lane)"

fun place_ok :: "place \<Rightarrow> ('g, 'k, 'v) flight \<Rightarrow> nat \<Rightarrow> nat \<Rightarrow> nat \<Rightarrow> nat \<Rightarrow> bool" where
  "place_ok Running_slot f st fr co ct \<longleftrightarrow> fr = 0 \<and> co = 0 \<and>
     (case fl_phase f of
        Created \<Rightarrow> st = 1 \<and> fl_outcome f = Pending
      | Thread_running \<Rightarrow> st = 0 \<and> fl_outcome f = Pending
      | Returned \<Rightarrow> st = 0 \<and> run_result (fl_outcome f)
      | Ended \<Rightarrow> False) \<and>
     (fl_token f \<or> 0 < ct \<longrightarrow> fl_cancelling f) \<and> (fl_cancelling f \<longrightarrow> fl_subscribers f = [])"
| "place_ok Waiting_slot f st fr co ct \<longleftrightarrow> st = 0 \<and> fr = 0 \<and> co = 0 \<and> ct = 0 \<and>
     fl_phase f = Created \<and> fl_outcome f = Pending \<and> fl_subscribers f \<noteq> [] \<and>
     \<not> fl_token f \<and> \<not> fl_cancelling f"
| "place_ok No_lane f st fr co ct \<longleftrightarrow> st = 0 \<and>
     (case fl_phase f of
        Created \<Rightarrow>
          (case fl_outcome f of
             Pending \<Rightarrow> fr + co = 1 \<and> (0 < co \<longrightarrow> fl_subscribers f = [])
           | Replaced \<Rightarrow> fr = 0 \<and> co = 0
           | Dropped \<Rightarrow> fr = 0 \<and> co = 0 \<and> fl_subscribers f = []
           | _ \<Rightarrow> False)
      | Ended \<Rightarrow> fr = 0 \<and> co = 0 \<and> run_result (fl_outcome f)
      | _ \<Rightarrow> False) \<and>
     (fl_token f \<or> 0 < ct \<longrightarrow> fl_cancelling f) \<and> (fl_cancelling f \<longrightarrow> fl_subscribers f = [])"

abbreviation posted :: "('g, 'k, 'v, 'z) flights_scheme \<Rightarrow> effect \<Rightarrow> nat" where
  "posted s e \<equiv> count (fl_pending s) e"

definition flight_ok :: "('g, 'k, 'v) latest_wins \<Rightarrow> nat \<Rightarrow> bool" where
  "flight_ok s i \<longleftrightarrow> place_ok (place_of s i) (flight_at s i) (posted s (Start i))
     (posted s (Fail_replaced i)) (posted s (Cancel_outcome i)) (posted s (Cancel_token i))"

definition lane_ok :: "('g, 'k, 'v) latest_wins \<Rightarrow> 'g \<Rightarrow> lane \<Rightarrow> bool" where
  "lane_ok s g l \<longleftrightarrow>
     (\<exists>i. running l = Some i \<and> i < flight_count s \<and> fl_group (flight_at s i) = g \<and> waiting l \<noteq> Some i) \<and>
     (\<forall>j. waiting l = Some j \<longrightarrow> j < flight_count s \<and> fl_group (flight_at s j) = g)"

definition lanes_ok :: "('g, 'k, 'v) latest_wins \<Rightarrow> bool" where
  "lanes_ok s \<longleftrightarrow> (\<forall>g l. map_of (lanes s) g = Some l \<longrightarrow> lane_ok s g l)"

definition lw_inv :: "('g, 'k, 'v) latest_wins \<Rightarrow> bool" where
  "lw_inv s \<longleftrightarrow> subs_ok s \<and> lanes_ok s \<and> (\<forall>i < flight_count s. flight_ok s i)"

lemma lanes_okD:
  assumes "lanes_ok s" "map_of (lanes s) g = Some l"
  shows "\<exists>i. running l = Some i \<and> i < flight_count s \<and> fl_group (flight_at s i) = g \<and> waiting l \<noteq> Some i"
    and "waiting l = Some j \<Longrightarrow> j < flight_count s \<and> fl_group (flight_at s j) = g"
  using assms unfolding lanes_ok_def lane_ok_def by blast+

lemma lane_absent: "lanes_ok s \<Longrightarrow> running (lane_of g s) = None \<longleftrightarrow> map_of (lanes s) g = None"
  using lanes_okD(1) [of s g] by (cases "map_of (lanes s) g") (auto simp: lane_of_def empty_lane_def)

lemma lane_ok_keep:
  assumes "lane_ok s g l" "flight_count s \<le> flight_count t"
    and "\<And>i. i < flight_count s \<Longrightarrow> fl_group (flight_at t i) = fl_group (flight_at s i)"
  shows "lane_ok t g l"
  using assms(1) assms(3) less_le_trans [OF _ assms(2)] unfolding lane_ok_def by metis

lemma flight_ok_frame:
  assumes "flight_ok s i" "place_of t i = place_of s i" "flight_at t i = flight_at s i"
    and "posted t (Start i) = posted s (Start i)" "posted t (Fail_replaced i) = posted s (Fail_replaced i)"
      "posted t (Cancel_outcome i) = posted s (Cancel_outcome i)" "posted t (Cancel_token i) = posted s (Cancel_token i)"
  shows "flight_ok t i"
  using assms unfolding flight_ok_def by simp

lemma lanes_add [simp]: "lanes (add_subscriber i s) = lanes s"
  by (simp add: add_subscriber_def on_flight_def Let_def)

lemma lanes_discard [simp]: "lanes (discard_subscriber i s) = lanes s" "cancel_abandoned (discard_subscriber i s) = cancel_abandoned s"
  by (simp_all add: discard_subscriber_def on_flight_def Let_def)

lemma lanes_on_flight [simp]: "lanes (on_flight i h s) = lanes s" "cancel_abandoned (on_flight i h s) = cancel_abandoned s"
  by (simp_all add: on_flight_def)

lemma lanes_post [simp]: "lanes (post e s) = lanes s" "cancel_abandoned (post e s) = cancel_abandoned s"
  by (simp_all add: post_def)

lemma lanes_perform [simp]: "lanes (perform e s) = lanes s"
  by (simp add: perform_def)

text \<open>A step that changes no lane and no flight's group keeps every place.\<close>

lemma same_places:
  assumes "lanes t = lanes s" "flight_count t = flight_count s"
    and "\<And>i. i < flight_count s \<Longrightarrow> fl_group (flight_at t i) = fl_group (flight_at s i)"
  shows "i < flight_count s \<Longrightarrow> place_of t i = place_of s i" "lanes_ok s \<Longrightarrow> lanes_ok t"
proof -
  show "i < flight_count s \<Longrightarrow> place_of t i = place_of s i"
    using assms by (simp add: place_of_def lane_of_def)
  show "lanes_ok s \<Longrightarrow> lanes_ok t"
    using assms lane_ok_keep [of s _ _ t] unfolding lanes_ok_def by simp
qed

lemma inv_add_subscriber:
  assumes inv: "lw_inv s" and j: "j < flight_count s"
    and place: "place_of s j = Waiting_slot \<or> place_of s j = Running_slot \<and> \<not> fl_cancelling (flight_at s j)"
  shows "lw_inv (add_subscriber j s)"
proof -
  let ?t = "add_subscriber j s"
  have groups: "fl_group (flight_at ?t i) = fl_group (flight_at s i)" if "i < flight_count s" for i
    using that by simp
  note same = same_places [of ?t s, OF _ _ groups, simplified]
  have "flight_ok ?t i" if i: "i < flight_count s" for i
  proof (cases "i = j")
    case True
    have "flight_ok s j" using inv j by (simp add: lw_inv_def)
    then show ?thesis
      using True place j same(1) [OF j] by (auto simp: flight_ok_def split: phase.splits)
  next
    case False
    then show ?thesis
      using inv i same(1) [OF i] by (intro flight_ok_frame [of s i ?t]) (simp_all add: lw_inv_def)
  qed
  then show ?thesis using inv j same(2) subs_ok_add [of s j] by (simp add: lw_inv_def)
qed

definition with_flight :: "'g \<Rightarrow> 'k \<Rightarrow> lane \<Rightarrow> ('g, 'k, 'v) latest_wins \<Rightarrow> ('g, 'k, 'v) latest_wins" where
  "with_flight g k l s =
     add_subscriber (flight_count s) ((create_flight g k s)\<lparr>lanes := AList.update g l (lanes s)\<rparr>)"

lemma create_simps [simp]:
  "flight_count (create_flight g k s) = Suc (flight_count s)" "fl_subs (create_flight g k s) = fl_subs s"
  "fl_pending (create_flight g k s) = fl_pending s"
  "i \<le> flight_count s \<Longrightarrow> flight_at (create_flight g k s) i =
     (if i = flight_count s then new_flight g k else flight_at s i)"
  by (simp_all add: create_flight_def nth_append)

lemma with_flight_simps [simp]:
  "flight_count (with_flight g k l s) = Suc (flight_count s)" "fl_pending (with_flight g k l s) = fl_pending s"
  "fl_subs (with_flight g k l s) = fl_subs s @ [(flight_count s, False)]"
  "lanes (with_flight g k l s) = AList.update g l (lanes s)"
  "i < flight_count s \<Longrightarrow> flight_at (with_flight g k l s) i = flight_at s i"
  "flight_at (with_flight g k l s) (flight_count s) =
     (new_flight g k)\<lparr>fl_subscribers := [length (fl_subs s)]\<rparr>"
  by (simp_all add: with_flight_def)

lemma subs_ok_with_flight: "subs_ok s \<Longrightarrow> subs_ok (with_flight g k l s)"
proof -
  assume "subs_ok s"
  then have "subs_ok (create_flight g k s)" by (rule subs_ok_create)
  then have "subs_ok ((create_flight g k s)\<lparr>lanes := AList.update g l (lanes s)\<rparr>)"
    by (rule subs_ok_cong) simp_all
  then show ?thesis unfolding with_flight_def by (rule subs_ok_add) simp
qed

lemma nothing_posted:
  assumes "subs_ok s"
  shows "posted s (Start (flight_count s)) = 0" "posted s (Fail_replaced (flight_count s)) = 0"
    "posted s (Cancel_outcome (flight_count s)) = 0" "posted s (Cancel_token (flight_count s)) = 0"
proof -
  have "posted s e = 0" if "effect_target e = flight_count s" for e
    using subs_ok_effect [OF assms, of e] that by (auto simp: count_eq_zero_iff)
  then show "posted s (Start (flight_count s)) = 0" "posted s (Fail_replaced (flight_count s)) = 0"
    "posted s (Cancel_outcome (flight_count s)) = 0" "posted s (Cancel_token (flight_count s)) = 0"
    by simp_all
qed

lemma lane_of_update:
  "lanes t = AList.update g l (lanes s) \<Longrightarrow> lane_of g' t = (if g' = g then l else lane_of g' s)"
  by (simp add: lane_of_def map_of_update)

lemma lanes_ok_with_flight:
  assumes "lanes_ok s" "lane_ok (with_flight g k l s) g l"
  shows "lanes_ok (with_flight g k l s)"
  unfolding lanes_ok_def
proof (intro allI impI)
  fix g' l' assume l': "map_of (lanes (with_flight g k l s)) g' = Some l'"
  show "lane_ok (with_flight g k l s) g' l'"
  proof (cases "g' = g")
    case True
    then show ?thesis using l' assms(2) by (simp add: map_of_update)
  next
    case False
    then have "lane_ok s g' l'" using l' assms(1) by (simp add: map_of_update lanes_ok_def)
    then show ?thesis by (rule lane_ok_keep) simp_all
  qed
qed

lemma lane_ok_post [simp]: "lane_ok (post e s) = lane_ok s" "lanes_ok (post e s) = lanes_ok s"
  by (simp_all add: lane_ok_def lanes_ok_def fun_eq_iff)

lemma place_of_post [simp]: "place_of (post e s) = place_of s"
  by (simp add: place_of_def lane_of_def fun_eq_iff)

lemma inv_start_new:
  assumes inv: "lw_inv s" and lane: "running (lane_of g s) = None"
  shows "lw_inv (post (Start (flight_count s)) (with_flight g k ((lane_of g s)\<lparr>running := Some (flight_count s)\<rparr>) s))"
    (is "lw_inv (post _ ?w)")
proof -
  let ?n = "flight_count s"
  have subs: "subs_ok s" and lanes: "lanes_ok s" and ok: "i < ?n \<Longrightarrow> flight_ok s i" for i
    using inv by (simp_all add: lw_inv_def)
  have none: "lane_of g s = empty_lane"
    using lane lane_absent [OF lanes, of g] by (simp add: lane_of_def)
  note lane_t = lane_of_update [OF with_flight_simps(4)]
  have place: "place_of ?w i = place_of s i" if "i < ?n" for i
    using that none by (auto simp: place_of_def lane_t empty_lane_def Let_def)
  have place_new: "place_of ?w ?n = Running_slot"
    by (simp add: place_of_def lane_t new_flight_def)
  have "flight_ok (post (Start ?n) ?w) i" if "i < Suc ?n" for i
  proof (cases "i = ?n")
    case True
    then show ?thesis
      using nothing_posted [OF subs] place_new by (simp add: flight_ok_def new_flight_def)
  next
    case False
    then have i: "i < ?n" using that by simp
    then show ?thesis
      using False place [OF i] by (intro flight_ok_frame [OF ok [OF i]]) simp_all
  qed
  moreover have "lanes_ok ?w"
    by (rule lanes_ok_with_flight [OF lanes]) (simp add: lane_ok_def new_flight_def none empty_lane_def)
  moreover have "subs_ok (post (Start ?n) ?w)"
    using subs_ok_with_flight [OF subs] by (intro subs_ok_post) simp_all
  ultimately show ?thesis by (simp add: lw_inv_def)
qed

lemma flight_ok_new_post:
  assumes "flight_ok s i" "effect_target e \<noteq> i"
  shows "flight_ok (post e s) i"
  using assms by (intro flight_ok_frame [of s i "post e s"]) auto

lemma inv_wait_new:
  assumes inv: "lw_inv s" and lane: "running (lane_of g s) \<noteq> None"
  shows "lw_inv (post_replaced (waiting (lane_of g s))
    (with_flight g k ((lane_of g s)\<lparr>waiting := Some (flight_count s)\<rparr>) s))"
    (is "lw_inv (post_replaced ?old ?w)")
proof -
  let ?n = "flight_count s" and ?l = "lane_of g s"
  have subs: "subs_ok s" and lanes: "lanes_ok s" and ok: "i < ?n \<Longrightarrow> flight_ok s i" for i
    using inv by (simp_all add: lw_inv_def)
  have here: "map_of (lanes s) g = Some ?l"
    using lane lane_absent [OF lanes, of g] by (auto simp: lane_of_def)
  obtain r where r: "running ?l = Some r" "r < ?n" "fl_group (flight_at s r) = g" "?old \<noteq> Some r"
    using lanes_okD(1) [OF lanes here] by auto
  have old: "j < ?n \<and> fl_group (flight_at s j) = g" if "?old = Some j" for j
    using lanes_okD(2) [OF lanes here that] .
  note lane_t = lane_of_update [OF with_flight_simps(4)]
  have place: "place_of ?w i = (if ?old = Some i then No_lane else place_of s i)" if "i < ?n" for i
    using that r old by (auto simp: place_of_def lane_t Let_def)
  have place_new: "place_of ?w ?n = Waiting_slot"
    using r by (simp add: place_of_def lane_t new_flight_def)
  have fresh: "flight_ok ?w ?n"
    using nothing_posted [OF subs] place_new by (simp add: flight_ok_def new_flight_def)
  have kept: "flight_ok ?w i" if "i < ?n" "?old \<noteq> Some i" for i
    using that place [OF that(1)] by (intro flight_ok_frame [OF ok [OF that(1)]]) simp_all
  have "lanes_ok ?w"
    by (rule lanes_ok_with_flight [OF lanes]) (use r in \<open>auto simp: lane_ok_def new_flight_def\<close>)
  moreover have "subs_ok (post_replaced ?old ?w)"
    using subs_ok_with_flight [OF subs] old
    by (auto simp: post_replaced_def split: option.splits intro!: subs_ok_post)
  moreover have "flight_ok (post_replaced ?old ?w) i" if i: "i < Suc ?n" for i
  proof (cases ?old)
    case None
    then show ?thesis using i fresh kept [of i] by (cases "i = ?n") (auto simp: post_replaced_def)
  next
    case (Some j)
    then have j: "j < ?n" "fl_group (flight_at s j) = g" using old by auto
    show ?thesis
    proof (cases "i = j")
      case True
      have "place_of s j = Waiting_slot" using j r Some by (auto simp: place_of_def)
      then show ?thesis
        using ok [OF j(1)] place [OF j(1)] Some True j(1) by (simp add: flight_ok_def post_replaced_def)
    next
      case False
      then have "flight_ok ?w i" using i fresh kept [of i] Some by (cases "i = ?n") auto
      then show ?thesis using False Some by (simp add: post_replaced_def flight_ok_new_post)
    qed
  qed
  moreover have "flight_count (post_replaced ?old ?w) = Suc ?n" "lanes_ok (post_replaced ?old ?w) = lanes_ok ?w"
    by (simp_all add: post_replaced_def split: option.split)
  ultimately show ?thesis by (simp add: lw_inv_def)
qed

lemma place_of_slots:
  assumes "lanes_ok s" "map_of (lanes s) g = Some l"
  shows "running l = Some i \<Longrightarrow> i < flight_count s \<and> place_of s i = Running_slot"
    and "waiting l = Some i \<Longrightarrow> i < flight_count s \<and> place_of s i = Waiting_slot"
  using lanes_okD [OF assms] assms(2) by (auto simp: place_of_def lane_of_def)

lemma inv_subscribe:
  assumes inv: "lw_inv s"
  shows "lw_inv (lw_subscribe g k s)"
proof -
  let ?l = "lane_of g s"
  have lanes: "lanes_ok s" using inv by (simp add: lw_inv_def)
  have present: "map_of (lanes s) g = Some ?l" if "running ?l \<noteq> None \<or> waiting ?l \<noteq> None"
    using that by (auto simp: lane_of_def empty_lane_def split: option.splits)
  note slots = place_of_slots [OF lanes present]
  show ?thesis
  proof (cases "joins_running k ?l s")
    case (Some j)
    then have "running ?l = Some j" "\<not> fl_cancelling (flight_at s j)"
      by (auto simp: joins_running_def split: option.splits if_splits)
    then show ?thesis using Some slots(1) [of j] inv_add_subscriber [OF inv, of j] by (simp add: lw_subscribe_def)
  next
    case no_run: None
    show ?thesis
    proof (cases "joins_waiting k ?l s")
      case (Some j)
      then have "waiting ?l = Some j" by (auto simp: joins_waiting_def split: option.splits if_splits)
      then show ?thesis
        using no_run Some slots(2) [of j] inv_add_subscriber [OF inv, of j] by (simp add: lw_subscribe_def Let_def)
    next
      case None
      then show ?thesis
        using no_run inv_start_new [OF inv, of g k] inv_wait_new [OF inv, of g k]
        by (simp add: lw_subscribe_def Let_def with_flight_def)
    qed
  qed
qed

lemma place_ok_start:
  "place_ok p f st fr co ct \<Longrightarrow> 0 < st \<Longrightarrow> place_ok p (f\<lparr>fl_phase := Thread_running\<rparr>) (st - 1) fr co ct"
  by (cases p) (auto split: phase.splits)

lemma place_ok_token:
  "place_ok p f st fr co ct \<Longrightarrow> 0 < ct \<Longrightarrow> place_ok p (f\<lparr>fl_token := True\<rparr>) st fr co (ct - 1)"
  by (cases p) (auto split: phase.splits outcome.splits)

lemma place_ok_replaced:
  "place_ok p f st fr co ct \<Longrightarrow> 0 < fr \<Longrightarrow> place_ok p (settle Replaced f) st (fr - 1) co ct"
  by (cases p) (auto simp: settle_def split: phase.splits outcome.splits)

lemma place_ok_dropped:
  "place_ok p f st fr co ct \<Longrightarrow> 0 < co \<Longrightarrow> place_ok p (settle Dropped f) st fr (co - 1) ct"
  by (cases p) (auto simp: settle_def split: phase.splits outcome.splits)

lemma place_ok_thread:
  "place_ok p f st fr co ct \<Longrightarrow> fl_phase f = Thread_running \<Longrightarrow> p = Running_slot \<and> fl_outcome f = Pending"
  "place_ok p f st fr co ct \<Longrightarrow> fl_phase f = Returned \<Longrightarrow>
     p = Running_slot \<and> run_result (fl_outcome f) \<and> st = 0 \<and> fr = 0 \<and> co = 0"
  by (cases p; simp)+

lemma place_ok_returned:
  "place_ok p f st fr co ct \<Longrightarrow> fl_phase f = Thread_running \<Longrightarrow> run_result out \<Longrightarrow>
     place_ok p ((settle out f)\<lparr>fl_phase := Returned\<rparr>) st fr co ct"
  by (cases p) (auto simp: settle_def)

lemma place_ok_effect:
  fixes e :: effect
  assumes "place_ok p f (count M (Start i)) (count M (Fail_replaced i)) (count M (Cancel_outcome i))
      (count M (Cancel_token i))"
    and "e \<in># M" "effect_target e = i"
  shows "place_ok p (apply_effect e f) (count (M - {#e#}) (Start i)) (count (M - {#e#}) (Fail_replaced i))
      (count (M - {#e#}) (Cancel_outcome i)) (count (M - {#e#}) (Cancel_token i))"
proof -
  have pos: "0 < count M e" using assms(2) by simp
  show ?thesis
    using place_ok_start [OF assms(1)] place_ok_token [OF assms(1)] place_ok_replaced [OF assms(1)]
      place_ok_dropped [OF assms(1)] pos assms(3)
    by (cases e) (auto simp del: count_greater_zero_iff)
qed

lemma inv_perform:
  assumes inv: "lw_inv s" and e: "e \<in># fl_pending s"
  shows "lw_inv (perform e s)"
proof -
  let ?t = "perform e s" and ?i = "effect_target e"
  have subs: "subs_ok s" and lanes: "lanes_ok s" and ok: "i < flight_count s \<Longrightarrow> flight_ok s i" for i
    using inv by (simp_all add: lw_inv_def)
  have i: "?i < flight_count s" by (rule subs_ok_effect [OF subs e])
  have groups: "fl_group (flight_at ?t j) = fl_group (flight_at s j)" if "j < flight_count s" for j
    using that by simp
  note same = same_places [of ?t s, OF _ _ groups, simplified]
  have pos: "0 < posted s e" using e by simp
  have "flight_ok ?t j" if j: "j < flight_count s" for j
  proof (cases "j = ?i")
    case False
    then show ?thesis
      using same(1) [OF j] j by (intro flight_ok_frame [OF ok [OF j]]) auto
  next
    case True
    show ?thesis
      using place_ok_effect [OF ok [OF j, unfolded flight_ok_def] e] True same(1) [OF j] j
      by (simp add: flight_ok_def)
  qed
  then show ?thesis using same(2) [OF lanes] subs_ok_perform [OF subs] by (simp add: lw_inv_def)
qed

lemma returns_simps [simp]:
  "flight_count (run_returns i out s) = flight_count s" "fl_subs (run_returns i out s) = fl_subs s"
  "fl_pending (run_returns i out s) = fl_pending s" 
  "j < flight_count s \<Longrightarrow> flight_at (run_returns i out s) j =
     (if j = i then (settle out (flight_at s j))\<lparr>fl_phase := Returned\<rparr> else flight_at s j)"
  by (simp_all add: run_returns_def)

lemma lanes_returns [simp]: "lanes (run_returns i out s) = lanes s"
  by (simp add: run_returns_def)

lemma settle_group [simp]: "fl_group (settle out f) = fl_group f" "fl_subscribers (settle out f) = fl_subscribers f"
    "fl_key (settle out f) = fl_key f"
  by (simp_all add: settle_def)

lemma inv_returns:
  assumes inv: "lw_inv s" and i: "i < flight_count s" "fl_phase (flight_at s i) = Thread_running"
    and out: "run_result out"
  shows "lw_inv (run_returns i out s)"
proof -
  let ?t = "run_returns i out s"
  have subs: "subs_ok s" and lanes: "lanes_ok s" and ok: "i < flight_count s \<Longrightarrow> flight_ok s i" for i
    using inv by (simp_all add: lw_inv_def)
  have groups: "fl_group (flight_at ?t j) = fl_group (flight_at s j)" if "j < flight_count s" for j
    using that by simp
  note same = same_places [of ?t s, OF _ _ groups, simplified]
  have "flight_ok ?t j" if j: "j < flight_count s" for j
  proof (cases "j = i")
    case True
    then show ?thesis
      using place_ok_returned [OF ok [OF j, unfolded flight_ok_def] _ out] i same(1) [OF j] j
      by (simp add: flight_ok_def)
  next
    case False
    then show ?thesis using same(1) [OF j] j by (intro flight_ok_frame [OF ok [OF j]]) simp_all
  qed
  then show ?thesis using same(2) [OF lanes] subs_ok_returns [OF subs] by (simp add: lw_inv_def)
qed

lemma place_runs:
  assumes "lanes_ok s" "i < flight_count s" "place_of s i = Running_slot"
  shows "\<exists>l. map_of (lanes s) (fl_group (flight_at s i)) = Some l \<and> running l = Some i"
  using assms by (auto simp: place_of_def lane_of_def empty_lane_def Let_def split: option.splits if_splits)

lemma inv_finished:
  assumes inv: "lw_inv s" and i: "i < flight_count s" "fl_phase (flight_at s i) = Returned"
  shows "lw_inv (lw_finished i s)"
proof -
  have subs: "subs_ok s" and lanes: "lanes_ok s" and ok: "j < flight_count s \<Longrightarrow> flight_ok s j" for j
    using inv by (simp_all add: lw_inv_def)
  note fin = place_ok_thread(2) [OF ok [OF i(1), unfolded flight_ok_def] i(2)]
  define g where "g = fl_group (flight_at s i)"
  then have gi: "fl_group (flight_at s i) = g" by simp
  obtain l where l: "map_of (lanes s) g = Some l" "running l = Some i"
    using place_runs [OF lanes i(1)] fin by (auto simp: g_def)
  then have lane: "lane_of g s = l" by (simp add: lane_of_def)
  let ?s1 = "on_flight i (\<lambda>f. f\<lparr>fl_phase := Ended\<rparr>) s"
  define t where "t = lw_finished i s"
  have waits: "w < flight_count s \<and> fl_group (flight_at s w) = g \<and> w \<noteq> i" if "waiting l = Some w" for w
    using lanes_okD [OF lanes l(1)] l(2) that by auto
  have t: "flight_count t = flight_count s" "fl_subs t = fl_subs s"
      "j < flight_count s \<Longrightarrow> flight_at t j = (if j = i then (flight_at s i)\<lparr>fl_phase := Ended\<rparr> else flight_at s j)"
      "fl_pending t = (case waiting l of None \<Rightarrow> fl_pending s | Some w \<Rightarrow> add_mset (Start w) (fl_pending s))"
      "map_of (lanes t) g' = (if g' = g then map_option (\<lambda>w. \<lparr>running = Some w, waiting = None\<rparr>) (waiting l)
         else map_of (lanes s) g')" for j g'
    unfolding t_def lw_finished_def Let_def g_def [symmetric] lane
    by (auto simp: map_of_update map_of_delete post_def split: option.split)
  have group: "fl_group (flight_at t j) = fl_group (flight_at s j)" if "j < flight_count s" for j
    using that by (simp add: t(3))
  have place: "place_of t j = (if j = i then No_lane else if waiting l = Some j then Running_slot else place_of s j)"
    if "j < flight_count s" for j
    using that l waits group [OF that] gi by (cases "waiting l") (auto simp: place_of_def lane_of_def t(5) empty_lane_def Let_def)
  have "flight_ok t j" if j: "j < flight_count s" for j
  proof -
    consider "j = i" | "j \<noteq> i" "waiting l = Some j" | "j \<noteq> i" "waiting l \<noteq> Some j" by blast
    then show ?thesis
    proof cases
      case 1
      have st: "posted t (Start i) = posted s (Start i)" using waits by (auto simp: t(4) split: option.splits)
      have "posted t (Fail_replaced i) = posted s (Fail_replaced i)"
        "posted t (Cancel_outcome i) = posted s (Cancel_outcome i)"
        "posted t (Cancel_token i) = posted s (Cancel_token i)"
        by (auto simp: t(4) split: option.splits)
      then show ?thesis
        using 1 st place [OF j] fin ok [OF i(1)] i j by (simp add: flight_ok_def t(3))
    next
      case 2
      then have "place_of s j = Waiting_slot" using place_of_slots(2) [OF lanes l(1)] by blast
      then show ?thesis
        using 2 place [OF j] ok [OF j] j by (simp add: flight_ok_def t(3,4))
    next
      case 3
      then show ?thesis
        using place [OF j] j by (intro flight_ok_frame [OF ok [OF j]]) (auto simp: t(3,4) split: option.splits)
    qed
  qed
  moreover have "lanes_ok t"
    unfolding lanes_ok_def
  proof (intro allI impI)
    fix g' l' assume l': "map_of (lanes t) g' = Some l'"
    show "lane_ok t g' l'"
    proof (cases "g' = g")
      case True
      then show ?thesis using l' waits group by (auto simp: t(1,5) lane_ok_def)
    next
      case False
      then have "lane_ok s g' l'" using l' lanes by (simp add: t(5) lanes_ok_def)
      then show ?thesis by (rule lane_ok_keep) (use t(1) group in simp_all)
    qed
  qed
  moreover have "subs_ok t"
    using subs waits unfolding subs_ok_def
    by (auto simp: t(1,2,3,4) split: option.splits)
  ultimately show ?thesis unfolding t_def [symmetric] by (simp add: lw_inv_def t(1))
qed

lemma inv_detach:
  assumes inv: "lw_inv s" and m: "m < length (fl_subs s)"
  shows "lw_inv (lw_detach m s)"
proof (cases "snd (fl_subs s ! m)")
  case True
  then show ?thesis using inv by (simp add: lw_detach_def)
next
  case attached: False
  have subs: "subs_ok s" and lanes: "lanes_ok s" and ok: "j < flight_count s \<Longrightarrow> flight_ok s j" for j
    using inv by (simp_all add: lw_inv_def)
  define i where "i = fst (fl_subs s ! m)"
  define s1 where "s1 = discard_subscriber m s"
  define g where "g = fl_group (flight_at s i)"
  have i: "i < flight_count s" unfolding i_def by (rule subs_ok_target [OF subs m])
  have s1: "flight_count s1 = flight_count s" "fl_pending s1 = fl_pending s" "lanes s1 = lanes s"
      "cancel_abandoned s1 = cancel_abandoned s"
      "j < flight_count s \<Longrightarrow> flight_at s1 j = (if j = i then (flight_at s i)\<lparr>fl_subscribers :=
         removeAll m (fl_subscribers (flight_at s i))\<rparr> else flight_at s j)" for j
    by (simp_all add: s1_def i_def)
  have groups: "fl_group (flight_at s1 j) = fl_group (flight_at s j)" if "j < flight_count s" for j
    using that by (simp add: s1(5))
  have same: "j < flight_count s \<Longrightarrow> place_of s1 j = place_of s j" "lanes_ok s \<Longrightarrow> lanes_ok s1" for j
    using same_places [of s1 s, OF s1(3,1) groups] by auto
  have subs1: "subs_ok s1" unfolding s1_def by (rule subs_ok_discard [OF subs m])
  have others: "flight_ok s1 j" if "j < flight_count s" "j \<noteq> i" for j
    using that same(1) [OF that(1)] by (intro flight_ok_frame [OF ok [OF that(1)]]) (simp_all add: s1)
  have mine: "flight_ok s1 i" if "place_of s i \<noteq> Waiting_slot \<or> fl_subscribers (flight_at s1 i) \<noteq> []"
    using that ok [OF i] same(1) [OF i] i
    by (cases "place_of s i") (auto simp: flight_ok_def s1 split: phase.splits outcome.splits)
  have unchanged: "lw_inv s1" if "place_of s i \<noteq> Waiting_slot \<or> fl_subscribers (flight_at s1 i) \<noteq> []"
    unfolding lw_inv_def using others mine [OF that] subs1 same(2) [OF lanes] s1(1) by auto
  have g1: "fl_group (flight_at s1 i) = g" using groups [OF i] by (simp add: g_def)
  have step: "lw_detach m s = (case map_of (lanes s) g of
       None \<Rightarrow> s1
     | Some l \<Rightarrow>
         if fl_subscribers (flight_at s1 i) \<noteq> [] then s1
         else if waiting l = Some i
         then post (Cancel_outcome i) (s1\<lparr>lanes := AList.update g (l\<lparr>waiting := None\<rparr>) (lanes s1)\<rparr>)
         else if cancel_abandoned s1 \<and> running l = Some i \<and> fl_outcome (flight_at s1 i) = Pending
         then post (Cancel_token i) (on_flight i (\<lambda>f. f\<lparr>fl_cancelling := True\<rparr>) s1)
         else s1)"
    unfolding lw_detach_def Let_def i_def [symmetric] s1_def [symmetric] g1 s1(3)
    using attached by (simp add: i_def [symmetric])
  show ?thesis
  proof (cases "map_of (lanes s) g")
    case None
    then have "place_of s i = No_lane" by (simp add: place_of_def lane_of_def g_def [symmetric] empty_lane_def)
    then show ?thesis using unchanged None by (simp add: step)
  next
    case (Some l)
    then have lane: "lane_of (fl_group (flight_at s i)) s = l" by (simp add: lane_of_def g_def [symmetric])
    consider "fl_subscribers (flight_at s1 i) \<noteq> []"
      | "fl_subscribers (flight_at s1 i) = []" "waiting l = Some i"
      | "fl_subscribers (flight_at s1 i) = []" "waiting l \<noteq> Some i" "cancel_abandoned s1"
        "running l = Some i" "fl_outcome (flight_at s1 i) = Pending"
      | "fl_subscribers (flight_at s1 i) = []" "waiting l \<noteq> Some i"
        "\<not> (cancel_abandoned s1 \<and> running l = Some i \<and> fl_outcome (flight_at s1 i) = Pending)"
      by blast
    then show ?thesis
    proof cases
      case 1
      then show ?thesis using unchanged Some by (simp add: step)
    next
      case 4
      then have "place_of s i \<noteq> Waiting_slot" by (simp add: place_of_def lane)
      then show ?thesis using unchanged Some 4 by (auto simp: step)
    next
      case 3
      then have run: "place_of s i = Running_slot" by (simp add: place_of_def lane)
      let ?t = "post (Cancel_token i) (on_flight i (\<lambda>f. f\<lparr>fl_cancelling := True\<rparr>) s1)"
      have tg: "fl_group (flight_at ?t j) = fl_group (flight_at s1 j)" if "j < flight_count s1" for j
        using that by simp
      note samet = same_places [of ?t s1, OF _ _ tg, simplified]
      have "flight_ok ?t j" if j: "j < flight_count s" for j
      proof (cases "j = i")
        case True
        then show ?thesis
          using 3 run mine samet(1) [of i] same(1) [OF i] i s1(1)
          by (auto simp: flight_ok_def split: phase.splits)
      next
        case False
        then show ?thesis
          using others [OF j] samet(1) [of j] j s1(1) by (intro flight_ok_frame [of s1 j ?t]) auto
      qed
      then have "lw_inv ?t"
        using subs1 samet(2) same(2) [OF lanes] i s1(1)
        by (auto simp: lw_inv_def intro!: subs_ok_post subs_ok_on_flight)
      then show ?thesis using 3 Some by (simp add: step)
    next
      case 2
      let ?u = "s1\<lparr>lanes := AList.update g (l\<lparr>waiting := None\<rparr>) (lanes s1)\<rparr>"
      have wait: "place_of s i = Waiting_slot" using place_of_slots(2) [OF lanes Some 2(2)] by blast
      then have oki: "fl_phase (flight_at s1 i) = Created" "fl_outcome (flight_at s1 i) = Pending"
          "posted s1 (Start i) = 0" "posted s1 (Fail_replaced i) = 0" "posted s1 (Cancel_outcome i) = 0"
          "posted s1 (Cancel_token i) = 0" "\<not> fl_token (flight_at s1 i)" "\<not> fl_cancelling (flight_at s1 i)"
        using ok [OF i] by (simp_all add: flight_ok_def s1 i)
      obtain r where r: "running l = Some r" "r \<noteq> i" "fl_group (flight_at s r) = g" "r < flight_count s"
        using lanes_okD(1) [OF lanes Some] 2(2) by auto
      have laneu: "lane_of h ?u = (if h = g then l\<lparr>waiting := None\<rparr> else lane_of h s1)" for h
        by (simp add: lane_of_def map_of_update)
      have laneg: "lane_of g s1 = l" by (simp add: lane_of_def s1(3) Some)
      have placeu: "place_of ?u j = (if j = i then No_lane else place_of s1 j)" if "j < flight_count s" for j
        using r 2(2) laneu laneg g1
        by (cases "fl_group (flight_at s1 j) = g") (auto simp: place_of_def Let_def)
      have "flight_ok (post (Cancel_outcome i) ?u) j" if j: "j < flight_count s" for j
      proof (cases "j = i")
        case True
        then show ?thesis
          using oki 2(1) placeu [OF i] by (simp add: flight_ok_def)
      next
        case False
        then show ?thesis
          using placeu [OF j] by (intro flight_ok_frame [OF others [OF j False]]) simp_all
      qed
      moreover have "lanes_ok ?u"
        unfolding lanes_ok_def
      proof (intro allI impI)
        fix g' l' assume l': "map_of (lanes ?u) g' = Some l'"
        show "lane_ok ?u g' l'"
        proof (cases "g' = g")
          case True
          then show ?thesis using l' r groups by (auto simp: map_of_update lane_ok_def s1(1))
        next
          case False
          then have "lane_ok s g' l'" using l' lanes by (simp add: map_of_update s1(3) lanes_ok_def)
          then show ?thesis by (rule lane_ok_keep) (use groups s1(1) in simp_all)
        qed
      qed
      moreover have "subs_ok (post (Cancel_outcome i) ?u)"
        using i s1(1) subs_ok_cong [OF subs1, of ?u] by (intro subs_ok_post) simp_all
      ultimately have "lw_inv (post (Cancel_outcome i) ?u)" by (simp add: lw_inv_def s1(1))
      then show ?thesis using 2 Some by (simp add: step)
    qed
  qed
qed

lemma lw_step_inv: "lw_step s s' \<Longrightarrow> lw_inv s \<Longrightarrow> lw_inv s'"
  by (induction rule: lw_step.induct)
    (auto intro: inv_subscribe inv_perform inv_returns inv_finished inv_detach)

lemma lw_init_inv: "lw_inv (lw_init abandon)"
  by (simp add: lw_inv_def lw_init_def subs_ok_def lanes_ok_def)

lemma lw_reachable_inv: "lw_reachable abandon s \<Longrightarrow> lw_inv s"
  by (induction rule: lw_reachable.induct) (auto intro: lw_init_inv lw_step_inv)

section \<open>What the queue promises\<close>

definition on_thread :: "('g, 'k, 'v) flight \<Rightarrow> bool" where
  "on_thread f \<longleftrightarrow> fl_phase f = Thread_running \<or> fl_phase f = Returned"

lemma on_thread_runs:
  "lw_inv s \<Longrightarrow> i < flight_count s \<Longrightarrow> on_thread (flight_at s i) \<Longrightarrow> place_of s i = Running_slot"
  using place_ok_thread unfolding lw_inv_def flight_ok_def on_thread_def by blast

text \<open>
  C17: In every reachable state of a latest-wins queue, under any interleaving, a group has at
  most one run on a thread and a waiting flight has not started; a run whose token is cancelled
  has no subscriber; and a caller still attached never waits on a dropped flight.
\<close>

theorem lw_reachable_safe:
  assumes "lw_reachable abandon s"
  shows "(\<forall>i < flight_count s. \<forall>j < flight_count s.
      fl_group (flight_at s i) = fl_group (flight_at s j) \<longrightarrow> on_thread (flight_at s i) \<longrightarrow>
      on_thread (flight_at s j) \<longrightarrow> i = j) \<and>
    (\<forall>i < flight_count s. waiting (lane_of (fl_group (flight_at s i)) s) = Some i \<longrightarrow>
      fl_phase (flight_at s i) = Created) \<and>
    (\<forall>i < flight_count s. fl_token (flight_at s i) \<longrightarrow> fl_subscribers (flight_at s i) = []) \<and>
    (\<forall>m < length (fl_subs s). \<not> snd (fl_subs s ! m) \<longrightarrow> fst (wait_round lw_detach m False s) \<noteq> Waited_on_dropped)"
proof -
  have inv: "lw_inv s" by (rule lw_reachable_inv [OF assms])
  then have subs: "subs_ok s" and lanes: "lanes_ok s"
    and ok: "i < flight_count s \<Longrightarrow> place_ok (place_of s i) (flight_at s i) (posted s (Start i))
      (posted s (Fail_replaced i)) (posted s (Cancel_outcome i)) (posted s (Cancel_token i))" for i
    by (simp_all add: lw_inv_def flight_ok_def)
  have one: "i = j" if "i < flight_count s" "j < flight_count s"
      "fl_group (flight_at s i) = fl_group (flight_at s j)" "on_thread (flight_at s i)" "on_thread (flight_at s j)" for i j
    using place_runs [OF lanes that(1) on_thread_runs [OF inv that(1,4)]]
      place_runs [OF lanes that(2) on_thread_runs [OF inv that(2,5)]] that(3) by auto
  have wait: "fl_phase (flight_at s i) = Created"
    if "i < flight_count s" "waiting (lane_of (fl_group (flight_at s i)) s) = Some i" for i
  proof -
    have "map_of (lanes s) (fl_group (flight_at s i)) = Some (lane_of (fl_group (flight_at s i)) s)"
      using that(2) by (auto simp: lane_of_def empty_lane_def split: option.splits)
    then have "place_of s i = Waiting_slot" using place_of_slots(2) [OF lanes] that(2) by blast
    then show ?thesis using ok [OF that(1)] by simp
  qed
  have token: "fl_subscribers (flight_at s i) = []" if "i < flight_count s" "fl_token (flight_at s i)" for i
    using ok [OF that(1)] that(2) by (cases "place_of s i") auto
  have "fst (wait_round lw_detach m False s) \<noteq> Waited_on_dropped"
    if m: "m < length (fl_subs s)" "\<not> snd (fl_subs s ! m)" for m
  proof -
    let ?i = "fst (fl_subs s ! m)"
    have "fl_subscribers (flight_at s ?i) \<noteq> []" using subs_ok_member [OF subs m] by auto
    then have "fl_outcome (flight_at s ?i) \<noteq> Dropped"
      using ok [OF subs_ok_target [OF subs m(1)]] by (cases "place_of s ?i") (auto simp: run_result_def split: phase.splits)
    then show ?thesis by (simp add: wait_round_def split: outcome.split)
  qed
  with one wait token show ?thesis by blast
qed

text \<open>
  What the queue does by itself, with no request and no caller leaving: it performs its pending
  effects, runs return, and a returned run is finished.
\<close>

inductive lw_progress :: "('g, 'k, 'v) latest_wins \<Rightarrow> ('g, 'k, 'v) latest_wins \<Rightarrow> bool" where
  progress_performs: "e \<in># fl_pending s \<Longrightarrow> lw_progress s (perform e s)"
| progress_returns: "i < flight_count s \<Longrightarrow> fl_phase (flight_at s i) = Thread_running \<Longrightarrow> run_result out \<Longrightarrow>
    lw_progress s (run_returns i out s)"
| progress_finishes: "i < flight_count s \<Longrightarrow> fl_phase (flight_at s i) = Returned \<Longrightarrow>
    lw_progress s (lw_finished i s)"

lemma lw_progress_step: "lw_progress s t \<Longrightarrow> lw_step s t"
  by (induction rule: lw_progress.induct) (auto intro: lw_performs lw_returns lw_finishes)

text \<open>The work left: each phase a flight has yet to go through, and each pending effect.\<close>

fun phase_rank :: "phase \<Rightarrow> nat" where
  "phase_rank Created = 3"
| "phase_rank Thread_running = 2"
| "phase_rank Returned = 1"
| "phase_rank Ended = 0"

definition work_left :: "('g, 'k, 'v) latest_wins \<Rightarrow> nat" where
  "work_left s = 2 * (\<Sum>i<flight_count s. phase_rank (fl_phase (flight_at s i))) + size (fl_pending s)"

lemma sum_one_changes:
  fixes f g :: "nat \<Rightarrow> nat"
  assumes "i < n" "\<And>j. j < n \<Longrightarrow> j \<noteq> i \<Longrightarrow> f j = g j"
  shows "sum f {..<n} + g i = sum g {..<n} + f i"
proof -
  have "sum f ({..<n} - {i}) = sum g ({..<n} - {i})" using assms(2) by (intro sum.cong) auto
  then show ?thesis using sum.remove [of "{..<n}" i f] sum.remove [of "{..<n}" i g] assms(1) by simp
qed

lemma rank_one_changes:
  assumes "flight_count t = flight_count s" "i < flight_count s"
    "\<And>j. j < flight_count s \<Longrightarrow> j \<noteq> i \<Longrightarrow> fl_phase (flight_at t j) = fl_phase (flight_at s j)"
  shows "(\<Sum>j<flight_count t. phase_rank (fl_phase (flight_at t j))) + phase_rank (fl_phase (flight_at s i)) =
    (\<Sum>j<flight_count s. phase_rank (fl_phase (flight_at s j))) + phase_rank (fl_phase (flight_at t i))"
  unfolding assms(1) by (rule sum_one_changes [OF assms(2)]) (simp add: assms(3))

lemma start_created:
  assumes "lw_inv s" "i < flight_count s" "0 < posted s (Start i)"
  shows "fl_phase (flight_at s i) = Created"
proof -
  have "flight_ok s i" using assms(1,2) by (simp add: lw_inv_def)
  then show ?thesis
    using assms(3)
    by (cases "place_of s i"; cases "fl_phase (flight_at s i)")
      (auto simp: flight_ok_def simp del: count_greater_zero_iff)
qed

lemma progress_less:
  assumes inv: "lw_inv s" and step: "lw_progress s t"
  shows "lw_inv t \<and> flight_count t = flight_count s \<and> work_left t < work_left s"
  using step
proof (cases rule: lw_progress.cases)
  case (progress_performs e)
  let ?i = "effect_target e"
  have i: "?i < flight_count s" using inv progress_performs(2) subs_ok_effect by (auto simp: lw_inv_def)
  have size: "size (fl_pending t) < size (fl_pending s)"
    using progress_performs by (simp add: size_Diff1_less)
  have "phase_rank (fl_phase (flight_at t ?i)) \<le> phase_rank (fl_phase (flight_at s ?i))"
    using i start_created [OF inv i] progress_performs
    by (cases e) (auto simp: settle_def)
  then have "work_left t < work_left s"
    using rank_one_changes [of t s ?i] i size progress_performs(1) by (simp add: work_left_def)
  then show ?thesis using inv_perform [OF inv progress_performs(2)] progress_performs(1) by simp
next
  case (progress_returns i out)
  have "work_left t < work_left s"
    using rank_one_changes [of t s i] progress_returns by (simp add: work_left_def)
  then show ?thesis using inv_returns [OF inv progress_returns(2-4)] progress_returns(1) by simp
next
  case (progress_finishes i)
  have t: "flight_count t = flight_count s" "size (fl_pending t) \<le> size (fl_pending s) + 1"
    "\<And>j. j < flight_count s \<Longrightarrow> fl_phase (flight_at t j) = (if j = i then Ended else fl_phase (flight_at s j))"
    unfolding progress_finishes(1) lw_finished_def Let_def by (auto split: option.split)
  then have "work_left t < work_left s"
    using rank_one_changes [of t s i] progress_finishes(2,3) by (simp add: work_left_def)
  then show ?thesis using inv_finished [OF inv progress_finishes(2,3)] t(1) progress_finishes(1) by simp
qed

lemma progress_bounded: "(lw_progress ^^ n) s t \<Longrightarrow> lw_inv s \<Longrightarrow> n + work_left t \<le> work_left s"
proof (induction n arbitrary: t)
  case (Suc n)
  then obtain u where u: "(lw_progress ^^ n) s u" "lw_progress u t" by auto
  have "lw_inv u"
    using u(1) Suc.prems(2) by (induction n arbitrary: u) (auto dest: progress_less)
  then show ?case using Suc.IH [OF u(1) Suc.prems(2)] progress_less [of u t] u(2) by simp
qed simp

lemma progress_inv: "lw_progress\<^sup>*\<^sup>* s t \<Longrightarrow> lw_inv s \<Longrightarrow> lw_inv t \<and> flight_count t = flight_count s"
  by (induction rule: rtranclp_induct) (auto dest: progress_less)

text \<open>With nothing left to do no run is on its way, so no lane is occupied and all is settled.\<close>

lemma stuck_settled:
  assumes inv: "lw_inv t" and stuck: "\<And>u. \<not> lw_progress t u" and i: "i < flight_count t"
  shows "fl_outcome (flight_at t i) \<noteq> Pending"
proof -
  have lanes: "lanes_ok t" and ok: "j < flight_count t \<Longrightarrow> flight_ok t j" for j
    using inv by (simp_all add: lw_inv_def)
  have pending: "fl_pending t = {#}" using stuck progress_performs by (metis multiset_nonemptyE)
  have phase: "fl_phase (flight_at t j) \<noteq> Thread_running" "fl_phase (flight_at t j) \<noteq> Returned"
    if "j < flight_count t" for j
    using stuck progress_returns [OF that, of "Raised []"] progress_finishes [OF that]
    by (auto simp: run_result_def)
  have slot: "place_of t j \<noteq> Running_slot" if "j < flight_count t" for j
    using ok [OF that] phase [OF that] by (auto simp: flight_ok_def pending split: phase.splits)
  have "map_of (lanes t) g = None" for g
  proof (rule ccontr)
    assume "map_of (lanes t) g \<noteq> None"
    then obtain l where l: "map_of (lanes t) g = Some l" by blast
    then obtain r where "running l = Some r" "r < flight_count t" using lanes_okD(1) [OF lanes] by blast
    then show False using place_of_slots(1) [OF lanes l] slot by blast
  qed
  then have "place_of t i = No_lane" by (simp add: place_of_def lane_of_def empty_lane_def)
  then show ?thesis using ok [OF i] by (auto simp: flight_ok_def pending run_result_def split: phase.splits)
qed

text \<open>
  C18: No flight is lost. From every reachable state of a latest-wins queue, with no further request
  and no caller leaving, the queue comes to rest by itself: it takes at most \<open>work_left\<close> steps,
  whichever pending effects are performed first and however the runs return, and once none is left
  every flight's outcome is settled, so that all subscribers stop waiting.
\<close>

theorem lw_every_flight_settles:
  assumes "lw_reachable abandon s"
  shows "(\<forall>n t. (lw_progress ^^ n) s t \<longrightarrow> n \<le> work_left s) \<and>
    (\<forall>t. lw_progress\<^sup>*\<^sup>* s t \<longrightarrow> (\<forall>u. \<not> lw_progress t u) \<longrightarrow>
      (\<forall>i < flight_count s. fl_outcome (flight_at t i) \<noteq> Pending))"
proof -
  have inv: "lw_inv s" by (rule lw_reachable_inv [OF assms])
  then show ?thesis
    using progress_bounded [of _ s] progress_inv [of s] stuck_settled by (metis add_leE)
qed

section \<open>The queue refines one running and one waiting key per group\<close>

datatype 'k lane_view = Idle | Busy 'k bool | Queued 'k bool 'k

text \<open>
  A group as its callers see it: the running key, whether its run is winding down after every
  caller left, and the key that waits.
\<close>

inductive view_step :: "'k lane_view \<Rightarrow> 'k lane_view \<Rightarrow> bool" where
  view_stays: "view_step v v"
| view_starts: "view_step Idle (Busy k False)"
| view_queues: "r \<noteq> k \<or> c \<Longrightarrow> view_step (Busy r c) (Queued r c k)"
| view_replaces: "r \<noteq> k \<or> c \<Longrightarrow> view_step (Queued r c w) (Queued r c k)"
| view_idles: "view_step (Busy r c) Idle"
| view_advances: "view_step (Queued r c w) (Busy w False)"
| view_drops: "view_step (Queued r c w) (Busy r c)"
| view_abandons: "view_step (Busy r False) (Busy r True)"
| view_abandons_queued: "view_step (Queued r False w) (Queued r True w)"

definition lane_view :: "'g \<Rightarrow> ('g, 'k, 'v) latest_wins \<Rightarrow> 'k lane_view" where
  "lane_view g s =
     (let l = lane_of g s in
      case running l of None \<Rightarrow> Idle
      | Some r \<Rightarrow>
         (case waiting l of
            None \<Rightarrow> Busy (fl_key (flight_at s r)) (fl_cancelling (flight_at s r))
          | Some w \<Rightarrow> Queued (fl_key (flight_at s r)) (fl_cancelling (flight_at s r)) (fl_key (flight_at s w))))"

definition simulates :: "('g, 'k, 'v) latest_wins \<Rightarrow> ('g, 'k, 'v) latest_wins \<Rightarrow> 'g \<Rightarrow> bool" where
  "simulates s t g \<longleftrightarrow> (\<forall>g'. g' \<noteq> g \<longrightarrow> lane_view g' t = lane_view g' s) \<and>
     view_step (lane_view g s) (lane_view g t)"

lemma lane_members:
  assumes "lanes_ok s"
  shows "running (lane_of g s) = Some r \<Longrightarrow> r < flight_count s \<and> fl_group (flight_at s r) = g"
    and "waiting (lane_of g s) = Some w \<Longrightarrow> w < flight_count s \<and> fl_group (flight_at s w) = g \<and> running (lane_of g s) \<noteq> None"
  using lanes_okD [OF assms, of g] by (auto simp: lane_of_def empty_lane_def split: option.splits)

lemma lane_view_cong:
  assumes "lanes_ok s" "lane_of g t = lane_of g s"
    and "\<And>i. i < flight_count s \<Longrightarrow> fl_group (flight_at s i) = g \<Longrightarrow>
      fl_key (flight_at t i) = fl_key (flight_at s i) \<and> fl_cancelling (flight_at t i) = fl_cancelling (flight_at s i)"
  shows "lane_view g t = lane_view g s"
  using lane_members [OF assms(1), of g] assms(2,3)
  by (auto simp: lane_view_def Let_def split: option.split)

lemma simulates_stutter:
  assumes "lanes_ok s" "lanes t = lanes s"
    and "\<And>i. i < flight_count s \<Longrightarrow> fl_key (flight_at t i) = fl_key (flight_at s i) \<and>
      fl_cancelling (flight_at t i) = fl_cancelling (flight_at s i)"
  shows "simulates s t g"
proof -
  have "lane_view g' t = lane_view g' s" for g'
    by (rule lane_view_cong [OF assms(1)]) (use assms(2,3) in \<open>simp_all add: lane_of_def\<close>)
  then show ?thesis by (simp add: simulates_def view_stays)
qed

lemma settle_cancelling [simp]: "fl_cancelling (settle out f) = fl_cancelling f"
  by (simp add: settle_def)

lemma simulates_add: "lanes_ok s \<Longrightarrow> simulates s (add_subscriber j s) g"
  by (rule simulates_stutter) auto

lemma simulates_subscribe:
  assumes inv: "lw_inv s"
  shows "simulates s (lw_subscribe g k s) g"
proof -
  let ?l = "lane_of g s" and ?n = "flight_count s"
  have lanes: "lanes_ok s" using inv by (simp add: lw_inv_def)
  show ?thesis
  proof (cases "joins_running k ?l s = None \<and> joins_waiting k ?l s = None")
    case False
    then show ?thesis
      using simulates_add [OF lanes, of _ g] by (auto simp: lw_subscribe_def Let_def split: option.splits)
  next
    case new: True
    define l' where "l' = (if running ?l = None then ?l\<lparr>running := Some ?n\<rparr> else ?l\<lparr>waiting := Some ?n\<rparr>)"
    define t where "t = lw_subscribe g k s"
    have t: "lanes t = AList.update g l' (lanes s)" "fl_list t = fl_list (with_flight g k l' s)"
      using new by (auto simp: t_def l'_def lw_subscribe_def Let_def with_flight_def [symmetric]
          post_replaced_def post_def split: option.split)
    have old: "i < ?n \<Longrightarrow> flight_at t i = flight_at s i" for i by (simp add: t(2))
    have fresh: "fl_key (flight_at t ?n) = k" "fl_cancelling (flight_at t ?n) = False"
      by (simp_all add: t(2) new_flight_def)
    have lane_t: "lane_of g' t = (if g' = g then l' else lane_of g' s)" for g'
      by (rule lane_of_update [OF t(1)])
    have "lane_view g' t = lane_view g' s" if "g' \<noteq> g" for g'
      by (rule lane_view_cong [OF lanes]) (use that lane_t old in simp_all)
    moreover have "view_step (lane_view g s) (lane_view g t)"
    proof (cases "running ?l")
      case None
      then have "waiting ?l = None" using lane_members(2) [OF lanes, of g] by (cases "waiting ?l") auto
      then show ?thesis
        using None fresh by (simp add: lane_view_def lane_t l'_def view_starts)
    next
      case (Some r)
      then have r: "r < ?n" using lane_members(1) [OF lanes] by blast
      have miss: "fl_key (flight_at s r) \<noteq> k \<or> fl_cancelling (flight_at s r)"
        using new Some by (auto simp: joins_running_def split: if_splits)
      then show ?thesis
        using Some fresh old [OF r]
        by (cases "waiting ?l") (auto simp: lane_view_def lane_t l'_def intro: view_queues view_replaces)
    qed
    ultimately show ?thesis by (simp add: simulates_def t_def)
  qed
qed

lemma simulates_finished:
  assumes inv: "lw_inv s" and i: "i < flight_count s" "fl_phase (flight_at s i) = Returned"
  shows "simulates s (lw_finished i s) (fl_group (flight_at s i))"
proof -
  have lanes: "lanes_ok s" and ok: "j < flight_count s \<Longrightarrow> flight_ok s j" for j
    using inv by (simp_all add: lw_inv_def)
  define g where "g = fl_group (flight_at s i)"
  have "place_of s i = Running_slot"
    using place_ok_thread(2) [OF ok [OF i(1), unfolded flight_ok_def] i(2)] by simp
  then obtain l where l: "map_of (lanes s) g = Some l" "running l = Some i"
    using place_runs [OF lanes i(1)] by (auto simp: g_def)
  then have lane: "lane_of g s = l" by (simp add: lane_of_def)
  define t where "t = lw_finished i s"
  have lane_t: "lane_of g' t = (if g' = g then case waiting l of None \<Rightarrow> empty_lane
      | Some w \<Rightarrow> \<lparr>running = Some w, waiting = None\<rparr> else lane_of g' s)" for g'
    unfolding t_def lw_finished_def Let_def g_def [symmetric] lane
    by (auto simp: lane_of_def map_of_update map_of_delete split: option.split)
  have keep: "fl_key (flight_at t j) = fl_key (flight_at s j)" "fl_cancelling (flight_at t j) = fl_cancelling (flight_at s j)"
    if "j < flight_count s" for j
    using that unfolding t_def lw_finished_def Let_def by (auto split: option.split)
  have "lane_view g' t = lane_view g' s" if "g' \<noteq> g" for g'
    by (rule lane_view_cong [OF lanes]) (use that lane_t keep in simp_all)
  moreover have "view_step (lane_view g s) (lane_view g t)"
  proof (cases "waiting l")
    case None
    then show ?thesis using l(2) lane lane_t [of g] by (simp add: lane_view_def empty_lane_def view_idles)
  next
    case (Some w)
    then have w: "w < flight_count s" "place_of s w = Waiting_slot"
      using place_of_slots(2) [OF lanes l(1)] by blast+
    then have "\<not> fl_cancelling (flight_at s w)" using ok [OF w(1)] by (simp add: flight_ok_def)
    then show ?thesis using Some l(2) lane lane_t [of g] keep [OF w(1)] by (simp add: lane_view_def view_advances)
  qed
  ultimately show ?thesis by (simp add: simulates_def t_def g_def)
qed

lemma simulates_detach:
  assumes inv: "lw_inv s" and m: "m < length (fl_subs s)"
  shows "\<exists>g. simulates s (lw_detach m s) g"
proof -
  have subs: "subs_ok s" and lanes: "lanes_ok s" and ok: "j < flight_count s \<Longrightarrow> flight_ok s j" for j
    using inv by (simp_all add: lw_inv_def)
  define i where "i = fst (fl_subs s ! m)"
  define s1 where "s1 = discard_subscriber m s"
  define g where "g = fl_group (flight_at s1 i)"
  have i: "i < flight_count s" unfolding i_def by (rule subs_ok_target [OF subs m])
  have s1: "flight_count s1 = flight_count s" "lanes s1 = lanes s"
      "j < flight_count s \<Longrightarrow> fl_key (flight_at s1 j) = fl_key (flight_at s j)"
      "j < flight_count s \<Longrightarrow> fl_cancelling (flight_at s1 j) = fl_cancelling (flight_at s j)"
      "j < flight_count s \<Longrightarrow> fl_group (flight_at s1 j) = fl_group (flight_at s j)" for j
    by (simp_all add: s1_def)
  have stutter: "simulates s s1 g" by (rule simulates_stutter [OF lanes]) (simp_all add: s1)
  show ?thesis
  proof (cases "snd (fl_subs s ! m)")
    case True
    then show ?thesis by (intro exI [of _ g]) (simp add: lw_detach_def simulates_def view_stays)
  next
    case attached: False
    have step: "lw_detach m s = (case map_of (lanes s1) g of
       None \<Rightarrow> s1
     | Some l \<Rightarrow>
         if fl_subscribers (flight_at s1 i) \<noteq> [] then s1
         else if waiting l = Some i
         then post (Cancel_outcome i) (s1\<lparr>lanes := AList.update g (l\<lparr>waiting := None\<rparr>) (lanes s1)\<rparr>)
         else if cancel_abandoned s1 \<and> running l = Some i \<and> fl_outcome (flight_at s1 i) = Pending
         then post (Cancel_token i) (on_flight i (\<lambda>f. f\<lparr>fl_cancelling := True\<rparr>) s1)
         else s1)"
      unfolding lw_detach_def Let_def i_def [symmetric] s1_def [symmetric] g_def [symmetric]
      using attached by (simp add: i_def [symmetric])
    consider "lw_detach m s = s1"
      | l where "map_of (lanes s) g = Some l" "waiting l = Some i"
        "lw_detach m s = post (Cancel_outcome i) (s1\<lparr>lanes := AList.update g (l\<lparr>waiting := None\<rparr>) (lanes s1)\<rparr>)"
      | l where "map_of (lanes s) g = Some l" "waiting l \<noteq> Some i" "running l = Some i"
        "lw_detach m s = post (Cancel_token i) (on_flight i (\<lambda>f. f\<lparr>fl_cancelling := True\<rparr>) s1)"
    proof (cases "map_of (lanes s) g")
      case None
      then have "lw_detach m s = s1" by (simp add: step s1(2))
      then show thesis by (rule that(1))
    next
      case (Some l)
      then have "lw_detach m s = s1 \<or>
          waiting l = Some i \<and> lw_detach m s =
            post (Cancel_outcome i) (s1\<lparr>lanes := AList.update g (l\<lparr>waiting := None\<rparr>) (lanes s1)\<rparr>) \<or>
          waiting l \<noteq> Some i \<and> running l = Some i \<and> lw_detach m s =
            post (Cancel_token i) (on_flight i (\<lambda>f. f\<lparr>fl_cancelling := True\<rparr>) s1)"
        by (simp add: step s1(2))
      then show thesis using that(1) that(2) [OF Some] that(3) [OF Some] by blast
    qed
    then show ?thesis
    proof cases
      case 1
      then show ?thesis using stutter by auto
    next
      case (2 l)
      have lane: "lane_of g s = l" using 2(1) by (simp add: lane_of_def)
      obtain r where r: "running l = Some r" "r < flight_count s" using lanes_okD(1) [OF lanes 2(1)] by blast
      have lane_t: "lane_of g' (lw_detach m s) = (if g' = g then l\<lparr>waiting := None\<rparr> else lane_of g' s)" for g'
        using 2(3) by (simp add: lane_of_def map_of_update s1(2))
      have keep: "fl_key (flight_at (lw_detach m s) j) = fl_key (flight_at s j) \<and>
          fl_cancelling (flight_at (lw_detach m s) j) = fl_cancelling (flight_at s j)" if "j < flight_count s" for j
        using that 2(3) s1(3,4) by simp
      have "lane_view g' (lw_detach m s) = lane_view g' s" if "g' \<noteq> g" for g'
        by (rule lane_view_cong [OF lanes]) (use that lane_t keep in simp_all)
      moreover have "view_step (lane_view g s) (lane_view g (lw_detach m s))"
        using 2(2) r keep [OF r(2)] lane lane_t [of g] by (simp add: lane_view_def view_drops)
      ultimately show ?thesis unfolding simulates_def by blast
    next
      case (3 l)
      have lane: "lane_of g s = l" using 3(1) by (simp add: lane_of_def)
      have "place_of s i = Running_slot" using place_of_slots(1) [OF lanes 3(1,3)] by blast
      moreover have "fl_subscribers (flight_at s i) \<noteq> []"
        using subs_ok_member [OF subs m attached] by (auto simp: i_def)
      ultimately have free: "\<not> fl_cancelling (flight_at s i)" using ok [OF i] by (auto simp: flight_ok_def)
      have lane_t: "lane_of g' (lw_detach m s) = lane_of g' s" for g'
        using 3(4) by (simp add: lane_of_def s1(2))
      have keep: "fl_key (flight_at (lw_detach m s) j) = fl_key (flight_at s j) \<and>
          fl_cancelling (flight_at (lw_detach m s) j) = (j = i \<or> fl_cancelling (flight_at s j))"
        if "j < flight_count s" for j
        using that 3(4) s1 by simp
      have gi: "fl_group (flight_at s i) = g" using s1(5) [OF i] by (simp add: g_def)
      have "lane_view g' (lw_detach m s) = lane_view g' s" if "g' \<noteq> g" for g'
      proof (rule lane_view_cong [OF lanes lane_t])
        fix j assume j: "j < flight_count s" "fl_group (flight_at s j) = g'"
        then have "j \<noteq> i" using that gi by auto
        then show "fl_key (flight_at (lw_detach m s) j) = fl_key (flight_at s j) \<and>
            fl_cancelling (flight_at (lw_detach m s) j) = fl_cancelling (flight_at s j)"
          using keep [OF j(1)] by simp
      qed
      moreover have "view_step (lane_view g s) (lane_view g (lw_detach m s))"
      proof (cases "waiting l")
        case None
        then show ?thesis
          using 3(3) free keep [OF i] lane lane_t [of g] by (simp add: lane_view_def view_abandons)
      next
        case (Some w)
        then have "w < flight_count s" using lanes_okD(2) [OF lanes 3(1)] by blast
        then show ?thesis
          using Some 3(3) free keep [OF i] keep [of w] lane lane_t [of g]
          by (simp add: lane_view_def view_abandons_queued)
      qed
      ultimately show ?thesis unfolding simulates_def by blast
    qed
  qed
qed

lemma cancelling_closed:
  assumes inv: "lw_inv s" and step: "lw_step s t" and i: "i < flight_count s" "fl_cancelling (flight_at s i)"
  shows "set (fl_subscribers (flight_at t i)) \<subseteq> set (fl_subscribers (flight_at s i))"
  using step
proof (cases rule: lw_step.cases)
  case (lw_subscribes g k)
  have lanes: "lanes_ok s" and ok: "flight_ok s i" using inv i by (simp_all add: lw_inv_def)
  have run: "joins_running k (lane_of g s) s \<noteq> Some i"
    using i(2) by (auto simp: joins_running_def split: option.splits)
  have wait: "joins_waiting k (lane_of g s) s \<noteq> Some i"
  proof
    assume "joins_waiting k (lane_of g s) s = Some i"
    then have w: "waiting (lane_of g s) = Some i" by (auto simp: joins_waiting_def split: option.splits if_splits)
    then have "map_of (lanes s) g = Some (lane_of g s)"
      by (auto simp: lane_of_def empty_lane_def split: option.splits)
    then have "place_of s i = Waiting_slot" using place_of_slots(2) [OF lanes] w by blast
    then show False using ok i(2) by (simp add: flight_ok_def)
  qed
  have "flight_at t i = flight_at s i"
    using run wait i(1) unfolding lw_subscribes lw_subscribe_def Let_def
    by (auto simp: with_flight_def [symmetric] post_replaced_def split: option.split)
  then show ?thesis by simp
next
  case (lw_performs e)
  then show ?thesis using i(1) by simp
next
  case (lw_returns j out)
  then show ?thesis using i(1) by simp
next
  case (lw_finishes j)
  then show ?thesis using i(1) by (auto simp: lw_finished_def Let_def split: option.split)
next
  case (lw_detaches m)
  then show ?thesis using i(1) by (auto simp: lw_detach_def Let_def split: option.splits)
qed

text \<open>
  C19: The queue refines the abstract machine of one running and one waiting key per group: every
  step of any reachable state changes the view of at most one group, and only by starting the
  first request, queueing or replacing the one waiter, advancing the waiter when the run ends,
  dropping a waiter, or marking an abandoned run; and a flight marked abandoned takes no further
  caller.
\<close>

theorem lw_refines_lane_view:
  assumes "lw_reachable abandon s" and "lw_step s t"
  shows "(\<exists>g. (\<forall>g'. g' \<noteq> g \<longrightarrow> lane_view g' t = lane_view g' s) \<and> view_step (lane_view g s) (lane_view g t)) \<and>
    (\<forall>i < flight_count s. fl_cancelling (flight_at s i) \<longrightarrow>
      set (fl_subscribers (flight_at t i)) \<subseteq> set (fl_subscribers (flight_at s i)))"
proof -
  have inv: "lw_inv s" by (rule lw_reachable_inv [OF assms(1)])
  then have lanes: "lanes_ok s" by (simp add: lw_inv_def)
  have "\<exists>g. simulates s t g"
    using assms(2)
  proof (cases rule: lw_step.cases)
    case (lw_subscribes g k)
    then show ?thesis using simulates_subscribe [OF inv] by blast
  next
    case (lw_performs e)
    show ?thesis unfolding lw_performs(1) by (intro exI simulates_stutter [OF lanes]) simp_all
  next
    case (lw_returns i out)
    show ?thesis unfolding lw_returns(1) by (intro exI simulates_stutter [OF lanes]) simp_all
  next
    case (lw_finishes i)
    then show ?thesis using simulates_finished [OF inv] by blast
  next
    case (lw_detaches m)
    then show ?thesis using simulates_detach [OF inv] by blast
  qed
  then show ?thesis using cancelling_closed [OF inv assms(2)] unfolding simulates_def by blast
qed

section \<open>The invariant of the shared flights\<close>

definition mapped :: "('k, 'v) shared_flights \<Rightarrow> nat \<Rightarrow> bool" where
  "mapped s i \<longleftrightarrow> map_of (sf_map s) (fl_key (flight_at s i)) = Some i"

definition shared_ok :: "bool \<Rightarrow> (unit, 'k, 'v) flight \<Rightarrow> nat \<Rightarrow> nat \<Rightarrow> bool" where
  "shared_ok here f st ct \<longleftrightarrow>
     st = (if fl_phase f = Created then 1 else 0) \<and>
     (if fl_phase f = Created \<or> fl_phase f = Thread_running then fl_outcome f = Pending
      else run_result (fl_outcome f)) \<and>
     (fl_token f \<or> 0 < ct \<longrightarrow> fl_subscribers f = [] \<and> \<not> here) \<and>
     (here \<longrightarrow> fl_phase f \<noteq> Ended) \<and>
     (fl_outcome f = Pending \<longrightarrow> here = (fl_subscribers f \<noteq> []))"

definition sf_flight_ok :: "('k, 'v) shared_flights \<Rightarrow> nat \<Rightarrow> bool" where
  "sf_flight_ok s i \<longleftrightarrow>
     shared_ok (mapped s i) (flight_at s i) (posted s (Start i)) (posted s (Cancel_token i)) \<and>
     posted s (Fail_replaced i) = 0 \<and> posted s (Cancel_outcome i) = 0"

definition sf_map_ok :: "('k, 'v) shared_flights \<Rightarrow> bool" where
  "sf_map_ok s \<longleftrightarrow> (\<forall>k i. map_of (sf_map s) k = Some i \<longrightarrow> i < flight_count s \<and> fl_key (flight_at s i) = k)"

definition sf_inv :: "('k, 'v) shared_flights \<Rightarrow> bool" where
  "sf_inv s \<longleftrightarrow> subs_ok s \<and> sf_map_ok s \<and> (\<forall>i < flight_count s. sf_flight_ok s i)"

lemma sf_map_simps [simp]:
  "sf_map (add_subscriber i s) = sf_map s" "sf_map (discard_subscriber i s) = sf_map s"
  "sf_map (on_flight i h s) = sf_map s" "sf_map (post e s) = sf_map s" "sf_map (perform e s) = sf_map s"
  "sf_map (run_returns i out s) = sf_map s"
  by (simp_all add: add_subscriber_def discard_subscriber_def on_flight_def post_def perform_def
      run_returns_def Let_def)

lemma sf_frame:
  assumes "sf_flight_ok s i" "mapped t i = mapped s i" "flight_at t i = flight_at s i"
    and "\<And>e. effect_target e = i \<Longrightarrow> posted t e = posted s e"
  shows "sf_flight_ok t i"
  using assms(1-3) assms(4) [of "Start i"] assms(4) [of "Cancel_token i"] assms(4) [of "Fail_replaced i"]
    assms(4) [of "Cancel_outcome i"]
  by (simp add: sf_flight_ok_def)

lemma sf_invD:
  assumes "sf_inv s"
  shows "subs_ok s" "sf_map_ok s" "i < flight_count s \<Longrightarrow> sf_flight_ok s i"
  using assms by (simp_all add: sf_inv_def)

text \<open>A step that keeps the map and the keys keeps what is mapped.\<close>

lemma same_mapped:
  assumes "sf_map t = sf_map s" "flight_count t = flight_count s"
    and "\<And>i. i < flight_count s \<Longrightarrow> fl_key (flight_at t i) = fl_key (flight_at s i)"
  shows "i < flight_count s \<Longrightarrow> mapped t i = mapped s i" "sf_map_ok s \<Longrightarrow> sf_map_ok t"
  using assms by (auto simp: mapped_def sf_map_ok_def)

lemma sf_inv_join:
  assumes inv: "sf_inv s" and j: "map_of (sf_map s) k = Some j"
  shows "sf_inv (add_subscriber j s)"
proof -
  let ?t = "add_subscriber j s"
  have jn: "j < flight_count s" "mapped s j" using sf_invD(2) [OF inv] j by (auto simp: sf_map_ok_def mapped_def)
  have keys: "fl_key (flight_at ?t i) = fl_key (flight_at s i)" if "i < flight_count s" for i
    using that by simp
  note same = same_mapped [of ?t s, OF _ _ keys, simplified]
  have "sf_flight_ok ?t i" if i: "i < flight_count s" for i
  proof (cases "i = j")
    case True
    then show ?thesis
      using sf_invD(3) [OF inv jn(1)] jn same(1) [OF jn(1)] by (auto simp: sf_flight_ok_def shared_ok_def)
  next
    case False
    then show ?thesis
      using same(1) [OF i] i by (intro sf_frame [OF sf_invD(3) [OF inv i]]) simp_all
  qed
  then show ?thesis
    using same(2) sf_invD(2) [OF inv] subs_ok_add [OF sf_invD(1) [OF inv] jn(1)] by (simp add: sf_inv_def)
qed

lemma sf_inv_new:
  assumes inv: "sf_inv s" and none: "map_of (sf_map s) k = None"
  shows "sf_inv (post (Start (flight_count s)) (add_subscriber (flight_count s)
    ((create_flight () k s)\<lparr>sf_map := AList.update k (flight_count s) (sf_map s)\<rparr>)))"
    (is "sf_inv (post _ ?w)")
proof -
  let ?n = "flight_count s" and ?c = "(create_flight () k s)\<lparr>sf_map := AList.update k (flight_count s) (sf_map s)\<rparr>"
  note subs = sf_invD(1) [OF inv]
  have old: "flight_at ?w i = flight_at s i" if "i < ?n" for i using that by simp
  have fresh: "flight_at ?w ?n = (new_flight () k)\<lparr>fl_subscribers := [length (fl_subs s)]\<rparr>" by simp
  have mapped_old: "mapped ?w i = mapped s i" if "i < ?n" for i
    using that none by (auto simp: mapped_def map_of_update)
  have "sf_flight_ok (post (Start ?n) ?w) i" if "i < Suc ?n" for i
  proof (cases "i = ?n")
    case True
    have "mapped ?w ?n" unfolding mapped_def fresh by (simp add: map_of_update new_flight_def)
    then show ?thesis
      using True nothing_posted [OF subs] fresh
      by (simp add: sf_flight_ok_def shared_ok_def mapped_def new_flight_def)
  next
    case False
    then have i: "i < ?n" using that by simp
    have "mapped (post (Start ?n) ?w) i = mapped ?w i" by (simp add: mapped_def)
    then show ?thesis
      using False i mapped_old [OF i] by (intro sf_frame [OF sf_invD(3) [OF inv i]]) auto
  qed
  moreover have "sf_map_ok (post (Start ?n) ?w)"
    unfolding sf_map_ok_def
  proof (intro allI impI)
    fix k' i assume at: "map_of (sf_map (post (Start ?n) ?w)) k' = Some i"
    show "i < flight_count (post (Start ?n) ?w) \<and> fl_key (flight_at (post (Start ?n) ?w) i) = k'"
    proof (cases "k' = k")
      case True
      then show ?thesis using at fresh by (simp add: map_of_update new_flight_def)
    next
      case False
      then have "i < ?n" "fl_key (flight_at s i) = k'"
        using at sf_invD(2) [OF inv] by (simp_all add: map_of_update sf_map_ok_def)
      then show ?thesis using old [of i] by simp
    qed
  qed
  moreover have "subs_ok ?c"
    by (rule subs_ok_cong [OF subs_ok_create [OF subs]]) simp_all
  then have "subs_ok (post (Start ?n) ?w)" by (intro subs_ok_post subs_ok_add) simp_all
  ultimately show ?thesis by (simp add: sf_inv_def)
qed

lemma sf_inv_subscribe: "sf_inv s \<Longrightarrow> sf_inv (sf_subscribe k s)"
  using sf_inv_join [of s k] sf_inv_new [of s k]
  by (auto simp: sf_subscribe_def Let_def split: option.split)

lemma shared_ok_effect:
  fixes e :: effect
  assumes "shared_ok here f (count M (Start i)) (count M (Cancel_token i))"
    and "count M (Fail_replaced i) = 0" "count M (Cancel_outcome i) = 0"
    and e: "e \<in># M" "effect_target e = i"
  shows "shared_ok here (apply_effect e f) (count (M - {#e#}) (Start i)) (count (M - {#e#}) (Cancel_token i)) \<and>
    count (M - {#e#}) (Fail_replaced i) = 0 \<and> count (M - {#e#}) (Cancel_outcome i) = 0"
proof -
  have pos: "0 < count M e" using e(1) by simp
  show ?thesis
    using assms(1-3) pos e(2)
    by (cases e) (auto simp: shared_ok_def simp del: count_greater_zero_iff split: if_splits)
qed

lemma sf_inv_perform:
  assumes inv: "sf_inv s" and e: "e \<in># fl_pending s"
  shows "sf_inv (perform e s)"
proof -
  let ?t = "perform e s"
  have keys: "fl_key (flight_at ?t i) = fl_key (flight_at s i)" if "i < flight_count s" for i
    using that by simp
  note same = same_mapped [of ?t s, OF _ _ keys, simplified]
  have "sf_flight_ok ?t j" if j: "j < flight_count s" for j
  proof (cases "j = effect_target e")
    case True
    show ?thesis
      unfolding sf_flight_ok_def same(1) [OF j] perform_simps(3) perform_simps(4) [OF j] if_P [OF True]
      by (rule shared_ok_effect) (use sf_invD(3) [OF inv j] e True in \<open>simp_all add: sf_flight_ok_def\<close>)
  next
    case False
    then show ?thesis
      using same(1) [OF j] j by (intro sf_frame [OF sf_invD(3) [OF inv j]]) auto
  qed
  then show ?thesis
    using same(2) [OF sf_invD(2) [OF inv]] subs_ok_perform [OF sf_invD(1) [OF inv]] by (simp add: sf_inv_def)
qed

lemma sf_inv_returns:
  assumes inv: "sf_inv s" and i: "i < flight_count s" "fl_phase (flight_at s i) = Thread_running"
    and out: "run_result out"
  shows "sf_inv (run_returns i out s)"
proof -
  let ?t = "run_returns i out s"
  have keys: "fl_key (flight_at ?t j) = fl_key (flight_at s j)" if "j < flight_count s" for j
    using that by simp
  note same = same_mapped [of ?t s, OF _ _ keys, simplified]
  have "sf_flight_ok ?t j" if j: "j < flight_count s" for j
  proof (cases "j = i")
    case True
    have "out \<noteq> Pending" using out by (auto simp: run_result_def)
    then show ?thesis
      using True sf_invD(3) [OF inv i(1)] i out same(1) [OF i(1)]
      by (simp add: sf_flight_ok_def shared_ok_def settle_def)
  next
    case False
    then show ?thesis
      using same(1) [OF j] j by (intro sf_frame [OF sf_invD(3) [OF inv j]]) simp_all
  qed
  then show ?thesis
    using same(2) [OF sf_invD(2) [OF inv]] subs_ok_returns [OF sf_invD(1) [OF inv]] by (simp add: sf_inv_def)
qed

lemma release_simps [simp]:
  "fl_list (sf_release i s) = fl_list s" "fl_subs (sf_release i s) = fl_subs s"
  "fl_pending (sf_release i s) = fl_pending s"
  by (simp_all add: sf_release_def Let_def)

lemma release_mapped: "mapped (sf_release i s) j = (mapped s j \<and> j \<noteq> i)"
proof (cases "mapped s i")
  case False
  then have "sf_release i s = s" by (simp add: sf_release_def mapped_def)
  then show ?thesis using False by auto
next
  case True
  then have eq: "sf_release i s = s\<lparr>sf_map := AList.delete (fl_key (flight_at s i)) (sf_map s)\<rparr>"
    by (simp add: sf_release_def mapped_def)
  have "mapped (sf_release i s) j \<longleftrightarrow> fl_key (flight_at s j) \<noteq> fl_key (flight_at s i) \<and> mapped s j"
    unfolding eq by (simp add: mapped_def map_of_delete)
  moreover have "j = i" if "mapped s j" "fl_key (flight_at s j) = fl_key (flight_at s i)"
    using that True unfolding mapped_def by (metis option.inject)
  ultimately show ?thesis by blast
qed

lemma release_lookup: "map_of (sf_map (sf_release i s)) k = Some j \<Longrightarrow> map_of (sf_map s) k = Some j"
  by (simp add: sf_release_def Let_def map_of_delete split: if_splits)

lemma release_map_ok: "sf_map_ok s \<Longrightarrow> sf_map_ok (sf_release i s)"
  using release_lookup [of i s] unfolding sf_map_ok_def release_simps by blast

lemma sf_inv_finished:
  assumes inv: "sf_inv s" and i: "i < flight_count s" "fl_phase (flight_at s i) = Returned"
  shows "sf_inv (sf_finished i s)"
proof -
  let ?r = "sf_release i s" and ?t = "sf_finished i s"
  have t: "flight_count ?t = flight_count s" "fl_pending ?t = fl_pending s"
      "j < flight_count s \<Longrightarrow> flight_at ?t j = (if j = i then (flight_at s i)\<lparr>fl_phase := Ended\<rparr> else flight_at s j)" for j
    by (simp_all add: sf_finished_def)
  have m: "mapped ?t j = (mapped s j \<and> j \<noteq> i)" if "j < flight_count s" for j
    using that release_mapped [of i s j] by (cases "j = i") (auto simp: mapped_def sf_finished_def)
  have "sf_flight_ok ?t j" if j: "j < flight_count s" for j
  proof (cases "j = i")
    case True
    have "fl_outcome (flight_at s i) \<noteq> Pending"
      using sf_invD(3) [OF inv i(1)] i(2) by (auto simp: sf_flight_ok_def shared_ok_def run_result_def)
    then show ?thesis
      using True sf_invD(3) [OF inv i(1)] i m [OF i(1)] by (simp add: sf_flight_ok_def shared_ok_def t)
  next
    case False
    then show ?thesis
      using m [OF j] j by (intro sf_frame [OF sf_invD(3) [OF inv j]]) (simp_all add: t)
  qed
  moreover have "sf_map_ok ?t"
    using release_map_ok [OF sf_invD(2) [OF inv], of i] by (auto simp: sf_map_ok_def sf_finished_def)
  moreover have "subs_ok ?t"
    unfolding sf_finished_def
    by (rule subs_ok_on_flight [OF subs_ok_cong [OF sf_invD(1) [OF inv]]]) simp_all
  ultimately show ?thesis by (simp add: sf_inv_def t)
qed

lemma sf_inv_detach:
  assumes inv: "sf_inv s" and m: "m < length (fl_subs s)"
  shows "sf_inv (sf_detach m s)"
proof (cases "snd (fl_subs s ! m)")
  case True
  then show ?thesis using inv by (simp add: sf_detach_def)
next
  case attached: False
  note subs = sf_invD(1) [OF inv] and map_ok = sf_invD(2) [OF inv]
  define i where "i = fst (fl_subs s ! m)"
  define s1 where "s1 = discard_subscriber m s"
  have i: "i < flight_count s" unfolding i_def by (rule subs_ok_target [OF subs m])
  have was: "fl_subscribers (flight_at s i) \<noteq> []" using subs_ok_member [OF subs m attached] by (auto simp: i_def)
  have s1: "flight_count s1 = flight_count s" "fl_pending s1 = fl_pending s" "sf_map s1 = sf_map s"
      "j < flight_count s \<Longrightarrow> flight_at s1 j = (if j = i then (flight_at s i)\<lparr>fl_subscribers :=
         removeAll m (fl_subscribers (flight_at s i))\<rparr> else flight_at s j)" for j
    by (simp_all add: s1_def i_def)
  have mapped1: "j < flight_count s \<Longrightarrow> mapped s1 j = mapped s j" "sf_map_ok s1" for j
    using map_ok by (auto simp: mapped_def sf_map_ok_def s1)
  have subs1: "subs_ok s1" unfolding s1_def by (rule subs_ok_discard [OF subs m])
  have others: "sf_flight_ok s1 j" if "j < flight_count s" "j \<noteq> i" for j
    using that mapped1(1) [OF that(1)] by (intro sf_frame [OF sf_invD(3) [OF inv that(1)]]) (simp_all add: s1)
  note mine = sf_invD(3) [OF inv i]
  show ?thesis
  proof (cases "fl_subscribers (flight_at s1 i) \<noteq> [] \<or> fl_outcome (flight_at s1 i) \<noteq> Pending")
    case True
    then have "sf_flight_ok s1 i"
      using mine was mapped1(1) [OF i] i by (auto simp: sf_flight_ok_def shared_ok_def s1)
    then have "sf_inv s1" using others subs1 mapped1(2) s1(1) by (auto simp: sf_inv_def)
    then show ?thesis
      using True attached by (simp add: sf_detach_def Let_def i_def [symmetric] s1_def [symmetric])
  next
    case False
    let ?t = "post (Cancel_token i) (sf_release i s1)"
    have mt: "mapped ?t j = (mapped s j \<and> j \<noteq> i)" if "j < flight_count s" for j
      using release_mapped [of i s1 j] mapped1(1) [OF that] by (simp add: mapped_def)
    have "sf_flight_ok ?t j" if j: "j < flight_count s" for j
    proof (cases "j = i")
      case True
      then show ?thesis
        using False mine was mt [OF i] i by (auto simp: sf_flight_ok_def shared_ok_def s1 split: if_splits)
    next
      case other: False
      then show ?thesis
        using mt [OF j] mapped1(1) [OF j] by (intro sf_frame [OF others [OF j other]]) (auto simp: s1)
    qed
    moreover have "sf_map_ok ?t" using release_map_ok [OF mapped1(2), of i] by (simp add: sf_map_ok_def)
    moreover have "subs_ok ?t" using i s1(1) by (intro subs_ok_post subs_ok_cong [OF subs1]) simp_all
    ultimately have "sf_inv ?t" by (simp add: sf_inv_def s1)
    then show ?thesis
      using False attached by (simp add: sf_detach_def Let_def i_def [symmetric] s1_def [symmetric])
  qed
qed

lemma sf_step_inv: "sf_step s s' \<Longrightarrow> sf_inv s \<Longrightarrow> sf_inv s'"
  by (induction rule: sf_step.induct)
    (auto intro: sf_inv_subscribe sf_inv_perform sf_inv_returns sf_inv_finished sf_inv_detach)

lemma sf_reachable_inv: "sf_reachable s \<Longrightarrow> sf_inv s"
proof (induction rule: sf_reachable.induct)
  case sf_start
  show ?case by (simp add: sf_inv_def sf_init_def subs_ok_def sf_map_ok_def)
next
  case (sf_next s s')
  then show ?case by (blast intro: sf_step_inv)
qed

text \<open>
  C20: Concurrent callers share runs: in every reachable state two unsettled flights of one key
  that both have callers are the same flight, and the next request for the key joins it; a flight
  with callers is never cancelled, and while it is unsettled its run is posted or on its thread,
  so it returns.
\<close>

theorem sf_reachable_shared:
  assumes "sf_reachable s" and "i < flight_count s"
    and "fl_subscribers (flight_at s i) \<noteq> []"
  shows "\<not> fl_token (flight_at s i) \<and>
    (if fl_outcome (flight_at s i) = Pending
     then (Start i \<in># fl_pending s \<or> fl_phase (flight_at s i) = Thread_running) \<and>
       sf_subscribe (fl_key (flight_at s i)) s = add_subscriber i s \<and>
       (\<forall>j < flight_count s. fl_key (flight_at s j) = fl_key (flight_at s i) \<longrightarrow>
          fl_outcome (flight_at s j) = Pending \<longrightarrow> fl_subscribers (flight_at s j) \<noteq> [] \<longrightarrow> j = i)
     else run_result (fl_outcome (flight_at s i)))"
proof -
  note inv = sf_reachable_inv [OF assms(1)]
  have ok: "shared_ok (mapped s j) (flight_at s j) (posted s (Start j)) (posted s (Cancel_token j))"
    if "j < flight_count s" for j
    using sf_invD(3) [OF inv that] by (simp add: sf_flight_ok_def)
  have free: "\<not> fl_token (flight_at s i)" using ok [OF assms(2)] assms(3) by (simp add: shared_ok_def)
  show ?thesis
  proof (cases "fl_outcome (flight_at s i) = Pending")
    case False
    then show ?thesis using free ok [OF assms(2)] by (auto simp: shared_ok_def split: if_splits)
  next
    case True
    have here: "mapped s i" using ok [OF assms(2)] True assms(3) by (simp add: shared_ok_def)
    have "fl_phase (flight_at s i) = Created \<or> fl_phase (flight_at s i) = Thread_running"
      using ok [OF assms(2)] True by (auto simp: shared_ok_def run_result_def split: if_splits)
    then have "Start i \<in># fl_pending s \<or> fl_phase (flight_at s i) = Thread_running"
      using ok [OF assms(2)] unfolding shared_ok_def by (metis count_greater_zero_iff zero_less_one)
    moreover have "sf_subscribe (fl_key (flight_at s i)) s = add_subscriber i s"
      using here by (simp add: sf_subscribe_def mapped_def)
    moreover have "j = i" if "j < flight_count s" "fl_key (flight_at s j) = fl_key (flight_at s i)"
      "fl_outcome (flight_at s j) = Pending" "fl_subscribers (flight_at s j) \<noteq> []" for j
      using ok [OF that(1)] that here by (simp add: shared_ok_def mapped_def)
    ultimately show ?thesis using free True by auto
  qed
qed

section \<open>Concrete runs\<close>

text \<open>Three requests for one group: the first runs, the second waited and the third replaced it.\<close>

definition sample_queue :: "(nat, nat, nat) latest_wins" where
  "sample_queue = lw_subscribe 0 3 (lw_subscribe 0 2 (lw_subscribe 0 1 (lw_init True)))"

lemma sample_queue_reachable: "lw_reachable True sample_queue"
  unfolding sample_queue_def by (rule lw_next [OF _ lw_subscribes])+ (rule lw_start)

lemma sample_queue_flights:
  "flight_count sample_queue = 3" "fl_subs sample_queue = [(0, False), (1, False), (2, False)]"
  "lane_view 0 sample_queue = Queued 1 False 3" "fl_pending sample_queue = {#Fail_replaced 1, Start 0#}"
  by code_simp+

theorem lw_reachable_safe_witness:
  "fst (wait_round lw_detach 1 False sample_queue) \<noteq> Waited_on_dropped"
  using lw_reachable_safe [OF sample_queue_reachable] by (simp add: sample_queue_flights)

text \<open>The sample queue by itself, to its rest: the first run returns, then the one that waited.\<close>

definition rested_queue :: "(nat, nat, nat) latest_wins" where
  "rested_queue = lw_finished 2 (run_returns 2 (Raised []) (perform (Start 2)
     (lw_finished 0 (run_returns 0 (Raised []) (perform (Start 0) (perform (Fail_replaced 1) sample_queue))))))"

lemma sample_queue_rests: "lw_progress\<^sup>*\<^sup>* sample_queue rested_queue"
proof -
  let ?s2 = "perform (Start 0) (perform (Fail_replaced 1) sample_queue)"
  let ?s4 = "lw_finished 0 (run_returns 0 (Raised []) ?s2)"
  have "lw_progress sample_queue (perform (Fail_replaced 1) sample_queue)"
    by (rule progress_performs) (simp add: sample_queue_flights)
  moreover have "lw_progress (perform (Fail_replaced 1) sample_queue) ?s2"
    by (rule progress_performs) code_simp
  moreover have "lw_progress ?s2 (run_returns 0 (Raised []) ?s2)"
    by (rule progress_returns) (simp_all add: run_result_def, code_simp+)
  moreover have "lw_progress (run_returns 0 (Raised []) ?s2) ?s4" by (rule progress_finishes) code_simp+
  moreover have "lw_progress ?s4 (perform (Start 2) ?s4)" by (rule progress_performs) code_simp
  moreover have "lw_progress (perform (Start 2) ?s4) (run_returns 2 (Raised []) (perform (Start 2) ?s4))"
    by (rule progress_returns) (simp_all add: run_result_def, code_simp+)
  moreover have "lw_progress (run_returns 2 (Raised []) (perform (Start 2) ?s4)) rested_queue"
    unfolding rested_queue_def by (rule progress_finishes) code_simp+
  ultimately show ?thesis by (meson converse_rtranclp_into_rtranclp rtranclp.rtrancl_refl)
qed

lemma rested_queue_rests: "\<not> lw_progress rested_queue u"
proof
  assume u: "lw_progress rested_queue u"
  have at_rest: "fl_pending rested_queue = {#}" "flight_count rested_queue = 3"
    "fl_phase (flight_at rested_queue 0) = Ended" "fl_phase (flight_at rested_queue 1) = Created"
    "fl_phase (flight_at rested_queue 2) = Ended" by code_simp+
  have "fl_phase (flight_at rested_queue i) \<in> {Created, Ended}" if less: "i < 3" for i
  proof -
    consider "i = 0" | "i = 1" | "i = 2" using less by linarith
    then show ?thesis by cases (simp_all add: at_rest(3) at_rest(4) [unfolded One_nat_def] at_rest(5))
  qed
  then have phases: "fl_phase (flight_at rested_queue i) \<in> {Created, Ended}" if "i < flight_count rested_queue" for i
    using that at_rest(2) by simp
  from u show False
  proof (cases rule: lw_progress.cases)
    case (progress_performs e)
    then show ?thesis using at_rest(1) by simp
  next
    case (progress_returns i out)
    then show ?thesis using phases [of i] by simp
  next
    case (progress_finishes i)
    then show ?thesis using phases [of i] by simp
  qed
qed

theorem lw_every_flight_settles_witness:
  "(\<nexists>t. (lw_progress ^^ 21) sample_queue t) \<and> fl_outcome (flight_at rested_queue 2) \<noteq> Pending"
proof -
  have "work_left sample_queue = 20" by code_simp
  then show ?thesis
    using lw_every_flight_settles [OF sample_queue_reachable] sample_queue_rests rested_queue_rests
    by (fastforce simp: sample_queue_flights simp del: relpowp.simps)
qed

theorem lw_refines_lane_view_witness:
  "view_step (lane_view 0 sample_queue) (lane_view 0 (lw_detach 2 sample_queue)) \<and>
   lane_view 1 (lw_detach 2 sample_queue) = Idle"
proof -
  have views: "lane_view 0 (lw_detach 2 sample_queue) = Busy 1 False" "lane_view 1 sample_queue = Idle" by code_simp+
  obtain g where g: "\<forall>g'. g' \<noteq> g \<longrightarrow> lane_view g' (lw_detach 2 sample_queue) = lane_view g' sample_queue"
    "view_step (lane_view g sample_queue) (lane_view g (lw_detach 2 sample_queue))"
    using lw_refines_lane_view [OF sample_queue_reachable lw_detaches [of 2]] by (auto simp: sample_queue_flights)
  have "g = 0"
  proof (rule ccontr)
    assume "g \<noteq> 0"
    then have "lane_view 0 (lw_detach 2 sample_queue) = lane_view 0 sample_queue" using g(1) by simp
    then show False using views(1) sample_queue_flights(3) by simp
  qed
  then show ?thesis using g views(2) by auto
qed

definition sample_shared :: "(nat, nat) shared_flights" where
  "sample_shared = sf_subscribe 7 (sf_subscribe 7 sf_init)"

theorem sf_reachable_shared_witness:
  "sf_subscribe 7 sample_shared = add_subscriber 0 sample_shared"
proof -
  have "sf_reachable sample_shared"
    unfolding sample_shared_def by (rule sf_next [OF _ sf_subscribes])+ (rule sf_start)
  moreover have "0 < flight_count sample_shared" "fl_subscribers (flight_at sample_shared 0) = [0, 1]"
      "fl_outcome (flight_at sample_shared 0) = Pending" "fl_key (flight_at sample_shared 0) = 7"
    by code_simp+
  ultimately show ?thesis using sf_reachable_shared [of sample_shared 0] by simp
qed

end
