(* ===== verification/Floats.thy ===== *)
theory Floats
  imports Prelude "HOL-Library.Log_Nat"
begin

text \<open>
  Python's float arithmetic on finite values: the exact rational result rounded to the nearest
  double, a tie to the even significand. \<open>round_double\<close> does the rounding for results in the
  normal range, which is where the code's fractions and row counts lie; overflow and subnormal
  results are not modelled. The lemmas bound the error by one part in \<open>2 ^ 53\<close>.
\<close>

text \<open>Python's \<open>round\<close> takes a tie to the even neighbour, and \<open>int\<close> of a float truncates.\<close>

definition round_half_even :: "rat \<Rightarrow> int" where
  "round_half_even r =
     (let f = \<lfloor>r\<rfloor>; d = r - of_int f
      in if d < 1 / 2 then f else if 1 / 2 < d then f + 1 else if even f then f else f + 1)"

definition int_of_float :: "rat \<Rightarrow> int" where
  "int_of_float r = (if 0 \<le> r then \<lfloor>r\<rfloor> else \<lceil>r\<rceil>)"

text \<open>The least integer that \<open>float\<close> cannot convert: halfway past the greatest double.\<close>

definition float_overflow_bound :: int where
  "float_overflow_bound = 2 ^ 1024 - 2 ^ 970"

definition two_pow :: "int \<Rightarrow> rat" where
  "two_pow i = (if 0 \<le> i then 2 ^ nat i else 1 / 2 ^ nat (- i))"

text \<open>The exponent of the leading bit of a positive rational.\<close>

definition lead_exponent :: "rat \<Rightarrow> int" where
  "lead_exponent x =
     (let (p, q) = quotient_of x; g = bitlen p - bitlen q
      in if two_pow g \<le> x then g else g - 1)"

definition round_double :: "rat \<Rightarrow> rat" where
  "round_double x =
     (if x = 0 then 0
      else let u = two_pow (lead_exponent \<bar>x\<bar> - 52) in of_int (round_half_even (x / u)) * u)"

definition float_add :: "rat \<Rightarrow> rat \<Rightarrow> rat" where
  "float_add x y = round_double (x + y)"

definition float_mult :: "rat \<Rightarrow> rat \<Rightarrow> rat" where
  "float_mult x y = round_double (x * y)"

definition float_divide :: "rat \<Rightarrow> rat \<Rightarrow> rat" where
  "float_divide x y = round_double (x / y)"

lemma two_pow_pos [simp]: "0 < two_pow i"
  by (simp add: two_pow_def)

lemma two_pow_0 [simp]: "two_pow 0 = 1"
  by (simp add: two_pow_def)

lemma two_pow_Suc: "two_pow (i + 1) = 2 * two_pow i"
proof (cases "0 \<le> i")
  case True
  then show ?thesis by (simp add: two_pow_def nat_add_distrib)
next
  case False
  then have "nat (- i) = Suc (nat (- (i + 1)))" by simp
  then show ?thesis using False by (auto simp: two_pow_def)
qed

lemma two_pow_add_nat: "two_pow (i + int n) = two_pow i * 2 ^ n"
proof (induction n)
  case (Suc n)
  have "two_pow (i + int (Suc n)) = two_pow ((i + int n) + 1)" by (simp add: algebra_simps)
  then show ?case using Suc by (simp add: two_pow_Suc)
qed simp

lemma two_pow_diff: "two_pow (i - int n) * 2 ^ n = two_pow i"
  using two_pow_add_nat [of "i - int n" n] by simp

lemma two_pow_nat: "two_pow (int a - int b) = 2 ^ a / 2 ^ b"
  using two_pow_diff [of "int a" b] by (simp add: two_pow_def nat_diff_distrib' field_simps)

lemma lead_exponent_le:
  assumes "0 < x"
  shows "two_pow (lead_exponent x) \<le> x"
proof -
  obtain p q where pq: "quotient_of x = (p, q)" by (cases "quotient_of x")
  then have q: "0 < q" and x: "x = of_int p / of_int q"
    using quotient_of_denom_pos quotient_of_div by blast+
  then have p: "0 < p" using assms by (simp add: zero_less_divide_iff)
  define a b where "a = nat (bitlen p - 1)" and "b = nat (bitlen q)"
  have bp: "1 \<le> bitlen p" using p by (simp add: bitlen_ge_iff_power)
  have "2 ^ a \<le> p" using bitlen_bounds [OF p] by (simp add: a_def)
  then have pa: "(2 ^ a :: rat) \<le> of_int p" by (metis of_int_le_iff of_int_numeral of_int_power)
  have "q < 2 ^ b" using bitlen_bounds [OF q] by (simp add: b_def)
  then have qb: "(of_int q :: rat) < 2 ^ b" by (metis of_int_less_iff of_int_numeral of_int_power)
  have "two_pow (bitlen p - bitlen q - 1) = 2 ^ a / 2 ^ b"
    using two_pow_nat [of a b] bp bitlen_nonneg [of q] by (simp add: a_def b_def algebra_simps)
  also have "\<dots> \<le> of_int p / of_int q"
    using pa qb q p by (intro frac_le) simp_all
  finally have "two_pow (bitlen p - bitlen q - 1) \<le> x" by (simp only: x)
  then show ?thesis by (simp add: lead_exponent_def pq Let_def)
qed

lemma round_half_even_error: "\<bar>of_int (round_half_even r) - r\<bar> \<le> 1 / 2"
proof -
  have b: "of_int \<lfloor>r\<rfloor> \<le> r" "r < of_int \<lfloor>r\<rfloor> + 1" by linarith+
  consider "r - of_int \<lfloor>r\<rfloor> < 1 / 2" | "1 / 2 < r - of_int \<lfloor>r\<rfloor>" | "r - of_int \<lfloor>r\<rfloor> = 1 / 2"
    by linarith
  then show ?thesis
  proof cases
    case 1
    then have "round_half_even r = \<lfloor>r\<rfloor>" by (simp add: round_half_even_def)
    then show ?thesis using 1 b(1) by linarith
  next
    case 2
    then have "round_half_even r = \<lfloor>r\<rfloor> + 1" by (simp add: round_half_even_def)
    then show ?thesis using 2 b(2) by linarith
  next
    case 3
    then have "round_half_even r = \<lfloor>r\<rfloor> \<or> round_half_even r = \<lfloor>r\<rfloor> + 1"
      by (simp add: round_half_even_def Let_def)
    then show ?thesis using 3 by auto
  qed
qed

lemma round_half_even_of_int [simp]: "round_half_even (of_int n) = n"
  by (simp add: round_half_even_def)

lemma round_double_error:
  assumes "0 \<le> x"
  shows "\<bar>round_double x - x\<bar> \<le> x / 2 ^ 53"
proof (cases "x = 0")
  case False
  then have pos: "0 < x" using assms by simp
  define u where "u = two_pow (lead_exponent x - 52)"
  have u: "0 < u" by (simp add: u_def)
  have "u * 2 ^ 52 = two_pow (lead_exponent x)"
    using two_pow_diff [of "lead_exponent x" 52] by (simp add: u_def)
  then have ux: "u * 2 ^ 52 \<le> x" using lead_exponent_le [OF pos] by simp
  have "round_double x = of_int (round_half_even (x / u)) * u"
    using pos by (simp add: round_double_def u_def Let_def)
  then have "round_double x - x = (of_int (round_half_even (x / u)) - x / u) * u"
    using u by (simp add: field_simps)
  then have "\<bar>round_double x - x\<bar> = \<bar>of_int (round_half_even (x / u)) - x / u\<bar> * u"
    using u by (simp add: abs_mult)
  also have "\<dots> \<le> 1 / 2 * u"
    using round_half_even_error [of "x / u"] u by (intro mult_right_mono) simp_all
  also have "\<dots> \<le> x / 2 ^ 53" using ux by (simp add: field_simps)
  finally show ?thesis .
qed (simp add: round_double_def)

lemma round_double_nonneg: "0 \<le> x \<Longrightarrow> 0 \<le> round_double x"
proof -
  assume "0 \<le> x"
  then have "x - x / 2 ^ 53 \<le> round_double x" using round_double_error [of x] by linarith
  moreover have "0 \<le> x - x / 2 ^ 53" using \<open>0 \<le> x\<close> by (simp add: field_simps)
  ultimately show ?thesis by linarith
qed

lemma round_double_le: "0 \<le> x \<Longrightarrow> round_double x \<le> x * (1 + 1 / 2 ^ 53)"
proof -
  assume "0 \<le> x"
  then have "round_double x - x \<le> x / 2 ^ 53" using round_double_error [of x] by (simp only: abs_le_iff)
  then have "round_double x \<le> x + x / 2 ^ 53" by linarith
  also have "\<dots> = x * (1 + 1 / 2 ^ 53)" by (simp only: distrib_left mult_1_right times_divide_eq_right)
  finally show ?thesis .
qed

lemma round_double_ge: "0 \<le> x \<Longrightarrow> x * (1 - 1 / 2 ^ 53) \<le> round_double x"
proof -
  assume "0 \<le> x"
  then have "- (round_double x - x) \<le> x / 2 ^ 53" using round_double_error [of x] by (simp only: abs_le_iff)
  then have "x - x / 2 ^ 53 \<le> round_double x" by linarith
  moreover have "x - x / 2 ^ 53 = x * (1 - 1 / 2 ^ 53)"
    by (simp only: right_diff_distrib mult_1_right times_divide_eq_right)
  ultimately show ?thesis by simp
qed

end
