(* ===== verification/Settings.thy ===== *)
theory Settings
  imports Floats
begin

text \<open>
  The pipeline settings of \<open>haute/_pipeline_settings.py\<close>.

  A setting is a Python value; a finite float is the rational it denotes (a size is scaled by a
  power of two, so no rounding happens before \<open>round\<close>). The file is its outcome: unreadable,
  not UTF-8, not JSON, or a JSON tree, whose objects still hold duplicate keys and whose
  \<open>NaN\<close> and \<open>Infinity\<close> are still names, as \<open>json.loads\<close> passes them to its hooks. A project is
  its resolved path and \<open>stat\<close> is a signature stored with the content, which a write replaces.
  The lemmas show which values the validators accept, that a rendered document validates to the
  settings it was rendered from, and what an update does to the file and to later reads.
\<close>

type_synonym jv = "string pyval"

definition gib :: int where
  "gib = 1024 ^ 3"

definition default_streaming_chunk_size :: int where
  "default_streaming_chunk_size = 500000"

definition max_streaming_chunk_size :: int where
  "max_streaming_chunk_size = 10000000"

definition max_size_gb :: rat where
  "max_size_gb = 1024 * 1024"

definition max_time_limit_minutes :: rat where
  "max_time_limit_minutes = 10080"

definition automatic_cache_size_ceiling_bytes :: int where
  "automatic_cache_size_ceiling_bytes = 20 * gib"

definition automatic_pipeline_time_limit_minutes :: rat where
  "automatic_pipeline_time_limit_minutes = 30"

definition automatic_modelling_time_limit_minutes :: rat where
  "automatic_modelling_time_limit_minutes = 60"

section \<open>Settings and their derived figures\<close>

record pipeline_settings =
  chunk_rows :: "int option"
  caching :: "bool option"
  cache_size_gb :: "rat option"
  preview_memory_gb :: "rat option"
  kept_free_gb :: "rat option"
  pipeline_time_limit_minutes :: "rat option"
  modelling_time_limit_minutes :: "rat option"
  optimisation_time_limit_minutes :: "rat option"

definition automatic_settings :: pipeline_settings where
  "automatic_settings = \<lparr>chunk_rows = None, caching = None, cache_size_gb = None,
     preview_memory_gb = None, kept_free_gb = None, pipeline_time_limit_minutes = None,
     modelling_time_limit_minutes = None, optimisation_time_limit_minutes = None\<rparr>"

definition whole_bytes :: "rat option \<Rightarrow> int \<Rightarrow> int option" where
  "whole_bytes gigabytes least =
     map_option (\<lambda>g. max least (round_half_even (g * of_int gib))) gigabytes"

definition caching_enabled :: "pipeline_settings \<Rightarrow> bool" where
  "caching_enabled s \<longleftrightarrow> caching s \<noteq> Some False"

definition streaming_chunk_size :: "pipeline_settings \<Rightarrow> int" where
  "streaming_chunk_size s =
     (case chunk_rows s of None \<Rightarrow> default_streaming_chunk_size | Some n \<Rightarrow> n)"

definition cache_size_bytes :: "pipeline_settings \<Rightarrow> int option" where
  "cache_size_bytes s = whole_bytes (cache_size_gb s) 1"

definition preview_memory_bytes :: "pipeline_settings \<Rightarrow> int option" where
  "preview_memory_bytes s = whole_bytes (preview_memory_gb s) 1"

definition kept_free_bytes :: "pipeline_settings \<Rightarrow> int option" where
  "kept_free_bytes s = whole_bytes (kept_free_gb s) 0"

definition pipeline_time_limit_seconds :: "pipeline_settings \<Rightarrow> rat" where
  "pipeline_time_limit_seconds s =
     (case pipeline_time_limit_minutes s of
        None \<Rightarrow> automatic_pipeline_time_limit_minutes | Some m \<Rightarrow> m) * 60"

definition modelling_time_limit_seconds :: "pipeline_settings \<Rightarrow> rat" where
  "modelling_time_limit_seconds s =
     (case modelling_time_limit_minutes s of
        None \<Rightarrow> automatic_modelling_time_limit_minutes | Some m \<Rightarrow> m) * 60"

definition optimisation_time_limit_seconds :: "pipeline_settings \<Rightarrow> rat option" where
  "optimisation_time_limit_seconds s = map_option (\<lambda>m. m * 60) (optimisation_time_limit_minutes s)"

definition optional_value :: "('a \<Rightarrow> jv) \<Rightarrow> 'a option \<Rightarrow> jv" where
  "optional_value f x = (case x of None \<Rightarrow> PNone | Some a \<Rightarrow> f a)"

definition float_value :: "rat \<Rightarrow> jv" where
  "float_value r = PFloat (Fin r)"

definition settings_values :: "pipeline_settings \<Rightarrow> (string, jv) odict" where
  "settings_values s =
     [(''chunk_rows'', optional_value PInt (chunk_rows s)),
      (''caching'', optional_value PBool (caching s)),
      (''cache_size_gb'', optional_value float_value (cache_size_gb s)),
      (''preview_memory_gb'', optional_value float_value (preview_memory_gb s)),
      (''kept_free_gb'', optional_value float_value (kept_free_gb s)),
      (''pipeline_time_limit_minutes'', optional_value float_value (pipeline_time_limit_minutes s)),
      (''modelling_time_limit_minutes'', optional_value float_value (modelling_time_limit_minutes s)),
      (''optimisation_time_limit_minutes'',
        optional_value float_value (optimisation_time_limit_minutes s))]"

section \<open>Validation\<close>

datatype requirement =
    Whole_number_in_range
  | True_or_false
  | Size_above_zero
  | Size_from_zero
  | Minutes_in_range

text \<open>
  \<open>Float_overflow\<close> is the \<open>OverflowError\<close> of \<open>math.isfinite\<close> on an integer that no double can
  hold; the others are a \<open>PipelineSettingsError\<close>.
\<close>

datatype settings_error =
    Must_be string requirement
  | Not_a_setting string
  | Set_twice string
  | Not_a_number string
  | Not_utf8
  | Unreadable
  | Not_json
  | Not_an_object
  | Float_overflow

definition is_settings_error :: "settings_error \<Rightarrow> bool" where
  "is_settings_error e \<longleftrightarrow> e \<noteq> Float_overflow"

fun is_number :: "jv \<Rightarrow> settings_error + bool" where
  "is_number (PInt i) = (if \<bar>i\<bar> < float_overflow_bound then Inr True else Inl Float_overflow)"
| "is_number (PFloat (Fin r)) = Inr True"
| "is_number _ = Inr False"

fun to_float :: "jv \<Rightarrow> rat" where
  "to_float (PInt i) = of_int i"
| "to_float (PFloat (Fin r)) = r"
| "to_float _ = 0"

definition number_setting :: "string \<Rightarrow> jv \<Rightarrow> requirement \<Rightarrow> settings_error + rat" where
  "number_setting key v req =
     bind_result (is_number v) (\<lambda>ok. if ok then Inr (to_float v) else Inl (Must_be key req))"

definition chunk_rows_setting :: "string \<Rightarrow> jv \<Rightarrow> settings_error + int" where
  "chunk_rows_setting key v =
     (case v of
        PInt i \<Rightarrow> if 1 \<le> i \<and> i \<le> max_streaming_chunk_size then Inr i
                  else Inl (Must_be key Whole_number_in_range)
      | _ \<Rightarrow> Inl (Must_be key Whole_number_in_range))"

definition switch_setting :: "string \<Rightarrow> jv \<Rightarrow> settings_error + bool" where
  "switch_setting key v = (case v of PBool b \<Rightarrow> Inr b | _ \<Rightarrow> Inl (Must_be key True_or_false))"

definition positive_size :: "string \<Rightarrow> jv \<Rightarrow> settings_error + rat" where
  "positive_size key v =
     bind_result (number_setting key v Size_above_zero) (\<lambda>g.
       if 0 < g \<and> g \<le> max_size_gb then Inr g else Inl (Must_be key Size_above_zero))"

definition size_from_zero :: "string \<Rightarrow> jv \<Rightarrow> settings_error + rat" where
  "size_from_zero key v =
     bind_result (number_setting key v Size_from_zero) (\<lambda>g.
       if 0 \<le> g \<and> g \<le> max_size_gb then Inr g else Inl (Must_be key Size_from_zero))"

definition minutes_setting :: "string \<Rightarrow> jv \<Rightarrow> settings_error + rat" where
  "minutes_setting key v =
     bind_result (number_setting key v Minutes_in_range) (\<lambda>m.
       if 0 < m \<and> m \<le> max_time_limit_minutes then Inr m else Inl (Must_be key Minutes_in_range))"

definition setting_keys :: "string list" where
  "setting_keys = [''chunk_rows'', ''caching'', ''cache_size_gb'', ''preview_memory_gb'',
     ''kept_free_gb'', ''pipeline_time_limit_minutes'', ''modelling_time_limit_minutes'',
     ''optimisation_time_limit_minutes'']"

definition checked :: "(string, jv) odict \<Rightarrow> string \<Rightarrow> (string \<Rightarrow> jv \<Rightarrow> settings_error + 'a) \<Rightarrow>
    settings_error + 'a option" where
  "checked data key validate =
     (if py_get key data = PNone then Inr None
      else bind_result (validate key (py_get key data)) (\<lambda>x. Inr (Some x)))"

definition unknown_settings :: "(string, jv) odict \<Rightarrow> string list" where
  "unknown_settings data = sort (filter (\<lambda>k. k \<notin> set setting_keys) (keys data))"

definition validated_pipeline_settings :: "(string, jv) odict \<Rightarrow>
    settings_error + pipeline_settings" where
  "validated_pipeline_settings data =
     (case unknown_settings data of
        k # _ \<Rightarrow> Inl (Not_a_setting k)
      | [] \<Rightarrow>
          bind_result (checked data ''chunk_rows'' chunk_rows_setting) (\<lambda>rows.
          bind_result (checked data ''caching'' switch_setting) (\<lambda>cach.
          bind_result (checked data ''cache_size_gb'' positive_size) (\<lambda>cache.
          bind_result (checked data ''preview_memory_gb'' positive_size) (\<lambda>preview.
          bind_result (checked data ''kept_free_gb'' size_from_zero) (\<lambda>kept.
          bind_result (checked data ''pipeline_time_limit_minutes'' minutes_setting) (\<lambda>pipe.
          bind_result (checked data ''modelling_time_limit_minutes'' minutes_setting) (\<lambda>model.
          bind_result (checked data ''optimisation_time_limit_minutes'' minutes_setting) (\<lambda>opt.
          Inr \<lparr>chunk_rows = rows, caching = cach, cache_size_gb = cache,
               preview_memory_gb = preview, kept_free_gb = kept,
               pipeline_time_limit_minutes = pipe, modelling_time_limit_minutes = model,
               optimisation_time_limit_minutes = opt\<rparr>)))))))))"

section \<open>The file\<close>

datatype jdoc =
    J_null
  | J_bool bool
  | J_int int
  | J_float pyfloat
  | J_const string
  | J_str string
  | J_list "jdoc list"
  | J_obj "(string \<times> jdoc) list"

text \<open>\<open>_refuse_duplicates\<close> is called on each object, the innermost first.\<close>

fun refuse_duplicates :: "(string \<times> 'v) list \<Rightarrow> (string, 'v) odict \<Rightarrow>
    settings_error + (string, 'v) odict" where
  "refuse_duplicates [] result = Inr result"
| "refuse_duplicates ((k, v) # pairs) result =
     (if has_key k result then Inl (Set_twice k)
      else refuse_duplicates pairs (AList.update k v result))"

definition as_dict :: "(string, jv) odict \<Rightarrow> jv" where
  "as_dict d = PDict (map (\<lambda>(k, v). (PStr k, v)) d)"

fun loads :: "jdoc \<Rightarrow> settings_error + jv" and loads_list :: "jdoc list \<Rightarrow> settings_error + jv list"
  and loads_pairs :: "(string \<times> jdoc) list \<Rightarrow> settings_error + (string \<times> jv) list" where
  "loads J_null = Inr PNone"
| "loads (J_bool b) = Inr (PBool b)"
| "loads (J_int i) = Inr (PInt i)"
| "loads (J_float x) = Inr (PFloat x)"
| "loads (J_const name) = Inl (Not_a_number name)"
| "loads (J_str s) = Inr (PStr s)"
| "loads (J_list xs) = bind_result (loads_list xs) (\<lambda>ys. Inr (PList ys))"
| "loads (J_obj ps) =
     bind_result (loads_pairs ps) (\<lambda>qs. bind_result (refuse_duplicates qs []) (\<lambda>d. Inr (as_dict d)))"
| "loads_list [] = Inr []"
| "loads_list (x # xs) =
     bind_result (loads x) (\<lambda>y. bind_result (loads_list xs) (\<lambda>ys. Inr (y # ys)))"
| "loads_pairs [] = Inr []"
| "loads_pairs (p # ps) =
     bind_result (loads (snd p)) (\<lambda>y. bind_result (loads_pairs ps) (\<lambda>ys. Inr ((fst p, y) # ys)))"

datatype file_text = Text_unreadable | Text_not_utf8 | Text_not_json | Text_json jdoc

definition parse_settings :: "file_text \<Rightarrow> settings_error + pipeline_settings" where
  "parse_settings text =
     (case text of
        Text_unreadable \<Rightarrow> Inl Unreadable
      | Text_not_utf8 \<Rightarrow> Inl Not_utf8
      | Text_not_json \<Rightarrow> Inl Not_json
      | Text_json (J_obj ps) \<Rightarrow>
          bind_result (loads_pairs ps) (\<lambda>qs. bind_result (refuse_duplicates qs [])
            validated_pipeline_settings)
      | Text_json doc \<Rightarrow> bind_result (loads doc) (\<lambda>_. Inl Not_an_object))"

text \<open>A whole float is written as an integer.\<close>

fun rendered_value :: "jv \<Rightarrow> jv" where
  "rendered_value (PFloat (Fin r)) = (if of_int \<lfloor>r\<rfloor> = r then PInt \<lfloor>r\<rfloor> else PFloat (Fin r))"
| "rendered_value v = v"

definition rendered :: "pipeline_settings \<Rightarrow> (string, jv) odict" where
  "rendered s = map (\<lambda>(k, v). (k, rendered_value v))
     (filter (\<lambda>(k, v). v \<noteq> PNone) (settings_values s))"

text \<open>\<open>json.dumps\<close> of the scalars a settings document holds.\<close>

fun dumps_scalar :: "jv \<Rightarrow> jdoc" where
  "dumps_scalar (PBool b) = J_bool b"
| "dumps_scalar (PInt i) = J_int i"
| "dumps_scalar (PFloat x) = J_float x"
| "dumps_scalar (PStr s) = J_str s"
| "dumps_scalar _ = J_null"

definition dumps :: "(string, jv) odict \<Rightarrow> file_text" where
  "dumps d = Text_json (J_obj (map (\<lambda>(k, v). (k, dumps_scalar v)) d))"

text \<open>
  The process: the files with their \<open>stat\<close> signatures (a \<open>stat\<close> that fails is
  \<open>Stat_fails\<close>), the parsed files kept per path, and the project whose chunk rows it follows.
\<close>

datatype 'sig on_disk = Missing_file | Stat_fails | Stored 'sig file_text

record ('root, 'sig) settings_state =
  disk :: "'root \<Rightarrow> 'sig on_disk"
  settings_reads :: "('root, 'sig option \<times> pipeline_settings) odict"
  followed_root :: "'root option"
  stream_chunk :: int

definition signature_of :: "'sig on_disk \<Rightarrow> settings_error + 'sig option" where
  "signature_of f = (case f of Missing_file \<Rightarrow> Inr None | Stat_fails \<Rightarrow> Inl Unreadable
     | Stored g _ \<Rightarrow> Inr (Some g))"

definition parse_file :: "'sig on_disk \<Rightarrow> settings_error + pipeline_settings" where
  "parse_file f = (case f of Missing_file \<Rightarrow> Inr automatic_settings | Stat_fails \<Rightarrow> Inl Unreadable
     | Stored _ text \<Rightarrow> parse_settings text)"

definition apply_chunk_rows :: "pipeline_settings \<Rightarrow> ('root, 'sig) settings_state \<Rightarrow>
    ('root, 'sig) settings_state" where
  "apply_chunk_rows s st =
     (if stream_chunk st \<noteq> streaming_chunk_size s
      then st\<lparr>stream_chunk := streaming_chunk_size s\<rparr> else st)"

definition read_pipeline_settings :: "'root \<Rightarrow> ('root, 'sig) settings_state \<Rightarrow>
    (settings_error + pipeline_settings) \<times> ('root, 'sig) settings_state" where
  "read_pipeline_settings project st =
     (case signature_of (disk st project) of
        Inl e \<Rightarrow> (Inl e, st)
      | Inr g \<Rightarrow>
          let cached = map_of (settings_reads st) project
          in if cached \<noteq> None \<and> fst (the cached) = g then (Inr (snd (the cached)), st)
             else case parse_file (disk st project) of
               Inl e \<Rightarrow> (Inl e, st)
             | Inr s \<Rightarrow>
                 let st1 = st\<lparr>settings_reads := AList.update project (g, s) (settings_reads st)\<rparr>
                 in (Inr s, if followed_root st = Some project then apply_chunk_rows s st1 else st1))"

definition merged :: "(string, jv) odict \<Rightarrow> (string \<times> jv) list \<Rightarrow> (string, jv) odict" where
  "merged base changes = fold (\<lambda>(k, v). AList.update k v) changes base"

definition update_pipeline_settings :: "'root \<Rightarrow> (string \<times> jv) list \<Rightarrow> 'sig \<Rightarrow>
    ('root, 'sig) settings_state \<Rightarrow>
    (settings_error + pipeline_settings) \<times> ('root, 'sig) settings_state" where
  "update_pipeline_settings project changes new_sig st =
     (case read_pipeline_settings project st of
        (Inl e, st1) \<Rightarrow> (Inl e, st1)
      | (Inr current, st1) \<Rightarrow>
          (case validated_pipeline_settings (merged (settings_values current) changes) of
             Inl e \<Rightarrow> (Inl e, st1)
           | Inr updated \<Rightarrow> read_pipeline_settings project
               (st1\<lparr>disk := (disk st1)(project := Stored new_sig (dumps (rendered updated)))\<rparr>)))"

definition follow_chunk_rows :: "'root \<Rightarrow> ('root, 'sig) settings_state \<Rightarrow>
    (settings_error + unit) \<times> ('root, 'sig) settings_state" where
  "follow_chunk_rows project st =
     (case read_pipeline_settings project (st\<lparr>followed_root := Some project\<rparr>) of
        (Inl e, st1) \<Rightarrow> (Inl e, st1)
      | (Inr s, st1) \<Rightarrow> (Inr (), apply_chunk_rows s st1))"

definition stop_following_chunk_rows :: "('root, 'sig) settings_state \<Rightarrow>
    ('root, 'sig) settings_state" where
  "stop_following_chunk_rows st = st\<lparr>followed_root := None\<rparr>"

definition automatic_cache_size_bytes :: "int \<Rightarrow> int" where
  "automatic_cache_size_bytes free_disk =
     min automatic_cache_size_ceiling_bytes (free_disk div 10)"

section \<open>What the validators accept\<close>

definition if_set :: "('a \<Rightarrow> bool) \<Rightarrow> 'a option \<Rightarrow> bool" where
  "if_set P x \<longleftrightarrow> (case x of None \<Rightarrow> True | Some a \<Rightarrow> P a)"

definition is_size :: "rat \<Rightarrow> bool" where
  "is_size g \<longleftrightarrow> 0 < g \<and> g \<le> max_size_gb"

definition is_minutes :: "rat \<Rightarrow> bool" where
  "is_minutes m \<longleftrightarrow> 0 < m \<and> m \<le> max_time_limit_minutes"

definition settings_ok :: "pipeline_settings \<Rightarrow> bool" where
  "settings_ok s \<longleftrightarrow>
     if_set (\<lambda>n. 1 \<le> n \<and> n \<le> max_streaming_chunk_size) (chunk_rows s) \<and>
     if_set is_size (cache_size_gb s) \<and> if_set is_size (preview_memory_gb s) \<and>
     if_set (\<lambda>g. 0 \<le> g \<and> g \<le> max_size_gb) (kept_free_gb s) \<and>
     if_set is_minutes (pipeline_time_limit_minutes s) \<and>
     if_set is_minutes (modelling_time_limit_minutes s) \<and>
     if_set is_minutes (optimisation_time_limit_minutes s)"

lemma within_simps [simp]: "if_set P None" "if_set P (Some a) = P a"
  by (simp_all add: if_set_def)

lemma checked_Inr:
  "checked data k f = Inr x \<longleftrightarrow>
     (if py_get k data = PNone then x = None else \<exists>a. f k (py_get k data) = Inr a \<and> x = Some a)"
  by (auto simp: checked_def bind_result_Inr)

lemma chunk_rows_setting_Inr:
  "chunk_rows_setting k v = Inr n \<longleftrightarrow> v = PInt n \<and> 1 \<le> n \<and> n \<le> max_streaming_chunk_size"
  by (cases v) (auto simp: chunk_rows_setting_def)

lemma number_setting_Inr:
  "number_setting k v req = Inr r \<longleftrightarrow>
     (\<exists>i. v = PInt i \<and> \<bar>i\<bar> < float_overflow_bound \<and> r = of_int i) \<or> v = PFloat (Fin r)"
  by (cases v rule: is_number.cases) (auto simp: number_setting_def)

lemma positive_size_Inr:
  "positive_size k v = Inr r \<longleftrightarrow> number_setting k v Size_above_zero = Inr r \<and> is_size r"
  by (auto simp: positive_size_def bind_result_Inr is_size_def)

lemma size_from_zero_Inr:
  "size_from_zero k v = Inr r \<longleftrightarrow>
     number_setting k v Size_from_zero = Inr r \<and> 0 \<le> r \<and> r \<le> max_size_gb"
  by (auto simp: size_from_zero_def bind_result_Inr)

lemma minutes_setting_Inr:
  "minutes_setting k v = Inr r \<longleftrightarrow> number_setting k v Minutes_in_range = Inr r \<and> is_minutes r"
  by (auto simp: minutes_setting_def bind_result_Inr is_minutes_def)

lemma switch_setting_Inr: "switch_setting k v = Inr b \<longleftrightarrow> v = PBool b"
  by (cases v) (auto simp: switch_setting_def)

lemmas setting_Inr = checked_Inr chunk_rows_setting_Inr number_setting_Inr positive_size_Inr
  size_from_zero_Inr minutes_setting_Inr switch_setting_Inr

definition fields_of :: "(string, jv) odict \<Rightarrow> pipeline_settings \<Rightarrow> bool" where
  "fields_of data s \<longleftrightarrow>
     checked data ''chunk_rows'' chunk_rows_setting = Inr (chunk_rows s) \<and>
     checked data ''caching'' switch_setting = Inr (caching s) \<and>
     checked data ''cache_size_gb'' positive_size = Inr (cache_size_gb s) \<and>
     checked data ''preview_memory_gb'' positive_size = Inr (preview_memory_gb s) \<and>
     checked data ''kept_free_gb'' size_from_zero = Inr (kept_free_gb s) \<and>
     checked data ''pipeline_time_limit_minutes'' minutes_setting
       = Inr (pipeline_time_limit_minutes s) \<and>
     checked data ''modelling_time_limit_minutes'' minutes_setting
       = Inr (modelling_time_limit_minutes s) \<and>
     checked data ''optimisation_time_limit_minutes'' minutes_setting
       = Inr (optimisation_time_limit_minutes s)"

lemma unknown_settings_Nil:
  "unknown_settings data = [] \<longleftrightarrow> set (keys data) \<subseteq> set setting_keys"
  by (metis (no_types, lifting) unknown_settings_def filter_empty_conv mset.simps(1) mset_sort
      mset_zero_iff subset_code(1))

lemma validated_Nil:
  assumes "unknown_settings data = []"
  shows "validated_pipeline_settings data = Inr s \<longleftrightarrow> fields_of data s"
  apply (simp add: validated_pipeline_settings_def fields_of_def assms)
  apply (cases "checked data ''chunk_rows'' chunk_rows_setting"; simp)
  apply (cases "checked data ''caching'' switch_setting"; simp)
  apply (cases "checked data ''cache_size_gb'' positive_size"; simp)
  apply (cases "checked data ''preview_memory_gb'' positive_size"; simp)
  apply (cases "checked data ''kept_free_gb'' size_from_zero"; simp)
  apply (cases "checked data ''pipeline_time_limit_minutes'' minutes_setting"; simp)
  apply (cases "checked data ''modelling_time_limit_minutes'' minutes_setting"; simp)
  apply (cases "checked data ''optimisation_time_limit_minutes'' minutes_setting"; cases s; auto)
  done

lemma validated_Inr:
  "validated_pipeline_settings data = Inr s \<longleftrightarrow>
     set (keys data) \<subseteq> set setting_keys \<and> fields_of data s"
proof (cases "unknown_settings data = []")
  case True
  then show ?thesis using validated_Nil [OF True] unknown_settings_Nil [of data] by simp
next
  case False
  then show ?thesis using unknown_settings_Nil [of data]
    by (auto simp: validated_pipeline_settings_def neq_Nil_conv)
qed

lemma checked_if_set:
  "checked data k f = Inr x \<Longrightarrow> (\<And>v a. f k v = Inr a \<Longrightarrow> P a) \<Longrightarrow> if_set P x"
  by (auto simp: checked_Inr if_set_def split: if_splits)

lemma fields_of_ok:
  assumes "fields_of data s"
  shows "settings_ok s"
  unfolding settings_ok_def
proof (intro conjI)
  show "if_set (\<lambda>n. 1 \<le> n \<and> n \<le> max_streaming_chunk_size) (chunk_rows s)"
    by (rule checked_if_set [of data "''chunk_rows''" chunk_rows_setting])
      (use assms in \<open>simp_all add: fields_of_def chunk_rows_setting_Inr\<close>)
  show "if_set is_size (cache_size_gb s)"
    by (rule checked_if_set [of data "''cache_size_gb''" positive_size])
      (use assms in \<open>simp_all add: fields_of_def positive_size_Inr\<close>)
  show "if_set is_size (preview_memory_gb s)"
    by (rule checked_if_set [of data "''preview_memory_gb''" positive_size])
      (use assms in \<open>simp_all add: fields_of_def positive_size_Inr\<close>)
  show "if_set (\<lambda>g. 0 \<le> g \<and> g \<le> max_size_gb) (kept_free_gb s)"
    by (rule checked_if_set [of data "''kept_free_gb''" size_from_zero])
      (use assms in \<open>simp_all add: fields_of_def size_from_zero_Inr\<close>)
  show "if_set is_minutes (pipeline_time_limit_minutes s)"
    by (rule checked_if_set [of data "''pipeline_time_limit_minutes''" minutes_setting])
      (use assms in \<open>simp_all add: fields_of_def minutes_setting_Inr\<close>)
  show "if_set is_minutes (modelling_time_limit_minutes s)"
    by (rule checked_if_set [of data "''modelling_time_limit_minutes''" minutes_setting])
      (use assms in \<open>simp_all add: fields_of_def minutes_setting_Inr\<close>)
  show "if_set is_minutes (optimisation_time_limit_minutes s)"
    by (rule checked_if_set [of data "''optimisation_time_limit_minutes''" minutes_setting])
      (use assms in \<open>simp_all add: fields_of_def minutes_setting_Inr\<close>)
qed

lemma validated_ok: "validated_pipeline_settings data = Inr s \<Longrightarrow> settings_ok s"
  by (auto simp: validated_Inr intro: fields_of_ok)

text \<open>A whole number too large for a double leaves validation as an \<open>OverflowError\<close>.\<close>

lemma oversized_number_overflows:
  assumes large: "float_overflow_bound \<le> i"
  shows "validated_pipeline_settings [(''preview_memory_gb'', PInt i)] = Inl Float_overflow"
proof -
  have "\<not> \<bar>i\<bar> < float_overflow_bound" using large by linarith
  then show ?thesis
    by (simp add: validated_pipeline_settings_def unknown_settings_def setting_keys_def
        checked_def py_get_def positive_size_def number_setting_def)
qed

text \<open>The byte figures of accepted settings: a preview of at least one byte, all below a pebibyte.\<close>

lemma round_half_even_le:
  assumes "r \<le> of_int n"
  shows "round_half_even r \<le> n"
proof -
  have "\<lfloor>r\<rfloor> \<le> n" using floor_mono [OF assms] by simp
  then show ?thesis
  proof (cases "\<lfloor>r\<rfloor> = n")
    case True
    then have "r - of_int \<lfloor>r\<rfloor> = 0" using assms of_int_floor_le [of r] by linarith
    then show ?thesis using True by (simp add: round_half_even_def)
  qed (simp add: round_half_even_def Let_def)
qed

lemma whole_bytes_bounds:
  assumes "whole_bytes g least = Some b" "if_set (\<lambda>g. g \<le> max_size_gb) g" "least \<le> 2 ^ 50"
  shows "least \<le> b \<and> b \<le> 2 ^ 50"
proof -
  obtain r where r: "g = Some r" "b = max least (round_half_even (r * of_int gib))"
    using assms(1) by (auto simp: whole_bytes_def)
  have "r * of_int gib \<le> max_size_gb * of_int gib"
    using assms(2) r by (intro mult_right_mono) (auto simp: gib_def)
  also have "\<dots> = of_int (2 ^ 50)" by (simp add: max_size_gb_def gib_def)
  finally have "round_half_even (r * of_int gib) \<le> 2 ^ 50" by (rule round_half_even_le)
  then show ?thesis using r assms(3) by simp
qed

section \<open>Rendering and validating again\<close>

lemma py_get_simps [simp]:
  "py_get k [] = PNone" "py_get k ((k', v) # d) = (if k = k' then v else py_get k d)"
  by (simp_all add: py_get_def)

lemma rendered_value_PNone [simp]: "rendered_value v = PNone \<longleftrightarrow> v = PNone"
  by (cases v rule: rendered_value.cases) auto

lemma py_get_filter_rendered:
  assumes "distinct (keys d)"
  shows "py_get k (map (\<lambda>(k, v). (k, rendered_value v)) (filter (\<lambda>(k, v). v \<noteq> PNone) d))
    = rendered_value (py_get k d)"
  using assms
proof (induction d)
  case (Cons p d)
  obtain k' v where p: "p = (k', v)" by (cases p)
  have "py_get k' d = PNone" using Cons.prems p
    by (simp add: py_get_def map_of_None_keys [THEN iffD2])
  then show ?case using Cons p by auto
qed simp

lemma keys_settings_values: "keys (settings_values s) = setting_keys"
  by (simp add: settings_values_def setting_keys_def)

lemma distinct_setting_keys: "distinct setting_keys"
  by (simp add: setting_keys_def)

lemma py_get_rendered: "py_get k (rendered s) = rendered_value (py_get k (settings_values s))"
  unfolding rendered_def
  by (rule py_get_filter_rendered) (simp add: keys_settings_values distinct_setting_keys)

lemma keys_rendered: "set (keys (rendered s)) \<subseteq> set setting_keys"
proof
  fix k assume "k \<in> set (keys (rendered s))"
  then obtain v where "(k, v) \<in> set (settings_values s)" by (auto simp: rendered_def keys_def)
  then have "k \<in> set (keys (settings_values s))" by (force simp: keys_def)
  then show "k \<in> set setting_keys" by (simp add: keys_settings_values)
qed

lemma small_floor:
  fixes r :: rat
  assumes "0 \<le> r" "r \<le> max_size_gb"
  shows "\<bar>\<lfloor>r\<rfloor>\<bar> < float_overflow_bound"
proof -
  have "0 \<le> \<lfloor>r\<rfloor>" "\<lfloor>r\<rfloor> \<le> 1048576"
    using assms floor_mono [of r 1048576] by (simp_all add: max_size_gb_def)
  then show ?thesis by (simp add: float_overflow_bound_def)
qed

lemma number_setting_rendered:
  assumes "0 \<le> r" "r \<le> max_size_gb"
  shows "number_setting k (rendered_value (float_value r)) req = Inr r"
  using small_floor [OF assms] by (auto simp: number_setting_Inr float_value_def)

lemma minutes_below_size: "max_time_limit_minutes \<le> max_size_gb"
  by (simp add: max_time_limit_minutes_def max_size_gb_def)

lemma checked_rendered:
  assumes "py_get k (settings_values s) = optional_value g x"
    and "\<And>a. x = Some a \<Longrightarrow> f k (rendered_value (g a)) = Inr a"
    and "\<And>a. g a \<noteq> PNone"
  shows "checked (rendered s) k f = Inr x"
  using assms by (cases x) (auto simp: checked_Inr py_get_rendered optional_value_def)

lemma float_value_PNone [simp]: "float_value r \<noteq> PNone"
  by (simp add: float_value_def)

lemma validated_rendered:
  assumes "settings_ok s"
  shows "validated_pipeline_settings (rendered s) = Inr s"
proof -
  have minutes: "minutes_setting k (rendered_value (float_value m)) = Inr m" if "is_minutes m" for k m
    using that number_setting_rendered [of m k] minutes_below_size
    by (simp add: minutes_setting_Inr is_minutes_def)
  have size: "positive_size k (rendered_value (float_value m)) = Inr m" if "is_size m" for k m
    using that number_setting_rendered [of m k] by (simp add: positive_size_Inr is_size_def)
  have "fields_of (rendered s) s"
    unfolding fields_of_def
    by (intro conjI checked_rendered [where g = PInt] checked_rendered [where g = PBool]
        checked_rendered [where g = float_value])
      (use assms in \<open>auto simp: settings_ok_def settings_values_def chunk_rows_setting_Inr
        switch_setting_Inr minutes size size_from_zero_Inr number_setting_rendered\<close>)
  then show ?thesis using keys_rendered by (simp add: validated_Inr)
qed

section \<open>Reading and updating the file\<close>

lemma refuse_duplicates_distinct:
  "distinct (keys (d @ ps)) \<Longrightarrow> refuse_duplicates ps d = Inr (d @ ps)"
proof (induction ps arbitrary: d)
  case (Cons p ps)
  then show ?case by (cases p) (simp add: has_key_iff update_new)
qed simp

definition scalar :: "jv \<Rightarrow> bool" where
  "scalar v \<longleftrightarrow> loads (dumps_scalar v) = Inr v"

lemma scalar_simps [simp]: "scalar (PInt i)" "scalar (PBool b)" "scalar (PFloat x)" "scalar PNone"
  by (simp_all add: scalar_def)

lemma loads_pairs_dumps:
  "list_all (\<lambda>p. scalar (snd p)) d \<Longrightarrow>
     loads_pairs (map (\<lambda>(k, v). (k, dumps_scalar v)) d) = Inr d"
  by (induction d) (auto simp: scalar_def)

lemma scalar_rendered_value: "scalar v \<Longrightarrow> scalar (rendered_value v)"
  by (cases v rule: rendered_value.cases) (auto simp: scalar_def)

lemma scalar_optional: "(\<And>a. scalar (f a)) \<Longrightarrow> scalar (optional_value f x)"
  by (cases x) (simp_all add: optional_value_def)

lemma settings_values_scalar: "list_all (\<lambda>p. scalar (snd p)) (settings_values s)"
  by (simp add: settings_values_def scalar_optional float_value_def)

lemma rendered_scalar: "list_all (\<lambda>p. scalar (snd p)) (rendered s)"
  using settings_values_scalar [of s]
  by (auto simp: rendered_def list_all_iff scalar_rendered_value)

lemma distinct_keys_rendered: "distinct (keys (rendered s))"
proof -
  have "keys (rendered s) = map fst (filter (\<lambda>(k, v). v \<noteq> PNone) (settings_values s))"
    by (simp add: rendered_def keys_def case_prod_beta' comp_def)
  moreover have "distinct (map fst (settings_values s))"
    using distinct_setting_keys [folded keys_settings_values [of s]] by (simp add: keys_def)
  ultimately show ?thesis by (simp add: distinct_map_filter)
qed

lemma parse_dumps_rendered:
  assumes "settings_ok s"
  shows "parse_settings (dumps (rendered s)) = Inr s"
  using loads_pairs_dumps [OF rendered_scalar [of s]]
    refuse_duplicates_distinct [of "[]" "rendered s"] distinct_keys_rendered [of s]
    validated_rendered [OF assms]
  by (simp add: parse_settings_def dumps_def)

lemma read_disk [simp]: "disk (snd (read_pipeline_settings p st)) = disk st"
  by (simp add: read_pipeline_settings_def apply_chunk_rows_def Let_def split: sum.split)

lemma read_followed [simp]: "followed_root (snd (read_pipeline_settings p st)) = followed_root st"
  by (simp add: read_pipeline_settings_def apply_chunk_rows_def Let_def split: sum.split)

lemma read_caches:
  assumes "fst (read_pipeline_settings p st) = Inr s"
  shows "\<exists>g. signature_of (disk st p) = Inr g \<and>
    map_of (settings_reads (snd (read_pipeline_settings p st))) p = Some (g, s)"
  using assms
  by (auto simp: read_pipeline_settings_def apply_chunk_rows_def Let_def dict_simps
      split: sum.splits if_splits)

lemma read_again:
  assumes "fst (read_pipeline_settings p st) = Inr s"
  shows "read_pipeline_settings p (snd (read_pipeline_settings p st))
    = (Inr s, snd (read_pipeline_settings p st))"
  using read_caches [OF assms] by (auto simp: read_pipeline_settings_def [of p "snd _"] Let_def)

lemma read_fresh:
  assumes "signature_of (disk st p) = Inr g" "map_option fst (map_of (settings_reads st) p) \<noteq> Some g"
    "parse_file (disk st p) = Inr s"
  shows "fst (read_pipeline_settings p st) = Inr s"
    "followed_root st = Some p \<Longrightarrow>
       stream_chunk (snd (read_pipeline_settings p st)) = streaming_chunk_size s"
  using assms by (auto simp: read_pipeline_settings_def Let_def apply_chunk_rows_def)

text \<open>
  C21: An update of the settings is all or nothing. When it is refused, for an invalid current file
  or an invalid change, no file has changed. When it succeeds, the project's file holds exactly
  the current settings with the changes merged in and validated: parsing what was rendered gives
  the returned settings back, the next read returns them, a process that follows the project runs
  with their chunk rows, and every other project's file is as it was. The hypothesis says that
  \<open>stat\<close> tells the written file from the one it replaces.
\<close>

theorem settings_update_reads_back:
  assumes "signature_of (disk st project) \<noteq> Inr (Some new_sig)"
  shows "case update_pipeline_settings project changes new_sig st of
      (Inl e, st') \<Rightarrow> disk st' = disk st
    | (Inr s, st') \<Rightarrow>
        (\<exists>current. fst (read_pipeline_settings project st) = Inr current \<and>
           validated_pipeline_settings (merged (settings_values current) changes) = Inr s) \<and>
        settings_ok s \<and> parse_file (disk st' project) = Inr s \<and>
        read_pipeline_settings project st' = (Inr s, st') \<and>
        (followed_root st = Some project \<longrightarrow> stream_chunk st' = streaming_chunk_size s) \<and>
        (\<forall>other. other \<noteq> project \<longrightarrow> disk st' other = disk st other)"
proof (cases "fst (read_pipeline_settings project st)")
  case (Inl e)
  then have "update_pipeline_settings project changes new_sig st
      = (Inl e, snd (read_pipeline_settings project st))"
    by (cases "read_pipeline_settings project st") (simp add: update_pipeline_settings_def)
  then show ?thesis by simp
next
  case (Inr current)
  define st1 where "st1 = snd (read_pipeline_settings project st)"
  have r: "read_pipeline_settings project st = (Inr current, st1)"
    using Inr by (simp add: st1_def prod_eq_iff)
  have disk1: "disk st1 = disk st" and followed1: "followed_root st1 = followed_root st"
    by (simp_all add: st1_def)
  show ?thesis
  proof (cases "validated_pipeline_settings (merged (settings_values current) changes)")
    case (Inl e)
    then have "update_pipeline_settings project changes new_sig st = (Inl e, st1)"
      by (simp add: update_pipeline_settings_def r)
    then show ?thesis by (simp add: disk1)
  next
    case (Inr s)
    define st2 where
      "st2 = st1\<lparr>disk := (disk st1)(project := Stored new_sig (dumps (rendered s)))\<rparr>"
    have u: "update_pipeline_settings project changes new_sig st = read_pipeline_settings project st2"
      by (simp add: update_pipeline_settings_def r Inr st2_def)
    have ok: "settings_ok s" by (rule validated_ok [OF Inr])
    have sig: "signature_of (disk st2 project) = Inr (Some new_sig)"
      by (simp add: st2_def signature_of_def)
    have unread: "map_option fst (map_of (settings_reads st2) project) \<noteq> Some (Some new_sig)"
      using read_caches [of project st current] r assms by (auto simp: st2_def)
    have parse: "parse_file (disk st2 project) = Inr s"
      by (simp add: st2_def parse_file_def parse_dumps_rendered [OF ok])
    note fresh = read_fresh [OF sig unread parse]
    define st3 where "st3 = snd (read_pipeline_settings project st2)"
    have u3: "update_pipeline_settings project changes new_sig st = (Inr s, st3)"
      using fresh(1) by (simp add: u st3_def prod_eq_iff)
    have disk3: "disk st3 = disk st2" by (simp add: st3_def)
    have "read_pipeline_settings project st3 = (Inr s, st3)"
      unfolding st3_def by (rule read_again [OF fresh(1)])
    moreover have "followed_root st = Some project \<longrightarrow> stream_chunk st3 = streaming_chunk_size s"
      using fresh(2) followed1 by (simp add: st3_def st2_def)
    moreover have "\<forall>other. other \<noteq> project \<longrightarrow> disk st3 other = disk st other"
      by (simp add: disk3 st2_def disk1)
    ultimately show ?thesis
      using r Inr ok parse by (simp add: u3 disk3)
  qed
qed

definition example_settings_state :: "(string, int) settings_state" where
  "example_settings_state = \<lparr>disk = (\<lambda>_. Stored 1 (Text_json (J_obj
       [(''caching'', J_bool False), (''kept_free_gb'', J_float (Fin (3 / 2)))]))),
     settings_reads = [], followed_root = Some ''p'', stream_chunk = 0\<rparr>"

theorem settings_update_reads_back_witness:
  "case update_pipeline_settings ''p'' [(''chunk_rows'', PInt 9), (''caching'', PNone)] 2
      example_settings_state of
      (Inl e, st') \<Rightarrow> False
    | (Inr s, st') \<Rightarrow> chunk_rows s = Some 9 \<and> caching s = None \<and> kept_free_gb s = Some (3 / 2) \<and>
        read_pipeline_settings ''p'' st' = (Inr s, st') \<and> stream_chunk st' = 9"
proof -
  have a: "signature_of (disk example_settings_state ''p'') \<noteq> Inr (Some (2::int))"
    by (simp add: example_settings_state_def signature_of_def)
  have b: "case update_pipeline_settings ''p'' [(''chunk_rows'', PInt 9), (''caching'', PNone)] 2
      example_settings_state of
      (Inl e, st') \<Rightarrow> False
    | (Inr s, st') \<Rightarrow> chunk_rows s = Some 9 \<and> caching s = None \<and> kept_free_gb s = Some (3 / 2)"
    by code_simp
  have c: "followed_root example_settings_state = Some ''p''"
    by (simp add: example_settings_state_def)
  show ?thesis
    using settings_update_reads_back [OF a, of "[(''chunk_rows'', PInt 9), (''caching'', PNone)]"] b c
    by (auto simp: streaming_chunk_size_def split: prod.splits sum.splits)
qed

end
