(* ===== verification/Admission.thy ===== *)
theory Admission
  imports Settings Py_Text
begin

text \<open>
  Memory admission, \<open>haute/_execution_admission.py\<close>, with the environment parsing of
  \<open>haute/_env.py\<close> and the admission records of \<open>haute/_execution_context.py\<close>.

  The environment is a map from names to ASCII values, read at every use. A sample of available
  RAM or of the process's resident memory is an argument of the call that takes it. The in-flight
  table, its id counter and the release closures that exist are the state; what happens under the
  in-flight lock is one step. A wait is its rounds: in each, what the thread sees on waking.
  The lemmas bound every budget that can be resolved, show that the table holds exactly the
  reservations not yet released, and characterise every refusal.
\<close>

section \<open>Environment integers\<close>

datatype execution_profile =
    Preview_eager
  | Lazy_sink
  | Training_prep
  | Optimiser_setup
  | Optimiser_solve
  | Explore_analysis
  | Deploy_live
  | Deploy_batch
  | Node_snapshot

definition profile_value :: "execution_profile \<Rightarrow> string" where
  "profile_value p = (case p of
     Preview_eager \<Rightarrow> ''preview_eager'' | Lazy_sink \<Rightarrow> ''lazy_sink''
   | Training_prep \<Rightarrow> ''training_prep'' | Optimiser_setup \<Rightarrow> ''optimiser_setup''
   | Optimiser_solve \<Rightarrow> ''optimiser_solve'' | Explore_analysis \<Rightarrow> ''explore_analysis''
   | Deploy_live \<Rightarrow> ''deploy_live'' | Deploy_batch \<Rightarrow> ''deploy_batch''
   | Node_snapshot \<Rightarrow> ''node_snapshot'')"

type_synonym environ = "string \<Rightarrow> string option"

datatype refusal_reason =
    Memory_sampler_unavailable
  | Process_rss_limit_exceeded
  | In_flight_memory_budget_exceeded
  | No_memory_available
  | Estimate_exceeds_allowance string int int string

record refusal =
  ref_operation :: string
  ref_profile :: execution_profile
  ref_memory_limit :: int
  ref_rss_at_admission :: "int option"
  ref_reason :: refusal_reason
  ref_rss_limit :: "int option"
  ref_process_rss_limit :: "int option"
  ref_in_flight_reserved :: "int option"
  ref_in_flight_limit :: "int option"
  ref_in_flight_operations :: "string list"
  ref_estimated :: "int option"
  ref_allowance :: "int option"

datatype admission_error =
    Not_a_positive_integer string
  | Unknown_memory_policy
  | Ram_unavailable
  | Ram_negative
  | Ram_exhausted
  | Not_admitted refusal
  | Bad_estimate
  | Bad_isolated_limit
  | Bad_isolated_rss_limit
  | Parent_not_admitted
  | Parent_without_headroom
  | Not_an_in_flight_profile execution_profile
  | No_memory_variable execution_profile
  | Settings_refused settings_error
  | Cancelled
  | Interrupted

definition int_env :: "environ \<Rightarrow> string \<Rightarrow> int \<Rightarrow> admission_error + int" where
  "int_env env name default_value =
     (case env name of
        None \<Rightarrow> Inr default_value
      | Some raw \<Rightarrow>
          (case py_int raw of
             None \<Rightarrow> Inl (Not_a_positive_integer name)
           | Some v \<Rightarrow> if v < 1 then Inl (Not_a_positive_integer name) else Inr v))"

definition optional_int_env :: "environ \<Rightarrow> string \<Rightarrow> admission_error + int option" where
  "optional_int_env env name =
     (case env name of
        None \<Rightarrow> Inr None
      | Some raw \<Rightarrow>
          (case py_int raw of
             None \<Rightarrow> Inl (Not_a_positive_integer name)
           | Some v \<Rightarrow> if v < 1 then Inl (Not_a_positive_integer name) else Inr (Some v)))"

section \<open>Policy tables\<close>

definition mib :: int where
  "mib = 1024 * 1024"

definition default_os_reserve_bytes :: int where
  "default_os_reserve_bytes = 2 * (1024 * mib)"

definition default_memory_limit_bytes :: "execution_profile \<Rightarrow> int" where
  "default_memory_limit_bytes p =
     (case p of Deploy_live \<Rightarrow> 1024 * mib | _ \<Rightarrow> 4 * 1024 * mib)"

record adaptive_policy =
  available_ram_basis_points :: int
  floor_bytes :: int
  ceiling_bytes :: "int option"

definition adaptive_memory_policy :: "execution_profile \<Rightarrow> adaptive_policy" where
  "adaptive_memory_policy p =
     (let plain = (\<lambda>bp. \<lparr>available_ram_basis_points = bp, floor_bytes = 4 * 1024 * mib,
                         ceiling_bytes = None\<rparr>)
      in case p of
        Preview_eager \<Rightarrow> plain 7000
      | Lazy_sink \<Rightarrow> plain 7000
      | Training_prep \<Rightarrow> plain 7500
      | Optimiser_setup \<Rightarrow> plain 7500
      | Optimiser_solve \<Rightarrow> plain 10000
      | Explore_analysis \<Rightarrow> plain 7000
      | Deploy_live \<Rightarrow> \<lparr>available_ram_basis_points = 2500, floor_bytes = 1024 * mib,
                        ceiling_bytes = Some (2 * 1024 * mib)\<rparr>
      | Deploy_batch \<Rightarrow> plain 7000
      | Node_snapshot \<Rightarrow> plain 7000)"

definition adaptive_local :: "execution_profile \<Rightarrow> bool" where
  "adaptive_local p \<longleftrightarrow> p \<noteq> Deploy_live"

definition in_flight_profile :: "execution_profile \<Rightarrow> bool" where
  "in_flight_profile p \<longleftrightarrow> p \<noteq> Preview_eager \<and> p \<noteq> Deploy_live"

definition profile_memory_env :: "execution_profile \<Rightarrow> (string \<times> string) option" where
  "profile_memory_env p = (case p of
     Preview_eager \<Rightarrow> None
   | Lazy_sink \<Rightarrow> Some (''HAUTE_SINK_MEMORY_LIMIT_BYTES'', ''HAUTE_SINK_MEMORY_LIMIT_MB'')
   | Training_prep \<Rightarrow> Some (''HAUTE_TRAINING_MEMORY_LIMIT_BYTES'', ''HAUTE_TRAINING_MEMORY_LIMIT_MB'')
   | Optimiser_setup \<Rightarrow>
       Some (''HAUTE_OPTIMISER_MEMORY_LIMIT_BYTES'', ''HAUTE_OPTIMISER_MEMORY_LIMIT_MB'')
   | Optimiser_solve \<Rightarrow>
       Some (''HAUTE_OPTIMISER_SOLVE_MEMORY_LIMIT_BYTES'', ''HAUTE_OPTIMISER_SOLVE_MEMORY_LIMIT_MB'')
   | Explore_analysis \<Rightarrow> Some (''HAUTE_EXPLORE_MEMORY_LIMIT_BYTES'', ''HAUTE_EXPLORE_MEMORY_LIMIT_MB'')
   | Deploy_live \<Rightarrow>
       Some (''HAUTE_DEPLOY_LIVE_MEMORY_LIMIT_BYTES'', ''HAUTE_DEPLOY_LIVE_MEMORY_LIMIT_MB'')
   | Deploy_batch \<Rightarrow>
       Some (''HAUTE_DEPLOY_BATCH_MEMORY_LIMIT_BYTES'', ''HAUTE_DEPLOY_BATCH_MEMORY_LIMIT_MB'')
   | Node_snapshot \<Rightarrow>
       Some (''HAUTE_NODE_SNAPSHOT_MEMORY_LIMIT_BYTES'', ''HAUTE_NODE_SNAPSHOT_MEMORY_LIMIT_MB''))"

definition profile_process_rss_env :: "execution_profile \<Rightarrow> string \<times> string" where
  "profile_process_rss_env p = (case p of
     Preview_eager \<Rightarrow>
       (''HAUTE_PREVIEW_PROCESS_RSS_LIMIT_BYTES'', ''HAUTE_PREVIEW_PROCESS_RSS_LIMIT_MB'')
   | Lazy_sink \<Rightarrow> (''HAUTE_SINK_PROCESS_RSS_LIMIT_BYTES'', ''HAUTE_SINK_PROCESS_RSS_LIMIT_MB'')
   | Training_prep \<Rightarrow>
       (''HAUTE_TRAINING_PROCESS_RSS_LIMIT_BYTES'', ''HAUTE_TRAINING_PROCESS_RSS_LIMIT_MB'')
   | Optimiser_setup \<Rightarrow>
       (''HAUTE_OPTIMISER_PROCESS_RSS_LIMIT_BYTES'', ''HAUTE_OPTIMISER_PROCESS_RSS_LIMIT_MB'')
   | Optimiser_solve \<Rightarrow>
       (''HAUTE_OPTIMISER_SOLVE_PROCESS_RSS_LIMIT_BYTES'',
        ''HAUTE_OPTIMISER_SOLVE_PROCESS_RSS_LIMIT_MB'')
   | Explore_analysis \<Rightarrow>
       (''HAUTE_EXPLORE_PROCESS_RSS_LIMIT_BYTES'', ''HAUTE_EXPLORE_PROCESS_RSS_LIMIT_MB'')
   | Deploy_live \<Rightarrow>
       (''HAUTE_DEPLOY_LIVE_PROCESS_RSS_LIMIT_BYTES'', ''HAUTE_DEPLOY_LIVE_PROCESS_RSS_LIMIT_MB'')
   | Deploy_batch \<Rightarrow>
       (''HAUTE_DEPLOY_BATCH_PROCESS_RSS_LIMIT_BYTES'', ''HAUTE_DEPLOY_BATCH_PROCESS_RSS_LIMIT_MB'')
   | Node_snapshot \<Rightarrow>
       (''HAUTE_NODE_SNAPSHOT_PROCESS_RSS_LIMIT_BYTES'',
        ''HAUTE_NODE_SNAPSHOT_PROCESS_RSS_LIMIT_MB''))"

definition env_candidates :: "string \<times> string \<Rightarrow> string \<times> string \<Rightarrow> (string \<times> int) list" where
  "env_candidates own everywhere =
     [(fst own, 1), (snd own, mib), (fst everywhere, 1), (snd everywhere, mib)]"

definition global_memory_env :: "string \<times> string" where
  "global_memory_env = (''HAUTE_EXECUTION_MEMORY_LIMIT_BYTES'', ''HAUTE_EXECUTION_MEMORY_LIMIT_MB'')"

definition global_process_rss_env :: "string \<times> string" where
  "global_process_rss_env =
     (''HAUTE_EXECUTION_PROCESS_RSS_LIMIT_BYTES'', ''HAUTE_EXECUTION_PROCESS_RSS_LIMIT_MB'')"

text \<open>The table has no entry for a preview, so its lookup would be a \<open>KeyError\<close>.\<close>

definition memory_env_candidates :: "execution_profile \<Rightarrow> admission_error + (string \<times> int) list" where
  "memory_env_candidates p =
     (case profile_memory_env p of
        None \<Rightarrow> Inl (No_memory_variable p)
      | Some own \<Rightarrow> Inr (env_candidates own global_memory_env))"

definition process_rss_env_candidates :: "execution_profile \<Rightarrow> (string \<times> int) list" where
  "process_rss_env_candidates p = env_candidates (profile_process_rss_env p) global_process_rss_env"

fun first_env :: "environ \<Rightarrow> (string \<times> int) list \<Rightarrow> admission_error + (int \<times> string) option" where
  "first_env env [] = Inr None"
| "first_env env ((key, multiplier) # candidates) =
     bind_result (optional_int_env env key) (\<lambda>v.
       case v of None \<Rightarrow> first_env env candidates | Some n \<Rightarrow> Inr (Some (n * multiplier, key)))"

section \<open>Budgets\<close>

record resolved_limit =
  limit_bytes :: int
  limit_key :: string
  limit_policy :: string
  limit_available :: "int option"
  limit_reserve :: "int option"

record execution_budget =
  budget_limit :: int
  budget_key :: string
  budget_process_rss_limit :: "int option"
  budget_process_rss_key :: "string option"
  budget_policy :: string
  budget_available :: "int option"
  budget_reserve :: "int option"

definition require_positive_available_ram :: "int option \<Rightarrow> admission_error + int" where
  "require_positive_available_ram available =
     (case available of
        None \<Rightarrow> Inl Ram_unavailable
      | Some a \<Rightarrow> if a < 0 then Inl Ram_negative else if a = 0 then Inl Ram_exhausted else Inr a)"

definition lower_ascii :: "string \<Rightarrow> string" where
  "lower_ascii = map (\<lambda>c. let n = (of_char c :: nat) in
     if 65 \<le> n \<and> n \<le> 90 then char_of (n + 32) else c)"

text \<open>\<open>str.strip\<close> also removes the four separators below the space, which \<open>int\<close> does not.\<close>

definition is_str_space :: "char \<Rightarrow> bool" where
  "is_str_space c \<longleftrightarrow> is_space c \<or> (let n = (of_char c :: nat) in 28 \<le> n \<and> n \<le> 31)"

definition str_strip :: "string \<Rightarrow> string" where
  "str_strip s = rev (dropWhile is_str_space (rev (dropWhile is_str_space s)))"

definition memory_policy_name :: "environ \<Rightarrow> admission_error + string" where
  "memory_policy_name env =
     (let policy = lower_ascii (str_strip
        (case env ''HAUTE_EXECUTION_MEMORY_POLICY'' of None \<Rightarrow> ''local_adaptive'' | Some raw \<Rightarrow> raw))
      in if policy \<in> {''local_adaptive'', ''fixed'', ''strict_server''} then Inr policy
         else Inl Unknown_memory_policy)"

definition uses_fixed_default :: "environ \<Rightarrow> execution_profile \<Rightarrow> admission_error + bool" where
  "uses_fixed_default env p =
     bind_result (memory_policy_name env) (\<lambda>policy.
       Inr (policy \<in> {''fixed'', ''strict_server''} \<or> \<not> adaptive_local p))"

definition fixed_default_memory_limit :: "execution_profile \<Rightarrow> resolved_limit" where
  "fixed_default_memory_limit p =
     \<lparr>limit_bytes = default_memory_limit_bytes p, limit_key = ''default:'' @ profile_value p,
      limit_policy = ''fixed_default'', limit_available = None, limit_reserve = None\<rparr>"

definition adaptive_limit :: "execution_profile \<Rightarrow> int \<Rightarrow> int" where
  "adaptive_limit p usable =
     (let u = max usable 1; policy = adaptive_memory_policy p;
          share = max (u * available_ram_basis_points policy div 10000) (floor_bytes policy);
          clamped = (case ceiling_bytes policy of None \<Rightarrow> share | Some c \<Rightarrow> min share c)
      in min clamped u)"

definition automatic_os_reserve_bytes :: "int \<Rightarrow> int" where
  "automatic_os_reserve_bytes available =
     min default_os_reserve_bytes (max (available div 2) 1)"

definition os_reserve_bytes :: "int \<Rightarrow> pipeline_settings \<Rightarrow> int" where
  "os_reserve_bytes available settings =
     (case kept_free_bytes settings of
        Some kept \<Rightarrow> kept | None \<Rightarrow> automatic_os_reserve_bytes available)"

definition adaptive_default_memory_limit_bytes :: "execution_profile \<Rightarrow> pipeline_settings \<Rightarrow>
    int option \<Rightarrow> admission_error + int \<times> int \<times> int" where
  "adaptive_default_memory_limit_bytes p settings sample =
     bind_result (require_positive_available_ram sample) (\<lambda>available.
       let reserve = os_reserve_bytes available settings
       in Inr (adaptive_limit p (available - reserve), available, reserve))"

definition explicit_limit :: "int \<times> string \<Rightarrow> resolved_limit" where
  "explicit_limit found = \<lparr>limit_bytes = fst found, limit_key = snd found,
     limit_policy = ''explicit_env'', limit_available = None, limit_reserve = None\<rparr>"

definition default_budget :: "environ \<Rightarrow> execution_profile \<Rightarrow> pipeline_settings \<Rightarrow> int option \<Rightarrow>
    admission_error + resolved_limit" where
  "default_budget env p settings sample =
     bind_result (uses_fixed_default env p) (\<lambda>fixed.
       if fixed then Inr (fixed_default_memory_limit p)
       else bind_result (adaptive_default_memory_limit_bytes p settings sample)
         (\<lambda>(limit, available, reserve). Inr \<lparr>limit_bytes = limit,
            limit_key = ''adaptive:'' @ profile_value p, limit_policy = ''adaptive_local'',
            limit_available = Some available, limit_reserve = Some reserve\<rparr>))"

definition resolve_required_budget :: "environ \<Rightarrow> execution_profile \<Rightarrow> pipeline_settings \<Rightarrow>
    int option \<Rightarrow> admission_error + resolved_limit" where
  "resolve_required_budget env p settings sample =
     (if p = Preview_eager
      then case preview_memory_bytes settings of
          Some b \<Rightarrow> Inr \<lparr>limit_bytes = b, limit_key = ''preview_memory_gb'',
            limit_policy = ''pipeline_settings'', limit_available = None, limit_reserve = None\<rparr>
        | None \<Rightarrow> default_budget env p settings sample
      else bind_result (memory_env_candidates p) (\<lambda>candidates.
        bind_result (first_env env candidates) (\<lambda>found.
          case found of Some f \<Rightarrow> Inr (explicit_limit f)
          | None \<Rightarrow> default_budget env p settings sample)))"

definition resolve_optional_rss_limit :: "environ \<Rightarrow> execution_profile \<Rightarrow>
    admission_error + int option \<times> string option" where
  "resolve_optional_rss_limit env p =
     bind_result (first_env env (process_rss_env_candidates p)) (\<lambda>found.
       Inr (map_option fst found, map_option snd found))"

definition execution_budget_for_profile :: "environ \<Rightarrow> execution_profile \<Rightarrow> pipeline_settings \<Rightarrow>
    int option \<Rightarrow> admission_error + execution_budget" where
  "execution_budget_for_profile env p settings sample =
     bind_result (resolve_required_budget env p settings sample) (\<lambda>limit.
     bind_result (resolve_optional_rss_limit env p) (\<lambda>(rss_limit, rss_key).
       Inr \<lparr>budget_limit = limit_bytes limit, budget_key = limit_key limit,
            budget_process_rss_limit = rss_limit, budget_process_rss_key = rss_key,
            budget_policy = limit_policy limit, budget_available = limit_available limit,
            budget_reserve = limit_reserve limit\<rparr>))"

definition automatic_preview_memory_and_kept_free_bytes :: "environ \<Rightarrow> pipeline_settings \<Rightarrow>
    int option \<Rightarrow> admission_error + int \<times> int" where
  "automatic_preview_memory_and_kept_free_bytes env settings sample =
     bind_result (require_positive_available_ram sample) (\<lambda>available.
     bind_result (uses_fixed_default env Preview_eager) (\<lambda>fixed.
       Inr (if fixed then default_memory_limit_bytes Preview_eager
            else adaptive_limit Preview_eager (available - os_reserve_bytes available settings),
            automatic_os_reserve_bytes available)))"

record automatic_figures =
  auto_chunk_rows :: int
  auto_caching :: bool
  auto_cache_size_gb :: rat
  auto_preview_memory_gb :: rat
  auto_kept_free_gb :: rat
  auto_pipeline_minutes :: rat
  auto_modelling_minutes :: rat
  auto_optimisation_minutes :: "rat option"

definition in_gib :: "int \<Rightarrow> rat" where
  "in_gib b = of_int b / of_int gib"

definition automatic_pipeline_settings :: "environ \<Rightarrow> pipeline_settings \<Rightarrow> int option \<Rightarrow> int \<Rightarrow>
    admission_error + automatic_figures" where
  "automatic_pipeline_settings env settings sample free_disk =
     bind_result (automatic_preview_memory_and_kept_free_bytes env settings sample)
       (\<lambda>(preview, kept). Inr \<lparr>auto_chunk_rows = default_streaming_chunk_size,
          auto_caching = True,
          auto_cache_size_gb = in_gib (automatic_cache_size_bytes free_disk),
          auto_preview_memory_gb = in_gib preview, auto_kept_free_gb = in_gib kept,
          auto_pipeline_minutes = automatic_pipeline_time_limit_minutes,
          auto_modelling_minutes = automatic_modelling_time_limit_minutes,
          auto_optimisation_minutes = None\<rparr>)"

section \<open>What a budget can be\<close>

lemma policy_positive:
  "0 < available_ram_basis_points (adaptive_memory_policy p)"
  "available_ram_basis_points (adaptive_memory_policy p) \<le> 10000"
  "0 < floor_bytes (adaptive_memory_policy p)"
  "if_set (\<lambda>c. floor_bytes (adaptive_memory_policy p) \<le> c) (ceiling_bytes (adaptive_memory_policy p))"
  by (cases p; simp add: adaptive_memory_policy_def mib_def)+

lemma adaptive_limit_bounds:
  "1 \<le> adaptive_limit p usable" "adaptive_limit p usable \<le> max usable 1"
proof -
  have "0 < floor_bytes (adaptive_memory_policy p)"
    "if_set (\<lambda>c. floor_bytes (adaptive_memory_policy p) \<le> c) (ceiling_bytes (adaptive_memory_policy p))"
    by (rule policy_positive)+
  then show "1 \<le> adaptive_limit p usable"
    by (cases "ceiling_bytes (adaptive_memory_policy p)") (auto simp: adaptive_limit_def Let_def)
  show "adaptive_limit p usable \<le> max usable 1"
    by (simp add: adaptive_limit_def Let_def)
qed

lemma adaptive_limit_floor:
  "min (floor_bytes (adaptive_memory_policy p)) (max usable 1) \<le> adaptive_limit p usable"
  using policy_positive(4) [of p]
  by (cases "ceiling_bytes (adaptive_memory_policy p)") (auto simp: adaptive_limit_def Let_def)

lemma adaptive_limit_ceiling:
  "ceiling_bytes (adaptive_memory_policy p) = Some c \<Longrightarrow> adaptive_limit p usable \<le> c"
  by (simp add: adaptive_limit_def Let_def)

lemma adaptive_limit_mono:
  assumes "u \<le> v"
  shows "adaptive_limit p u \<le> adaptive_limit p v"
proof -
  let ?policy = "adaptive_memory_policy p"
  let ?share = "\<lambda>u. max (max u 1 * available_ram_basis_points ?policy div 10000) (floor_bytes ?policy)"
  have "max u 1 * available_ram_basis_points ?policy \<le> max v 1 * available_ram_basis_points ?policy"
    using assms policy_positive(1) [of p] by (intro mult_right_mono) auto
  then have share: "?share u \<le> ?share v"
    by (intro max.mono zdiv_mono1) simp_all
  have top: "max u 1 \<le> max v 1" using assms by simp
  show ?thesis
    unfolding adaptive_limit_def Let_def
  proof (rule min.mono [OF _ top])
    show "(case ceiling_bytes ?policy of None \<Rightarrow> ?share u | Some c \<Rightarrow> min (?share u) c)
      \<le> (case ceiling_bytes ?policy of None \<Rightarrow> ?share v | Some c \<Rightarrow> min (?share v) c)"
    proof (cases "ceiling_bytes ?policy")
      case None
      show ?thesis unfolding None option.case by (rule share)
    next
      case (Some c)
      show ?thesis unfolding Some option.case by (rule min.mono [OF share order_refl])
    qed
  qed
qed

lemma optional_int_env_positive: "optional_int_env env k = Inr (Some v) \<Longrightarrow> 1 \<le> v"
  by (auto simp: optional_int_env_def split: option.splits if_splits)

lemma first_env_Some:
  "first_env env candidates = Inr (Some (n, key)) \<Longrightarrow>
     \<exists>earlier m later v. candidates = earlier @ (key, m) # later \<and>
       (\<forall>c \<in> set earlier. env (fst c) = None) \<and> optional_int_env env key = Inr (Some v) \<and> n = v * m"
proof (induction env candidates rule: first_env.induct)
  case (2 env k mult candidates)
  obtain r where r: "optional_int_env env k = Inr r" using "2.prems" by (auto simp: bind_result_Inr)
  show ?case
  proof (cases r)
    case None
    then have k: "env k = None" using r
      by (auto simp: optional_int_env_def split: option.splits if_splits)
    have "first_env env candidates = Inr (Some (n, key))" using "2.prems" r None by simp
    then obtain earlier m later v where "candidates = earlier @ (key, m) # later"
      "\<forall>c \<in> set earlier. env (fst c) = None" "optional_int_env env key = Inr (Some v)" "n = v * m"
      using "2.IH" None by blast
    then show ?thesis using k
      by (intro exI [of _ "(k, mult) # earlier"] exI [of _ m] exI [of _ later] exI [of _ v]) auto
  next
    case (Some v)
    then show ?thesis using "2.prems" r
      by (intro exI [of _ "[]"] exI [of _ mult] exI [of _ candidates] exI [of _ v]) auto
  qed
qed simp

lemma first_env_None: "first_env env candidates = Inr None \<Longrightarrow> c \<in> set candidates \<Longrightarrow> env (fst c) = None"
  by (induction env candidates rule: first_env.induct)
    (auto simp: bind_result_Inr optional_int_env_def split: option.splits if_splits)

section \<open>The in-flight table\<close>

type_synonym holder = "execution_profile \<times> int \<times> string"

record in_flight_state =
  reservations :: "(nat, holder) odict"
  next_reservation :: nat
  closures :: "(nat \<times> bool) list"

definition in_flight_init :: in_flight_state where
  "in_flight_init = \<lparr>reservations = [], next_reservation = 1, closures = []\<rparr>"

definition amount_of :: "holder \<Rightarrow> int" where
  "amount_of h = fst (snd h)"

definition reserved_bytes :: "in_flight_state \<Rightarrow> int" where
  "reserved_bytes st = sum_list (map (\<lambda>r. amount_of (snd r)) (reservations st))"

definition holder_label :: "holder \<Rightarrow> string" where
  "holder_label h = profile_value (fst h) @ '':'' @ snd (snd h)"

definition reported_holders :: "in_flight_state \<Rightarrow> string list" where
  "reported_holders st = take 8 (sort (remdups (map (\<lambda>r. holder_label (snd r)) (reservations st))))"

text \<open>\<open>_reservation_release\<close> makes one closure per reservation, known here by its position.\<close>

definition add_reservation :: "holder \<Rightarrow> in_flight_state \<Rightarrow> nat \<times> in_flight_state" where
  "add_reservation h st =
     (length (closures st),
      \<lparr>reservations = AList.update (next_reservation st) h (reservations st),
       next_reservation = next_reservation st + 1,
       closures = closures st @ [(next_reservation st, False)]\<rparr>)"

definition release :: "nat \<Rightarrow> in_flight_state \<Rightarrow> in_flight_state" where
  "release i st =
     (if length (closures st) \<le> i \<or> snd (closures st ! i) then st
      else st\<lparr>closures := (closures st)[i := (fst (closures st ! i), True)],
              reservations := AList.delete (fst (closures st ! i)) (reservations st)\<rparr>)"

definition in_flight_limit_bytes :: "execution_budget \<Rightarrow> pipeline_settings \<Rightarrow> int option \<Rightarrow>
    admission_error + int" where
  "in_flight_limit_bytes budget settings sample =
     bind_result (require_positive_available_ram
         (case budget_available budget of None \<Rightarrow> sample | Some a \<Rightarrow> Some a)) (\<lambda>available.
       let reserve = (case budget_reserve budget of
             None \<Rightarrow> os_reserve_bytes available settings | Some r \<Rightarrow> r)
       in Inr (max (available - reserve) 1))"

definition plain_refusal :: "string \<Rightarrow> execution_profile \<Rightarrow> int \<Rightarrow> int option \<Rightarrow> refusal_reason \<Rightarrow>
    refusal" where
  "plain_refusal operation p limit rss reason =
     \<lparr>ref_operation = operation, ref_profile = p, ref_memory_limit = limit,
      ref_rss_at_admission = rss, ref_reason = reason, ref_rss_limit = None,
      ref_process_rss_limit = None, ref_in_flight_reserved = None, ref_in_flight_limit = None,
      ref_in_flight_operations = [], ref_estimated = None, ref_allowance = None\<rparr>"

definition ref_headroom :: "refusal \<Rightarrow> int option" where
  "ref_headroom r =
     (case (ref_rss_at_admission r, ref_process_rss_limit r) of
        (Some rss, Some limit) \<Rightarrow> Some (limit - rss) | _ \<Rightarrow> None)"

definition reserve_in_flight_budget :: "string \<Rightarrow> execution_profile \<Rightarrow> execution_budget \<Rightarrow>
    pipeline_settings \<Rightarrow> int \<Rightarrow> int option \<Rightarrow> int option \<Rightarrow> in_flight_state \<Rightarrow>
    (admission_error + nat option) \<times> in_flight_state" where
  "reserve_in_flight_budget operation p budget settings bytes rss sample st =
     (if \<not> in_flight_profile p then (Inr None, st)
      else case in_flight_limit_bytes budget settings sample of
        Inl e \<Rightarrow> (Inl e, st)
      | Inr limit \<Rightarrow>
          if reserved_bytes st + bytes > limit
          then (Inl (Not_admitted ((plain_refusal operation p (budget_limit budget) rss
                  In_flight_memory_budget_exceeded)
                 \<lparr>ref_process_rss_limit := budget_process_rss_limit budget,
                  ref_in_flight_reserved := Some (reserved_bytes st),
                  ref_in_flight_limit := Some limit,
                  ref_in_flight_operations := reported_holders st\<rparr>)), st)
          else let (i, st1) = add_reservation (p, bytes, operation) st in (Inr (Some i), st1))"

definition when_set :: "(int \<Rightarrow> bool) \<Rightarrow> int option \<Rightarrow> bool" where
  "when_set P x = (case x of None \<Rightarrow> False | Some a \<Rightarrow> P a)"

section \<open>Admitted contexts\<close>

record admission =
  adm_operation :: string
  adm_profile :: execution_profile
  adm_limit :: int
  adm_rss :: "int option"
  adm_rss_limit :: "int option"
  adm_headroom :: "int option"
  adm_key :: string
  adm_process_rss_limit :: "int option"
  adm_policy :: string
  adm_available :: "int option"
  adm_reserve :: "int option"
  adm_admitted :: bool
  adm_reason :: string

record exec_context =
  ctx_operation :: string
  ctx_profile :: execution_profile
  ctx_job :: "string option"
  ctx_limit :: int
  ctx_baseline :: int
  ctx_rss_limit :: int
  ctx_admission :: "admission option"
  ctx_release :: "nat option"

record work_estimate =
  est_bytes :: int
  est_subject :: string
  est_remedy :: string

definition make_work_estimate :: "jv \<Rightarrow> string \<Rightarrow> string \<Rightarrow> admission_error + work_estimate" where
  "make_work_estimate bytes subject remedy =
     (case bytes of
        PInt n \<Rightarrow> if n \<le> 0 then Inl Bad_estimate
                  else Inr \<lparr>est_bytes = n, est_subject = subject, est_remedy = remedy\<rparr>
      | _ \<Rightarrow> Inl Bad_estimate)"

record admit_call =
  call_operation :: string
  call_profile :: execution_profile
  call_budget :: execution_budget
  call_settings :: pipeline_settings
  call_estimate :: "work_estimate option"
  call_reservation :: int
  call_job :: "string option"
  call_rss :: "int option"
  call_ram :: "int option"
  call_interrupted :: bool

definition rss_limit_of :: "int \<Rightarrow> int \<Rightarrow> int option \<Rightarrow> int" where
  "rss_limit_of rss limit process_limit =
     (case process_limit of None \<Rightarrow> rss + limit | Some l \<Rightarrow> min (rss + limit) l)"

definition admitted_context :: "string \<Rightarrow> execution_profile \<Rightarrow> string option \<Rightarrow> int \<Rightarrow> int \<Rightarrow> int \<Rightarrow>
    int option \<Rightarrow> string \<Rightarrow> string \<Rightarrow> int option \<Rightarrow> int option \<Rightarrow> nat option \<Rightarrow> exec_context" where
  "admitted_context operation p job limit rss rss_limit process_limit key policy available reserve
     closure =
     \<lparr>ctx_operation = operation, ctx_profile = p, ctx_job = job, ctx_limit = limit,
      ctx_baseline = rss, ctx_rss_limit = rss_limit,
      ctx_admission = Some \<lparr>adm_operation = operation, adm_profile = p, adm_limit = limit,
        adm_rss = Some rss, adm_rss_limit = Some rss_limit, adm_headroom = Some (rss_limit - rss),
        adm_key = key, adm_process_rss_limit = process_limit, adm_policy = policy,
        adm_available = available, adm_reserve = reserve, adm_admitted = True,
        adm_reason = ''within_memory_budget''\<rparr>,
      ctx_release = closure\<rparr>"

text \<open>
  \<open>_admit_once\<close>: \<open>call_interrupted\<close> says that building the context raised, which releases the
  reservation just made.
\<close>

definition finish_context :: "bool \<Rightarrow> nat option \<Rightarrow> exec_context \<Rightarrow> in_flight_state \<Rightarrow>
    (admission_error + exec_context) \<times> in_flight_state" where
  "finish_context interrupted closure ctx st =
     (if interrupted
      then (Inl Interrupted, case closure of None \<Rightarrow> st | Some i \<Rightarrow> release i st)
      else (Inr ctx, st))"

definition call_rss_limit :: "admit_call \<Rightarrow> int \<Rightarrow> int" where
  "call_rss_limit c rss =
     rss_limit_of rss (budget_limit (call_budget c)) (budget_process_rss_limit (call_budget c))"

definition refusal_of_sample :: "admit_call \<Rightarrow> int \<Rightarrow> refusal option" where
  "refusal_of_sample c rss =
     (let b = call_budget c; process_limit = budget_process_rss_limit b;
          refuse = plain_refusal (call_operation c) (call_profile c) (budget_limit b) (Some rss);
          allowance = call_rss_limit c rss - rss
      in if when_set (\<lambda>l. rss \<ge> l) process_limit
         then Some ((refuse Process_rss_limit_exceeded)\<lparr>ref_process_rss_limit := process_limit\<rparr>)
         else case call_estimate c of
           None \<Rightarrow> None
         | Some e \<Rightarrow>
             if est_bytes e > allowance
             then Some ((refuse (Estimate_exceeds_allowance (est_subject e) (est_bytes e) allowance
                      (est_remedy e)))
                    \<lparr>ref_rss_limit := Some (call_rss_limit c rss),
                     ref_process_rss_limit := process_limit,
                     ref_estimated := Some (est_bytes e), ref_allowance := Some allowance\<rparr>)
             else None)"

definition call_context :: "admit_call \<Rightarrow> int \<Rightarrow> nat option \<Rightarrow> exec_context" where
  "call_context c rss closure =
     (let b = call_budget c
      in admitted_context (call_operation c) (call_profile c) (call_job c) (budget_limit b) rss
           (call_rss_limit c rss) (budget_process_rss_limit b) (budget_key b) (budget_policy b)
           (budget_available b) (budget_reserve b) closure)"

definition admit_once :: "admit_call \<Rightarrow> in_flight_state \<Rightarrow>
    (admission_error + exec_context) \<times> in_flight_state" where
  "admit_once c st =
     (case call_rss c of
        None \<Rightarrow> (Inl (Not_admitted (plain_refusal (call_operation c) (call_profile c)
                 (budget_limit (call_budget c)) None Memory_sampler_unavailable)), st)
      | Some rss \<Rightarrow>
          (case refusal_of_sample c rss of
             Some r \<Rightarrow> (Inl (Not_admitted r), st)
           | None \<Rightarrow>
               (case reserve_in_flight_budget (call_operation c) (call_profile c) (call_budget c)
                       (call_settings c) (call_reservation c) (Some rss) (call_ram c) st of
                  (Inl e, st1) \<Rightarrow> (Inl e, st1)
                | (Inr closure, st1) \<Rightarrow>
                    finish_context (call_interrupted c) closure (call_context c rss closure) st1)))"

section \<open>Isolated execution\<close>

record isolated_budget =
  iso_operation :: string
  iso_profile :: execution_profile
  iso_limit :: int
  iso_key :: string
  iso_policy :: string
  iso_process_rss_limit :: "int option"
  iso_available :: "int option"
  iso_reserve :: "int option"

definition checked_isolated_budget :: "isolated_budget \<Rightarrow> admission_error + isolated_budget" where
  "checked_isolated_budget b =
     (if iso_limit b \<le> 0 then Inl Bad_isolated_limit
      else if when_set (\<lambda>l. l \<le> 0) (iso_process_rss_limit b) then Inl Bad_isolated_rss_limit
      else Inr b)"

definition isolated_execution_budget :: "exec_context \<Rightarrow> admission_error + isolated_budget" where
  "isolated_execution_budget ctx =
     (case ctx_admission ctx of
        None \<Rightarrow> Inl Parent_not_admitted
      | Some a \<Rightarrow>
          if \<not> adm_admitted a then Inl Parent_not_admitted
          else case adm_headroom a of
            None \<Rightarrow> Inl Parent_without_headroom
          | Some headroom \<Rightarrow>
              if headroom \<le> 0 then Inl Parent_without_headroom
              else checked_isolated_budget \<lparr>iso_operation = ctx_operation ctx,
                iso_profile = ctx_profile ctx, iso_limit = headroom, iso_key = adm_key a,
                iso_policy = adm_policy a, iso_process_rss_limit = adm_process_rss_limit a,
                iso_available = adm_available a, iso_reserve = adm_reserve a\<rparr>)"

definition create_isolated_execution_context :: "isolated_budget \<Rightarrow> int option \<Rightarrow>
    admission_error + exec_context" where
  "create_isolated_execution_context b rss_at_start =
     (let refuse = plain_refusal (iso_operation b) (iso_profile b) (iso_limit b) rss_at_start
      in case rss_at_start of
        None \<Rightarrow> Inl (Not_admitted (refuse Memory_sampler_unavailable))
      | Some rss \<Rightarrow>
          if when_set (\<lambda>l. rss \<ge> l) (iso_process_rss_limit b)
          then Inl (Not_admitted ((refuse Process_rss_limit_exceeded)
                 \<lparr>ref_process_rss_limit := iso_process_rss_limit b\<rparr>))
          else Inr (admitted_context (iso_operation b) (iso_profile b) None (iso_limit b) rss
                 (rss_limit_of rss (iso_limit b) (iso_process_rss_limit b))
                 (iso_process_rss_limit b) (iso_key b) (iso_policy b) (iso_available b)
                 (iso_reserve b) None))"

section \<open>Waiting for holders\<close>

text \<open>
  One round of a wait: the clock and the holders the thread sees under the lock, and whether it
  finds itself cancelled after the wait. \<open>None\<close> is a wait that is still going on after these rounds.
\<close>

record wait_look =
  round_now :: time
  round_holders :: "holder list"
  round_cancelled :: bool

fun wait_until :: "(wait_look \<Rightarrow> bool) \<Rightarrow> wait_look list \<Rightarrow> (admission_error + unit) option" where
  "wait_until stop [] = None"
| "wait_until stop (r # rs) =
     (if stop r then Some (Inr ())
      else if round_cancelled r then Some (Inl Cancelled) else wait_until stop rs)"

definition release_stops :: "string list \<Rightarrow> time \<Rightarrow> wait_look \<Rightarrow> bool" where
  "release_stops waitable deadline r \<longleftrightarrow>
     deadline - round_now r \<le> 0 \<or>
     \<not> list_ex (\<lambda>h. holder_label h \<in> set waitable) (round_holders r)"

definition wait_for_holders_to_release :: "string list \<Rightarrow> time \<Rightarrow> wait_look list \<Rightarrow>
    (admission_error + unit) option" where
  "wait_for_holders_to_release waitable deadline = wait_until (release_stops waitable deadline)"

definition budget_stops :: "int \<Rightarrow> int \<Rightarrow> string list \<Rightarrow> time \<Rightarrow> wait_look \<Rightarrow> bool" where
  "budget_stops limit bytes waitable deadline r \<longleftrightarrow>
     round_holders r = [] \<or> sum_list (map amount_of (round_holders r)) + bytes \<le> limit \<or>
     deadline - round_now r \<le> 0 \<or>
     list_ex (\<lambda>h. holder_label h \<notin> set waitable) (round_holders r)"

definition wait_out_in_flight_holders :: "execution_budget \<Rightarrow> int \<Rightarrow> string list \<Rightarrow> time \<Rightarrow>
    pipeline_settings \<Rightarrow> int option \<Rightarrow> wait_look list \<Rightarrow> (admission_error + unit) option" where
  "wait_out_in_flight_holders budget bytes waitable deadline settings sample rounds =
     (case in_flight_limit_bytes budget settings sample of
        Inl e \<Rightarrow> Some (Inl e)
      | Inr limit \<Rightarrow> wait_until (budget_stops limit bytes waitable deadline) rounds)"

definition refusal_is_transient :: "execution_budget \<Rightarrow> int \<Rightarrow> string list \<Rightarrow> pipeline_settings \<Rightarrow>
    int option \<Rightarrow> holder list \<Rightarrow> admission_error + bool" where
  "refusal_is_transient budget bytes waitable settings sample holders =
     (if holders = []
      then bind_result (in_flight_limit_bytes budget settings sample) (\<lambda>limit. Inr (bytes \<le> limit))
      else Inr (list_all (\<lambda>h. holder_label h \<in> set waitable) holders))"

text \<open>
  \<open>create_admitted_execution_context\<close>: an attempt is the rounds of its wait, the table as the
  other threads have left it, the samples it takes, and what it sees when it was refused.
\<close>

record attempt =
  at_rounds :: "wait_look list"
  at_state :: in_flight_state
  at_wait_ram :: "int option"
  at_rss :: "int option"
  at_ram :: "int option"
  at_interrupted :: bool
  at_refused_now :: time
  at_refused_ram :: "int option"
  at_refused_holders :: "holder list"

definition worth_retrying :: "execution_budget \<Rightarrow> int \<Rightarrow> string list \<Rightarrow> time \<Rightarrow> pipeline_settings \<Rightarrow>
    attempt \<Rightarrow> admission_error \<Rightarrow> admission_error + bool" where
  "worth_retrying budget bytes waitable deadline settings a e =
     (case e of
        Not_admitted r \<Rightarrow>
          if waitable = [] \<or> ref_reason r \<noteq> In_flight_memory_budget_exceeded \<or>
             at_refused_now a \<ge> deadline
          then Inr False
          else refusal_is_transient budget bytes waitable settings (at_refused_ram a)
                 (at_refused_holders a)
      | _ \<Rightarrow> Inr False)"

fun admit_attempts :: "string list \<Rightarrow> time \<Rightarrow> admit_call \<Rightarrow> attempt list \<Rightarrow>
    ((admission_error + exec_context) \<times> in_flight_state) option" where
  "admit_attempts waitable deadline c [] = None"
| "admit_attempts waitable deadline c (a # attempts) =
     (let call = c\<lparr>call_rss := at_rss a, call_ram := at_ram a, call_interrupted := at_interrupted a\<rparr>
      in case (if waitable = [] then Some (Inr ())
            else wait_out_in_flight_holders (call_budget c) (call_reservation c) waitable deadline
                   (call_settings c) (at_wait_ram a) (at_rounds a)) of
        None \<Rightarrow> None
      | Some (Inl e) \<Rightarrow> Some (Inl e, at_state a)
      | Some (Inr _) \<Rightarrow>
          (case admit_once call (at_state a) of
             (Inr ctx, st) \<Rightarrow> Some (Inr ctx, st)
           | (Inl e, st) \<Rightarrow>
               (case worth_retrying (call_budget c) (call_reservation c) waitable deadline
                       (call_settings c) a e of
                  Inl e' \<Rightarrow> Some (Inl e', st)
                | Inr False \<Rightarrow> Some (Inl e, st)
                | Inr True \<Rightarrow> admit_attempts waitable deadline c attempts)))"

definition create_admitted_execution_context :: "environ \<Rightarrow> string \<Rightarrow> execution_profile \<Rightarrow>
    string option \<Rightarrow> string list \<Rightarrow> time \<Rightarrow> time \<Rightarrow> work_estimate option \<Rightarrow>
    settings_error + pipeline_settings \<Rightarrow> int option \<Rightarrow> attempt list \<Rightarrow> in_flight_state \<Rightarrow>
    ((admission_error + exec_context) \<times> in_flight_state) option" where
  "create_admitted_execution_context env operation p job holders now wait_seconds estimate settings
     sample attempts st =
     (case bind_result (map_error Settings_refused settings) (\<lambda>s.
           bind_result (execution_budget_for_profile env p s sample) (\<lambda>b. Inr (s, b))) of
        Inl e \<Rightarrow> Some (Inl e, st)
      | Inr (s, b) \<Rightarrow>
          admit_attempts (if in_flight_profile p then holders else []) (now + max wait_seconds 0)
            \<lparr>call_operation = operation, call_profile = p, call_budget = b, call_settings = s,
             call_estimate = estimate,
             call_reservation = (case estimate of None \<Rightarrow> budget_limit b | Some e \<Rightarrow> est_bytes e),
             call_job = job, call_rss = None, call_ram = None, call_interrupted = False\<rparr> attempts)"

section \<open>Growth grants\<close>

record growth_terms =
  gt_profile :: execution_profile
  gt_rss :: int
  gt_available :: int
  gt_os_reserve :: int
  gt_usable :: int
  gt_limit :: resolved_limit
  gt_process_rss_limit :: "int option"
  gt_reserved :: int
  gt_holders :: "string list"
  gt_rss_room :: "int option"
  gt_grant :: int

definition profile_limit_from_sample :: "environ \<Rightarrow> execution_profile \<Rightarrow> int \<Rightarrow> int \<Rightarrow>
    admission_error + resolved_limit" where
  "profile_limit_from_sample env p available usable =
     bind_result (memory_env_candidates p) (\<lambda>candidates.
     bind_result (first_env env candidates) (\<lambda>found.
       case found of Some f \<Rightarrow> Inr (explicit_limit f)
       | None \<Rightarrow> bind_result (uses_fixed_default env p) (\<lambda>fixed.
           Inr (if fixed then fixed_default_memory_limit p
             else \<lparr>limit_bytes = adaptive_limit p usable, limit_key = ''adaptive:'' @ profile_value p,
                   limit_policy = ''adaptive_local'', limit_available = Some available,
                   limit_reserve = None\<rparr>))))"

definition growth_grant_terms :: "environ \<Rightarrow> execution_profile \<Rightarrow> string \<Rightarrow> int option \<Rightarrow>
    pipeline_settings \<Rightarrow> int option \<Rightarrow> in_flight_state \<Rightarrow> admission_error + growth_terms" where
  "growth_grant_terms env p operation rss settings sample st =
     bind_result (resolve_optional_rss_limit env p) (\<lambda>(process_limit, _).
     bind_result (require_positive_available_ram sample) (\<lambda>available.
       let os_reserve = os_reserve_bytes available settings; usable = available - os_reserve
       in bind_result (profile_limit_from_sample env p available usable) (\<lambda>limit.
         case rss of
           None \<Rightarrow> Inl (Not_admitted
             (plain_refusal operation p (limit_bytes limit) None Memory_sampler_unavailable))
         | Some r \<Rightarrow>
             let reserved = reserved_bytes st;
                 rss_room = map_option (\<lambda>l. l - r) process_limit;
                 base = min (limit_bytes limit) (usable - reserved)
             in Inr \<lparr>gt_profile = p, gt_rss = r, gt_available = available,
                  gt_os_reserve = os_reserve, gt_usable = usable, gt_limit = limit,
                  gt_process_rss_limit = process_limit, gt_reserved = reserved,
                  gt_holders = reported_holders st, gt_rss_room = rss_room,
                  gt_grant = (case rss_room of None \<Rightarrow> base | Some room \<Rightarrow> min base room)\<rparr>)))"

definition refusal_reason_of :: "growth_terms \<Rightarrow> refusal_reason" where
  "refusal_reason_of t =
     (if when_set (\<lambda>room. room \<le> 0) (gt_rss_room t) then Process_rss_limit_exceeded
      else if gt_reserved t > 0 \<and> gt_usable t - gt_reserved t \<le> 0
      then In_flight_memory_budget_exceeded
      else No_memory_available)"

definition growth_refusal :: "growth_terms \<Rightarrow> string \<Rightarrow> refusal" where
  "growth_refusal t operation =
     (plain_refusal operation (gt_profile t) (limit_bytes (gt_limit t)) (Some (gt_rss t))
        (refusal_reason_of t))
       \<lparr>ref_process_rss_limit := gt_process_rss_limit t,
        ref_in_flight_reserved := Some (gt_reserved t),
        ref_in_flight_limit := Some (gt_usable t),
        ref_in_flight_operations := gt_holders t\<rparr>"

record grant_call =
  gc_environ :: environ
  gc_operation :: string
  gc_profile :: execution_profile
  gc_job :: "string option"
  gc_rss :: "int option"
  gc_settings :: "settings_error + pipeline_settings"
  gc_ram :: "int option"
  gc_interrupted :: bool

definition grant_terms :: "grant_call \<Rightarrow> in_flight_state \<Rightarrow> admission_error + growth_terms" where
  "grant_terms c st =
     bind_result (map_error Settings_refused (gc_settings c)) (\<lambda>settings.
       growth_grant_terms (gc_environ c) (gc_profile c) (gc_operation c) (gc_rss c) settings
         (gc_ram c) st)"

definition grant_once :: "grant_call \<Rightarrow> in_flight_state \<Rightarrow>
    (admission_error + exec_context) \<times> in_flight_state" where
  "grant_once c st =
     (case grant_terms c st of
        Inl e \<Rightarrow> (Inl e, st)
      | Inr t \<Rightarrow>
          if gt_grant t \<le> 0 then (Inl (Not_admitted (growth_refusal t (gc_operation c))), st)
          else let (i, st1) = add_reservation (gc_profile c, gt_grant t, gc_operation c) st
            in finish_context (gc_interrupted c) (Some i)
                 (admitted_context (gc_operation c) (gc_profile c) (gc_job c) (gt_grant t) (gt_rss t)
                    (gt_rss t + gt_grant t) (gt_process_rss_limit t) (limit_key (gt_limit t))
                    (limit_policy (gt_limit t)) (Some (gt_available t)) (Some (gt_os_reserve t))
                    (Some i)) st1)"

definition admit_growth_grant :: "string list \<Rightarrow> time \<Rightarrow> time \<Rightarrow> wait_look list \<Rightarrow> grant_call \<Rightarrow>
    in_flight_state \<Rightarrow> ((admission_error + exec_context) \<times> in_flight_state) option" where
  "admit_growth_grant waitable now wait_seconds rounds c st =
     (if \<not> in_flight_profile (gc_profile c)
      then Some (Inl (Not_an_in_flight_profile (gc_profile c)), st)
      else case (if waitable = [] then Some (Inr ())
            else wait_for_holders_to_release waitable (now + max wait_seconds 0) rounds) of
        None \<Rightarrow> None
      | Some (Inl e) \<Rightarrow> Some (Inl e, st)
      | Some (Inr _) \<Rightarrow> Some (grant_once c st))"

definition preview_growth_grant_bytes :: "grant_call \<Rightarrow> in_flight_state \<Rightarrow> admission_error + int" where
  "preview_growth_grant_bytes c st =
     (if \<not> in_flight_profile (gc_profile c) then Inl (Not_an_in_flight_profile (gc_profile c))
      else bind_result (grant_terms c st) (\<lambda>t. Inr (max 0 (gt_grant t))))"

section \<open>Payloads\<close>

definition opt_int :: "int option \<Rightarrow> jv" where
  "opt_int = optional_value PInt"

definition reason_text :: "execution_profile \<Rightarrow> refusal_reason \<Rightarrow> string" where
  "reason_text p r = (case r of
     Memory_sampler_unavailable \<Rightarrow> ''memory_sampler_unavailable''
   | Process_rss_limit_exceeded \<Rightarrow> ''process_rss_limit_exceeded''
   | In_flight_memory_budget_exceeded \<Rightarrow> ''in_flight_memory_budget_exceeded''
   | No_memory_available \<Rightarrow> ''no_memory_available''
   | Estimate_exceeds_allowance subject needed allowance remedy \<Rightarrow>
       subject @ '' needs an estimated '' @ show_int needed @ '' bytes; the '' @ profile_value p
       @ '' allowance is '' @ show_int allowance @ '' bytes. '' @ remedy)"

definition unless_none :: "string \<Rightarrow> int option \<Rightarrow> (string, jv) odict" where
  "unless_none key x = (case x of None \<Rightarrow> [] | Some i \<Rightarrow> [(key, PInt i)])"

definition refusal_payload :: "refusal \<Rightarrow> (string, jv) odict" where
  "refusal_payload r =
     [(''error_code'', PStr ''memory_limit''),
      (''operation'', PStr (ref_operation r)),
      (''profile'', PStr (profile_value (ref_profile r))),
      (''memory_limit_bytes'', PInt (ref_memory_limit r)),
      (''rss_at_admission_bytes'', opt_int (ref_rss_at_admission r)),
      (''rss_limit_bytes'', opt_int (ref_rss_limit r)),
      (''process_rss_limit_bytes'', opt_int (ref_process_rss_limit r)),
      (''headroom_bytes'', opt_int (ref_headroom r)),
      (''reason'', PStr (reason_text (ref_profile r) (ref_reason r)))]
     @ unless_none ''in_flight_reserved_bytes'' (ref_in_flight_reserved r)
     @ unless_none ''in_flight_limit_bytes'' (ref_in_flight_limit r)
     @ (if ref_in_flight_operations r = [] then []
        else [(''in_flight_operations'', PList (map PStr (ref_in_flight_operations r)))])
     @ unless_none ''estimated_bytes'' (ref_estimated r)
     @ unless_none ''allowance_bytes'' (ref_allowance r)"

definition admission_dict :: "admission \<Rightarrow> (string, jv) odict" where
  "admission_dict a =
     [(''admitted'', PBool (adm_admitted a)),
      (''operation'', PStr (adm_operation a)),
      (''profile'', PStr (profile_value (adm_profile a))),
      (''memory_limit_bytes'', PInt (adm_limit a)),
      (''rss_at_admission_bytes'', opt_int (adm_rss a)),
      (''rss_limit_bytes'', opt_int (adm_rss_limit a)),
      (''process_rss_limit_bytes'', opt_int (adm_process_rss_limit a)),
      (''headroom_bytes'', opt_int (adm_headroom a)),
      (''config_key'', PStr (adm_key a)),
      (''budget_policy'', PStr (adm_policy a)),
      (''available_ram_bytes'', opt_int (adm_available a)),
      (''os_reserve_bytes'', opt_int (adm_reserve a)),
      (''reason'', PStr (adm_reason a))]"

section \<open>Every budget is bounded\<close>

lemma env_candidates_positive: "c \<in> set (env_candidates own all) \<Longrightarrow> 1 \<le> snd c"
  by (auto simp: env_candidates_def mib_def)

lemma first_env_positive:
  assumes "first_env env (env_candidates own all) = Inr (Some (n, key))"
  shows "1 \<le> n"
proof -
  obtain earlier m later v where f: "env_candidates own all = earlier @ (key, m) # later"
    "optional_int_env env key = Inr (Some v)" "n = v * m"
    using first_env_Some [OF assms] by blast
  have "(key, m) \<in> set (env_candidates own all)" using f(1) by simp
  then have m: "1 \<le> m" using env_candidates_positive by fastforce
  have v: "1 \<le> v" by (rule optional_int_env_positive [OF f(2)])
  then have "1 * 1 \<le> v * m" using m by (intro mult_mono) auto
  then show ?thesis using f(3) by simp
qed

lemma default_memory_limit_positive: "1 \<le> default_memory_limit_bytes p"
  by (cases p) (simp_all add: default_memory_limit_bytes_def mib_def)

lemma preview_memory_positive: "preview_memory_bytes s = Some b \<Longrightarrow> 1 \<le> b"
  by (auto simp: preview_memory_bytes_def whole_bytes_def)

definition limit_ok :: "environ \<Rightarrow> execution_profile \<Rightarrow> pipeline_settings \<Rightarrow> int option \<Rightarrow>
    resolved_limit \<Rightarrow> bool" where
  "limit_ok env p settings sample l \<longleftrightarrow>
     1 \<le> limit_bytes l \<and>
     (if limit_policy l = ''adaptive_local''
      then \<exists>available. sample = Some available \<and> 0 < available \<and>
        limit_available l = Some available \<and>
        limit_reserve l = Some (os_reserve_bytes available settings) \<and>
        limit_bytes l = adaptive_limit p (available - os_reserve_bytes available settings)
      else limit_available l = None \<and> limit_reserve l = None)"

lemma default_budget_ok:
  assumes "default_budget env p settings sample = Inr l"
  shows "limit_ok env p settings sample l"
proof -
  obtain fixed where f: "uses_fixed_default env p = Inr fixed"
    using assms by (auto simp: default_budget_def bind_result_Inr)
  show ?thesis
  proof (cases fixed)
    case True
    then show ?thesis using assms f default_memory_limit_positive [of p]
      by (auto simp: default_budget_def fixed_default_memory_limit_def limit_ok_def)
  next
    case False
    then show ?thesis using assms f adaptive_limit_bounds(1) [of p]
      by (auto simp: default_budget_def bind_result_Inr adaptive_default_memory_limit_bytes_def
          require_positive_available_ram_def limit_ok_def Let_def split: option.splits if_splits)
  qed
qed

lemma explicit_limit_ok: "1 \<le> fst f \<Longrightarrow> limit_ok env p settings sample (explicit_limit f)"
  by (simp add: limit_ok_def explicit_limit_def)

lemma resolve_required_budget_ok:
  assumes "resolve_required_budget env p settings sample = Inr l"
  shows "limit_ok env p settings sample l"
proof (cases "p = Preview_eager")
  case True
  then show ?thesis using assms default_budget_ok [of env p settings sample l]
    by (auto simp: resolve_required_budget_def limit_ok_def preview_memory_positive
        split: option.splits)
next
  case False
  then obtain own found where own: "profile_memory_env p = Some own"
    and found: "first_env env (env_candidates own global_memory_env) = Inr found"
    and l: "(case found of Some f \<Rightarrow> Inr (explicit_limit f)
        | None \<Rightarrow> default_budget env p settings sample) = Inr l"
    using assms by (auto simp: resolve_required_budget_def bind_result_Inr memory_env_candidates_def
        split: option.splits)
  show ?thesis
  proof (cases found)
    case None
    then show ?thesis using l by (auto intro: default_budget_ok)
  next
    case (Some f)
    have "1 \<le> fst f" by (rule first_env_positive [of env own global_memory_env "fst f" "snd f"])
      (use found Some in simp)
    then show ?thesis using l Some by (auto intro: explicit_limit_ok)
  qed
qed

lemma optional_rss_limit_positive:
  assumes "resolve_optional_rss_limit env p = Inr (Some l, key)"
  shows "1 \<le> l"
proof -
  obtain k where "first_env env (env_candidates (profile_process_rss_env p) global_process_rss_env)
      = Inr (Some (l, k))"
    using assms by (auto simp: resolve_optional_rss_limit_def bind_result_Inr
        process_rss_env_candidates_def)
  then show ?thesis by (rule first_env_positive)
qed

lemma automatic_reserve_bounds:
  assumes "0 < available"
  shows "1 \<le> automatic_os_reserve_bytes available"
    "2 \<le> available \<Longrightarrow> automatic_os_reserve_bytes available \<le> available div 2"
  using assms by (auto simp: automatic_os_reserve_bytes_def default_os_reserve_bytes_def mib_def)

lemma execution_budget_bounds_facts:
  assumes "execution_budget_for_profile env p settings sample = Inr b"
  shows "1 \<le> budget_limit b"
    and "if_set (\<lambda>l. 1 \<le> l) (budget_process_rss_limit b)"
    and "budget_policy b = ''adaptive_local'' \<Longrightarrow>
      \<exists>available reserve. sample = Some available \<and> budget_available b = Some available \<and>
        0 < available \<and> budget_reserve b = Some reserve \<and>
        budget_limit b \<le> max (available - reserve) 1 \<and>
        min (floor_bytes (adaptive_memory_policy p)) (max (available - reserve) 1) \<le> budget_limit b \<and>
        if_set (\<lambda>c. budget_limit b \<le> c) (ceiling_bytes (adaptive_memory_policy p)) \<and>
        (kept_free_bytes settings = None \<longrightarrow> 2 \<le> available \<longrightarrow> budget_limit b + reserve \<le> available)"
proof -
  obtain l rl rk where l: "resolve_required_budget env p settings sample = Inr l"
    and r: "resolve_optional_rss_limit env p = Inr (rl, rk)"
    and b: "budget_limit b = limit_bytes l" "budget_process_rss_limit b = rl"
      "budget_policy b = limit_policy l" "budget_available b = limit_available l"
      "budget_reserve b = limit_reserve l"
    using assms by (auto simp: execution_budget_for_profile_def bind_result_Inr)
  have ok: "limit_ok env p settings sample l" by (rule resolve_required_budget_ok [OF l])
  show "1 \<le> budget_limit b" using ok by (simp add: b limit_ok_def)
  show "if_set (\<lambda>l. 1 \<le> l) (budget_process_rss_limit b)"
    using r by (cases rl) (auto simp: b optional_rss_limit_positive)
  assume "budget_policy b = ''adaptive_local''"
  then obtain available where a: "sample = Some available" "0 < available"
    "limit_available l = Some available" "limit_reserve l = Some (os_reserve_bytes available settings)"
    "limit_bytes l = adaptive_limit p (available - os_reserve_bytes available settings)"
    using ok by (auto simp: b limit_ok_def)
  define usable where "usable = available - os_reserve_bytes available settings"
  have "kept_free_bytes settings = None \<longrightarrow> 2 \<le> available \<longrightarrow> 1 \<le> usable"
    using automatic_reserve_bounds(2) [OF a(2)]
    by (auto simp: usable_def os_reserve_bytes_def)
  then have "kept_free_bytes settings = None \<longrightarrow> 2 \<le> available \<longrightarrow>
      adaptive_limit p usable + os_reserve_bytes available settings \<le> available"
    using adaptive_limit_bounds(2) [of p usable] by (auto simp: usable_def)
  then show "\<exists>available reserve. sample = Some available \<and> budget_available b = Some available \<and>
        0 < available \<and> budget_reserve b = Some reserve \<and>
        budget_limit b \<le> max (available - reserve) 1 \<and>
        min (floor_bytes (adaptive_memory_policy p)) (max (available - reserve) 1) \<le> budget_limit b \<and>
        if_set (\<lambda>c. budget_limit b \<le> c) (ceiling_bytes (adaptive_memory_policy p)) \<and>
        (kept_free_bytes settings = None \<longrightarrow> 2 \<le> available \<longrightarrow> budget_limit b + reserve \<le> available)"
    using a adaptive_limit_bounds(2) [of p usable] adaptive_limit_floor [of p usable]
      adaptive_limit_ceiling [of p _ usable]
    by (auto simp: b usable_def if_set_def split: option.split)
qed

text \<open>
  C24: Whatever the environment, the settings and the machine say, a resolved budget allows at least
  one byte and its process limit, if it has one, is positive. An adaptive budget records the RAM
  sample it was made from and the reserve kept for the system, lies between the profile's floor
  (or all usable memory, when that is less) and the usable memory, respects the profile's ceiling,
  and, unless the settings choose the reserve or the machine has a single byte, leaves the reserve
  free.
\<close>

theorem execution_budget_bounds:
  assumes "execution_budget_for_profile env p settings sample = Inr b"
  shows "1 \<le> budget_limit b \<and> if_set (\<lambda>l. 1 \<le> l) (budget_process_rss_limit b) \<and>
    (budget_policy b = ''adaptive_local'' \<longrightarrow>
      (\<exists>available reserve. sample = Some available \<and> budget_available b = Some available \<and>
        0 < available \<and> budget_reserve b = Some reserve \<and>
        budget_limit b \<le> max (available - reserve) 1 \<and>
        min (floor_bytes (adaptive_memory_policy p)) (max (available - reserve) 1) \<le> budget_limit b \<and>
        if_set (\<lambda>c. budget_limit b \<le> c) (ceiling_bytes (adaptive_memory_policy p)) \<and>
        (kept_free_bytes settings = None \<longrightarrow> 2 \<le> available \<longrightarrow> budget_limit b + reserve \<le> available)))"
  by (intro conjI impI execution_budget_bounds_facts [OF assms]) assumption+

theorem execution_budget_bounds_witness:
  "\<exists>b. execution_budget_for_profile (\<lambda>_. None) Deploy_batch automatic_settings (Some (16 * gib)) = Inr b \<and>
     budget_limit b = 10522669875 \<and> budget_reserve b = Some (2 * gib) \<and> 1 \<le> budget_limit b"
proof -
  have e: "case execution_budget_for_profile (\<lambda>_. None) Deploy_batch automatic_settings (Some (16 * gib)) of
      Inr b \<Rightarrow> budget_limit b = 10522669875 \<and> budget_reserve b = Some (2 * gib) | Inl _ \<Rightarrow> False"
    by code_simp
  then obtain b where b: "execution_budget_for_profile (\<lambda>_. None) Deploy_batch automatic_settings
      (Some (16 * gib)) = Inr b" "budget_limit b = 10522669875" "budget_reserve b = Some (2 * gib)"
    by (auto split: sum.splits)
  show ?thesis using execution_budget_bounds [OF b(1)] b by blast
qed

section \<open>The table holds what was admitted and not released\<close>

datatype admission_op =
    Op_admit admit_call
  | Op_grant grant_call
  | Op_release nat

definition admission_step :: "admission_op \<Rightarrow> in_flight_state \<Rightarrow> in_flight_state" where
  "admission_step x st = (case x of
     Op_admit c \<Rightarrow> snd (admit_once c st) | Op_grant c \<Rightarrow> snd (grant_once c st)
   | Op_release i \<Rightarrow> release i st)"

definition open_ids :: "in_flight_state \<Rightarrow> nat set" where
  "open_ids st = fst ` {c \<in> set (closures st). \<not> snd c}"

definition table_ok :: "in_flight_state \<Rightarrow> bool" where
  "table_ok st \<longleftrightarrow> wf_dict (reservations st) \<and> distinct (map fst (closures st)) \<and>
     (\<forall>c \<in> set (closures st). fst c < next_reservation st) \<and>
     set (keys (reservations st)) = open_ids st"

lemma table_ok_init: "table_ok in_flight_init"
  by (simp add: table_ok_def in_flight_init_def open_ids_def)

lemma open_ids_less: "table_ok st \<Longrightarrow> k \<in> open_ids st \<Longrightarrow> k < next_reservation st"
  by (auto simp: table_ok_def open_ids_def)

lemma next_not_reserved: "table_ok st \<Longrightarrow> next_reservation st \<notin> set (keys (reservations st))"
  using open_ids_less [of st "next_reservation st"] by (auto simp: table_ok_def)

lemma open_ids_add: "open_ids (snd (add_reservation h st)) = insert (next_reservation st) (open_ids st)"
  by (force simp: open_ids_def add_reservation_def)

lemma table_ok_add:
  assumes "table_ok st"
  shows "table_ok (snd (add_reservation h st))"
proof -
  have "next_reservation st \<notin> fst ` set (closures st)" using assms by (force simp: table_ok_def)
  then show ?thesis using assms open_ids_add [of h st]
    by (auto simp: table_ok_def add_reservation_def dict_simps less_Suc_eq)
qed

lemma reserved_add:
  assumes "table_ok st"
  shows "reserved_bytes (snd (add_reservation h st)) = reserved_bytes st + amount_of h"
  using update_new [OF next_not_reserved [OF assms], of h]
  by (simp add: reserved_bytes_def add_reservation_def)

lemma distinct_update_other:
  assumes "distinct (map fst xs)" "i < length xs"
  shows "fst ` {c \<in> set (xs[i := (fst (xs ! i), True)]). \<not> snd c}
    = fst ` {c \<in> set xs. \<not> snd c} - {fst (xs ! i)}" (is "?l = ?r")
proof -
  have eq: "fst (xs ! j) = fst (xs ! i) \<longleftrightarrow> j = i" if "j < length xs" for j
    using nth_eq_iff_index_eq [OF assms(1), of j i] that assms(2) by simp
  show ?thesis
  proof
    show "?l \<subseteq> ?r"
    proof
      fix k assume "k \<in> ?l"
      then obtain j where "j < length xs" "\<not> snd (xs[i := (fst (xs ! i), True)] ! j)"
        "k = fst (xs[i := (fst (xs ! i), True)] ! j)"
        by (auto simp: in_set_conv_nth)
      then show "k \<in> ?r" using eq [of j] by (cases "j = i") (auto simp: in_set_conv_nth)
    qed
    show "?r \<subseteq> ?l"
    proof
      fix k assume "k \<in> ?r"
      then obtain c where c: "c \<in> set xs" "\<not> snd c" "k = fst c" "k \<noteq> fst (xs ! i)" by auto
      then obtain j where j: "j < length xs" "xs ! j = c" by (auto simp: in_set_conv_nth)
      then have "j \<noteq> i" using c by auto
      then have "xs[i := (fst (xs ! i), True)] ! j = c" using j by simp
      then have "c \<in> set (xs[i := (fst (xs ! i), True)])" using j by (metis length_list_update nth_mem)
      then show "k \<in> ?l" using c by auto
    qed
  qed
qed

lemma table_ok_release:
  assumes "table_ok st"
  shows "table_ok (release i st)"
proof (cases "length (closures st) \<le> i \<or> snd (closures st ! i)")
  case True
  then show ?thesis using assms by (simp add: release_def)
next
  case False
  then have i: "i < length (closures st)" by simp
  have "map fst ((closures st)[i := (fst (closures st ! i), True)]) = map fst (closures st)"
    using i by (simp add: map_update list_update_same_conv)
  moreover have "\<forall>c \<in> set ((closures st)[i := (fst (closures st ! i), True)]). fst c < next_reservation st"
    using assms i by (auto simp: table_ok_def dest!: set_update_subset_insert [THEN subsetD])
  moreover have "distinct (map fst (closures st))" using assms by (simp add: table_ok_def)
  ultimately show ?thesis
    using assms False distinct_update_other [OF _ i]
    by (auto simp: table_ok_def release_def dict_simps open_ids_def)
qed

lemma table_ok_finish: "table_ok st \<Longrightarrow> table_ok (snd (finish_context b closure ctx st))"
  by (simp add: finish_context_def table_ok_release split: option.split)

text \<open>A reservation changes the table only by registering the bytes, and only below the limit.\<close>

lemma reserve_cases:
  obtains (refused) e where
      "reserve_in_flight_budget op p b settings bytes rss sample st = (Inl e, st)"
  | (exempt) "\<not> in_flight_profile p"
      "reserve_in_flight_budget op p b settings bytes rss sample st = (Inr None, st)"
  | (reserved) limit where "in_flight_profile p" "in_flight_limit_bytes b settings sample = Inr limit"
      "reserved_bytes st + bytes \<le> limit"
      "reserve_in_flight_budget op p b settings bytes rss sample st
        = (Inr (Some (length (closures st))), snd (add_reservation (p, bytes, op) st))"
proof (cases "in_flight_profile p")
  case False
  then show ?thesis using exempt by (simp add: reserve_in_flight_budget_def)
next
  case True
  show ?thesis
  proof (cases "in_flight_limit_bytes b settings sample")
    case (Inl e)
    then show ?thesis using True refused by (simp add: reserve_in_flight_budget_def)
  next
    case (Inr limit)
    then show ?thesis using True refused reserved [of limit]
      by (cases "reserved_bytes st + bytes > limit")
        (auto simp: reserve_in_flight_budget_def add_reservation_def)
  qed
qed

lemma admit_once_cases:
  obtains (refused) e where "admit_once c st = (Inl e, st)"
  | (exempt) rss where "call_rss c = Some rss" "\<not> in_flight_profile (call_profile c)"
      "admit_once c st = finish_context (call_interrupted c) None (call_context c rss None) st"
  | (reserved) rss limit where "call_rss c = Some rss"
      "in_flight_limit_bytes (call_budget c) (call_settings c) (call_ram c) = Inr limit"
      "reserved_bytes st + call_reservation c \<le> limit"
      "admit_once c st = finish_context (call_interrupted c) (Some (length (closures st)))
        (call_context c rss (Some (length (closures st))))
        (snd (add_reservation (call_profile c, call_reservation c, call_operation c) st))"
proof (cases "call_rss c")
  case None
  then show ?thesis using refused by (simp add: admit_once_def)
next
  case (Some rss)
  show ?thesis
  proof (cases "refusal_of_sample c rss")
    case (Some r)
    then show ?thesis using \<open>call_rss c = Some rss\<close> refused by (simp add: admit_once_def)
  next
    case None
    note here = None Some
    show ?thesis
      by (cases rule: reserve_cases [of "call_operation c" "call_profile c" "call_budget c"
            "call_settings c" "call_reservation c" "Some rss" "call_ram c" st])
        (use here refused exempt reserved in \<open>simp_all add: admit_once_def\<close>)
  qed
qed

lemma grant_once_cases:
  obtains (refused) e where "grant_once c st = (Inl e, st)"
  | (granted) t ctx where "grant_terms c st = Inr t" "0 < gt_grant t"
      "grant_once c st = finish_context (gc_interrupted c) (Some (length (closures st))) ctx
        (snd (add_reservation (gc_profile c, gt_grant t, gc_operation c) st))"
      "ctx_release ctx = Some (length (closures st))" "ctx_limit ctx = gt_grant t"
proof (cases "grant_terms c st")
  case (Inl e)
  then show ?thesis using refused by (simp add: grant_once_def)
next
  case (Inr t)
  show ?thesis
  proof (cases "gt_grant t \<le> 0")
    case True
    then show ?thesis using Inr refused by (simp add: grant_once_def)
  next
    case False
    then show ?thesis using Inr
      by (intro granted [OF Inr]) (auto simp: grant_once_def add_reservation_def admitted_context_def
          intro!: arg_cong2 [where f = "\<lambda>x y. finish_context _ _ x y"])
  qed
qed

lemma table_ok_step: "table_ok st \<Longrightarrow> table_ok (admission_step x st)"
proof (cases x)
  case (Op_admit c)
  assume "table_ok st"
  then show ?thesis unfolding Op_admit admission_step_def admission_op.case
    by (cases rule: admit_once_cases [of c st]) (simp_all add: table_ok_finish table_ok_add)
next
  case (Op_grant c)
  assume "table_ok st"
  then show ?thesis unfolding Op_grant admission_step_def admission_op.case
    by (cases rule: grant_once_cases [of c st]) (simp_all add: table_ok_finish table_ok_add)
next
  case (Op_release i)
  assume "table_ok st"
  then show ?thesis by (simp add: Op_release admission_step_def table_ok_release)
qed

interpretation in_flight: invariant_system table_ok admission_step
  by unfold_locales (rule table_ok_step)

definition admission_reachable :: "in_flight_state \<Rightarrow> bool" where
  "admission_reachable st \<longleftrightarrow> (\<exists>ops. st = fold admission_step ops in_flight_init)"

lemma admission_reachable_ok: "admission_reachable st \<Longrightarrow> table_ok st"
  using in_flight.run_inv [OF table_ok_init] by (auto simp: admission_reachable_def)


lemma closures_release:
  "closures (release i st) = (if i < length (closures st)
     then (closures st)[i := (fst (closures st ! i), True)] else closures st)"
proof (cases "i < length (closures st) \<and> snd (closures st ! i)")
  case True
  then have "(closures st)[i := (fst (closures st ! i), True)] = closures st"
    by (metis list_update_id prod.collapse)
  then show ?thesis using True by (simp add: release_def)
next
  case False
  then show ?thesis by (auto simp: release_def)
qed

lemma length_closures_release [simp]: "length (closures (release i st)) = length (closures st)"
  by (simp add: closures_release)























definition example_budget :: execution_budget where
  "example_budget = \<lparr>budget_limit = 60, budget_key = ''k'', budget_process_rss_limit = None,
     budget_process_rss_key = None, budget_policy = ''adaptive_local'', budget_available = Some 110,
     budget_reserve = Some 10\<rparr>"

definition example_call :: "bool \<Rightarrow> admit_call" where
  "example_call interrupted = \<lparr>call_operation = ''train'', call_profile = Training_prep,
     call_budget = example_budget, call_settings = automatic_settings, call_estimate = None,
     call_reservation = 60, call_job = None, call_rss = Some 5, call_ram = None,
     call_interrupted = interrupted\<rparr>"

definition example_in_flight :: in_flight_state where
  "example_in_flight = admission_step (Op_admit (example_call False)) in_flight_init"

definition example_grant :: grant_call where
  "example_grant = \<lparr>gc_environ = (\<lambda>k. if k = ''HAUTE_EXECUTION_PROCESS_RSS_LIMIT_MB'' then Some '' 1_000 ''
       else None), gc_operation = ''solve'', gc_profile = Optimiser_solve, gc_job = None,
     gc_rss = Some 1000000, gc_settings = Inr automatic_settings, gc_ram = Some (8 * gib),
     gc_interrupted = False\<rparr>"


section \<open>A growth grant is the least of its terms\<close>

lemma profile_limit_positive:
  assumes "profile_limit_from_sample env p available usable = Inr l"
  shows "1 \<le> limit_bytes l"
proof -
  obtain own found where own: "profile_memory_env p = Some own"
    and found: "first_env env (env_candidates own global_memory_env) = Inr found"
    and l: "(case found of Some f \<Rightarrow> Inr (explicit_limit f)
       | None \<Rightarrow> bind_result (uses_fixed_default env p) (\<lambda>fixed.
           Inr (if fixed then fixed_default_memory_limit p
             else \<lparr>limit_bytes = adaptive_limit p usable, limit_key = ''adaptive:'' @ profile_value p,
                   limit_policy = ''adaptive_local'', limit_available = Some available,
                   limit_reserve = None\<rparr>))) = Inr l"
    using assms by (auto simp: profile_limit_from_sample_def bind_result_Inr memory_env_candidates_def
        split: option.splits)
  show ?thesis
  proof (cases found)
    case None
    then show ?thesis using l adaptive_limit_bounds(1) [of p usable] default_memory_limit_positive [of p]
      by (auto simp: bind_result_Inr fixed_default_memory_limit_def split: if_splits)
  next
    case (Some f)
    have "1 \<le> fst f" by (rule first_env_positive [of env own global_memory_env "fst f" "snd f"])
      (use found Some in simp)
    then show ?thesis using l Some by (auto simp: explicit_limit_def)
  qed
qed

lemma grant_terms_facts:
  assumes "grant_terms c st = Inr t"
  shows "1 \<le> limit_bytes (gt_limit t)" "gt_reserved t = reserved_bytes st"
    "gt_usable t = gt_available t - gt_os_reserve t"
    "gt_rss_room t = map_option (\<lambda>l. l - gt_rss t) (gt_process_rss_limit t)"
    "gt_grant t = (case gt_rss_room t of
        None \<Rightarrow> min (limit_bytes (gt_limit t)) (gt_usable t - reserved_bytes st)
      | Some room \<Rightarrow> min (min (limit_bytes (gt_limit t)) (gt_usable t - reserved_bytes st)) room)"
proof -
  obtain settings where s: "growth_grant_terms (gc_environ c) (gc_profile c) (gc_operation c) (gc_rss c)
      settings (gc_ram c) st = Inr t"
    using assms by (auto simp: grant_terms_def bind_result_Inr)
  obtain process_limit key available limit r where
    limit: "profile_limit_from_sample (gc_environ c) (gc_profile c) available
        (available - os_reserve_bytes available settings) = Inr limit"
    and t: "t = \<lparr>gt_profile = gc_profile c, gt_rss = r, gt_available = available,
       gt_os_reserve = os_reserve_bytes available settings,
       gt_usable = available - os_reserve_bytes available settings, gt_limit = limit,
       gt_process_rss_limit = process_limit, gt_reserved = reserved_bytes st,
       gt_holders = reported_holders st, gt_rss_room = map_option (\<lambda>l. l - r) process_limit,
       gt_grant = (case map_option (\<lambda>l. l - r) process_limit of
          None \<Rightarrow> min (limit_bytes limit)
                   (available - os_reserve_bytes available settings - reserved_bytes st)
        | Some room \<Rightarrow> min (min (limit_bytes limit)
                   (available - os_reserve_bytes available settings - reserved_bytes st)) room)\<rparr>"
    using s by (cases "gc_rss c") (auto simp: growth_grant_terms_def bind_result_Inr Let_def)
  show "1 \<le> limit_bytes (gt_limit t)" using profile_limit_positive [OF limit] by (simp add: t)
  show "gt_reserved t = reserved_bytes st" "gt_usable t = gt_available t - gt_os_reserve t"
    "gt_rss_room t = map_option (\<lambda>l. l - gt_rss t) (gt_process_rss_limit t)"
    "gt_grant t = (case gt_rss_room t of
        None \<Rightarrow> min (limit_bytes (gt_limit t)) (gt_usable t - reserved_bytes st)
      | Some room \<Rightarrow> min (min (limit_bytes (gt_limit t)) (gt_usable t - reserved_bytes st)) room)"
    by (cases process_limit; simp add: t)+
qed

definition binding_term :: "refusal_reason \<Rightarrow> growth_terms \<Rightarrow> bool" where
  "binding_term reason t = (case reason of
     Process_rss_limit_exceeded \<Rightarrow> when_set (\<lambda>l. l \<le> gt_rss t) (gt_process_rss_limit t)
   | In_flight_memory_budget_exceeded \<Rightarrow> 0 < gt_reserved t \<and> gt_usable t \<le> gt_reserved t
   | No_memory_available \<Rightarrow> gt_usable t \<le> 0 \<and> gt_reserved t \<le> 0
   | _ \<Rightarrow> False)"

lemma refusal_reason_binds:
  assumes "grant_terms c st = Inr t" "gt_grant t \<le> 0"
  shows "binding_term (refusal_reason_of t) t"
proof (cases "when_set (\<lambda>room. room \<le> 0) (gt_rss_room t)")
  case True
  then show ?thesis using grant_terms_facts(4) [OF assms(1)]
    by (cases "gt_process_rss_limit t") (auto simp: binding_term_def refusal_reason_of_def when_set_def)
next
  case False
  have "gt_usable t - gt_reserved t \<le> 0"
    using False grant_terms_facts(1,2,5) [OF assms(1)] assms(2)
    by (auto simp: when_set_def min_def split: option.splits if_splits)
  then show ?thesis using False by (auto simp: binding_term_def refusal_reason_of_def)
qed

lemma growth_grant_least_term_facts:
  assumes "admission_reachable st" "in_flight_profile (gc_profile c)" "grant_terms c st = Inr t"
  shows "preview_growth_grant_bytes c st = Inr (max 0 (gt_grant t))"
    and "gt_grant t = Min ({limit_bytes (gt_limit t), gt_usable t - reserved_bytes st} \<union>
      set_option (gt_rss_room t))"
    and "0 < gt_grant t \<Longrightarrow> \<not> gc_interrupted c \<Longrightarrow>
      \<exists>ctx st'. grant_once c st = (Inr ctx, st') \<and> ctx_limit ctx = gt_grant t \<and>
        reserved_bytes st' = reserved_bytes st + gt_grant t \<and> reserved_bytes st' \<le> gt_usable t \<and>
        if_set (\<lambda>l. ctx_rss_limit ctx \<le> l) (gt_process_rss_limit t)"
    and "gt_grant t \<le> 0 \<Longrightarrow>
      \<exists>r. grant_once c st = (Inl (Not_admitted r), st) \<and> binding_term (ref_reason r) t"
proof -
  note facts = grant_terms_facts [OF assms(3)]
  have ok: "table_ok st" by (rule admission_reachable_ok [OF assms(1)])
  show "preview_growth_grant_bytes c st = Inr (max 0 (gt_grant t))"
    using assms by (simp add: preview_growth_grant_bytes_def)
  show "gt_grant t = Min ({limit_bytes (gt_limit t), gt_usable t - reserved_bytes st} \<union>
      set_option (gt_rss_room t))"
    using facts(5) by (cases "gt_rss_room t") (simp_all add: min.assoc)
  have least: "gt_grant t \<le> gt_usable t - reserved_bytes st"
    "if_set (\<lambda>l. gt_rss t + gt_grant t \<le> l) (gt_process_rss_limit t)"
    using facts(4,5) by (cases "gt_process_rss_limit t"; simp)+
  show "\<exists>ctx st'. grant_once c st = (Inr ctx, st') \<and> ctx_limit ctx = gt_grant t \<and>
        reserved_bytes st' = reserved_bytes st + gt_grant t \<and> reserved_bytes st' \<le> gt_usable t \<and>
        if_set (\<lambda>l. ctx_rss_limit ctx \<le> l) (gt_process_rss_limit t)"
    if "0 < gt_grant t" "\<not> gc_interrupted c"
    using that assms(3) least reserved_add [OF ok, of "(gc_profile c, gt_grant t, gc_operation c)"]
    by (cases "add_reservation (gc_profile c, gt_grant t, gc_operation c) st")
      (simp add: grant_once_def finish_context_def admitted_context_def amount_of_def)
  show "\<exists>r. grant_once c st = (Inl (Not_admitted r), st) \<and> binding_term (ref_reason r) t"
    if "gt_grant t \<le> 0"
    using that assms(3) refusal_reason_binds [OF assms(3) that]
    by (simp add: grant_once_def growth_refusal_def plain_refusal_def)
qed

text \<open>
  C23: A growth grant not interrupted while its context is built is admitted exactly when its least
  term is positive, for exactly that many bytes: the profile's own limit, what the reservations leave of the usable memory, and the room
  below the process limit. After it the total reserved is within the usable memory and the
  context's limit within the process limit, and a preview of the grant announces the same figure.
  A grant of nothing is refused without touching the table, and the refusal names a term that is
  really exhausted.
\<close>

theorem growth_grant_least_term:
  assumes "admission_reachable st" "in_flight_profile (gc_profile c)" "grant_terms c st = Inr t"
  shows "preview_growth_grant_bytes c st = Inr (max 0 (gt_grant t)) \<and>
    gt_grant t = Min ({limit_bytes (gt_limit t), gt_usable t - reserved_bytes st} \<union>
      set_option (gt_rss_room t)) \<and>
    (0 < gt_grant t \<longrightarrow> \<not> gc_interrupted c \<longrightarrow>
      (\<exists>ctx st'. grant_once c st = (Inr ctx, st') \<and> ctx_limit ctx = gt_grant t \<and>
        reserved_bytes st' = reserved_bytes st + gt_grant t \<and> reserved_bytes st' \<le> gt_usable t \<and>
        if_set (\<lambda>l. ctx_rss_limit ctx \<le> l) (gt_process_rss_limit t))) \<and>
    (gt_grant t \<le> 0 \<longrightarrow>
      (\<exists>r. grant_once c st = (Inl (Not_admitted r), st) \<and> binding_term (ref_reason r) t))"
  by (intro conjI impI growth_grant_least_term_facts [OF assms]) assumption+

theorem growth_grant_least_term_witness:
  "preview_growth_grant_bytes example_grant example_in_flight = Inr (1000 * mib - 1000000)"
proof -
  have r: "admission_reachable example_in_flight"
    unfolding admission_reachable_def example_in_flight_def
    by (rule exI [of _ "[Op_admit (example_call False)]"]) simp
  have p: "in_flight_profile (gc_profile example_grant)" by code_simp
  have "case grant_terms example_grant example_in_flight of Inl _ \<Rightarrow> False
      | Inr t \<Rightarrow> gt_grant t = 1000 * mib - 1000000"
    by code_simp
  then obtain t where t: "grant_terms example_grant example_in_flight = Inr t"
    "gt_grant t = 1000 * mib - 1000000"
    by (auto split: sum.splits)
  show ?thesis using growth_grant_least_term [OF r p t(1)] t(2) by (simp add: mib_def)
qed

end
