(* ===== verification/Supersession.thy ===== *)
theory Supersession
  imports Prelude
begin

text \<open>
  \<open>SupersessionCoordinator\<close> of \<open>haute/routes/_supersession.py\<close>: at most one running and one
  latest waiting request per key.

  The requests are tasks of one event loop, so what runs between two awaits is one step, and each
  section under a condition or the states lock is one step. A request is known by its position, a
  state object by its own, which keeps the identity that \<open>self._states.get(key) is state\<close> tests.
  The worker is a parameter: it may return, raise, be cancelled, or raise with a background task
  that still runs; that task's own steps are events too. A cancellation may arrive at every await
  but those of the final cleanup, which asyncio delivers only when the task is cancelled twice.
  One limiter serves all requests, where the code is given one with each call, and the callback that
  cancels the active worker is logged and does not raise.
  The lemmas show that the reference count, the active flag and the limiter's permits always
  count the requests that hold them.
\<close>

section \<open>State\<close>

datatype sup_outcome = Value | Worker_error | Superseded | Was_cancelled

datatype sup_stage =
    Entering
  | Waiting
  | Acquiring
  | Permitted
  | Running
  | Checking sup_outcome
  | Leaving sup_outcome
  | Finished sup_outcome

datatype sup_background = No_background | Bg_running | Bg_finished | Bg_cleared | Bg_dropped

record ('k, 'c) request =
  rq_key :: 'k
  rq_object :: nat
  rq_stage :: sup_stage
  rq_generation :: nat
  rq_limited :: bool
  rq_cancel :: "'c option"
  rq_background :: sup_background

record 'c sup_object =
  latest_generation :: nat
  is_active :: bool
  references :: int
  active_cancel :: "'c option"

record ('k, 'c) coordinator =
  objects :: "'c sup_object list"
  states :: "('k, nat) odict"
  requests :: "('k, 'c) request list"
  permits :: int
  cancelled_log :: "'c list"

definition new_coordinator :: "nat \<Rightarrow> ('k, 'c) coordinator" where
  "new_coordinator capacity = \<lparr>objects = [], states = [], requests = [], permits = int capacity,
     cancelled_log = []\<rparr>"

definition fresh_object :: "'c sup_object" where
  "fresh_object = \<lparr>latest_generation = 0, is_active = False, references = 0, active_cancel = None\<rparr>"

definition on_object :: "nat \<Rightarrow> ('c sup_object \<Rightarrow> 'c sup_object) \<Rightarrow> ('k, 'c) coordinator \<Rightarrow>
    ('k, 'c) coordinator" where
  "on_object x f s = s\<lparr>objects := (objects s)[x := f (objects s ! x)]\<rparr>"

definition on_request :: "nat \<Rightarrow> (('k, 'c) request \<Rightarrow> ('k, 'c) request) \<Rightarrow> ('k, 'c) coordinator \<Rightarrow>
    ('k, 'c) coordinator" where
  "on_request i f s = s\<lparr>requests := (requests s)[i := f (requests s ! i)]\<rparr>"

definition at_stage :: "nat \<Rightarrow> sup_stage \<Rightarrow> ('k, 'c) coordinator \<Rightarrow> bool" where
  "at_stage i p s \<longleftrightarrow> i < length (requests s) \<and> rq_stage (requests s ! i) = p"

definition move :: "nat \<Rightarrow> sup_stage \<Rightarrow> ('k, 'c) coordinator \<Rightarrow> ('k, 'c) coordinator" where
  "move i p = on_request i (\<lambda>r. r\<lparr>rq_stage := p\<rparr>)"

definition object_of :: "nat \<Rightarrow> ('k, 'c) coordinator \<Rightarrow> 'c sup_object" where
  "object_of i s = objects s ! rq_object (requests s ! i)"

definition is_latest :: "nat \<Rightarrow> ('k, 'c) coordinator \<Rightarrow> bool" where
  "is_latest i s \<longleftrightarrow> rq_generation (requests s ! i) = latest_generation (object_of i s)"

section \<open>Steps\<close>

text \<open>\<open>_retain_state\<close>: the state object of the key, made when there is none.\<close>

definition retain_state :: "'k \<Rightarrow> ('k, 'c) coordinator \<Rightarrow> nat \<times> ('k, 'c) coordinator" where
  "retain_state key s =
     (let (x, s1) = (case map_of (states s) key of
            Some x \<Rightarrow> (x, s)
          | None \<Rightarrow> (length (objects s),
              s\<lparr>objects := objects s @ [fresh_object],
                states := AList.update key (length (objects s)) (states s)\<rparr>))
      in (x, on_object x (\<lambda>o'. o'\<lparr>references := references o' + 1\<rparr>) s1))"

definition arrive :: "'k \<Rightarrow> bool \<Rightarrow> 'c option \<Rightarrow> ('k, 'c) coordinator \<Rightarrow> ('k, 'c) coordinator" where
  "arrive key limited cancel s =
     (let (x, s1) = retain_state key s
      in s1\<lparr>requests := requests s1 @ [\<lparr>rq_key = key, rq_object = x, rq_stage = Entering,
          rq_generation = 0, rq_limited = limited, rq_cancel = cancel,
          rq_background = No_background\<rparr>]\<rparr>)"

text \<open>Leaving the protected part gives back the permit the request holds.\<close>

definition holds_permit :: "('k, 'c) request \<Rightarrow> bool" where
  "holds_permit r \<longleftrightarrow> rq_limited r \<and>
     ((case rq_stage r of Permitted \<Rightarrow> True | Running \<Rightarrow> True | Checking _ \<Rightarrow> True | _ \<Rightarrow> False) \<or>
      rq_background r = Bg_running)"

definition leave_with :: "nat \<Rightarrow> sup_outcome \<Rightarrow> ('k, 'c) coordinator \<Rightarrow> ('k, 'c) coordinator" where
  "leave_with i out s =
     (let s1 = move i (Leaving out) s
      in if holds_permit (requests s ! i) then s1\<lparr>permits := permits s1 + 1\<rparr> else s1)"

text \<open>The first loop: wait while a worker is active, unless a newer request has come.\<close>

definition first_loop :: "nat \<Rightarrow> ('k, 'c) coordinator \<Rightarrow> ('k, 'c) coordinator" where
  "first_loop i s =
     (if \<not> is_latest i s then leave_with i Superseded s
      else if is_active (object_of i s) then s
      else move i (if rq_limited (requests s ! i) then Acquiring else Permitted) s)"

definition take_generation :: "nat \<Rightarrow> ('k, 'c) coordinator \<Rightarrow> ('k, 'c) coordinator" where
  "take_generation i s =
     (let x = rq_object (requests s ! i); g = latest_generation (objects s ! x) + 1;
          s1 = on_object x (\<lambda>o'. o'\<lparr>latest_generation := g\<rparr>) s
      in on_request i (\<lambda>r. r\<lparr>rq_generation := g, rq_stage := Waiting\<rparr>) s1)"

definition cancel_running :: "nat \<Rightarrow> ('k, 'c) coordinator \<Rightarrow> ('k, 'c) coordinator" where
  "cancel_running i s =
     (case (is_active (object_of i s), active_cancel (object_of i s)) of
        (True, Some c) \<Rightarrow> s\<lparr>cancelled_log := cancelled_log s @ [c]\<rparr>
      | _ \<Rightarrow> s)"

definition enter :: "nat \<Rightarrow> ('k, 'c) coordinator \<Rightarrow> ('k, 'c) coordinator" where
  "enter i s = first_loop i (cancel_running i (take_generation i s))"

text \<open>\<open>_acquire_limiter_unless_superseded\<close>: either task may be seen first; supersession wins a tie.\<close>

definition acquire_permit :: "nat \<Rightarrow> ('k, 'c) coordinator \<Rightarrow> ('k, 'c) coordinator" where
  "acquire_permit i s =
     (if 0 < permits s then move i Permitted (s\<lparr>permits := permits s - 1\<rparr>) else s)"

definition acquire_superseded :: "nat \<Rightarrow> ('k, 'c) coordinator \<Rightarrow> ('k, 'c) coordinator" where
  "acquire_superseded i s = (if is_latest i s then s else leave_with i Superseded s)"

definition start_worker :: "nat \<Rightarrow> ('k, 'c) coordinator \<Rightarrow> ('k, 'c) coordinator" where
  "start_worker i s =
     (if \<not> is_latest i s then leave_with i Superseded s
      else if is_active (object_of i s) then s
      else move i Running (on_object (rq_object (requests s ! i))
        (\<lambda>o'. o'\<lparr>is_active := True, active_cancel := rq_cancel (requests s ! i)\<rparr>) s))"

definition clear_active :: "nat \<Rightarrow> ('k, 'c) coordinator \<Rightarrow> ('k, 'c) coordinator" where
  "clear_active i s = on_object (rq_object (requests s ! i))
     (\<lambda>o'. o'\<lparr>is_active := False,
        active_cancel := (if active_cancel o' = rq_cancel (requests s ! i) then None
                          else active_cancel o')\<rparr>) s"

definition worker_settles :: "nat \<Rightarrow> sup_outcome \<Rightarrow> ('k, 'c) coordinator \<Rightarrow> ('k, 'c) coordinator" where
  "worker_settles i out s =
     (if out = Was_cancelled then leave_with i Was_cancelled (clear_active i s)
      else move i (Checking out) (clear_active i s))"

text \<open>An error that carries a background task keeps the active flag and the permit for that task.\<close>

definition worker_defers :: "nat \<Rightarrow> ('k, 'c) coordinator \<Rightarrow> ('k, 'c) coordinator" where
  "worker_defers i =
     on_request i (\<lambda>r. r\<lparr>rq_stage := Leaving Worker_error, rq_background := Bg_running\<rparr>)"

definition check_latest :: "nat \<Rightarrow> sup_outcome \<Rightarrow> ('k, 'c) coordinator \<Rightarrow> ('k, 'c) coordinator" where
  "check_latest i out s = leave_with i (if is_latest i s then out else Superseded) s"

definition drop_state :: "nat \<Rightarrow> ('k, 'c) coordinator \<Rightarrow> ('k, 'c) coordinator" where
  "drop_state i s =
     (let r = requests s ! i; x = rq_object r
      in if references (objects s ! x) = 0 \<and> \<not> is_active (objects s ! x) \<and>
            map_of (states s) (rq_key r) = Some x
         then s\<lparr>states := AList.delete (rq_key r) (states s)\<rparr> else s)"

definition release_state :: "nat \<Rightarrow> sup_outcome \<Rightarrow> ('k, 'c) coordinator \<Rightarrow> ('k, 'c) coordinator" where
  "release_state i out s =
     move i (Finished out) (drop_state i (on_object (rq_object (requests s ! i))
       (\<lambda>o'. o'\<lparr>references := references o' - 1\<rparr>) s))"

definition background_is :: "nat \<Rightarrow> sup_background \<Rightarrow> ('k, 'c) coordinator \<Rightarrow> bool" where
  "background_is i b s \<longleftrightarrow> i < length (requests s) \<and> rq_background (requests s ! i) = b"

definition set_background :: "nat \<Rightarrow> sup_background \<Rightarrow> ('k, 'c) coordinator \<Rightarrow> ('k, 'c) coordinator" where
  "set_background i b = on_request i (\<lambda>r. r\<lparr>rq_background := b\<rparr>)"

definition background_done :: "nat \<Rightarrow> ('k, 'c) coordinator \<Rightarrow> ('k, 'c) coordinator" where
  "background_done i s =
     (let s1 = set_background i Bg_finished s
      in if rq_limited (requests s ! i) then s1\<lparr>permits := permits s1 + 1\<rparr> else s1)"

definition background_clears :: "nat \<Rightarrow> ('k, 'c) coordinator \<Rightarrow> ('k, 'c) coordinator" where
  "background_clears i s = set_background i Bg_cleared (clear_active i s)"

definition background_drops :: "nat \<Rightarrow> ('k, 'c) coordinator \<Rightarrow> ('k, 'c) coordinator" where
  "background_drops i s = set_background i Bg_dropped (drop_state i s)"

definition cancellable :: "sup_stage \<Rightarrow> bool" where
  "cancellable p \<longleftrightarrow> (case p of Entering \<Rightarrow> True | Waiting \<Rightarrow> True | Acquiring \<Rightarrow> True
     | Permitted \<Rightarrow> True | Checking _ \<Rightarrow> True | _ \<Rightarrow> False)"

datatype ('k, 'c) sup_event =
    Arrive 'k bool "'c option"
  | Enter nat
  | Wake nat
  | Acquire nat
  | Acquire_superseded nat
  | Start nat
  | Settle nat sup_outcome
  | Defer nat
  | Check nat
  | Release nat
  | Cancel nat
  | Background_done nat
  | Background_clears nat
  | Background_drops nat

text \<open>An event of a request that is not at the step's stage does nothing.\<close>

definition checking_outcome :: "sup_stage \<Rightarrow> sup_outcome option" where
  "checking_outcome p = (case p of Checking out \<Rightarrow> Some out | _ \<Rightarrow> None)"

definition leaving_outcome :: "sup_stage \<Rightarrow> sup_outcome option" where
  "leaving_outcome p = (case p of Leaving out \<Rightarrow> Some out | _ \<Rightarrow> None)"

definition sup_step :: "('k, 'c) sup_event \<Rightarrow> ('k, 'c) coordinator \<Rightarrow> ('k, 'c) coordinator" where
  "sup_step e s = (case e of
     Arrive key limited cancel \<Rightarrow> arrive key limited cancel s
   | Enter i \<Rightarrow> if at_stage i Entering s then enter i s else s
   | Wake i \<Rightarrow> if at_stage i Waiting s then first_loop i s else s
   | Acquire i \<Rightarrow> if at_stage i Acquiring s then acquire_permit i s else s
   | Acquire_superseded i \<Rightarrow> if at_stage i Acquiring s then acquire_superseded i s else s
   | Start i \<Rightarrow> if at_stage i Permitted s then start_worker i s else s
   | Settle i out \<Rightarrow> if at_stage i Running s \<and> out \<noteq> Superseded then worker_settles i out s else s
   | Defer i \<Rightarrow> if at_stage i Running s then worker_defers i s else s
   | Check i \<Rightarrow> if i < length (requests s)
       then case checking_outcome (rq_stage (requests s ! i)) of
           None \<Rightarrow> s | Some out \<Rightarrow> check_latest i out s
       else s
   | Release i \<Rightarrow> if i < length (requests s)
       then case leaving_outcome (rq_stage (requests s ! i)) of
           None \<Rightarrow> s | Some out \<Rightarrow> release_state i out s
       else s
   | Cancel i \<Rightarrow> if i < length (requests s) \<and> cancellable (rq_stage (requests s ! i))
       then leave_with i Was_cancelled s else s
   | Background_done i \<Rightarrow> if background_is i Bg_running s then background_done i s else s
   | Background_clears i \<Rightarrow> if background_is i Bg_finished s then background_clears i s else s
   | Background_drops i \<Rightarrow> if background_is i Bg_cleared s then background_drops i s else s)"

definition sup_reachable :: "nat \<Rightarrow> ('k, 'c) coordinator \<Rightarrow> bool" where
  "sup_reachable capacity s \<longleftrightarrow> (\<exists>events. s = fold sup_step events (new_coordinator capacity))"

section \<open>What the counters count\<close>

definition live :: "('k, 'c) request \<Rightarrow> bool" where
  "live r \<longleftrightarrow> (case rq_stage r of Finished _ \<Rightarrow> False | _ \<Rightarrow> True)"

definition owns :: "('k, 'c) request \<Rightarrow> bool" where
  "owns r \<longleftrightarrow> rq_stage r = Running \<or> rq_background r = Bg_running \<or> rq_background r = Bg_finished"

definition pending_request :: "('k, 'c) request \<Rightarrow> bool" where
  "pending_request r \<longleftrightarrow> live r \<or> owns r \<or> rq_background r = Bg_cleared"

definition was_superseded :: "('k, 'c) request \<Rightarrow> bool" where
  "was_superseded r \<longleftrightarrow> rq_stage r \<in> {Checking Superseded, Leaving Superseded, Finished Superseded}"

definition left_the_loop :: "('k, 'c) request \<Rightarrow> bool" where
  "left_the_loop r \<longleftrightarrow> (case rq_stage r of Leaving _ \<Rightarrow> True | Finished _ \<Rightarrow> True | _ \<Rightarrow> False)"

definition count_if :: "('a \<Rightarrow> bool) \<Rightarrow> 'a list \<Rightarrow> int" where
  "count_if P xs = int (length (filter P xs))"

lemma count_if_update:
  assumes "i < length xs"
  shows "count_if P (xs[i := x]) = count_if P xs - of_bool (P (xs ! i)) + of_bool (P x)"
proof -
  have split: "xs = take i xs @ xs ! i # drop (Suc i) xs" "xs[i := x] = take i xs @ x # drop (Suc i) xs"
    using assms by (simp_all add: id_take_nth_drop upd_conv_take_nth_drop)
  have "count_if P xs = count_if P (take i xs) + of_bool (P (xs ! i)) + count_if P (drop (Suc i) xs)"
    by (subst split(1)) (simp add: count_if_def)
  moreover have "count_if P (xs[i := x])
      = count_if P (take i xs) + of_bool (P x) + count_if P (drop (Suc i) xs)"
    by (subst split(2)) (simp add: count_if_def)
  ultimately show ?thesis by simp
qed

lemma count_if_append [simp]: "count_if P (xs @ [x]) = count_if P xs + of_bool (P x)"
  by (simp add: count_if_def)

lemma count_if_zero: "count_if P xs = 0 \<longleftrightarrow> (\<forall>x \<in> set xs. \<not> P x)"
  by (simp add: count_if_def filter_empty_conv)

lemma count_if_nonneg [simp]: "0 \<le> count_if P xs"
  by (simp add: count_if_def)

lemma count_if_one:
  assumes "count_if P xs \<le> 1" "i < length xs" "j < length xs" "P (xs ! i)" "P (xs ! j)"
  shows "i = j"
proof (rule ccontr)
  assume "i \<noteq> j"
  then have "{i, j} \<subseteq> {n. n < length xs \<and> P (xs ! n)}" using assms by auto
  then have "card {i, j} \<le> card {n. n < length xs \<and> P (xs ! n)}"
    by (intro card_mono) auto
  then show False using assms(1) \<open>i \<noteq> j\<close>
    by (simp add: count_if_def length_filter_conv_card)
qed

definition object_ok :: "('k, 'c) coordinator \<Rightarrow> nat \<Rightarrow> bool" where
  "object_ok s x \<longleftrightarrow>
     references (objects s ! x) = count_if (\<lambda>r. rq_object r = x \<and> live r) (requests s) \<and>
     of_bool (is_active (objects s ! x)) = count_if (\<lambda>r. rq_object r = x \<and> owns r) (requests s)"

definition request_ok :: "('k, 'c) coordinator \<Rightarrow> ('k, 'c) request \<Rightarrow> bool" where
  "request_ok s r \<longleftrightarrow> rq_object r < length (objects s) \<and>
     (live r \<or> owns r \<longrightarrow> map_of (states s) (rq_key r) = Some (rq_object r)) \<and>
     (\<forall>k. map_of (states s) k = Some (rq_object r) \<longrightarrow> k = rq_key r) \<and>
     (rq_background r \<noteq> No_background \<longrightarrow> left_the_loop r) \<and>
     (rq_stage r = Acquiring \<longrightarrow> rq_limited r) \<and>
     rq_generation r \<le> latest_generation (objects s ! rq_object r) \<and>
     (was_superseded r \<longrightarrow> rq_generation r < latest_generation (objects s ! rq_object r))"

definition states_ok :: "('k, 'c) coordinator \<Rightarrow> bool" where
  "states_ok s \<longleftrightarrow> wf_dict (states s) \<and>
     (\<forall>k x. map_of (states s) k = Some x \<longrightarrow> x < length (objects s)) \<and>
     (\<forall>k k' x. map_of (states s) k = Some x \<longrightarrow> map_of (states s) k' = Some x \<longrightarrow> k = k')"

definition counts_ok :: "nat \<Rightarrow> ('k, 'c) coordinator \<Rightarrow> bool" where
  "counts_ok capacity s \<longleftrightarrow>
     (\<forall>x < length (objects s). object_ok s x) \<and> (\<forall>r \<in> set (requests s). request_ok s r) \<and>
     states_ok s \<and> permits s = int capacity - count_if holds_permit (requests s) \<and> 0 \<le> permits s"

definition needed :: "('k, 'c) coordinator \<Rightarrow> nat \<Rightarrow> bool" where
  "needed s x \<longleftrightarrow> (\<exists>r \<in> set (requests s). rq_object r = x \<and> pending_request r)"

definition none_left_over :: "('k, 'c) coordinator \<Rightarrow> bool" where
  "none_left_over s \<longleftrightarrow> (\<forall>k x. map_of (states s) k = Some x \<longrightarrow> needed s x)"

definition sup_ok :: "nat \<Rightarrow> ('k, 'c) coordinator \<Rightarrow> bool" where
  "sup_ok capacity s \<longleftrightarrow> counts_ok capacity s \<and> none_left_over s"

text \<open>A step that moves one request and touches its state object keeps the counts when each counter changes as the request does.\<close>

definition with_change :: "nat \<Rightarrow> ('k, 'c) request \<Rightarrow> 'c sup_object \<Rightarrow> int \<Rightarrow> 'c list \<Rightarrow>
    ('k, 'c) coordinator \<Rightarrow> ('k, 'c) coordinator" where
  "with_change i r' o' p lg s = s\<lparr>requests := (requests s)[i := r'],
     objects := (objects s)[rq_object r' := o'], permits := p, cancelled_log := lg\<rparr>"

definition change_ok :: "('k, 'c) coordinator \<Rightarrow> nat \<Rightarrow> ('k, 'c) request \<Rightarrow> 'c sup_object \<Rightarrow> int \<Rightarrow> bool" where
  "change_ok s i r' o' p \<longleftrightarrow> i < length (requests s) \<and>
     (let r = requests s ! i; o1 = objects s ! rq_object r in
      rq_key r' = rq_key r \<and> rq_object r' = rq_object r \<and>
      references o' = references o1 - of_bool (live r) + of_bool (live r') \<and>
      of_bool (is_active o') = of_bool (is_active o1) - of_bool (owns r) + (of_bool (owns r') :: int) \<and>
      p = permits s + of_bool (holds_permit r) - of_bool (holds_permit r') \<and> 0 \<le> p \<and>
      (live r' \<or> owns r' \<longrightarrow> live r \<or> owns r) \<and>
      (rq_background r' \<noteq> No_background \<longrightarrow> left_the_loop r') \<and>
      (rq_stage r' = Acquiring \<longrightarrow> rq_limited r') \<and>
      latest_generation o1 \<le> latest_generation o' \<and>
      rq_generation r' \<le> latest_generation o' \<and>
      (was_superseded r' \<longrightarrow> rq_generation r' < latest_generation o'))"

lemma change_okD:
  assumes "change_ok s i r' o' p"
  shows "i < length (requests s)" "rq_key r' = rq_key (requests s ! i)"
    "rq_object r' = rq_object (requests s ! i)"
    "references o' = references (objects s ! rq_object r') - of_bool (live (requests s ! i)) + of_bool (live r')"
    "of_bool (is_active o') = of_bool (is_active (objects s ! rq_object r'))
      - of_bool (owns (requests s ! i)) + (of_bool (owns r') :: int)"
    "p = permits s + of_bool (holds_permit (requests s ! i)) - of_bool (holds_permit r')" "0 \<le> p"
    "live r' \<or> owns r' \<Longrightarrow> live (requests s ! i) \<or> owns (requests s ! i)"
    "rq_background r' \<noteq> No_background \<Longrightarrow> left_the_loop r'"
    "latest_generation (objects s ! rq_object r') \<le> latest_generation o'"
    "rq_generation r' \<le> latest_generation o'"
    "was_superseded r' \<Longrightarrow> rq_generation r' < latest_generation o'"
    "rq_stage r' = Acquiring \<Longrightarrow> rq_limited r'"
  using assms by (simp_all add: change_ok_def Let_def)

lemma counts_okD:
  assumes "counts_ok capacity s"
  shows "x < length (objects s) \<Longrightarrow> object_ok s x"
    "r \<in> set (requests s) \<Longrightarrow> request_ok s r" "states_ok s"
    "permits s = int capacity - count_if holds_permit (requests s)" "0 \<le> permits s"
  using assms by (simp_all add: counts_ok_def)

lemma counts_ok_change:
  assumes ok: "counts_ok capacity s" and ch: "change_ok s i r' o' p"
  shows "counts_ok capacity (with_change i r' o' p lg s)"
proof -
  let ?s = "with_change i r' o' p lg s"
  let ?r = "requests s ! i"
  let ?x = "rq_object r'"
  note c = change_okD [OF ch]
  have r_ok: "request_ok s ?r" by (rule counts_okD(2) [OF ok nth_mem [OF c(1)]])
  then have x: "?x < length (objects s)" by (simp add: request_ok_def c(3))
  have objects: "objects ?s ! y = (if y = ?x then o' else objects s ! y)" if "y < length (objects s)" for y
    using that by (simp add: with_change_def)
  have same: "rq_object ?r = ?x" using c(3) by simp
  have obj: "object_ok ?s y" if y: "y < length (objects ?s)" for y
  proof -
    have y': "y < length (objects s)" using y by (simp add: with_change_def)
    have old: "object_ok s y" by (rule counts_okD(1) [OF ok y'])
    have count: "count_if (\<lambda>r. rq_object r = y \<and> P r) (requests ?s)
        = count_if (\<lambda>r. rq_object r = y \<and> P r) (requests s) - of_bool (?x = y \<and> P ?r) + of_bool (?x = y \<and> P r')"
      for P
      using count_if_update [OF c(1), of "\<lambda>r. rq_object r = y \<and> P r" r'] same
      by (simp add: with_change_def)
    show ?thesis
    proof (cases "y = ?x")
      case True
      have "references (objects ?s ! y) = count_if (\<lambda>r. rq_object r = y \<and> live r) (requests ?s)"
        using old c(4) True objects [OF y'] count [of live] by (simp add: object_ok_def)
      moreover have "of_bool (is_active (objects ?s ! y))
          = count_if (\<lambda>r. rq_object r = y \<and> owns r) (requests ?s)"
        using old c(5) True objects [OF y'] count [of owns] by (simp only: object_ok_def simp_thms if_True)
      ultimately show ?thesis by (simp only: object_ok_def simp_thms)
    next
      case False
      then show ?thesis using old objects [OF y'] count by (simp add: object_ok_def)
    qed
  qed
  have req: "request_ok ?s r" if r: "r \<in> set (requests ?s)" for r
  proof (cases "r = r'")
    case True
    have at: "objects ?s ! ?x = o'" using objects [OF x] by simp
    have st: "states ?s = states s" "length (objects ?s) = length (objects s)"
      by (simp_all add: with_change_def)
    have old: "live ?r \<or> owns ?r \<longrightarrow> map_of (states s) (rq_key r') = Some ?x"
      "\<forall>k. map_of (states s) k = Some ?x \<longrightarrow> k = rq_key r'"
      using r_ok unfolding request_ok_def same c(2) [symmetric] by blast+
    show ?thesis
      unfolding True request_ok_def at st
      using x old c(8,9,11,12,13) by blast
  next
    case False
    then have "r \<in> set (requests s)"
      using r set_update_subset_insert [of "requests s" i r'] by (auto simp: with_change_def)
    then have old: "request_ok s r" by (rule counts_okD(2) [OF ok])
    then have y: "rq_object r < length (objects s)" by (simp add: request_ok_def)
    have st: "states ?s = states s" "length (objects ?s) = length (objects s)"
      by (simp_all add: with_change_def)
    have later: "latest_generation (objects s ! rq_object r) \<le> latest_generation (objects ?s ! rq_object r)"
      using objects [OF y] c(10) by (cases "rq_object r = ?x") simp_all
    show ?thesis
      using old unfolding request_ok_def st
      using later by (meson le_trans less_le_trans)
  qed
  have st: "states_ok ?s" using counts_okD(3) [OF ok] by (simp add: states_ok_def with_change_def)
  have pm: "permits ?s = int capacity - count_if holds_permit (requests ?s)"
    using counts_okD(4) [OF ok] count_if_update [OF c(1), of holds_permit r'] c(6)
    by (simp add: with_change_def)
  have "0 \<le> permits ?s" using c(7) by (simp add: with_change_def)
  then show ?thesis using obj req st pm by (simp add: counts_ok_def)
qed

lemma none_left_over_change:
  assumes "none_left_over s" "change_ok s i r' o' p" "pending_request (requests s ! i) \<Longrightarrow> pending_request r'"
  shows "none_left_over (with_change i r' o' p lg s)"
  unfolding none_left_over_def
proof (intro allI impI)
  fix k x assume "map_of (states (with_change i r' o' p lg s)) k = Some x"
  then have "needed s x" using assms(1) by (simp add: none_left_over_def with_change_def)
  then obtain j where j: "j < length (requests s)" "rq_object (requests s ! j) = x"
    "pending_request (requests s ! j)"
    by (auto simp: needed_def in_set_conv_nth)
  show "needed (with_change i r' o' p lg s) x"
  proof (cases "j = i")
    case True
    have "r' \<in> set ((requests s)[i := r'])" using change_okD(1) [OF assms(2)] by (rule set_update_memI)
    then show ?thesis using True j assms(3) change_okD(3) [OF assms(2)]
      by (auto simp: needed_def with_change_def)
  next
    case False
    then have "(requests s)[i := r'] ! j = requests s ! j" by simp
    then have "requests s ! j \<in> set ((requests s)[i := r'])"
      using j(1) by (metis length_list_update nth_mem)
    then show ?thesis using j by (auto simp: needed_def with_change_def)
  qed
qed

lemma sup_ok_change:
  assumes "sup_ok capacity s" "change_ok s i r' o' p" "pending_request (requests s ! i) \<Longrightarrow> pending_request r'"
  shows "sup_ok capacity (with_change i r' o' p lg s)"
  using assms unfolding sup_ok_def by (blast intro: counts_ok_change none_left_over_change)

lemma sup_ok_request: "sup_ok capacity s \<Longrightarrow> i < length (requests s) \<Longrightarrow> request_ok s (requests s ! i)"
  by (simp add: sup_ok_def counts_ok_def)

lemma sup_ok_log [simp]: "sup_ok capacity (s\<lparr>cancelled_log := l\<rparr>) = sup_ok capacity s"
  by (simp add: sup_ok_def counts_ok_def object_ok_def request_ok_def states_ok_def none_left_over_def
      needed_def)

lemma active_iff:
  assumes "counts_ok capacity s" "x < length (objects s)"
  shows "is_active (objects s ! x) \<longleftrightarrow> (\<exists>r \<in> set (requests s). rq_object r = x \<and> owns r)"
proof -
  have "of_bool (is_active (objects s ! x)) = count_if (\<lambda>r. rq_object r = x \<and> owns r) (requests s)"
    using counts_okD(1) [OF assms] by (simp add: object_ok_def)
  then show ?thesis using count_if_zero [of "\<lambda>r. rq_object r = x \<and> owns r" "requests s"]
    by (cases "is_active (objects s ! x)") auto
qed

lemma in_loop_facts:
  assumes "request_ok s r" "\<not> left_the_loop r"
  shows "rq_background r = No_background" "live r" "pending_request r"
    "owns r \<longleftrightarrow> rq_stage r = Running"
  using assms by (auto simp: request_ok_def live_def owns_def pending_request_def left_the_loop_def
      split: sup_stage.splits)

lemmas stage_defs = live_def owns_def pending_request_def left_the_loop_def holds_permit_def
  was_superseded_def

text \<open>Leaving with an outcome, from a stage where the worker does not run.\<close>

lemma leave_with_change:
  "leave_with i out s = with_change i ((requests s ! i)\<lparr>rq_stage := Leaving out\<rparr>)
     (objects s ! rq_object (requests s ! i))
     (permits s + of_bool (holds_permit (requests s ! i))) (cancelled_log s) s"
  by (simp add: leave_with_def with_change_def move_def on_request_def Let_def)

lemma sup_ok_leave:
  assumes "sup_ok capacity s" "i < length (requests s)" "\<not> left_the_loop (requests s ! i)"
    "rq_stage (requests s ! i) \<noteq> Running"
    "out = Superseded \<Longrightarrow> rq_generation (requests s ! i) < latest_generation (object_of i s)"
  shows "sup_ok capacity (leave_with i out s)"
proof -
  let ?r = "requests s ! i"
  have ok: "request_ok s ?r" by (rule sup_ok_request [OF assms(1,2)])
  note f = in_loop_facts [OF ok assms(3)]
  have "0 \<le> permits s" using assms(1) by (simp add: sup_ok_def counts_ok_def)
  then have "change_ok s i (?r\<lparr>rq_stage := Leaving out\<rparr>) (objects s ! rq_object ?r)
      (permits s + of_bool (holds_permit ?r))"
    using assms(2,4,5) f ok
    by (simp add: change_ok_def Let_def stage_defs object_of_def request_ok_def)
  then show ?thesis unfolding leave_with_change
    by (rule sup_ok_change [OF assms(1)]) (simp add: stage_defs)
qed

lemma stale_generation:
  assumes "sup_ok capacity s" "i < length (requests s)" "\<not> is_latest i s"
  shows "rq_generation (requests s ! i) < latest_generation (object_of i s)"
  using sup_ok_request [OF assms(1,2)] assms(3)
  by (auto simp: request_ok_def is_latest_def object_of_def)

lemma sup_ok_move:
  assumes "sup_ok capacity s" "i < length (requests s)" "\<not> left_the_loop (requests s ! i)"
    "rq_stage (requests s ! i) \<noteq> Running" "p \<in> {Waiting, Acquiring, Permitted}"
    "p = Acquiring \<Longrightarrow> rq_limited (requests s ! i)"
    "holds_permit (requests s ! i) = holds_permit ((requests s ! i)\<lparr>rq_stage := p\<rparr>)"
  shows "sup_ok capacity (move i p s)"
proof -
  let ?r = "requests s ! i"
  have ok: "request_ok s ?r" by (rule sup_ok_request [OF assms(1,2)])
  note f = in_loop_facts [OF ok assms(3)]
  have eq: "move i p s = with_change i (?r\<lparr>rq_stage := p\<rparr>) (objects s ! rq_object ?r) (permits s)
      (cancelled_log s) s"
    by (simp add: move_def on_request_def with_change_def)
  have pos: "0 \<le> permits s" using assms(1) by (simp add: sup_ok_def counts_ok_def)
  have moved: "live (?r\<lparr>rq_stage := p\<rparr>)" "\<not> owns (?r\<lparr>rq_stage := p\<rparr>)" "\<not> was_superseded (?r\<lparr>rq_stage := p\<rparr>)"
    using assms(5) f by (auto simp: live_def owns_def was_superseded_def)
  then have "change_ok s i (?r\<lparr>rq_stage := p\<rparr>) (objects s ! rq_object ?r) (permits s)"
    using assms(2,4,6,7) f ok pos by (simp add: change_ok_def Let_def request_ok_def)
  then show ?thesis unfolding eq
    by (rule sup_ok_change [OF assms(1)]) (use moved in \<open>simp add: pending_request_def\<close>)
qed

lemma at_stageD:
  assumes "sup_ok capacity s" "at_stage i p s" "p \<in> {Entering, Waiting, Acquiring, Permitted, Running}"
  shows "i < length (requests s)" "rq_stage (requests s ! i) = p"
    "rq_background (requests s ! i) = No_background" "\<not> left_the_loop (requests s ! i)"
proof -
  show i: "i < length (requests s)" and p: "rq_stage (requests s ! i) = p"
    using assms(2) by (simp_all add: at_stage_def)
  show l: "\<not> left_the_loop (requests s ! i)" using p assms(3) by (auto simp: left_the_loop_def)
  show "rq_background (requests s ! i) = No_background"
    by (rule in_loop_facts(1) [OF sup_ok_request [OF assms(1) i] l])
qed

lemma sup_ok_first_loop:
  assumes "sup_ok capacity s" "at_stage i Waiting s"
  shows "sup_ok capacity (first_loop i s)"
proof -
  note f = at_stageD [OF assms, simplified]
  show ?thesis
  proof (cases "is_latest i s")
    case False
    then show ?thesis using stale_generation [OF assms(1) f(1) False] sup_ok_leave [OF assms(1) f(1)] f
      by (simp add: first_loop_def)
  next
    case True
    have "sup_ok capacity (move i (if rq_limited (requests s ! i) then Acquiring else Permitted) s)"
      by (rule sup_ok_move [OF assms(1) f(1)])
        (use f in \<open>simp_all add: holds_permit_def split: if_splits\<close>)
    then show ?thesis using True assms(1) by (simp add: first_loop_def)
  qed
qed

lemma take_generation_change:
  "take_generation i s = with_change i ((requests s ! i)\<lparr>
       rq_generation := latest_generation (object_of i s) + 1, rq_stage := Waiting\<rparr>)
     ((object_of i s)\<lparr>latest_generation := latest_generation (object_of i s) + 1\<rparr>) (permits s)
     (cancelled_log s) s"
  by (simp add: take_generation_def with_change_def on_request_def on_object_def Let_def object_of_def)

lemma sup_ok_take:
  assumes "sup_ok capacity s" "at_stage i Entering s"
  shows "sup_ok capacity (take_generation i s)" "at_stage i Waiting (take_generation i s)"
proof -
  note f = at_stageD [OF assms, simplified]
  have "0 \<le> permits s" using assms(1) by (simp add: sup_ok_def counts_ok_def)
  then have ch: "change_ok s i ((requests s ! i)\<lparr>
       rq_generation := latest_generation (object_of i s) + 1, rq_stage := Waiting\<rparr>)
     ((object_of i s)\<lparr>latest_generation := latest_generation (object_of i s) + 1\<rparr>) (permits s)"
    using f by (simp add: change_ok_def Let_def object_of_def stage_defs)
  show "sup_ok capacity (take_generation i s)"
    unfolding take_generation_change by (rule sup_ok_change [OF assms(1) ch]) (simp add: stage_defs)
  show "at_stage i Waiting (take_generation i s)"
    using f by (simp add: take_generation_change with_change_def at_stage_def)
qed

lemma sup_ok_enter:
  assumes "sup_ok capacity s" "at_stage i Entering s"
  shows "sup_ok capacity (enter i s)"
proof -
  let ?t = "cancel_running i (take_generation i s)"
  have "sup_ok capacity ?t" "at_stage i Waiting ?t"
    using sup_ok_take [OF assms]
    by (auto simp: cancel_running_def at_stage_def split: bool.split option.split)
  then show ?thesis unfolding enter_def by (rule sup_ok_first_loop)
qed

lemma sup_ok_acquire:
  assumes "sup_ok capacity s" "at_stage i Acquiring s"
  shows "sup_ok capacity (acquire_permit i s)"
proof (cases "0 < permits s")
  case True
  note f = at_stageD [OF assms, simplified]
  let ?r = "(requests s ! i)\<lparr>rq_stage := Permitted\<rparr>"
  have eq: "acquire_permit i s = with_change i ?r (object_of i s) (permits s - 1) (cancelled_log s) s"
    using True by (simp add: acquire_permit_def move_def on_request_def with_change_def object_of_def)
  have "rq_limited (requests s ! i)"
    using sup_ok_request [OF assms(1) f(1)] f(2) by (simp add: request_ok_def)
  then have "change_ok s i ?r (object_of i s) (permits s - 1)"
    using f True sup_ok_request [OF assms(1) f(1)]
    by (simp add: change_ok_def Let_def object_of_def stage_defs request_ok_def)
  then show ?thesis unfolding eq
    by (rule sup_ok_change [OF assms(1)]) (simp add: stage_defs)
qed (use assms in \<open>simp add: acquire_permit_def\<close>)

lemma sup_ok_acquire_superseded:
  assumes "sup_ok capacity s" "at_stage i Acquiring s"
  shows "sup_ok capacity (acquire_superseded i s)"
  using at_stageD [OF assms] sup_ok_leave [OF assms(1)] stale_generation [OF assms(1)] assms(1)
  by (auto simp: acquire_superseded_def)

lemma sup_ok_start:
  assumes "sup_ok capacity s" "at_stage i Permitted s"
  shows "sup_ok capacity (start_worker i s)"
proof -
  note f = at_stageD [OF assms, simplified]
  consider (stale) "\<not> is_latest i s" | (busy) "is_latest i s" "is_active (object_of i s)"
    | (free) "is_latest i s" "\<not> is_active (object_of i s)" by blast
  then show ?thesis
  proof cases
    case stale
    then show ?thesis using stale_generation [OF assms(1) f(1) stale] sup_ok_leave [OF assms(1) f(1)] f
      by (simp add: start_worker_def)
  next
    case busy
    then show ?thesis using assms(1) by (simp add: start_worker_def)
  next
    case free
    let ?r = "(requests s ! i)\<lparr>rq_stage := Running\<rparr>"
    let ?o = "(object_of i s)\<lparr>is_active := True, active_cancel := rq_cancel (requests s ! i)\<rparr>"
    have eq: "start_worker i s = with_change i ?r ?o (permits s) (cancelled_log s) s"
      using free by (simp add: start_worker_def move_def on_request_def on_object_def with_change_def
          object_of_def)
    have "0 \<le> permits s" using assms(1) by (simp add: sup_ok_def counts_ok_def)
    then have "change_ok s i ?r ?o (permits s)"
      using f free sup_ok_request [OF assms(1) f(1)]
      by (simp add: change_ok_def Let_def object_of_def stage_defs request_ok_def)
    then show ?thesis unfolding eq by (rule sup_ok_change [OF assms(1)]) (simp add: stage_defs)
  qed
qed

text \<open>The end of an ownership finds the object active.\<close>

lemma owner_active:
  assumes "sup_ok capacity s" "i < length (requests s)" "owns (requests s ! i)"
  shows "is_active (object_of i s)"
proof -
  have "rq_object (requests s ! i) < length (objects s)"
    using sup_ok_request [OF assms(1,2)] by (simp add: request_ok_def)
  then show ?thesis using active_iff [of capacity s "rq_object (requests s ! i)"] assms nth_mem
    unfolding object_of_def sup_ok_def by blast
qed

lemma clear_active_change:
  "clear_active i s = with_change i (requests s ! i)
     ((object_of i s)\<lparr>is_active := False,
        active_cancel := (if active_cancel (object_of i s) = rq_cancel (requests s ! i) then None
                          else active_cancel (object_of i s))\<rparr>) (permits s) (cancelled_log s) s"
  by (simp add: clear_active_def with_change_def on_object_def object_of_def)

lemma sup_ok_settles:
  assumes "sup_ok capacity s" "at_stage i Running s" "out \<noteq> Superseded"
  shows "sup_ok capacity (worker_settles i out s)"
proof -
  note f = at_stageD [OF assms(1,2), simplified]
  let ?p = "if out = Was_cancelled then Leaving out else Checking out"
  let ?r = "(requests s ! i)\<lparr>rq_stage := ?p\<rparr>"
  let ?o = "(object_of i s)\<lparr>is_active := False,
        active_cancel := (if active_cancel (object_of i s) = rq_cancel (requests s ! i) then None
                          else active_cancel (object_of i s))\<rparr>"
  let ?n = "permits s + of_bool (out = Was_cancelled \<and> rq_limited (requests s ! i))"
  have eq: "worker_settles i out s = with_change i ?r ?o ?n (cancelled_log s) s"
    using f by (simp add: worker_settles_def clear_active_def leave_with_def move_def on_request_def
        on_object_def with_change_def object_of_def Let_def holds_permit_def)
  have act: "is_active (object_of i s)"
    by (rule owner_active [OF assms(1) f(1)]) (simp add: owns_def f)
  have "0 \<le> permits s" using assms(1) by (simp add: sup_ok_def counts_ok_def)
  then have "change_ok s i ?r ?o ?n"
    using f act sup_ok_request [OF assms(1) f(1)] assms(3)
    by (auto simp: change_ok_def Let_def object_of_def stage_defs request_ok_def)
  then show ?thesis unfolding eq by (rule sup_ok_change [OF assms(1)]) (simp add: stage_defs)
qed

lemma sup_ok_defers:
  assumes "sup_ok capacity s" "at_stage i Running s"
  shows "sup_ok capacity (worker_defers i s)"
proof -
  note f = at_stageD [OF assms, simplified]
  let ?r = "(requests s ! i)\<lparr>rq_stage := Leaving Worker_error, rq_background := Bg_running\<rparr>"
  have eq: "worker_defers i s = with_change i ?r (object_of i s) (permits s) (cancelled_log s) s"
    by (simp add: worker_defers_def on_request_def with_change_def object_of_def)
  have "0 \<le> permits s" using assms(1) by (simp add: sup_ok_def counts_ok_def)
  then have "change_ok s i ?r (object_of i s) (permits s)"
    using f sup_ok_request [OF assms(1) f(1)]
    by (simp add: change_ok_def Let_def object_of_def stage_defs request_ok_def)
  then show ?thesis unfolding eq by (rule sup_ok_change [OF assms(1)]) (simp add: stage_defs)
qed

lemma sup_ok_check:
  assumes "sup_ok capacity s" "i < length (requests s)"
    "checking_outcome (rq_stage (requests s ! i)) = Some out"
  shows "sup_ok capacity (check_latest i out s)"
proof -
  have sup_stage: "rq_stage (requests s ! i) = Checking out"
    using assms(3) by (simp add: checking_outcome_def split: sup_stage.splits)
  have "out = Superseded \<Longrightarrow> rq_generation (requests s ! i) < latest_generation (object_of i s)"
    using sup_ok_request [OF assms(1,2)] sup_stage
    by (simp add: request_ok_def was_superseded_def object_of_def)
  then show ?thesis unfolding check_latest_def
    by (intro sup_ok_leave [OF assms(1,2)])
      (use stale_generation [OF assms(1,2)] sup_stage in \<open>auto simp: left_the_loop_def split: if_splits\<close>)
qed

lemma sup_ok_cancel:
  assumes "sup_ok capacity s" "i < length (requests s)" "cancellable (rq_stage (requests s ! i))"
  shows "sup_ok capacity (leave_with i Was_cancelled s)"
  by (rule sup_ok_leave [OF assms(1,2)])
    (use assms(3) in \<open>auto simp: cancellable_def left_the_loop_def split: sup_stage.splits\<close>)

section \<open>Dropping and making state objects\<close>

lemma request_mapped:
  "request_ok s r \<Longrightarrow> live r \<or> owns r \<Longrightarrow> map_of (states s) (rq_key r) = Some (rq_object r)"
  unfolding request_ok_def by blast

lemma request_key: "request_ok s r \<Longrightarrow> map_of (states s) k = Some (rq_object r) \<Longrightarrow> k = rq_key r"
  unfolding request_ok_def by blast

lemma request_ok_frame:
  assumes "request_ok s r" "live r \<or> owns r \<Longrightarrow> map_of (states t) (rq_key r) = Some (rq_object r)"
    "\<And>k x. map_of (states t) k = Some x \<Longrightarrow> map_of (states s) k = Some x" "objects t = objects s"
  shows "request_ok t r"
  using assms unfolding request_ok_def by (metis (no_types, lifting))

lemma drop_state_cases:
  obtains (kept) "drop_state i s = s"
    "references (objects s ! rq_object (requests s ! i)) \<noteq> 0 \<or>
     is_active (objects s ! rq_object (requests s ! i)) \<or>
     map_of (states s) (rq_key (requests s ! i)) \<noteq> Some (rq_object (requests s ! i))"
  | (dropped) "drop_state i s = s\<lparr>states := AList.delete (rq_key (requests s ! i)) (states s)\<rparr>"
    "references (objects s ! rq_object (requests s ! i)) = 0"
    "\<not> is_active (objects s ! rq_object (requests s ! i))"
    "map_of (states s) (rq_key (requests s ! i)) = Some (rq_object (requests s ! i))"
  by (cases "references (objects s ! rq_object (requests s ! i)) = 0 \<and>
     \<not> is_active (objects s ! rq_object (requests s ! i)) \<and>
     map_of (states s) (rq_key (requests s ! i)) = Some (rq_object (requests s ! i))")
    (auto simp: drop_state_def Let_def)

lemma unreferenced:
  assumes "counts_ok capacity s" "x < length (objects s)" "references (objects s ! x) = 0"
    "\<not> is_active (objects s ! x)" "r \<in> set (requests s)" "rq_object r = x"
  shows "\<not> live r" "\<not> owns r"
proof -
  have "count_if (\<lambda>r. rq_object r = x \<and> live r) (requests s) = 0"
    "count_if (\<lambda>r. rq_object r = x \<and> owns r) (requests s) = 0"
    using counts_okD(1) [OF assms(1,2)] assms(3,4) by (simp_all add: object_ok_def)
  then show "\<not> live r" "\<not> owns r" using assms(5,6) by (auto simp: count_if_zero)
qed

lemma states_ok_delete: "states_ok s \<Longrightarrow> states_ok (s\<lparr>states := AList.delete k (states s)\<rparr>)"
  unfolding states_ok_def by (auto simp: dict_simps split: if_splits)

lemma counts_ok_drop:
  assumes ok: "counts_ok capacity s" and i: "i < length (requests s)"
  shows "counts_ok capacity (drop_state i s)"
proof (cases rule: drop_state_cases [of i s])
  case dropped
  let ?r = "requests s ! i"
  let ?t = "s\<lparr>states := AList.delete (rq_key ?r) (states s)\<rparr>"
  have x: "rq_object ?r < length (objects s)"
    using counts_okD(2) [OF ok nth_mem [OF i]] by (simp add: request_ok_def)
  have "request_ok ?t r" if r: "r \<in> set (requests s)" for r
  proof -
    have old: "request_ok s r" by (rule counts_okD(2) [OF ok r])
    show ?thesis
    proof (rule request_ok_frame [OF old])
      assume held: "live r \<or> owns r"
      have "rq_key r \<noteq> rq_key ?r"
      proof
        assume "rq_key r = rq_key ?r"
        then have "rq_object r = rq_object ?r" using request_mapped [OF old held] dropped(4) by simp
        then show False using unreferenced [OF ok x dropped(2,3) r] held by blast
      qed
      then show "map_of (states ?t) (rq_key r) = Some (rq_object r)"
        using request_mapped [OF old held] by (simp add: dict_simps)
    qed (auto simp: dict_simps split: if_splits)
  qed
  moreover have "states_ok ?t" by (rule states_ok_delete [OF counts_okD(3) [OF ok]])
  ultimately show ?thesis using ok dropped(1)
    by (simp add: counts_ok_def object_ok_def)
qed (simp add: ok)

lemma needed_delete [simp]: "needed (s\<lparr>states := d\<rparr>) x = needed s x"
  by (simp add: needed_def)

lemma none_left_over_drop:
  assumes ok: "counts_ok capacity s" and i: "i < length (requests s)"
    and others: "\<And>k x. map_of (states s) k = Some x \<Longrightarrow> x \<noteq> rq_object (requests s ! i) \<Longrightarrow> needed s x"
  shows "none_left_over (drop_state i s)"
proof -
  let ?r = "requests s ! i"
  have r_ok: "request_ok s ?r" by (rule counts_okD(2) [OF ok nth_mem [OF i]])
  then have x: "rq_object ?r < length (objects s)"
    and key: "\<And>k. map_of (states s) k = Some (rq_object ?r) \<Longrightarrow> k = rq_key ?r"
    using request_key [OF r_ok] by (auto simp: request_ok_def)
  show ?thesis
  proof (cases rule: drop_state_cases [of i s])
    case kept
    show ?thesis
      unfolding none_left_over_def kept(1)
    proof (intro allI impI)
      fix k y assume y: "map_of (states s) k = Some y"
      show "needed s y"
      proof (cases "y = rq_object ?r")
        case True
        then have "map_of (states s) (rq_key ?r) = Some (rq_object ?r)" using y key by blast
        then have "references (objects s ! y) \<noteq> 0 \<or> is_active (objects s ! y)"
          using kept(2) True by blast
        then have "count_if (\<lambda>r. rq_object r = y \<and> live r) (requests s) \<noteq> 0 \<or>
            count_if (\<lambda>r. rq_object r = y \<and> owns r) (requests s) \<noteq> 0"
          using counts_okD(1) [OF ok x] True by (auto simp: object_ok_def)
        then show ?thesis by (auto simp: count_if_zero needed_def pending_request_def)
      qed (use others y in blast)
    qed
  next
    case dropped
    show ?thesis
      unfolding none_left_over_def dropped(1)
      using others key by (auto simp: dict_simps split: if_splits)
  qed
qed

lemma sup_ok_change_drop:
  assumes "sup_ok capacity s" "change_ok s i r' o' p"
  shows "sup_ok capacity (drop_state i (with_change i r' o' p lg s))"
proof -
  let ?s = "with_change i r' o' p lg s"
  note c = change_okD [OF assms(2)]
  have ok: "counts_ok capacity ?s" using assms by (simp add: sup_ok_def counts_ok_change)
  have i: "i < length (requests ?s)" using c(1) by (simp add: with_change_def)
  have at: "requests ?s ! i = r'" using c(1) by (simp add: with_change_def)
  have "none_left_over (drop_state i ?s)"
  proof (rule none_left_over_drop [OF ok i])
    fix k x assume k: "map_of (states ?s) k = Some x" and x: "x \<noteq> rq_object (requests ?s ! i)"
    have "needed s x" using k assms(1) by (simp add: sup_ok_def none_left_over_def with_change_def)
    then obtain j where j: "j < length (requests s)" "rq_object (requests s ! j) = x"
      "pending_request (requests s ! j)"
      by (auto simp: needed_def in_set_conv_nth)
    then have "j \<noteq> i" using x at c(3) by auto
    then have "(requests s)[i := r'] ! j = requests s ! j" by simp
    then have "requests s ! j \<in> set ((requests s)[i := r'])"
      using j(1) by (metis length_list_update nth_mem)
    then show "needed ?s x" using j by (auto simp: needed_def with_change_def)
  qed
  then show ?thesis using counts_ok_drop [OF ok i] by (simp add: sup_ok_def)
qed

lemma release_state_change:
  assumes "i < length (requests s)"
  shows "release_state i out s = drop_state i (with_change i
     ((requests s ! i)\<lparr>rq_stage := Finished out\<rparr>)
     ((object_of i s)\<lparr>references := references (object_of i s) - 1\<rparr>) (permits s) (cancelled_log s) s)"
  using assms by (simp add: release_state_def drop_state_def move_def on_request_def on_object_def
      with_change_def object_of_def Let_def)

lemma sup_ok_release:
  assumes "sup_ok capacity s" "i < length (requests s)"
    "leaving_outcome (rq_stage (requests s ! i)) = Some out"
  shows "sup_ok capacity (release_state i out s)"
proof -
  have sup_stage: "rq_stage (requests s ! i) = Leaving out"
    using assms(3) by (simp add: leaving_outcome_def split: sup_stage.splits)
  have "0 \<le> permits s" using assms(1) by (simp add: sup_ok_def counts_ok_def)
  then have "change_ok s i ((requests s ! i)\<lparr>rq_stage := Finished out\<rparr>)
     ((object_of i s)\<lparr>references := references (object_of i s) - 1\<rparr>) (permits s)"
    using sup_stage assms(2) sup_ok_request [OF assms(1,2)]
    by (simp add: change_ok_def Let_def object_of_def stage_defs request_ok_def)
  then show ?thesis unfolding release_state_change [OF assms(2)] by (rule sup_ok_change_drop [OF assms(1)])
qed

lemma background_facts:
  assumes "sup_ok capacity s" "background_is i b s" "b \<noteq> No_background"
  shows "i < length (requests s)" "rq_background (requests s ! i) = b" "left_the_loop (requests s ! i)"
    "rq_stage (requests s ! i) \<noteq> Running"
proof -
  show i: "i < length (requests s)" and b: "rq_background (requests s ! i) = b"
    using assms(2) by (simp_all add: background_is_def)
  show "left_the_loop (requests s ! i)"
    using sup_ok_request [OF assms(1) i] b assms(3) by (auto simp: request_ok_def)
  then show "rq_stage (requests s ! i) \<noteq> Running" by (auto simp: left_the_loop_def)
qed

lemma left_holds:
  "left_the_loop r \<Longrightarrow> holds_permit r \<longleftrightarrow> rq_limited r \<and> rq_background r = Bg_running"
  by (auto simp: left_the_loop_def holds_permit_def split: sup_stage.splits)

lemma background_live [simp]:
  "live (r\<lparr>rq_background := b\<rparr>) = live r" "left_the_loop (r\<lparr>rq_background := b\<rparr>) = left_the_loop r"
  "was_superseded (r\<lparr>rq_background := b\<rparr>) = was_superseded r"
  by (simp_all add: live_def left_the_loop_def was_superseded_def)

text \<open>A change of the background of a request that has left the loop.\<close>

lemma background_change_ok:
  assumes "sup_ok capacity s" "background_is i b s" "b \<noteq> No_background"
    "o' = (object_of i s)\<lparr>is_active := act, active_cancel := c\<rparr>"
    "of_bool act = of_bool (is_active (object_of i s)) - of_bool (b = Bg_running \<or> b = Bg_finished)
      + (of_bool (b' = Bg_running \<or> b' = Bg_finished) :: int)"
    "p = permits s + of_bool (rq_limited (requests s ! i) \<and> b = Bg_running \<and> b' \<noteq> Bg_running)"
    "b' = Bg_running \<or> b' = Bg_finished \<Longrightarrow> b = Bg_running \<or> b = Bg_finished"
    "b' = Bg_running \<Longrightarrow> b = Bg_running"
  shows "change_ok s i ((requests s ! i)\<lparr>rq_background := b'\<rparr>) o' p"
proof -
  let ?r = "requests s ! i"
  note f = background_facts [OF assms(1-3)]
  have ok: "request_ok s ?r" by (rule sup_ok_request [OF assms(1) f(1)])
  have "0 \<le> permits s" using assms(1) by (simp add: sup_ok_def counts_ok_def)
  moreover have "holds_permit ?r \<longleftrightarrow> rq_limited ?r \<and> b = Bg_running"
    using left_holds [OF f(3)] f(2) by simp
  moreover have "holds_permit (?r\<lparr>rq_background := b'\<rparr>) \<longleftrightarrow> rq_limited ?r \<and> b' = Bg_running"
    using left_holds [of "?r\<lparr>rq_background := b'\<rparr>"] f(3) by simp
  moreover have "owns ?r \<longleftrightarrow> b = Bg_running \<or> b = Bg_finished"
    "owns (?r\<lparr>rq_background := b'\<rparr>) \<longleftrightarrow> b' = Bg_running \<or> b' = Bg_finished"
    using f(2,4) by (simp_all add: owns_def)
  ultimately show ?thesis
    using f ok assms(4-8)
    by (auto simp: change_ok_def Let_def object_of_def request_ok_def)
qed

lemma sup_ok_background_done:
  assumes "sup_ok capacity s" "background_is i Bg_running s"
  shows "sup_ok capacity (background_done i s)"
proof -
  let ?p = "permits s + of_bool (rq_limited (requests s ! i))"
  have eq: "background_done i s = with_change i ((requests s ! i)\<lparr>rq_background := Bg_finished\<rparr>)
      (object_of i s) ?p (cancelled_log s) s"
    by (simp add: background_done_def set_background_def on_request_def with_change_def object_of_def
        Let_def)
  have "change_ok s i ((requests s ! i)\<lparr>rq_background := Bg_finished\<rparr>) (object_of i s) ?p"
    by (rule background_change_ok [OF assms, where act = "is_active (object_of i s)"
        and c = "active_cancel (object_of i s)"]) simp_all
  then show ?thesis unfolding eq
    by (rule sup_ok_change [OF assms(1)])
      (use background_facts [OF assms] in \<open>auto simp: pending_request_def owns_def\<close>)
qed

lemma sup_ok_background_clears:
  assumes "sup_ok capacity s" "background_is i Bg_finished s"
  shows "sup_ok capacity (background_clears i s)"
proof -
  note f = background_facts [OF assms, simplified]
  let ?c = "if active_cancel (object_of i s) = rq_cancel (requests s ! i) then None
      else active_cancel (object_of i s)"
  let ?o = "(object_of i s)\<lparr>is_active := False, active_cancel := ?c\<rparr>"
  have eq: "background_clears i s = with_change i ((requests s ! i)\<lparr>rq_background := Bg_cleared\<rparr>)
      ?o (permits s) (cancelled_log s) s"
    by (simp add: background_clears_def set_background_def clear_active_def on_request_def
        on_object_def with_change_def object_of_def)
  have act: "is_active (object_of i s)"
    by (rule owner_active [OF assms(1) f(1)]) (simp add: owns_def f(2))
  have "change_ok s i ((requests s ! i)\<lparr>rq_background := Bg_cleared\<rparr>) ?o (permits s)"
    by (rule background_change_ok [OF assms, where act = False and c = ?c]) (simp_all add: act)
  then show ?thesis unfolding eq
    by (rule sup_ok_change [OF assms(1)]) (simp add: pending_request_def)
qed

lemma background_drops_change:
  assumes "i < length (requests s)"
  shows "background_drops i s = drop_state i (with_change i
     ((requests s ! i)\<lparr>rq_background := Bg_dropped\<rparr>) (object_of i s) (permits s) (cancelled_log s) s)"
  using assms by (simp add: background_drops_def set_background_def drop_state_def on_request_def
      with_change_def object_of_def Let_def)

lemma sup_ok_background_drops:
  assumes "sup_ok capacity s" "background_is i Bg_cleared s"
  shows "sup_ok capacity (background_drops i s)"
proof -
  note f = background_facts [OF assms, simplified]
  have "change_ok s i ((requests s ! i)\<lparr>rq_background := Bg_dropped\<rparr>) (object_of i s) (permits s)"
    by (rule background_change_ok [OF assms, where act = "is_active (object_of i s)"
        and c = "active_cancel (object_of i s)"]) simp_all
  then show ?thesis unfolding background_drops_change [OF f(1)]
    by (rule sup_ok_change_drop [OF assms(1)])
qed

text \<open>A new request: on the object its key maps to, which may have just been made.\<close>

lemma counts_ok_make:
  assumes ok: "counts_ok capacity s" and "map_of (states s) key = None"
  shows "counts_ok capacity (s\<lparr>objects := objects s @ [fresh_object],
     states := AList.update key (length (objects s)) (states s)\<rparr>)" (is "counts_ok capacity ?t")
proof -
  have below: "rq_object r < length (objects s)" if "r \<in> set (requests s)" for r
    using counts_okD(2) [OF ok that] by (simp add: request_ok_def)
  have "object_ok ?t x" if "x < length (objects ?t)" for x
  proof (cases "x < length (objects s)")
    case True
    then show ?thesis using counts_okD(1) [OF ok True] by (simp add: object_ok_def nth_append)
  next
    case False
    then have "x = length (objects s)" using that by simp
    moreover have "count_if (\<lambda>r. rq_object r = length (objects s) \<and> P r) (requests s) = 0" for P
      unfolding count_if_zero by (metis below less_irrefl)
    ultimately show ?thesis by (simp add: object_ok_def fresh_object_def)
  qed
  moreover have "request_ok ?t r" if r: "r \<in> set (requests s)" for r
  proof -
    have old: "request_ok s r" by (rule counts_okD(2) [OF ok r])
    have "map_of (states ?t) (rq_key r) = Some (rq_object r)" if "live r \<or> owns r"
      using request_mapped [OF old that] assms(2) by (auto simp: dict_simps)
    moreover have "k = rq_key r" if "map_of (states ?t) k = Some (rq_object r)" for k
      using that request_key [OF old] below [OF r] by (auto simp: dict_simps split: if_splits)
    moreover have "objects ?t ! rq_object r = objects s ! rq_object r"
      using below [OF r] by (simp add: nth_append)
    ultimately show ?thesis using old below [OF r] unfolding request_ok_def by simp
  qed
  moreover have "states_ok ?t"
  proof -
    have st: "states_ok s" by (rule counts_okD(3) [OF ok])
    then have b: "x < length (objects s)" if "map_of (states s) k = Some x" for k x
      using that by (auto simp: states_ok_def)
    show ?thesis unfolding states_ok_def
    proof (intro conjI allI impI)
      show "wf_dict (states ?t)" using st by (simp add: states_ok_def)
      show "x < length (objects ?t)" if "map_of (states ?t) k = Some x" for k x
        using that b by (auto simp: dict_simps less_Suc_eq split: if_splits)
      show "k = k'" if t: "map_of (states ?t) k = Some x" "map_of (states ?t) k' = Some x" for k k' x
      proof (cases "x = length (objects s)")
        case True
        then have "k = key" "k' = key"
          using t b [of k x] b [of k' x] by (auto simp: dict_simps split: if_splits)
        then show ?thesis by simp
      next
        case False
        then have "map_of (states s) k = Some x" "map_of (states s) k' = Some x"
          using t by (auto simp: dict_simps split: if_splits)
        then show ?thesis using st unfolding states_ok_def by blast
      qed
    qed
  qed
  ultimately show ?thesis using counts_okD(4,5) [OF ok] by (simp add: counts_ok_def)
qed

lemma counts_ok_join:
  assumes ok: "counts_ok capacity s" and x: "map_of (states s) key = Some x"
    and r: "rq_key r = key" "rq_object r = x" "rq_stage r = Entering" "rq_background r = No_background"
      "rq_generation r = 0"
  shows "counts_ok capacity (s\<lparr>requests := requests s @ [r],
     objects := (objects s)[x := (objects s ! x)\<lparr>references := references (objects s ! x) + 1\<rparr>]\<rparr>)"
    (is "counts_ok capacity ?t")
proof -
  have st: "states_ok s" by (rule counts_okD(3) [OF ok])
  then have below: "x < length (objects s)" using x by (auto simp: states_ok_def)
  have keys: "k = key" if "map_of (states s) k = Some x" for k
    using st x that unfolding states_ok_def by blast
  have new: "live r" "\<not> owns r" "\<not> holds_permit r" "\<not> was_superseded r"
    using r by (simp_all add: stage_defs)
  have gen: "latest_generation (objects ?t ! y) = latest_generation (objects s ! y)" for y
    using below by (cases "y = x") simp_all
  have "object_ok ?t y" if "y < length (objects ?t)" for y
    using counts_okD(1) [OF ok, of y] that below new r(2)
    by (cases "y = x") (simp_all add: object_ok_def)
  moreover have "request_ok ?t q" if q: "q \<in> set (requests s)" for q
    using counts_okD(2) [OF ok q] unfolding request_ok_def gen by simp
  moreover have "request_ok ?t r"
  proof -
    have "\<forall>k. map_of (states ?t) k = Some (rq_object r) \<longrightarrow> k = rq_key r"
    proof (intro allI impI)
      fix k assume "map_of (states ?t) k = Some (rq_object r)"
      then have "map_of (states s) k = Some x" by (simp add: r)
      then show "k = rq_key r" using keys r(1) by blast
    qed
    moreover have "map_of (states ?t) (rq_key r) = Some (rq_object r)" using r x by simp
    moreover have "rq_object r < length (objects ?t)" using r(2) below by simp
    moreover have "rq_stage r \<noteq> Acquiring" by (simp add: r(3))
    ultimately show ?thesis
      using r(4,5) new unfolding request_ok_def gen by (metis le0)
  qed
  moreover have "states_ok ?t" using st by (simp add: states_ok_def)
  ultimately show ?thesis using counts_okD(4,5) [OF ok] new by (simp add: counts_ok_def)
qed

lemma none_left_over_join:
  assumes "\<And>k y. map_of (states s) k = Some y \<Longrightarrow> y \<noteq> x \<Longrightarrow> needed s y"
    "rq_object r = x" "rq_stage r = Entering"
  shows "none_left_over (s\<lparr>requests := requests s @ [r], objects := obs\<rparr>)"
  unfolding none_left_over_def
proof (intro allI impI)
  fix k y assume "map_of (states (s\<lparr>requests := requests s @ [r], objects := obs\<rparr>)) k = Some y"
  then have "y = x \<or> needed s y" using assms(1) by auto
  then show "needed (s\<lparr>requests := requests s @ [r], objects := obs\<rparr>) y"
    using assms(2,3) by (auto simp: needed_def pending_request_def live_def)
qed

lemma sup_ok_arrive:
  assumes "sup_ok capacity s"
  shows "sup_ok capacity (arrive key limited cancel s)"
proof (cases "map_of (states s) key")
  case (Some x)
  let ?r = "\<lparr>rq_key = key, rq_object = x, rq_stage = Entering, rq_generation = 0,
      rq_limited = limited, rq_cancel = cancel, rq_background = No_background\<rparr>"
  have eq: "arrive key limited cancel s = s\<lparr>requests := requests s @ [?r],
     objects := (objects s)[x := (objects s ! x)\<lparr>references := references (objects s ! x) + 1\<rparr>]\<rparr>"
    using Some by (simp add: arrive_def retain_state_def on_object_def)
  show ?thesis unfolding eq sup_ok_def
    using assms counts_ok_join [OF _ Some, of capacity ?r]
      none_left_over_join [of s x ?r]
    by (simp add: sup_ok_def none_left_over_def)
next
  case None
  let ?x = "length (objects s)"
  let ?t = "s\<lparr>objects := objects s @ [fresh_object], states := AList.update key ?x (states s)\<rparr>"
  let ?r = "\<lparr>rq_key = key, rq_object = ?x, rq_stage = Entering, rq_generation = 0,
      rq_limited = limited, rq_cancel = cancel, rq_background = No_background\<rparr>"
  have eq: "arrive key limited cancel s = ?t\<lparr>requests := requests ?t @ [?r],
     objects := (objects ?t)[?x := (objects ?t ! ?x)\<lparr>references := references (objects ?t ! ?x) + 1\<rparr>]\<rparr>"
    using None by (simp add: arrive_def retain_state_def on_object_def)
  have ok: "counts_ok capacity ?t"
    using assms by (intro counts_ok_make [OF _ None]) (simp add: sup_ok_def)
  have mapped: "map_of (states ?t) key = Some ?x" by (simp add: dict_simps)
  have needed: "needed ?t y" if "map_of (states ?t) k = Some y" "y \<noteq> ?x" for k y
    using that assms by (auto simp: sup_ok_def none_left_over_def needed_def dict_simps split: if_splits)
  show ?thesis unfolding eq sup_ok_def
    using counts_ok_join [OF ok mapped, of ?r] none_left_over_join [OF needed, where r = ?r]
    by simp
qed

section \<open>The coordinator\<close>

lemma sup_ok_step:
  assumes "sup_ok capacity s"
  shows "sup_ok capacity (sup_step e s)"
  using assms
  by (cases e) (auto simp: sup_step_def sup_ok_arrive sup_ok_enter sup_ok_first_loop sup_ok_acquire
      sup_ok_acquire_superseded sup_ok_start sup_ok_settles sup_ok_defers sup_ok_check sup_ok_release
      sup_ok_cancel sup_ok_background_done sup_ok_background_clears sup_ok_background_drops
      split: option.split)

lemma sup_ok_new: "sup_ok capacity (new_coordinator capacity)"
  by (simp add: sup_ok_def counts_ok_def states_ok_def none_left_over_def new_coordinator_def
      count_if_def)

interpretation supersession: invariant_system "sup_ok capacity" sup_step for capacity
  by unfold_locales (rule sup_ok_step)

lemma sup_reachable_ok: "sup_reachable capacity s \<Longrightarrow> sup_ok capacity s"
  using supersession.run_inv [OF sup_ok_new] by (auto simp: sup_reachable_def)

lemma one_owner_per_key:
  assumes "sup_ok capacity s" "i < length (requests s)" "j < length (requests s)"
    "rq_key (requests s ! i) = rq_key (requests s ! j)" "owns (requests s ! i)" "owns (requests s ! j)"
  shows "i = j"
proof -
  have ri: "request_ok s (requests s ! i)" and rj: "request_ok s (requests s ! j)"
    using sup_ok_request [OF assms(1)] assms(2,3) by blast+
  define x where "x = rq_object (requests s ! i)"
  have j: "rq_object (requests s ! j) = x"
    using request_mapped [OF ri] request_mapped [OF rj] assms(4-6) by (simp add: x_def)
  have "x < length (objects s)" using ri by (simp add: x_def request_ok_def)
  then have "object_ok s x" using assms(1) by (simp add: sup_ok_def counts_ok_def)
  then have "count_if (\<lambda>r. rq_object r = x \<and> owns r) (requests s) = of_bool (is_active (objects s ! x))"
    by (simp add: object_ok_def)
  then have "count_if (\<lambda>r. rq_object r = x \<and> owns r) (requests s) \<le> 1" by simp
  then show ?thesis
    by (rule count_if_one [OF _ assms(2,3)]) (simp_all add: x_def [symmetric] j assms(5,6))
qed

text \<open>Only the last check of a request can make its worker's value the answer.\<close>

definition delivers :: "nat \<Rightarrow> ('k, 'c) coordinator \<Rightarrow> bool" where
  "delivers i s \<longleftrightarrow> at_stage i (Leaving Value) s"

lemma delivers_cong: "requests t = requests s \<Longrightarrow> delivers i t = delivers i s"
  by (simp add: delivers_def at_stage_def)

lemma delivers_on_request:
  assumes "\<And>r. rq_stage (f r) = Leaving Value \<Longrightarrow> rq_stage r = Leaving Value" "delivers i (on_request j f s)"
  shows "delivers i s"
  using assms by (cases "i = j") (auto simp: delivers_def at_stage_def on_request_def)

lemma delivers_leave: "delivers i (leave_with j out s) \<Longrightarrow> delivers i s \<or> (i = j \<and> out = Value)"
  by (cases "i = j") (auto simp: leave_with_def delivers_def at_stage_def move_def on_request_def Let_def
      split: if_splits)

lemma delivers_move: "p \<noteq> Leaving Value \<Longrightarrow> delivers i (move j p s) \<Longrightarrow> delivers i s"
  unfolding move_def by (erule delivers_on_request [rotated]) simp

lemma requests_simps [simp]:
  "requests (on_object x f s) = requests s" "requests (drop_state j s) = requests s"
  "requests (cancel_running j s) = requests s" "requests (clear_active j s) = requests s"
  by (auto simp: on_object_def drop_state_def cancel_running_def clear_active_def Let_def
      split: bool.split option.split)

lemma delivers_first_loop: "delivers i (first_loop j s) \<Longrightarrow> delivers i s"
  using delivers_leave [of i j Superseded s] delivers_move [of _ i j s]
  by (auto simp: first_loop_def split: if_splits)

lemma delivers_take: "delivers i (take_generation j s) \<Longrightarrow> delivers i s"
proof -
  assume d: "delivers i (take_generation j s)"
  have "delivers i (on_object (rq_object (requests s ! j)) (\<lambda>o'. o'\<lparr>latest_generation :=
      latest_generation (objects s ! rq_object (requests s ! j)) + 1\<rparr>) s)"
    using d unfolding take_generation_def Let_def by (rule delivers_on_request [rotated]) simp
  then show "delivers i s" by (simp add: delivers_def at_stage_def)
qed

lemma requests_arrive: "\<exists>r. requests (arrive key limited cancel s) = requests s @ [r] \<and> rq_stage r = Entering"
  by (auto simp: arrive_def retain_state_def Let_def split: option.split)

lemma delivers_arrive:
  assumes "delivers i (arrive key limited cancel s)"
  shows "delivers i s"
proof -
  obtain r where "requests (arrive key limited cancel s) = requests s @ [r]" "rq_stage r = Entering"
    using requests_arrive [of key limited cancel s] by blast
  then show ?thesis using assms
    by (cases "i < length (requests s)") (auto simp: delivers_def at_stage_def nth_append less_Suc_eq)
qed

lemma delivers_check:
  "delivers i (check_latest j out s) \<Longrightarrow> delivers i s \<or> (i = j \<and> is_latest i s)"
  using delivers_leave [of i j "if is_latest j s then out else Superseded" s]
  by (auto simp: check_latest_def split: if_splits)

lemma delivers_start: "delivers i (start_worker j s) \<Longrightarrow> delivers i s"
proof -
  assume d: "delivers i (start_worker j s)"
  let ?t = "on_object (rq_object (requests s ! j))
        (\<lambda>o'. o'\<lparr>is_active := True, active_cancel := rq_cancel (requests s ! j)\<rparr>) s"
  consider "start_worker j s = leave_with j Superseded s" | "start_worker j s = s"
    | "start_worker j s = move j Running ?t"
    unfolding start_worker_def by presburger
  then show "delivers i s"
  proof cases
    case 1
    then show ?thesis using d delivers_leave [of i j Superseded s] by simp
  next
    case 2
    then show ?thesis using d by simp
  next
    case 3
    then have "delivers i ?t" using d delivers_move [of Running i j ?t] by simp
    then show ?thesis by (simp add: delivers_def at_stage_def)
  qed
qed

lemma delivers_release: "delivers i (release_state j out s) \<Longrightarrow> delivers i s"
proof -
  assume "delivers i (release_state j out s)"
  then have "delivers i (drop_state j (on_object (rq_object (requests s ! j))
       (\<lambda>o'. o'\<lparr>references := references o' - 1\<rparr>) s))"
    unfolding release_state_def by (rule delivers_move [rotated]) simp
  then show "delivers i s" by (simp add: delivers_def at_stage_def)
qed

lemma delivers_set_background: "delivers i (set_background j b t) = delivers i t"
  by (cases "i = j") (auto simp: set_background_def on_request_def delivers_def at_stage_def)

lemma delivers_same: "delivers i (clear_active j s) = delivers i s" "delivers i (drop_state j s) = delivers i s"
  "delivers i (s\<lparr>permits := n\<rparr>) = delivers i s"
  by (simp_all add: delivers_def at_stage_def)

lemma delivers_background:
  "delivers i (background_done j s) = delivers i s" "delivers i (background_clears j s) = delivers i s"
  "delivers i (background_drops j s) = delivers i s"
  by (simp_all add: background_done_def background_clears_def background_drops_def
      delivers_set_background delivers_same Let_def)

lemma delivers_step:
  assumes "delivers i (sup_step e s)"
  shows "delivers i s \<or> is_latest i s"
proof (cases e)
  case (Arrive key limited cancel)
  then have "delivers i (arrive key limited cancel s)" using assms by (simp add: sup_step_def)
  then have "delivers i s" by (rule delivers_arrive)
  then show ?thesis by simp
next
  case (Enter j)
  show ?thesis
  proof (cases "at_stage j Entering s")
    case True
    then have "delivers i (first_loop j (cancel_running j (take_generation j s)))"
      using assms Enter by (simp add: sup_step_def enter_def)
    then have "delivers i (cancel_running j (take_generation j s))" by (rule delivers_first_loop)
    then have "delivers i (take_generation j s)" by (simp add: delivers_def at_stage_def)
    then have "delivers i s" by (rule delivers_take)
    then show ?thesis by simp
  qed (use assms Enter in \<open>auto simp: sup_step_def\<close>)
next
  case (Wake j)
  then show ?thesis using assms delivers_first_loop [of i j s]
    by (auto simp: sup_step_def split: if_splits)
next
  case (Acquire j)
  then show ?thesis using assms delivers_move [of Permitted i j "s\<lparr>permits := permits s - 1\<rparr>"]
      delivers_cong [of "s\<lparr>permits := permits s - 1\<rparr>" s i]
    by (auto simp: sup_step_def acquire_permit_def split: if_splits)
next
  case (Acquire_superseded j)
  then show ?thesis using assms delivers_leave [of i j Superseded s]
    by (auto simp: sup_step_def acquire_superseded_def split: if_splits)
next
  case (Start j)
  then show ?thesis using assms delivers_start [of i j s] by (auto simp: sup_step_def split: if_splits)
next
  case (Settle j out)
  show ?thesis
  proof (cases "at_stage j Running s \<and> out \<noteq> Superseded")
    case True
    then have "delivers i (worker_settles j out s)" using assms Settle by (simp add: sup_step_def)
    then have "delivers i (clear_active j s)"
      using delivers_leave [of i j Was_cancelled "clear_active j s"]
        delivers_move [of "Checking out" i j "clear_active j s"]
      by (auto simp: worker_settles_def split: if_splits)
    then show ?thesis by (simp add: delivers_def at_stage_def)
  qed (use assms Settle in \<open>auto simp: sup_step_def\<close>)
next
  case (Defer j)
  then show ?thesis using assms
      delivers_on_request [of "\<lambda>r. r\<lparr>rq_stage := Leaving Worker_error, rq_background := Bg_running\<rparr>" i j s]
    by (auto simp: sup_step_def worker_defers_def split: if_splits)
next
  case (Check j)
  then show ?thesis using assms delivers_check [of i j _ s]
    by (auto simp: sup_step_def split: if_splits option.splits)
next
  case (Release j)
  then show ?thesis using assms delivers_release [of i j _ s]
    by (auto simp: sup_step_def split: if_splits option.splits)
next
  case (Cancel j)
  then show ?thesis using assms delivers_leave [of i j Was_cancelled s]
    by (auto simp: sup_step_def split: if_splits)
next
  case (Background_done j)
  then show ?thesis using assms by (auto simp: sup_step_def delivers_background split: if_splits)
next
  case (Background_clears j)
  then show ?thesis using assms by (auto simp: sup_step_def delivers_background split: if_splits)
next
  case (Background_drops j)
  then show ?thesis using assms by (auto simp: sup_step_def delivers_background split: if_splits)
qed

text \<open>
  C25: In every interleaving of arrivals, wake-ups, limiter grants, workers that return, fail, are
  cancelled or leave a background task, and cancellations: at most one request of a key has its
  worker, or the background task its worker left, running; no more requests hold a permit than
  the limiter has; a request is answered as superseded only after a newer one took a generation;
  and an answer becomes the worker's value only while the request is the latest of its key.
\<close>

theorem sup_one_worker_per_key:
  assumes "sup_reachable capacity s"
  shows "(\<forall>i j. i < length (requests s) \<longrightarrow> j < length (requests s) \<longrightarrow>
      rq_key (requests s ! i) = rq_key (requests s ! j) \<longrightarrow> owns (requests s ! i) \<longrightarrow>
      owns (requests s ! j) \<longrightarrow> i = j) \<and>
    count_if holds_permit (requests s) \<le> int capacity \<and>
    (\<forall>i. i < length (requests s) \<longrightarrow> was_superseded (requests s ! i) \<longrightarrow>
      rq_generation (requests s ! i) < latest_generation (object_of i s)) \<and>
    (\<forall>i e. delivers i (sup_step e s) \<longrightarrow> delivers i s \<or> is_latest i s)"
proof -
  have ok: "sup_ok capacity s" by (rule sup_reachable_ok [OF assms])
  have "count_if holds_permit (requests s) \<le> int capacity"
    using ok by (simp add: sup_ok_def counts_ok_def)
  moreover have "rq_generation (requests s ! i) < latest_generation (object_of i s)"
    if "i < length (requests s)" "was_superseded (requests s ! i)" for i
    using sup_ok_request [OF ok that(1)] that(2) by (simp add: request_ok_def object_of_def)
  ultimately show ?thesis using one_owner_per_key [OF ok] delivers_step by blast
qed

text \<open>
  C26: Nothing leaks. The reference count of a state object is the number of requests on it that
  have not finished, its active flag says whether one of them has a worker or a background task
  running, and the permits taken are those of the requests that hold one. Once every request has
  finished and every background task has been cleaned up, no state is kept for any key and every
  permit is back.
\<close>

theorem sup_nothing_leaks:
  assumes "sup_reachable capacity s"
  shows "(\<forall>x < length (objects s).
      references (objects s ! x) = count_if (\<lambda>r. rq_object r = x \<and> live r) (requests s) \<and>
      is_active (objects s ! x) = (\<exists>r \<in> set (requests s). rq_object r = x \<and> owns r)) \<and>
    permits s = int capacity - count_if holds_permit (requests s) \<and>
    ((\<forall>r \<in> set (requests s). \<not> pending_request r) \<longrightarrow> states s = [] \<and> permits s = int capacity)"
proof -
  have ok: "sup_ok capacity s" by (rule sup_reachable_ok [OF assms])
  then have c: "counts_ok capacity s" by (simp add: sup_ok_def)
  have idle: "states s = [] \<and> permits s = int capacity" if "\<forall>r \<in> set (requests s). \<not> pending_request r"
  proof
    have "map_of (states s) k = None" for k
      using ok that by (cases "map_of (states s) k") (auto simp: sup_ok_def none_left_over_def needed_def)
    then have "set (keys (states s)) = {}" by (simp add: map_of_None_keys set_eq_iff)
    then show "states s = []" by (cases "states s") auto
    have "\<not> holds_permit r" if "r \<in> set (requests s)" for r
    proof -
      have "request_ok s r" by (rule counts_okD(2) [OF c that])
      moreover have "\<not> pending_request r" using \<open>\<forall>r \<in> set (requests s). \<not> pending_request r\<close> that by blast
      ultimately show ?thesis by (auto simp: stage_defs split: sup_stage.splits)
    qed
    then have "count_if holds_permit (requests s) = 0" by (simp add: count_if_zero)
    then show "permits s = int capacity" using counts_okD(4) [OF c] by simp
  qed
  have "references (objects s ! x) = count_if (\<lambda>r. rq_object r = x \<and> live r) (requests s)"
    if "x < length (objects s)" for x
    using counts_okD(1) [OF c that] by (simp add: object_ok_def)
  then show ?thesis using idle active_iff [OF c] counts_okD(4) [OF c] by blast
qed

section \<open>A run\<close>

text \<open>
  A second request replaces a running one, whose worker is told to stop; the first is answered as
  superseded and the second with its worker's value.
\<close>

definition sample_events :: "(string, nat) sup_event list" where
  "sample_events = [Arrive ''g'' True (Some 7), Enter 0, Acquire 0, Start 0, Arrive ''g'' True None,
     Enter 1, Settle 0 Value, Check 0, Release 0, Wake 1, Acquire 1, Start 1, Settle 1 Value, Check 1]"

definition sample_run :: "(string, nat) coordinator" where
  "sample_run = fold sup_step sample_events (new_coordinator 1)"

lemma sample_run_reachable: "sup_reachable 1 sample_run"
  unfolding sup_reachable_def sample_run_def by blast

theorem sup_one_worker_per_key_witness:
  "was_superseded (requests sample_run ! 0) \<and> cancelled_log sample_run = [7] \<and>
   rq_generation (requests sample_run ! 0) < latest_generation (object_of 0 sample_run) \<and>
   at_stage 1 (Leaving Value) sample_run"
proof -
  have c: "0 < length (requests sample_run) \<and> was_superseded (requests sample_run ! 0) \<and>
      cancelled_log sample_run = [7] \<and> at_stage 1 (Leaving Value) sample_run"
    by code_simp
  then show ?thesis using sup_one_worker_per_key [OF sample_run_reachable] by blast
qed

definition sample_finished :: "(string, nat) coordinator" where
  "sample_finished = sup_step (Release 1) sample_run"

theorem sup_nothing_leaks_witness: "states sample_finished = [] \<and> permits sample_finished = int 1"
proof -
  have r: "sup_reachable 1 sample_finished"
    unfolding sup_reachable_def sample_finished_def sample_run_def
    by (rule exI [of _ "sample_events @ [Release 1]"]) simp
  have "list_all (\<lambda>r. \<not> pending_request r) (requests sample_finished)" by code_simp
  then have "\<forall>r \<in> set (requests sample_finished). \<not> pending_request r" by (simp add: list_all_iff)
  then show ?thesis using sup_nothing_leaks [OF r] by blast
qed

end
