(* ===== verification/Splits.thy ===== *)
theory Splits
  imports Floats
begin

text \<open>
  The train, validation and holdout masks of \<open>haute/modelling/_split.py\<close>.

  Sizes are doubles and their arithmetic rounds as Python's does. A frame is what the masks read
  of it: whether the column exists and the column's values. The random generator's permutation,
  the hash of a group, the reading of a value as a date and the two renderings of a group value
  (Python's \<open>str\<close> and the frame library's cast to text) are parameters. A raise is a constructor; a
  date text that cannot be parsed, on which Polars raises, is read as a missing date.
  The lemmas say which rows each mask selects and what each strategy promises about them.
\<close>

definition partition_train :: int where "partition_train = 0"

definition partition_validation :: int where "partition_validation = 1"

definition partition_holdout :: int where "partition_holdout = 2"

lemmas partition_defs = partition_train_def partition_validation_def partition_holdout_def

record split_config =
  split_strategy :: string
  validation_size :: rat
  holdout_size :: rat
  split_seed :: int
  date_column :: "string option"
  cutoff_date :: "string option"
  group_column :: "string option"

datatype split_error =
    Validation_size_out_of_range
  | Holdout_size_out_of_range
  | Sizes_reach_one
  | Date_column_required
  | Cutoff_date_required
  | Group_column_required
  | Empty_frame
  | Row_order_not_needed
  | Row_order_needed
  | Row_order_length nat nat
  | Frame_required
  | Column_not_found string
  | Null_dates string nat nat
  | Unknown_strategy string

definition text_unset :: "string option \<Rightarrow> bool" where
  "text_unset x \<longleftrightarrow> x = None \<or> x = Some []"

definition check_split_config :: "split_config \<Rightarrow> split_error + unit" where
  "check_split_config c = run_checks
     [refuse_if (\<not> (0 \<le> validation_size c \<and> validation_size c < 1)) Validation_size_out_of_range,
      refuse_if (\<not> (0 \<le> holdout_size c \<and> holdout_size c < 1)) Holdout_size_out_of_range,
      refuse_if (float_add (validation_size c) (holdout_size c) \<ge> 1) Sizes_reach_one,
      refuse_if (split_strategy c = ''temporal'' \<and> text_unset (date_column c)) Date_column_required,
      refuse_if (split_strategy c = ''temporal'' \<and> text_unset (cutoff_date c)) Cutoff_date_required,
      refuse_if (split_strategy c = ''group'' \<and> text_unset (group_column c)) Group_column_required]"

definition needs_row_order :: "split_config \<Rightarrow> bool" where
  "needs_row_order c \<longleftrightarrow> split_strategy c = ''random'' \<or>
     (split_strategy c = ''temporal'' \<and> holdout_size c > 0)"

section \<open>Masks\<close>

text \<open>\<open>partition[indices] = label\<close>, and the slice \<open>xs[a:b]\<close>, whose negative bounds count from the end.\<close>

definition assign_label :: "nat list \<Rightarrow> int \<Rightarrow> int list \<Rightarrow> int list" where
  "assign_label indices label m = fold (\<lambda>i xs. xs[i := label]) indices m"

definition slice_bound :: "nat \<Rightarrow> int \<Rightarrow> nat" where
  "slice_bound len a = (if a < 0 then nat (int len + a) else min (nat a) len)"

definition py_slice :: "int \<Rightarrow> int \<Rightarrow> 'a list \<Rightarrow> 'a list" where
  "py_slice a b xs = drop (slice_bound (length xs) a) (take (slice_bound (length xs) b) xs)"

definition py_slice_from :: "int \<Rightarrow> 'a list \<Rightarrow> 'a list" where
  "py_slice_from a xs = drop (slice_bound (length xs) a) xs"

text \<open>\<open>labels[row_order] = canonical\<close>, one assignment after the other.\<close>

definition in_source_order :: "int list \<Rightarrow> nat list \<Rightarrow> int list" where
  "in_source_order canonical row_order =
     fold (\<lambda>(i, label) m. m[i := label]) (zip row_order canonical)
       (replicate (length canonical) partition_train)"

definition random_mask :: "nat list \<Rightarrow> nat \<Rightarrow> rat \<Rightarrow> rat \<Rightarrow> int list" where
  "random_mask indices n_rows validation holdout =
     (let n_holdout = int_of_float (float_mult (of_nat n_rows) holdout);
          n_validation = int_of_float (float_mult (of_nat n_rows) validation);
          m0 = replicate n_rows partition_train;
          m1 = (if n_holdout > 0
                then assign_label (py_slice_from (- n_holdout) indices) partition_holdout m0 else m0)
      in if n_validation > 0
         then assign_label (py_slice (int n_rows - n_holdout - n_validation) (int n_rows - n_holdout)
                indices) partition_validation m1
         else m1)"

text \<open>The rows from the cutoff on are sorted by date, stably, and the share of the holdout taken from the end.\<close>

definition hold_out_recent :: "rat \<Rightarrow> rat \<Rightarrow> int list \<Rightarrow> nat list \<Rightarrow> int list \<Rightarrow> int list" where
  "hold_out_recent validation holdout dates non_train m =
     (if holdout > 0 \<and> non_train \<noteq> []
      then let total = float_add validation holdout;
               frac = (if total > 0 then float_divide holdout total else 1);
               sorted_non_train = sort_key (\<lambda>i. dates ! i) non_train;
               n_holdout = int_of_float (float_mult (of_nat (length sorted_non_train)) frac)
           in if n_holdout > 0
              then assign_label (py_slice_from (- n_holdout) sorted_non_train) partition_holdout m
              else m
      else m)"

definition temporal_labels :: "int list \<Rightarrow> int \<Rightarrow> rat \<Rightarrow> rat \<Rightarrow> int list" where
  "temporal_labels dates cutoff validation holdout =
     (let m0 = map (\<lambda>d. if d < cutoff then partition_train else partition_validation) dates;
          non_train = filter (\<lambda>i. \<not> dates ! i < cutoff) [0..<length dates];
          m1 = hold_out_recent validation holdout dates non_train m0
      in if validation = 0
         then map (\<lambda>l. if l = partition_validation then partition_train else l) m1
         else m1)"

definition temporal_mask :: "string \<Rightarrow> int option list option \<Rightarrow> int \<Rightarrow> rat \<Rightarrow> rat \<Rightarrow>
    split_error + int list" where
  "temporal_mask date_col column cutoff validation holdout =
     (case column of
        None \<Rightarrow> Inl (Column_not_found date_col)
      | Some values \<Rightarrow>
          let nulls = length (filter (\<lambda>v. v = None) values)
          in if nulls > 0 then Inl (Null_dates date_col nulls (length values))
             else Inr (temporal_labels (map the values) cutoff validation holdout))"

section \<open>Groups\<close>

definition group_label :: "(string \<Rightarrow> rat) \<Rightarrow> rat \<Rightarrow> rat \<Rightarrow> string \<Rightarrow> int" where
  "group_label hash_fraction validation holdout g =
     (let frac = hash_fraction g; total = float_add validation holdout
      in if holdout > 0 \<and> frac < holdout then partition_holdout
         else if total > 0 \<and> frac < total then partition_validation
         else partition_train)"

fun assign_groups :: "(string \<Rightarrow> int) \<Rightarrow> string list \<Rightarrow> (string, int) odict \<Rightarrow> (string, int) odict" where
  "assign_groups f [] d = d"
| "assign_groups f (g # gs) d = assign_groups f gs (AList.update g (f g) d)"

fun first_train_to_validation :: "string list \<Rightarrow> (string, int) odict \<Rightarrow> (string, int) odict" where
  "first_train_to_validation [] d = d"
| "first_train_to_validation (g # gs) d =
     (if map_of d g = Some partition_train then AList.update g partition_validation d
      else first_train_to_validation gs d)"

definition group_partition :: "(string \<Rightarrow> rat) \<Rightarrow> rat \<Rightarrow> rat \<Rightarrow> string list \<Rightarrow> (string, int) odict" where
  "group_partition hash_fraction validation holdout unique_groups =
     (let d = assign_groups (group_label hash_fraction validation holdout) unique_groups [];
          no_validation = (partition_validation \<notin> set (map snd d))
      in if validation > 0 \<and> no_validation \<and> length unique_groups > 1
         then first_train_to_validation unique_groups d else d)"

definition group_mask :: "(string \<Rightarrow> rat) \<Rightarrow> ('v \<Rightarrow> string) \<Rightarrow> ('v \<Rightarrow> string) \<Rightarrow> string \<Rightarrow>
    'v list option \<Rightarrow> rat \<Rightarrow> rat \<Rightarrow> split_error + int list" where
  "group_mask hash_fraction py_str as_text group_col column validation holdout =
     (case column of
        None \<Rightarrow> Inl (Column_not_found group_col)
      | Some values \<Rightarrow>
          let d = group_partition hash_fraction validation holdout
                    (sort (map py_str (remdups values)))
          in Inr (map (\<lambda>v. case map_of d (as_text v) of None \<Rightarrow> partition_train | Some l \<Rightarrow> l) values))"

section \<open>The split\<close>

record 'v split_frame =
  frame_column :: "string \<Rightarrow> 'v list option"

record 'v split_env =
  permutation :: "int \<Rightarrow> nat \<Rightarrow> nat list"
  hash_fraction_of :: "int \<Rightarrow> string \<Rightarrow> rat"
  py_str_of :: "'v \<Rightarrow> string"
  as_text_of :: "'v \<Rightarrow> string"
  to_date :: "'v \<Rightarrow> int option"
  cutoff_day :: "string \<Rightarrow> int"

definition check_row_order :: "nat \<Rightarrow> split_config \<Rightarrow> nat list option \<Rightarrow> split_error + unit" where
  "check_row_order n_rows c row_order =
     (if \<not> needs_row_order c then refuse_if (row_order \<noteq> None) Row_order_not_needed
      else case row_order of
        None \<Rightarrow> Inl Row_order_needed
      | Some order \<Rightarrow> refuse_if (length order \<noteq> n_rows) (Row_order_length (length order) n_rows))"

definition temporal_split :: "'v split_env \<Rightarrow> split_config \<Rightarrow> 'v split_frame \<Rightarrow> string \<Rightarrow> string \<Rightarrow>
    nat list option \<Rightarrow> split_error + int list" where
  "temporal_split env c df date_col cutoff row_order =
     (let dates = map_option (map (to_date env)) (frame_column df date_col);
          of_dates = (\<lambda>column. temporal_mask date_col column (cutoff_day env cutoff) (validation_size c)
                    (holdout_size c))
      in case row_order of
        None \<Rightarrow> of_dates dates
      | Some order \<Rightarrow>
          bind_result (of_dates (map_option (\<lambda>ds. map (\<lambda>i. ds ! i) order) dates))
            (\<lambda>canonical. Inr (in_source_order canonical order)))"

definition split_mask :: "'v split_env \<Rightarrow> nat \<Rightarrow> split_config \<Rightarrow> 'v split_frame option \<Rightarrow>
    nat list option \<Rightarrow> split_error + int list" where
  "split_mask env n_rows c df row_order =
     (if n_rows = 0 then Inl Empty_frame
      else bind_result (check_row_order n_rows c row_order) (\<lambda>_.
        if split_strategy c = ''random''
        then Inr (in_source_order (random_mask (permutation env (split_seed c) n_rows) n_rows
               (validation_size c) (holdout_size c)) (the row_order))
        else if split_strategy c = ''temporal''
        then (case (df, date_column c, cutoff_date c) of
                (Some frame, Some date_col, Some cutoff) \<Rightarrow>
                  temporal_split env c frame date_col cutoff row_order
              | _ \<Rightarrow> Inl Frame_required)
        else if split_strategy c = ''group''
        then (case (df, group_column c) of
                (Some frame, Some group_col) \<Rightarrow>
                  group_mask (hash_fraction_of env (split_seed c)) (py_str_of env) (as_text_of env)
                    group_col (frame_column frame group_col) (validation_size c) (holdout_size c)
              | _ \<Rightarrow> Inl Frame_required)
        else Inl (Unknown_strategy (split_strategy c))))"

section \<open>Which rows a mask selects\<close>

definition is_order :: "nat \<Rightarrow> nat list \<Rightarrow> bool" where
  "is_order n order \<longleftrightarrow> distinct order \<and> set order = {..<n}"

lemma is_order_length: "is_order n order \<Longrightarrow> length order = n"
  by (metis is_order_def card_lessThan distinct_card)

lemma is_order_nth: "is_order n order \<Longrightarrow> i < n \<Longrightarrow> order ! i < n"
  by (metis is_order_def is_order_length lessThan_iff nth_mem)

lemma is_order_obtain:
  assumes "is_order n order" "i < n"
  obtains k where "k < n" "order ! k = i"
  using assms is_order_length [OF assms(1)] by (metis is_order_def in_set_conv_nth lessThan_iff)

lemma length_assign [simp]: "length (assign_label indices l m) = length m"
  unfolding assign_label_def by (induction indices arbitrary: m) simp_all

lemma nth_assign:
  "i < length m \<Longrightarrow> assign_label indices l m ! i = (if i \<in> set indices then l else m ! i)"
  unfolding assign_label_def
  by (induction indices arbitrary: m) (auto simp: nth_list_update)

lemma fold_update_length: "length (fold (\<lambda>(i, l) xs. xs[i := l]) ps m) = length m"
  by (induction ps arbitrary: m) auto

lemma fold_update_other:
  "i \<notin> fst ` set ps \<Longrightarrow> fold (\<lambda>(i, l) xs. xs[i := l]) ps m ! i = m ! i"
  by (induction ps arbitrary: m) auto

lemma fold_update_nth:
  assumes "length order = length labels" "distinct order" "set order \<subseteq> {..<length m}" "k < length order"
  shows "fold (\<lambda>(i, l) xs. xs[i := l]) (zip order labels) m ! (order ! k) = labels ! k"
  using assms
proof (induction order labels arbitrary: m k rule: list_induct2)
  case (Cons i order l labels)
  show ?case
  proof (cases k)
    case 0
    have "i \<notin> fst ` set (zip order labels)" using Cons.prems(1) by (auto dest: set_zip_leftD)
    then show ?thesis using 0 Cons.prems(2) by (simp add: fold_update_other)
  next
    case (Suc k')
    then show ?thesis using Cons by simp
  qed
qed simp

lemma length_in_source [simp]: "length (in_source_order canonical order) = length canonical"
  by (simp add: in_source_order_def fold_update_length)

lemma in_source_nth:
  assumes "is_order (length canonical) order" "k < length canonical"
  shows "in_source_order canonical order ! (order ! k) = canonical ! k"
  unfolding in_source_order_def
  by (rule fold_update_nth)
    (use assms is_order_length [OF assms(1)] in \<open>auto simp: is_order_def\<close>)

lemma count_in_source:
  assumes "is_order (length canonical) order"
  shows "mset (in_source_order canonical order) = mset canonical"
proof -
  let ?n = "length canonical" and ?s = "in_source_order canonical order"
  have len: "length order = ?n" by (rule is_order_length [OF assms])
  have d: "distinct order" "set order = {..<?n}" using assms by (simp_all only: is_order_def)
  have same: "set order = set [0..<?n]" unfolding d(2) by (simp add: atLeast0LessThan)
  have "map (\<lambda>i. ?s ! i) order = canonical"
    using in_source_nth [OF assms] by (intro nth_equalityI) (simp_all add: len)
  then have "mset canonical = image_mset (\<lambda>i. ?s ! i) (mset order)"
    by (metis mset_map)
  also have "mset order = mset [0..<?n]"
    using same d(1) set_eq_iff_mset_eq_distinct [of order "[0..<?n]"] distinct_upt by blast
  also have "image_mset (\<lambda>i. ?s ! i) (mset [0..<?n]) = mset (map (\<lambda>i. ?s ! i) [0..<?n])" by simp
  also have "map (\<lambda>i. ?s ! i) [0..<?n] = ?s" by (metis length_in_source map_nth)
  finally show ?thesis by simp
qed

lemma is_order_in_source:
  assumes "is_order (length canonical) order" "i < length canonical"
  obtains k where "k < length canonical" "order ! k = i" "in_source_order canonical order ! i = canonical ! k"
proof -
  obtain k where "k < length canonical" "order ! k = i" by (rule is_order_obtain [OF assms])
  then show ?thesis using that [of k] in_source_nth [OF assms(1), of k] by simp
qed

section \<open>Random splits\<close>

lemma int_of_float_nonneg: "0 \<le> x \<Longrightarrow> int_of_float x = \<lfloor>x\<rfloor>"
  by (simp add: int_of_float_def)

lemma int_of_float_bounds:
  assumes "0 \<le> x"
  shows "0 \<le> int_of_float (round_double x)" "of_int (int_of_float (round_double x)) \<le> x * (1 + 1 / 2 ^ 53)"
proof -
  have n: "0 \<le> round_double x" by (rule round_double_nonneg [OF assms])
  then show "0 \<le> int_of_float (round_double x)" by (simp add: int_of_float_nonneg)
  have "of_int (int_of_float (round_double x)) \<le> round_double x"
    using n by (simp add: int_of_float_nonneg)
  also have "\<dots> \<le> x * (1 + 1 / 2 ^ 53)" by (rule round_double_le [OF assms])
  finally show "of_int (int_of_float (round_double x)) \<le> x * (1 + 1 / 2 ^ 53)" .
qed

lemma sizes_fit:
  assumes v: "0 \<le> v" and h: "0 \<le> h" and sum: "float_add v h < 1" and n: "n \<le> 2 ^ 50"
  shows "int_of_float (float_mult (of_nat n) h) + int_of_float (float_mult (of_nat n) v) \<le> int n"
proof -
  let ?e = "1 / 2 ^ 53 :: rat" and ?n = "of_nat n :: rat"
  have "(v + h) * (1 - ?e) \<le> round_double (v + h)" by (rule round_double_ge) (use v h in simp)
  then have "(v + h) * (1 - ?e) < 1" using sum by (simp only: float_add_def)
  then have vh: "(v + h) \<le> 1 / (1 - ?e)" by (simp add: field_simps)
  have "of_int (int_of_float (float_mult ?n h) + int_of_float (float_mult ?n v))
      \<le> ?n * h * (1 + ?e) + ?n * v * (1 + ?e)"
    using int_of_float_bounds(2) [of "?n * h"] int_of_float_bounds(2) [of "?n * v"] v h
    by (simp add: float_mult_def)
  also have "\<dots> = ?n * (1 + ?e) * (v + h)" by (simp add: algebra_simps)
  also have "\<dots> \<le> ?n * (1 + ?e) * (1 / (1 - ?e))"
    using vh by (intro mult_left_mono) simp_all
  also have "\<dots> \<le> ?n + 1 / 2"
  proof -
    have "?n \<le> 2 ^ 50" using n by (metis of_nat_le_iff of_nat_numeral of_nat_power)
    then show ?thesis by (simp add: field_simps)
  qed
  finally have "(of_int (int_of_float (float_mult ?n h) + int_of_float (float_mult ?n v)) :: rat)
      < of_int (int n + 1)" by simp
  then show ?thesis by (simp only: of_int_less_iff)
qed

lemma slice_simps:
  "length indices = n \<Longrightarrow> 0 < k \<Longrightarrow> k \<le> int n \<Longrightarrow>
     py_slice_from (- k) indices = drop (n - nat k) indices"
  "length indices = n \<Longrightarrow> 0 \<le> a \<Longrightarrow> a \<le> b \<Longrightarrow> b \<le> int n \<Longrightarrow>
     py_slice a b indices = drop (nat a) (take (nat b) indices)"
  by (auto simp: py_slice_from_def py_slice_def slice_bound_def nat_diff_distrib' min_def)

lemma random_mask_labels:
  assumes p: "is_order n indices" and nh: "int_of_float (float_mult (of_nat n) h) = int kh"
    and nv: "int_of_float (float_mult (of_nat n) v) = int kv" and fit: "kh + kv \<le> n"
  shows "length (random_mask indices n v h) = n"
    "i < n \<Longrightarrow> random_mask indices n v h ! i =
      (if i \<in> set (drop (n - kh - kv) (take (n - kh) indices)) then partition_validation
       else if i \<in> set (drop (n - kh) indices) then partition_holdout else partition_train)"
proof -
  have len: "length indices = n" by (rule is_order_length [OF p])
  let ?m1 = "if 0 < int kh then assign_label (py_slice_from (- int kh) indices) partition_holdout
      (replicate n partition_train) else replicate n partition_train"
  have mask: "random_mask indices n v h = (if 0 < int kv
      then assign_label (py_slice (int n - int kh - int kv) (int n - int kh) indices)
        partition_validation ?m1 else ?m1)"
    by (simp only: random_mask_def nh nv Let_def)
  have len1: "length ?m1 = n" by simp
  then show "length (random_mask indices n v h) = n" by (simp add: mask)
  assume i: "i < n"
  have m1: "?m1 ! i = (if i \<in> set (drop (n - kh) indices) then partition_holdout else partition_train)"
    using i len fit slice_simps(1) [OF len, of "int kh"] by (auto simp: nth_assign)
  have "py_slice (int n - int kh - int kv) (int n - int kh) indices
      = drop (n - kh - kv) (take (n - kh) indices)" 
    using slice_simps(2) [OF len, of "int n - int kh - int kv" "int n - int kh"] fit
    by (simp add: nat_diff_distrib' of_nat_diff [symmetric] del: of_nat_diff)
  then show "random_mask indices n v h ! i =
      (if i \<in> set (drop (n - kh - kv) (take (n - kh) indices)) then partition_validation
       else if i \<in> set (drop (n - kh) indices) then partition_holdout else partition_train)"
    unfolding mask using i len1 m1 fit by (cases "kv = 0") (simp_all add: nth_assign)
qed

lemma count_label:
  assumes "length m = n"
  shows "count (mset m) l = card {i. i < n \<and> m ! i = l}"
proof -
  have "count (mset m) l = length (filter ((=) l) m)" by (induction m) simp_all
  also have "\<dots> = card {i. i < n \<and> l = m ! i}" using assms by (simp add: length_filter_conv_card)
  finally show ?thesis by (simp add: eq_commute)
qed

lemma random_mask_counts:
  assumes p: "is_order n indices" and nh: "int_of_float (float_mult (of_nat n) h) = int kh"
    and nv: "int_of_float (float_mult (of_nat n) v) = int kv" and fit: "kh + kv \<le> n"
  shows "count (mset (random_mask indices n v h)) partition_holdout = kh"
    "count (mset (random_mask indices n v h)) partition_validation = kv"
    "set (random_mask indices n v h) \<subseteq> {partition_train, partition_validation, partition_holdout}"
proof -
  let ?m = "random_mask indices n v h"
  let ?vs = "drop (n - kh - kv) (take (n - kh) indices)" and ?hs = "drop (n - kh) indices"
  have len: "length indices = n" by (rule is_order_length [OF p])
  have d: "distinct indices" and all: "set indices = {..<n}" using p by (simp_all add: is_order_def)
  note labels = random_mask_labels [OF p nh nv fit]
  have disj: "set ?vs \<inter> set ?hs = {}"
    using set_take_disj_set_drop_if_distinct [OF d, of "n - kh" "n - kh"] set_drop_subset by fastforce
  have sub: "set ?vs \<subseteq> {..<n}" "set ?hs \<subseteq> {..<n}"
    using all set_drop_subset set_take_subset by (metis subset_trans)+
  have cards: "card (set ?vs) = kv" "card (set ?hs) = kh"
    using d len fit by (simp_all add: distinct_card)
  have "i \<in> set ?hs \<Longrightarrow> i \<notin> set ?vs" for i using disj by blast
  then have "{i. i < n \<and> ?m ! i = partition_holdout} = set ?hs"
    using labels(2) sub by (auto simp: partition_defs split: if_splits)
  then show "count (mset ?m) partition_holdout = kh"
    using count_label [OF labels(1)] cards by simp
  have "{i. i < n \<and> ?m ! i = partition_validation} = set ?vs"
    using labels(2) sub by (auto simp: partition_defs split: if_splits)
  then show "count (mset ?m) partition_validation = kv"
    using count_label [OF labels(1)] cards by simp
  show "set ?m \<subseteq> {partition_train, partition_validation, partition_holdout}"
  proof
    fix l assume "l \<in> set ?m"
    then obtain i where "i < n" "l = ?m ! i" using labels(1) by (auto simp: in_set_conv_nth)
    then show "l \<in> {partition_train, partition_validation, partition_holdout}"
      using labels(2) by simp
  qed
qed

lemma check_split_Inr:
  "check_split_config c = Inr u \<Longrightarrow> 0 \<le> validation_size c \<and> 0 \<le> holdout_size c \<and>
     float_add (validation_size c) (holdout_size c) < 1"
  unfolding check_split_config_def run_checks_Inr list.set ball_simps refuse_if_Inr by auto

text \<open>
  C27: A random split of an accepted configuration, over at most \<open>2 ^ 50\<close> rows, labels every row and
  draws exactly the rows the sizes ask for: the holdout and the validation partition have the truncated float products of
  the row count and their sizes, every other row trains, and together they never exceed the
  frame, whatever the rounding. Each label is the one drawn for the row's place in the canonical
  order, so the order in which the rows arrive does not decide their partition.
\<close>

theorem random_split_exact:
  assumes "check_split_config c = Inr u" "split_strategy c = ''random''" "0 < n" "n \<le> 2 ^ 50"
    "is_order n (permutation env (split_seed c) n)" "is_order n order"
  shows "\<exists>m. split_mask env n c df (Some order) = Inr m \<and> length m = n \<and>
    set m \<subseteq> {partition_train, partition_validation, partition_holdout} \<and>
    int (count (mset m) partition_holdout) = int_of_float (float_mult (of_nat n) (holdout_size c)) \<and>
    int (count (mset m) partition_validation) = int_of_float (float_mult (of_nat n) (validation_size c)) \<and>
    (\<forall>k < n. m ! (order ! k) =
      random_mask (permutation env (split_seed c) n) n (validation_size c) (holdout_size c) ! k)"
proof -
  let ?h = "int_of_float (float_mult (of_nat n) (holdout_size c))"
  let ?v = "int_of_float (float_mult (of_nat n) (validation_size c))"
  let ?canonical = "random_mask (permutation env (split_seed c) n) n (validation_size c) (holdout_size c)"
  have size: "0 \<le> validation_size c" "0 \<le> holdout_size c"
    "float_add (validation_size c) (holdout_size c) < 1"
    using check_split_Inr [OF assms(1)] by blast+
  have fit: "?h + ?v \<le> int n" by (rule sizes_fit [OF size assms(4)])
  have pos: "0 \<le> ?h" "0 \<le> ?v"
    using int_of_float_bounds(1) [of "of_nat n * holdout_size c"]
      int_of_float_bounds(1) [of "of_nat n * validation_size c"] size
    by (simp_all add: float_mult_def)
  have k: "?h = int (nat ?h)" "?v = int (nat ?v)" "nat ?h + nat ?v \<le> n" using fit pos by simp_all
  note labels = random_mask_labels(1) [OF assms(5) k] and counts = random_mask_counts [OF assms(5) k]
  have order: "is_order (length ?canonical) order" using assms(6) labels by simp
  have mask: "split_mask env n c df (Some order) = Inr (in_source_order ?canonical order)"
    using assms(2,3) is_order_length [OF assms(6)]
    by (simp add: split_mask_def check_row_order_def needs_row_order_def refuse_if_def)
  have same: "mset (in_source_order ?canonical order) = mset ?canonical"
    by (rule count_in_source [OF order])
  show ?thesis
    using mask same counts k in_source_nth [OF order] labels mset_eq_setD [OF same] by auto
qed

definition sample_split :: split_config where
  "sample_split = \<lparr>split_strategy = ''random'', validation_size = round_double (1 / 5),
     holdout_size = round_double (7 / 10), split_seed = 42, date_column = None, cutoff_date = None,
     group_column = None\<rparr>"

definition sample_env :: "string split_env" where
  "sample_env = \<lparr>permutation = (\<lambda>_ n. rev [0..<n]), hash_fraction_of = (\<lambda>_ _. 1 / 2),
     py_str_of = (\<lambda>v. v), as_text_of = (\<lambda>v. v), to_date = (\<lambda>v. Some (int (length v))),
     cutoff_day = (\<lambda>t. int (length t))\<rparr>"

lemma is_order_rev: "is_order n (rev [0..<n])"
  by (auto simp: is_order_def)

theorem random_split_exact_witness:
  "\<exists>m. split_mask sample_env 10 sample_split None (Some (rev [0..<10])) = Inr m \<and>
     count (mset m) partition_holdout = 7 \<and> count (mset m) partition_validation = 2"
proof -
  have c: "check_split_config sample_split = Inr ()" "split_strategy sample_split = ''random''" by code_simp+
  have sizes: "int_of_float (float_mult (of_nat 10) (holdout_size sample_split)) = 7"
    "int_of_float (float_mult (of_nat 10) (validation_size sample_split)) = 2" by code_simp+
  have o: "is_order 10 (permutation sample_env (split_seed sample_split) 10)"
    using is_order_rev [of 10] by (simp add: sample_env_def)
  show ?thesis
    using random_split_exact [OF c _ _ o is_order_rev [of 10], of None] sizes by auto
qed

section \<open>Temporal splits\<close>

lemma sorted_take_drop:
  assumes "sorted (map f xs)" "x \<in> set (take d xs)" "y \<in> set (drop d xs)"
  shows "f x \<le> f y"
proof -
  have "sorted (map f (take d xs) @ map f (drop d xs))" using assms(1) by (simp flip: map_append)
  then have "\<forall>a \<in> set (map f (take d xs)). \<forall>b \<in> set (map f (drop d xs)). a \<le> b"
    unfolding sorted_append by blast
  then show ?thesis using assms(2,3) by auto
qed

text \<open>What a temporal mask promises of dates: nothing before the cutoff is held out of training, and the holdout is the most recent.\<close>

definition temporal_ok :: "nat \<Rightarrow> (nat \<Rightarrow> int) \<Rightarrow> int \<Rightarrow> rat \<Rightarrow> rat \<Rightarrow> int list \<Rightarrow> bool" where
  "temporal_ok n date cutoff validation holdout m \<longleftrightarrow> length m = n \<and>
     (\<forall>i < n. m ! i \<in> {partition_train, partition_validation, partition_holdout}) \<and>
     (\<forall>i < n. date i < cutoff \<longrightarrow> m ! i = partition_train) \<and>
     (\<forall>i < n. \<forall>j < n. m ! i = partition_holdout \<longrightarrow> m ! j \<noteq> partition_holdout \<longrightarrow> date j \<le> date i) \<and>
     (\<forall>i < n. validation \<noteq> 0 \<longrightarrow> m ! i = partition_train \<longrightarrow> date i < cutoff) \<and>
     (validation = 0 \<longrightarrow> partition_validation \<notin> set m) \<and>
     (holdout = 0 \<longrightarrow> partition_holdout \<notin> set m)"

lemma temporal_mask_raw:
  fixes dates :: "int list"
  assumes m1: "m1 = m0 \<or> (holdout > 0 \<and> m1 = assign_label (drop d (sort_key (\<lambda>i. dates ! i)
      (filter (\<lambda>i. \<not> dates ! i < cutoff) [0..<length dates]))) partition_holdout m0)"
    and m0: "m0 = map (\<lambda>d. if d < cutoff then partition_train else partition_validation) dates"
    and m: "m = (if validation = 0 then map (\<lambda>l. if l = partition_validation then partition_train else l) m1
      else m1)"
  shows "temporal_ok (length dates) (\<lambda>i. dates ! i) cutoff validation holdout m"
proof -
  let ?n = "length dates"
  let ?nt = "filter (\<lambda>i. \<not> dates ! i < cutoff) [0..<?n]"
  let ?rows = "sort_key (\<lambda>i. dates ! i) ?nt"
  have rows: "i \<in> set ?rows \<longleftrightarrow> i < ?n \<and> cutoff \<le> dates ! i" for i by auto
  obtain H where H: "H \<subseteq> set ?rows" "holdout = 0 \<Longrightarrow> H = {}" "length m1 = ?n"
    "\<And>i. i < ?n \<Longrightarrow> m1 ! i = (if i \<in> H then partition_holdout else m0 ! i)"
    "\<And>i j. i \<in> H \<Longrightarrow> j \<in> set ?rows \<Longrightarrow> j \<notin> H \<Longrightarrow> dates ! j \<le> dates ! i"
  proof (cases "m1 = m0")
    case True
    show ?thesis by (rule that [of "{}"]) (simp_all add: True m0)
  next
    case False
    then have e: "m1 = assign_label (drop d ?rows) partition_holdout m0" "holdout > 0" using m1 by auto
    have sorted: "sorted (map (\<lambda>i. dates ! i) ?rows)" by simp
    show ?thesis
    proof (rule that [of "set (drop d ?rows)"])
      show "set (drop d ?rows) \<subseteq> set ?rows" by (rule set_drop_subset)
      show "length m1 = ?n" by (simp add: e(1) m0)
      show "m1 ! i = (if i \<in> set (drop d ?rows) then partition_holdout else m0 ! i)" if "i < ?n" for i
        using that by (simp add: e(1) nth_assign m0)
      show "dates ! j \<le> dates ! i"
        if "i \<in> set (drop d ?rows)" "j \<in> set ?rows" "j \<notin> set (drop d ?rows)" for i j
      proof (rule sorted_take_drop [OF sorted _ that(1)])
        have "set (take d ?rows) \<union> set (drop d ?rows) = set ?rows"
          by (metis append_take_drop_id set_append)
        then show "j \<in> set (take d ?rows)" using that(2,3) by blast
      qed
    qed (use e(2) in simp)
  qed
  have at: "m ! i = (if i \<in> H then partition_holdout else if dates ! i < cutoff then partition_train
      else if validation = 0 then partition_train else partition_validation)" if "i < ?n" for i
    using that H(3,4) by (simp add: m m0 partition_defs)
  have len: "length m = ?n" by (simp add: m H(3))
  have before: "dates ! i < cutoff \<Longrightarrow> i \<notin> H" for i using H(1) rows by fastforce
  have late: "dates ! j \<le> dates ! i"
    if "i < ?n" "j < ?n" "i \<in> H" "j \<notin> H" for i j
  proof (cases "dates ! j < cutoff")
    case True
    moreover have "cutoff \<le> dates ! i" using H(1) rows that(3) by blast
    ultimately show ?thesis by simp
  qed (use that H(5) rows in simp)
  have mem: "x \<in> set m \<longleftrightarrow> (\<exists>i < ?n. m ! i = x)" for x using len by (auto simp: in_set_conv_nth)
  show ?thesis
    unfolding temporal_ok_def mem using len at before late H(2)
    by (auto simp: partition_defs split: if_splits)
qed

lemma hold_out_recent_drop:
  "\<exists>d. hold_out_recent validation holdout dates rows m = m \<or>
     (holdout > 0 \<and> hold_out_recent validation holdout dates rows m =
        assign_label (drop d (sort_key (\<lambda>i. dates ! i) rows)) partition_holdout m)"
  unfolding hold_out_recent_def py_slice_from_def Let_def by (simp split: if_split) blast

lemma temporal_labels_ok:
  "temporal_ok (length dates) (\<lambda>i. dates ! i) cutoff validation holdout
     (temporal_labels dates cutoff validation holdout)"
proof -
  obtain d where d: "hold_out_recent validation holdout dates rows m = m \<or>
     (holdout > 0 \<and> hold_out_recent validation holdout dates rows m =
        assign_label (drop d (sort_key (\<lambda>i. dates ! i) rows)) partition_holdout m)"
    if "rows = filter (\<lambda>i. \<not> dates ! i < cutoff) [0..<length dates]"
       "m = map (\<lambda>d. if d < cutoff then partition_train else partition_validation) dates" for rows m
    using hold_out_recent_drop [of validation holdout dates
        "filter (\<lambda>i. \<not> dates ! i < cutoff) [0..<length dates]"
        "map (\<lambda>d. if d < cutoff then partition_train else partition_validation) dates"] by blast
  show ?thesis
    by (rule temporal_mask_raw [OF d [OF refl refl] refl]) (simp only: temporal_labels_def Let_def)
qed

lemma temporal_mask_ok:
  assumes "temporal_mask col (Some values) cutoff validation holdout = Inr m"
  shows "\<forall>v \<in> set values. v \<noteq> None"
    "temporal_ok (length values) (\<lambda>i. the (values ! i)) cutoff validation holdout m"
proof -
  have nulls: "filter (\<lambda>v. v = None) values = []" and m: "m = temporal_labels (map the values) cutoff validation holdout"
    using assms by (auto simp: temporal_mask_def Let_def split: if_splits)
  from nulls show "\<forall>v \<in> set values. v \<noteq> None" by (auto simp: filter_empty_conv)
  show "temporal_ok (length values) (\<lambda>i. the (values ! i)) cutoff validation holdout m"
    using temporal_labels_ok [of "map the values" cutoff validation holdout]
    unfolding temporal_ok_def m by simp
qed

text \<open>The promise carries over from the canonical order to the rows as they arrived.\<close>

lemma temporal_ok_source:
  assumes "temporal_ok n (\<lambda>k. date (order ! k)) cutoff validation holdout m" "is_order n order"
  shows "temporal_ok n date cutoff validation holdout (in_source_order m order)"
proof -
  let ?s = "in_source_order m order"
  have len: "length m = n" using assms(1) by (simp add: temporal_ok_def)
  have at: "\<exists>k < n. order ! k = i \<and> ?s ! i = m ! k" if "i < n" for i
    using is_order_in_source [of m order i] assms(2) that len by auto
  have "mset ?s = mset m" using count_in_source [of m order] assms(2) len by simp
  then have set: "set ?s = set m" by (rule mset_eq_setD)
  show ?thesis
    unfolding temporal_ok_def
  proof (intro conjI allI impI)
    show "length ?s = n" by (simp add: len)
    fix i assume i: "i < n"
    obtain k where k: "k < n" "order ! k = i" "?s ! i = m ! k" using at [OF i] by blast
    show "?s ! i \<in> {partition_train, partition_validation, partition_holdout}"
      using assms(1) k by (simp add: temporal_ok_def)
    show "?s ! i = partition_train" if "date i < cutoff"
      using assms(1) k that by (simp add: temporal_ok_def)
    show "date i < cutoff" if "validation \<noteq> 0" "?s ! i = partition_train"
      using assms(1) k that by (auto simp: temporal_ok_def)
    fix j assume j: "j < n" and l: "?s ! i = partition_holdout" "?s ! j \<noteq> partition_holdout"
    obtain k' where k': "k' < n" "order ! k' = j" "?s ! j = m ! k'" using at [OF j] by blast
    show "date j \<le> date i" using assms(1) k k' l unfolding temporal_ok_def by metis
  next
    show "partition_validation \<notin> set ?s" if "validation = 0"
      using assms(1) that by (simp add: temporal_ok_def set)
    show "partition_holdout \<notin> set ?s" if "holdout = 0"
      using assms(1) that by (simp add: temporal_ok_def set)
  qed
qed

text \<open>
  C28: A temporal split never trains on the future. Every row before the cutoff trains; with a
  validation partition no other row does; no row of the holdout is older than a row outside it;
  a partition of size zero is empty; and a column with a missing date is refused. This holds of
  the rows as they arrived, whatever canonical order the boundary date was cut in.
\<close>

theorem temporal_split_in_time:
  assumes "split_strategy c = ''temporal''"
    "split_mask env n c (Some df) row_order = Inr m"
    "date_column c = Some col" "cutoff_date c = Some cutoff" "frame_column df col = Some values"
    "length values = n" "\<And>order. row_order = Some order \<Longrightarrow> is_order n order"
  shows "(\<forall>v \<in> set values. to_date env v \<noteq> None) \<and>
    temporal_ok n (\<lambda>i. the (to_date env (values ! i))) (cutoff_day env cutoff) (validation_size c)
      (holdout_size c) m"
proof -
  have n: "0 < n" and r: "temporal_split env c df col cutoff row_order = Inr m"
    using assms(1-4) by (auto simp: split_mask_def bind_result_Inr split: if_splits)
  let ?dates = "map (to_date env) values"
  show ?thesis
  proof (cases row_order)
    case None
    then have t: "temporal_mask col (Some ?dates) (cutoff_day env cutoff) (validation_size c)
        (holdout_size c) = Inr m"
      using r assms(5) by (simp add: temporal_split_def)
    have "temporal_ok n (\<lambda>i. the (?dates ! i)) (cutoff_day env cutoff) (validation_size c)
        (holdout_size c) m"
      using temporal_mask_ok(2) [OF t] assms(6) by simp
    then show ?thesis using temporal_mask_ok(1) [OF t] assms(6) by (simp add: temporal_ok_def)
  next
    case (Some order)
    have order: "is_order n order" by (rule assms(7) [OF Some])
    then have len: "length order = n" by (rule is_order_length)
    let ?canonical = "map (\<lambda>i. ?dates ! i) order"
    obtain m' where t: "temporal_mask col (Some ?canonical) (cutoff_day env cutoff) (validation_size c)
        (holdout_size c) = Inr m'" and m: "m = in_source_order m' order"
      using r assms(5) Some by (auto simp: temporal_split_def bind_result_Inr)
    have at: "?canonical ! k = to_date env (values ! (order ! k))" if "k < n" for k
      using that len is_order_nth [OF order that] assms(6) by simp
    have ok: "temporal_ok n (\<lambda>k. the (to_date env (values ! (order ! k)))) (cutoff_day env cutoff)
        (validation_size c) (holdout_size c) m'"
      using temporal_mask_ok(2) [OF t] at len by (simp add: temporal_ok_def)
    have "to_date env v \<noteq> None" if v: "v \<in> set values" for v
    proof -
      obtain i where i: "i < n" "values ! i = v"
        using v unfolding in_set_conv_nth assms(6) by blast
      obtain k where k: "k < n" "order ! k = i" by (rule is_order_obtain [OF order i(1)])
      have "?canonical ! k \<in> set ?canonical" using k(1) len by (intro nth_mem) simp
      then have "?canonical ! k \<noteq> None" using temporal_mask_ok(1) [OF t] by blast
      then show ?thesis using at [OF k(1)] k(2) i(2) by simp
    qed
    then show ?thesis
      using temporal_ok_source [of n "\<lambda>i. the (to_date env (values ! i))" order, OF ok order] m by simp
  qed
qed

definition temporal_sample :: split_config where
  "temporal_sample = \<lparr>split_strategy = ''temporal'', validation_size = round_double (1 / 5),
     holdout_size = round_double (1 / 5), split_seed = 42, date_column = Some ''d'',
     cutoff_date = Some ''xx'', group_column = None\<rparr>"

definition temporal_frame :: "string split_frame" where
  "temporal_frame = \<lparr>frame_column = (\<lambda>c. if c = ''d'' then Some [''aaaa'', ''a'', ''aaa'', ''aa''] else None)\<rparr>"

theorem temporal_split_in_time_witness:
  "split_mask sample_env 4 temporal_sample (Some temporal_frame) (Some [0, 1, 2, 3]) = Inr [2, 0, 1, 1] \<and>
   temporal_ok 4 (\<lambda>i. the (to_date sample_env ([''aaaa'', ''a'', ''aaa'', ''aa''] ! i))) 2
     (validation_size temporal_sample) (holdout_size temporal_sample) [2, 0, 1, 1]"
proof -
  have c: "split_strategy temporal_sample = ''temporal''" "date_column temporal_sample = Some ''d''" "cutoff_date temporal_sample = Some ''xx''"
    "frame_column temporal_frame ''d'' = Some [''aaaa'', ''a'', ''aaa'', ''aa'']"
    "cutoff_day sample_env ''xx'' = 2" by code_simp+
  have m: "split_mask sample_env 4 temporal_sample (Some temporal_frame) (Some [0, 1, 2, 3])
      = Inr [2, 0, 1, 1]" by code_simp
  have o: "is_order 4 [0, 1, 2, 3]" by (auto simp: is_order_def)
  show ?thesis
    using temporal_split_in_time [OF c(1) m c(2,3,4)] c(5) m o by simp
qed

section \<open>Group splits\<close>

lemma map_of_assign_groups:
  "map_of (assign_groups f gs d) = (\<lambda>g. if g \<in> set gs then Some (f g) else map_of d g)"
  by (induction gs arbitrary: d) (auto simp: update_conv' fun_eq_iff)

lemma distinct_assign_groups:
  "distinct (map fst d) \<Longrightarrow> distinct (map fst (assign_groups f gs d))"
  by (induction gs arbitrary: d) (simp_all add: distinct_update)

lemma first_train_cases:
  "first_train_to_validation gs d = d \<and> (\<forall>g \<in> set gs. map_of d g \<noteq> Some partition_train) \<or>
   (\<exists>g \<in> set gs. map_of d g = Some partition_train \<and>
      first_train_to_validation gs d = AList.update g partition_validation d)"
  by (induction gs) auto

lemma map_of_group_partition:
  "dom (map_of (group_partition f v h gs)) = set gs"
proof -
  let ?d = "assign_groups (group_label f v h) gs []"
  have d: "dom (map_of ?d) = set gs" by (auto simp: map_of_assign_groups split: if_splits)
  have "dom (map_of (first_train_to_validation gs ?d)) = set gs"
    using first_train_cases [of gs ?d]
  proof (elim disjE conjE bexE)
    fix g assume "g \<in> set gs" "first_train_to_validation gs ?d = AList.update g partition_validation ?d"
    then show ?thesis using d by (simp add: update_conv' insert_absorb)
  qed (simp add: d)
  then show ?thesis using d unfolding group_partition_def Let_def by presburger
qed

text \<open>A partition with no group in validation has one promoted out of training.\<close>

lemma group_partition_validates:
  assumes "v > 0" "length gs > 1" "g \<in> set gs"
    "map_of (group_partition f v h gs) g \<noteq> Some partition_holdout"
  shows "\<exists>g' \<in> set gs. map_of (group_partition f v h gs) g' = Some partition_validation"
proof -
  let ?d = "assign_groups (group_label f v h) gs []"
  have m: "map_of ?d x = (if x \<in> set gs then Some (group_label f v h x) else None)" for x
    by (simp add: map_of_assign_groups)
  show ?thesis
  proof (cases "partition_validation \<in> set (map snd ?d)")
    case True
    then obtain g' where "(g', partition_validation) \<in> set ?d" by auto
    moreover have "distinct (map fst ?d)" by (rule distinct_assign_groups) simp
    ultimately have "map_of ?d g' = Some partition_validation" by (rule map_of_is_SomeI [rotated])
    then show ?thesis using True m by (auto simp: group_partition_def Let_def split: if_splits)
  next
    case False
    then have p: "group_partition f v h gs = first_train_to_validation gs ?d"
      using assms(1,2) by (simp add: group_partition_def Let_def)
    have no: "map_of ?d x \<noteq> Some partition_validation" for x
      using False by (metis map_of_SomeD image_eqI set_map snd_conv)
    show ?thesis
    proof (cases "\<forall>x \<in> set gs. map_of ?d x \<noteq> Some partition_train")
      case True
      then have "first_train_to_validation gs ?d = ?d" using first_train_cases [of gs ?d] by blast
      then have "map_of ?d g \<noteq> Some partition_holdout" using assms(4) p by simp
      moreover have "map_of ?d g \<noteq> Some partition_train" using True assms(3) by blast
      ultimately show ?thesis using no [of g] assms(3) m [of g]
        by (auto simp: group_label_def Let_def split: if_splits)
    next
      case False
      then obtain g' where "g' \<in> set gs"
        "first_train_to_validation gs ?d = AList.update g' partition_validation ?d"
        using first_train_cases [of gs ?d] by blast
      then show ?thesis using p by (auto simp: update_conv')
    qed
  qed
qed

text \<open>
  C29: A group split keeps groups together. Rows whose groups have the same text get the same
  label; when the frame's text of every value is Python's, validation is asked for and there are two groups, some
  row validates unless every row is held out; and where the two renderings share no text, the
  lookup misses every group and the whole frame trains.
\<close>

theorem group_split_keeps_groups:
  assumes "split_strategy c = ''group''" "split_mask env n c (Some df) row_order = Inr m"
    "group_column c = Some col" "frame_column df col = Some values"
  shows "length m = length values \<and>
    (\<forall>i < length m. \<forall>j < length m. as_text_of env (values ! i) = as_text_of env (values ! j) \<longrightarrow> m ! i = m ! j) \<and>
    ((\<forall>v \<in> set values. as_text_of env v = py_str_of env v) \<and> validation_size c > 0 \<and>
       card (py_str_of env ` set values) > 1 \<longrightarrow>
       partition_validation \<in> set m \<or> set m = {partition_holdout}) \<and>
    ((\<forall>v \<in> set values. as_text_of env v \<notin> py_str_of env ` set values) \<longrightarrow>
       m = replicate (length values) partition_train)"
proof -
  let ?gs = "sort (map (py_str_of env) (remdups values))"
  let ?d = "group_partition (hash_fraction_of env (split_seed c)) (validation_size c) (holdout_size c) ?gs"
  let ?label = "\<lambda>v. case map_of ?d (as_text_of env v) of None \<Rightarrow> partition_train | Some l \<Rightarrow> l"
  have m: "m = map ?label values"
    using assms by (auto simp: split_mask_def bind_result_Inr group_mask_def Let_def split: if_splits)
  have dom: "dom (map_of ?d) = py_str_of env ` set values" by (simp add: map_of_group_partition)
  have validates: "partition_validation \<in> set m \<or> set m = {partition_holdout}"
    if same: "\<forall>v \<in> set values. as_text_of env v = py_str_of env v" and v: "validation_size c > 0"
      and two: "card (py_str_of env ` set values) > 1"
  proof (rule disjCI)
    assume not: "set m \<noteq> {partition_holdout}"
    have "values \<noteq> []" using two by auto
    then have "set m \<noteq> {}" using m by simp
    then obtain l where "l \<in> set m" "l \<noteq> partition_holdout" using not by (metis subset_singletonD subset_iff singletonI)
    then obtain w where w: "w \<in> set values" "?label w \<noteq> partition_holdout"
      unfolding m set_map by blast
    have "card (py_str_of env ` set values) \<le> length ?gs"
      using card_length [of ?gs] by simp
    then have len: "length ?gs > 1" using two by simp
    have "as_text_of env w \<in> set ?gs" using w(1) same by simp
    moreover have "map_of ?d (as_text_of env w) \<noteq> Some partition_holdout" using w(2) by auto
    ultimately obtain g where "g \<in> set ?gs" "map_of ?d g = Some partition_validation"
      using group_partition_validates [OF v len] by blast
    then obtain x where x: "x \<in> set values" "?label x = partition_validation" using same by auto
    show "partition_validation \<in> set m" unfolding m set_map using x by (metis image_eqI)
  qed
  have misses: "m = replicate (length values) partition_train"
    if other: "\<forall>v \<in> set values. as_text_of env v \<notin> py_str_of env ` set values"
  proof -
    have "map_of ?d (as_text_of env v) = None" if v: "v \<in> set values" for v
      using v other dom by (metis domIff)
    then have "map ?label values = map (\<lambda>_. partition_train) values" by simp
    then show ?thesis unfolding m map_replicate_const .
  qed
  show ?thesis using m validates misses by simp
qed

definition group_sample :: split_config where
  "group_sample = \<lparr>split_strategy = ''group'', validation_size = round_double (1 / 5),
     holdout_size = 0, split_seed = 42, date_column = None, cutoff_date = None,
     group_column = Some ''g''\<rparr>"

definition group_frame :: "string split_frame" where
  "group_frame = \<lparr>frame_column = (\<lambda>c. if c = ''g'' then Some [''b'', ''a'', ''b''] else None)\<rparr>"

theorem group_split_keeps_groups_witness:
  "split_mask sample_env 3 group_sample (Some group_frame) None = Inr [0, 1, 0] \<and>
   partition_validation \<in> set [0, 1, 0]"
proof -
  have c: "split_strategy group_sample = ''group''" "group_column group_sample = Some ''g''"
    "frame_column group_frame ''g'' = Some [''b'', ''a'', ''b'']" by code_simp+
  have m: "split_mask sample_env 3 group_sample (Some group_frame) None = Inr [0, 1, 0]" by code_simp
  have v: "validation_size group_sample > 0" by code_simp
  have "card (py_str_of sample_env ` set [''b'', ''a'', ''b'']) > 1" by code_simp
  moreover have "\<forall>v \<in> set [''b'', ''a'', ''b'']. as_text_of sample_env v = py_str_of sample_env v"
    by (simp add: sample_env_def)
  moreover have "set [0, 1, 0] \<noteq> {partition_holdout}" by (auto simp: partition_defs)
  ultimately show ?thesis
    using group_split_keeps_groups [OF c(1) m c(2,3)] v m by blast
qed

end
