(* ===== verification/Banding_Config.thy ===== *)
theory Banding_Config
  imports Py_Text
begin

text \<open>
  Banding configs, \<open>haute/_banding_config.py\<close>: the rule rows the editor and the engine hold, the
  compact rules a sidecar file holds, and the codec between them.

  A config, a factor and a rule are Python dictionaries, association lists over Python values
  whose keys are text. \<open>other\<close> is the text of a float or a container and \<open>read_float\<close> is \<open>float\<close> of
  a text; the sign of a floating zero is not modelled. A copy is the value itself. A raise is a
  constructor of \<open>banding_error\<close>, which the engine side shares. The lemmas show what the sidecar
  writer accepts and that what it writes reads back.
\<close>

datatype rule_kind = Categorical_rule | Breakpoint_rule

datatype boundary_kind = Number_kind | Date_kind | Datetime_kind

datatype banding_error =
    Rules_not_a_list string
  | Rule_key_empty
  | Rule_value_empty rule_kind string
  | Rule_value_not_scalar rule_kind string
  | Rule_not_object rule_kind nat
  | Rule_key_required rule_kind nat
  | Rule_value_required rule_kind string nat
  | Rule_key_twice rule_kind string
  | Factors_not_a_list
  | Factor_not_object nat
  | Output_written_twice pv nat nat
  | Edge_not_number_or_text pv
  | Edge_digits_limit string
  | Bands_not_a_list
  | Band_malformed nat
  | Open_band_not_last
  | Bands_written_as_map
  | Unsupported_banding_type string
  | Boundary_not_finite string
  | Boundary_unreadable string
  | Kinds_mixed "boundary_kind list"
  | Row_not_mapping
  | Two_open_bands nat
  | Only_open_band
  | Boundary_twice
  | Unsupported_operator string
  | No_usable_rule string
  | Column_kind_mismatch string
  | Column_not_text pv
  | Value_unhashable

definition banding_type_of :: "(pv \<Rightarrow> string) \<Rightarrow> pydict \<Rightarrow> string" where
  "banding_type_of other factor = text_or_empty other (get_or ''banding'' PNone factor)"

fun is_json_scalar :: "pv \<Rightarrow> bool" where
  "is_json_scalar PNone = True"
| "is_json_scalar (PBool b) = True"
| "is_json_scalar (PInt i) = True"
| "is_json_scalar (PStr s) = True"
| "is_json_scalar (PFloat (Fin r)) = True"
| "is_json_scalar _ = False"

definition validate_map_value :: "rule_kind \<Rightarrow> string \<Rightarrow> pv \<Rightarrow> banding_error + unit" where
  "validate_map_value kind key v = run_checks
     [refuse_if (v = PNone \<or> v = PStr []) (Rule_value_empty kind key),
      refuse_if (\<not> is_json_scalar v) (Rule_value_not_scalar kind key)]"

definition categorical_row :: "string \<Rightarrow> pv \<Rightarrow> pv" where
  "categorical_row key v = PDict [(PStr ''value'', PStr key), (PStr ''assignment'', v)]"

definition breakpoint_row :: "string \<Rightarrow> pv \<Rightarrow> pv" where
  "breakpoint_row key v = PDict [(PStr ''boundary'', PStr key), (PStr ''label'', v)]"

definition expand_rule :: "(pv \<Rightarrow> string) \<Rightarrow> rule_kind \<Rightarrow> pv \<times> pv \<Rightarrow> banding_error + pv" where
  "expand_rule other kind item =
     (let key = py_str other (fst item); v = snd item
      in case kind of
        Categorical_rule \<Rightarrow>
          if key = [] then Inl Rule_key_empty
          else bind_result (validate_map_value kind key v) (\<lambda>_. Inr (categorical_row key v))
      | Breakpoint_rule \<Rightarrow>
          bind_result (validate_map_value kind key v) (\<lambda>_. Inr (breakpoint_row key v)))"

definition expand_rule_map :: "(pv \<Rightarrow> string) \<Rightarrow> string \<Rightarrow> pydict \<Rightarrow> banding_error + pv list" where
  "expand_rule_map other banding_type rules =
     (if banding_type = ''categorical'' then map_result (expand_rule other Categorical_rule) rules
      else if banding_type = ''breakpoints'' then map_result (expand_rule other Breakpoint_rule) rules
      else Inl (Rules_not_a_list banding_type))"

definition normalise_banding_rules :: "(pv \<Rightarrow> string) \<Rightarrow> string \<Rightarrow> pv \<Rightarrow> banding_error + pv list" where
  "normalise_banding_rules other banding_type rules =
     (case rules of
        PNone \<Rightarrow> Inr []
      | PDict d \<Rightarrow> expand_rule_map other banding_type d
      | PList rows \<Rightarrow> Inr rows
      | _ \<Rightarrow> Inl (Rules_not_a_list banding_type))"

definition expand_banding_factor :: "(pv \<Rightarrow> string) \<Rightarrow> pydict \<Rightarrow> banding_error + pydict" where
  "expand_banding_factor other factor =
     (if dict_has ''rules'' factor
      then bind_result (normalise_banding_rules other (banding_type_of other factor)
             (get_or ''rules'' PNone factor)) (\<lambda>rows. Inr (dict_put ''rules'' (PList rows) factor))
      else Inr factor)"

text \<open>The loop over a config's factors: each an object, each mapped, the first failure raised.\<close>

fun factors_loop :: "(pydict \<Rightarrow> banding_error + pydict) \<Rightarrow> nat \<Rightarrow> pv list \<Rightarrow>
    banding_error + pydict list" where
  "factors_loop f i [] = Inr []"
| "factors_loop f i (v # vs) =
     (case v of
        PDict d \<Rightarrow> bind_result (f d) (\<lambda>d'. bind_result (factors_loop f (Suc i) vs) (\<lambda>ds. Inr (d' # ds)))
      | _ \<Rightarrow> Inl (Factor_not_object i))"

definition with_factors :: "(pydict \<Rightarrow> banding_error + pydict) \<Rightarrow> pydict \<Rightarrow> banding_error + pydict" where
  "with_factors f config =
     (case get_or ''factors'' PNone config of
        PNone \<Rightarrow> Inr config
      | PList vs \<Rightarrow> bind_result (factors_loop f 0 vs)
          (\<lambda>ds. Inr (dict_put ''factors'' (PList (map PDict ds)) config))
      | _ \<Rightarrow> Inl Factors_not_a_list)"

definition expand_banding_config :: "(pv \<Rightarrow> string) \<Rightarrow> pydict \<Rightarrow> banding_error + pydict" where
  "expand_banding_config other config = with_factors (expand_banding_factor other) config"

fun dicts_of :: "pv \<Rightarrow> pydict list" where
  "dicts_of (PList (PDict d # vs)) = d # dicts_of (PList vs)"
| "dicts_of _ = []"

definition normalise_banding_factors :: "(pv \<Rightarrow> string) \<Rightarrow> pydict \<Rightarrow> banding_error + pydict list" where
  "normalise_banding_factors other config =
     (case get_or ''factors'' PNone config of
        PNone \<Rightarrow> Inr []
      | PList _ \<Rightarrow> bind_result (expand_banding_config other config)
          (\<lambda>c. Inr (dicts_of (get_or ''factors'' PNone c)))
      | _ \<Rightarrow> Inl Factors_not_a_list)"

definition banding_factor_is_active :: "pydict \<Rightarrow> bool" where
  "banding_factor_is_active factor \<longleftrightarrow> py_truthy (get_or ''column'' PNone factor) \<and>
     py_truthy (get_or ''output_column'' PNone factor) \<and> py_truthy (get_or ''rules'' PNone factor)"

text \<open>A list or a dictionary is no dictionary key.\<close>

fun hashable :: "pv \<Rightarrow> bool" where
  "hashable (PList _) = False"
| "hashable (PDict _) = False"
| "hashable _ = True"

fun distinct_outputs_loop :: "nat \<Rightarrow> pydict list \<Rightarrow> (pv, nat) odict \<Rightarrow> banding_error + unit" where
  "distinct_outputs_loop i [] first_writer = Inr ()"
| "distinct_outputs_loop i (f # fs) first_writer =
     (if \<not> banding_factor_is_active f then distinct_outputs_loop (Suc i) fs first_writer
      else let output = get_or ''output_column'' PNone f
           in if \<not> hashable output then Inl Value_unhashable
              else case map_of first_writer output of
                Some earlier \<Rightarrow> Inl (Output_written_twice output earlier i)
              | None \<Rightarrow> distinct_outputs_loop (Suc i) fs (AList.update output i first_writer))"

definition require_distinct_banding_outputs :: "pydict list \<Rightarrow> banding_error + unit" where
  "require_distinct_banding_outputs factors = distinct_outputs_loop 0 factors []"

section \<open>The sidecar's rules\<close>

fun compact_rule_map :: "(pv \<Rightarrow> string) \<Rightarrow> rule_kind \<Rightarrow> pydict \<Rightarrow> (string, pv) odict \<Rightarrow>
    banding_error + (string, pv) odict" where
  "compact_rule_map other kind [] written = Inr written"
| "compact_rule_map other kind (item # items) written =
     (let key = py_str other (fst item); v = snd item
      in if kind = Categorical_rule \<and> key = [] then Inl Rule_key_empty
         else bind_result (validate_map_value kind key v) (\<lambda>_.
           if has_key key written then Inl (Rule_key_twice kind key)
           else compact_rule_map other kind items (AList.update key v written)))"

definition key_field :: "rule_kind \<Rightarrow> string" where
  "key_field kind = (case kind of Categorical_rule \<Rightarrow> ''value'' | Breakpoint_rule \<Rightarrow> ''boundary'')"

definition value_field :: "rule_kind \<Rightarrow> string" where
  "value_field kind = (case kind of Categorical_rule \<Rightarrow> ''assignment'' | Breakpoint_rule \<Rightarrow> ''label'')"

text \<open>One row's key and value; only a breakpoint's key may be empty.\<close>

definition compact_row :: "(pv \<Rightarrow> string) \<Rightarrow> rule_kind \<Rightarrow> nat \<Rightarrow> pv \<Rightarrow> banding_error + string \<times> pv" where
  "compact_row other kind i rule =
     (case rule of
        PDict d \<Rightarrow>
          let raw_key = get_or (key_field kind) PNone d; v = get_or (value_field kind) PNone d
          in if raw_key = PNone \<or> (raw_key = PStr [] \<and> kind = Categorical_rule)
             then Inl (Rule_key_required kind i)
             else let key = (if raw_key = PStr [] then [] else py_str other raw_key)
                  in if v = PNone \<or> v = PStr [] then Inl (Rule_value_required kind key i)
                     else if \<not> is_json_scalar v then Inl (Rule_value_not_scalar kind key)
                     else Inr (key, v)
      | _ \<Rightarrow> Inl (Rule_not_object kind i))"

fun compact_rule_rows :: "(pv \<Rightarrow> string) \<Rightarrow> rule_kind \<Rightarrow> nat \<Rightarrow> pv list \<Rightarrow> (string, pv) odict \<Rightarrow>
    banding_error + (string, pv) odict" where
  "compact_rule_rows other kind i [] written = Inr written"
| "compact_rule_rows other kind i (rule # rules) written =
     bind_result (compact_row other kind i rule) (\<lambda>(key, v).
       if has_key key written then Inl (Rule_key_twice kind key)
       else compact_rule_rows other kind (Suc i) rules (AList.update key v written))"

definition edge_as_written :: "(pv \<Rightarrow> string) \<Rightarrow> (string \<Rightarrow> pyfloat option) \<Rightarrow> string \<Rightarrow>
    banding_error + pv" where
  "edge_as_written other read_float boundary =
     (if is_integer_text boundary
      then (case py_int boundary of None \<Rightarrow> Inl (Edge_digits_limit boundary) | Some i \<Rightarrow> Inr (PInt i))
      else (case read_float boundary of
          None \<Rightarrow> Inr (PStr boundary)
        | Some x \<Rightarrow>
            Inr (case x of
                Fin r \<Rightarrow> if py_str other (PFloat x) = boundary then PFloat x else PStr boundary
              | _ \<Rightarrow> PStr boundary)))"

fun edge_as_read :: "(pv \<Rightarrow> string) \<Rightarrow> pv \<Rightarrow> banding_error + string" where
  "edge_as_read other (PInt i) = Inr (show_int i)"
| "edge_as_read other (PFloat x) = Inr (py_str other (PFloat x))"
| "edge_as_read other (PStr s) = Inr s"
| "edge_as_read other v = Inl (Edge_not_number_or_text v)"

definition band_with_edge :: "(pv \<Rightarrow> string) \<Rightarrow> (string \<Rightarrow> pyfloat option) \<Rightarrow> string \<times> pv \<Rightarrow>
    banding_error + pv" where
  "band_with_edge other read_float item =
     bind_result (edge_as_written other read_float (fst item))
       (\<lambda>edge. Inr (PDict [(PStr ''upper'', edge), (PStr ''label'', snd item)]))"

definition bands_for_sidecar :: "(pv \<Rightarrow> string) \<Rightarrow> (string \<Rightarrow> pyfloat option) \<Rightarrow> (string, pv) odict \<Rightarrow>
    banding_error + pv list" where
  "bands_for_sidecar other read_float written =
     bind_result (map_result (band_with_edge other read_float) (filter (\<lambda>item. fst item \<noteq> []) written))
       (\<lambda>bands. Inr (bands @ (case map_of written [] of
          None \<Rightarrow> [] | Some label \<Rightarrow> [PDict [(PStr ''label'', label)]])))"

definition band_from_sidecar :: "(pv \<Rightarrow> string) \<Rightarrow> nat \<Rightarrow> nat \<Rightarrow> pv \<Rightarrow> banding_error + pv" where
  "band_from_sidecar other bands i band =
     (case band of
        PDict d \<Rightarrow>
          if \<not> set (keys d) \<subseteq> {PStr ''upper'', PStr ''label''} \<or> \<not> dict_has ''label'' d
          then Inl (Band_malformed i)
          else if \<not> dict_has ''upper'' d \<and> Suc i \<noteq> bands then Inl Open_band_not_last
          else bind_result (if dict_has ''upper'' d then edge_as_read other (get_or ''upper'' PNone d) else Inr [])
            (\<lambda>boundary. let label = get_or ''label'' PNone d
              in bind_result (validate_map_value Breakpoint_rule boundary label)
                   (\<lambda>_. Inr (breakpoint_row boundary label)))
      | _ \<Rightarrow> Inl (Band_malformed i))"

definition bands_from_sidecar :: "(pv \<Rightarrow> string) \<Rightarrow> pv \<Rightarrow> banding_error + pv list" where
  "bands_from_sidecar other bands =
     (case bands of
        PList bs \<Rightarrow> map_result (\<lambda>(i, b). band_from_sidecar other (length bs) i b) (enumerate 0 bs)
      | _ \<Rightarrow> Inl Bands_not_a_list)"

text \<open>A null default is not written, so an absent one reads as null.\<close>

definition read_banding_factor :: "(pv \<Rightarrow> string) \<Rightarrow> pv \<Rightarrow> banding_error + pv" where
  "read_banding_factor other factor =
     (case factor of
        PDict d0 \<Rightarrow>
          let d = (if dict_has ''default'' d0 then d0 else dict_put ''default'' PNone d0);
              rules = get_or ''rules'' PNone d
          in if banding_type_of other d \<noteq> ''breakpoints'' then Inr (PDict d)
             else (case rules of
                 PDict _ \<Rightarrow> Inl Bands_written_as_map
               | PNone \<Rightarrow> Inr (PDict d)
               | _ \<Rightarrow> bind_result (bands_from_sidecar other rules)
                   (\<lambda>rows. Inr (PDict (dict_put ''rules'' (PList rows) d))))
      | _ \<Rightarrow> Inr factor)"

definition bands_read_from_sidecar :: "(pv \<Rightarrow> string) \<Rightarrow> pydict \<Rightarrow> banding_error + pydict" where
  "bands_read_from_sidecar other config =
     (case get_or ''factors'' PNone config of
        PList vs \<Rightarrow> bind_result (map_result (read_banding_factor other) vs)
          (\<lambda>vs'. Inr (dict_put ''factors'' (PList vs') config))
      | _ \<Rightarrow> Inr config)"

definition private_key :: "pv \<Rightarrow> bool" where
  "private_key k \<longleftrightarrow> (case k of PStr (c # _) \<Rightarrow> c = CHR ''_'' | _ \<Rightarrow> False)"

definition public_items :: "pydict \<Rightarrow> pydict" where
  "public_items d = filter (\<lambda>item. \<not> private_key (fst item)) d"

fun public_rule :: "pv \<Rightarrow> pv" where
  "public_rule (PDict d) = PDict (public_items d)"
| "public_rule v = v"

definition public_factor :: "pydict \<Rightarrow> pydict" where
  "public_factor factor =
     (let d = public_items factor
      in case get_or ''rules'' PNone d of
        PList rows \<Rightarrow> dict_put ''rules'' (PList (map public_rule rows)) d
      | _ \<Rightarrow> d)"

definition compact_rules :: "(pv \<Rightarrow> string) \<Rightarrow> rule_kind \<Rightarrow> string \<Rightarrow> pv \<Rightarrow>
    banding_error + (string, pv) odict" where
  "compact_rules other kind banding_type rules =
     (case rules of
        PNone \<Rightarrow> Inr []
      | PDict d \<Rightarrow> compact_rule_map other kind d []
      | PList rows \<Rightarrow> compact_rule_rows other kind 0 rows []
      | _ \<Rightarrow> Inl (Rules_not_a_list banding_type))"

definition drop_null_default :: "pydict \<Rightarrow> pydict" where
  "drop_null_default d =
     (if dict_has ''default'' d \<and> get_or ''default'' PNone d = PNone
      then AList.delete (PStr ''default'') d else d)"

definition as_pydict :: "(string, pv) odict \<Rightarrow> pydict" where
  "as_pydict written = map (\<lambda>item. (PStr (fst item), snd item)) written"

definition compact_banding_factor :: "(pv \<Rightarrow> string) \<Rightarrow> (string \<Rightarrow> pyfloat option) \<Rightarrow> pydict \<Rightarrow>
    banding_error + pydict" where
  "compact_banding_factor other read_float factor =
     (let d = public_factor factor; banding_type = banding_type_of other d; rules = get_or ''rules'' PNone d
      in if banding_type = ''categorical''
         then bind_result (compact_rules other Categorical_rule banding_type rules) (\<lambda>written.
           Inr (drop_null_default (dict_put ''rules'' (PDict (as_pydict written)) d)))
         else if banding_type = ''breakpoints''
         then bind_result (compact_rules other Breakpoint_rule banding_type rules) (\<lambda>written.
           bind_result (bands_for_sidecar other read_float written) (\<lambda>bands.
             Inr (drop_null_default (dict_put ''rules'' (PList bands) d))))
         else Inr d)"

definition compact_banding_config :: "(pv \<Rightarrow> string) \<Rightarrow> (string \<Rightarrow> pyfloat option) \<Rightarrow> pydict \<Rightarrow>
    banding_error + pydict" where
  "compact_banding_config other read_float config =
     with_factors (compact_banding_factor other read_float) config"

section \<open>What the writer accepts\<close>

lemma has_key_keys: "has_key k d \<longleftrightarrow> k \<in> set (keys d)"
  by (rule has_key_iff)

text \<open>The rows of an accepted list: each row's key and value, in order, no key twice.\<close>

lemma compact_rule_rows_Inr:
  "compact_rule_rows other kind i rows acc = Inr out \<Longrightarrow>
   \<exists>ps. list_all2 (\<lambda>(j, r) p. compact_row other kind j r = Inr p) (enumerate i rows) ps \<and>
     out = acc @ ps \<and> distinct (map fst ps) \<and> set (map fst ps) \<inter> set (keys acc) = {}"
proof (induction rows arbitrary: i acc)
  case (Cons r rows)
  obtain key v where r: "compact_row other kind i r = Inr (key, v)"
    and fresh: "key \<notin> set (keys acc)"
    and rest: "compact_rule_rows other kind (Suc i) rows (acc @ [(key, v)]) = Inr out"
    using Cons.prems by (auto simp: bind_result_Inr has_key_keys update_new split: if_splits)
  from Cons.IH [OF rest] obtain ps where ps:
    "list_all2 (\<lambda>(j, r) p. compact_row other kind j r = Inr p) (enumerate (Suc i) rows) ps"
    "out = (acc @ [(key, v)]) @ ps" "distinct (map fst ps)"
    "set (map fst ps) \<inter> set (keys (acc @ [(key, v)])) = {}" by blast
  then show ?case using r fresh
    by (intro exI [of _ "(key, v) # ps"]) auto
qed simp

definition row_pair :: "(pv \<Rightarrow> string) \<Rightarrow> rule_kind \<Rightarrow> pv \<Rightarrow> string \<times> pv" where
  "row_pair other kind rule =
     (case rule of
        PDict d \<Rightarrow> (py_str other (get_or (key_field kind) PNone d), get_or (value_field kind) PNone d)
      | _ \<Rightarrow> ([], PNone))"

definition storable :: "pv \<Rightarrow> bool" where
  "storable v \<longleftrightarrow> v \<noteq> PNone \<and> v \<noteq> PStr [] \<and> is_json_scalar v"

lemma compact_row_pair:
  "compact_row other kind i rule = Inr p \<Longrightarrow> p = row_pair other kind rule \<and> storable (snd p) \<and>
     (kind = Categorical_rule \<longrightarrow> (\<exists>d. rule = PDict d \<and> get_or ''value'' PNone d \<noteq> PStr []))"
  by (cases rule)
    (auto simp: compact_row_def row_pair_def storable_def Let_def key_field_def split: if_splits)

lemma validate_storable: "storable v \<Longrightarrow> validate_map_value kind key v = Inr ()"
  by (simp add: validate_map_value_def storable_def refuse_if_def)

lemma compact_rows_pairs:
  assumes "compact_rule_rows other kind 0 rows [] = Inr out"
  shows "out = map (row_pair other kind) rows" "distinct (map fst out)" "\<forall>p \<in> set out. storable (snd p)"
proof -
  from compact_rule_rows_Inr [OF assms] obtain ps where ps:
    "list_all2 (\<lambda>(j, r) p. compact_row other kind j r = Inr p) (enumerate 0 rows) ps"
    "out = ps" "distinct (map fst ps)" by auto
  have nth: "k < length rows \<Longrightarrow> compact_row other kind k (rows ! k) = Inr (ps ! k)" for k
    using list_all2_nthD [OF ps(1), of k] by (simp add: nth_enumerate_eq)
  have len: "length ps = length rows" using list_all2_lengthD [OF ps(1)] by simp
  show "out = map (row_pair other kind) rows"
    using compact_row_pair [OF nth] len ps(2) by (intro nth_equalityI) simp_all
  show "distinct (map fst out)" using ps by simp
  have "k < length rows \<Longrightarrow> storable (snd (ps ! k))" for k using compact_row_pair [OF nth] by blast
  then show "\<forall>p \<in> set out. storable (snd p)" unfolding ps(2) using len by (metis in_set_conv_nth)
qed

section \<open>Reading back\<close>

definition reread :: "string \<Rightarrow> string" where
  "reread key = (if key = ''-0'' then ''0'' else key)"

text \<open>An edge reads back to the text it was written from, except minus zero.\<close>

lemma edge_round_trip:
  assumes "edge_as_written other read_float key = Inr edge"
  shows "edge_as_read other edge = Inr (reread key)"
proof (cases "is_integer_text key")
  case True
  then obtain i where "py_int key = Some i" "edge = PInt i"
    using assms by (auto simp: edge_as_written_def split: option.splits)
  then show ?thesis using show_py_int [OF True] by (simp add: reread_def)
next
  case False
  have "is_integer_text ''-0''" by code_simp
  then have "reread key = key" using False by (auto simp: reread_def)
  then show ?thesis using False assms
    by (auto simp: edge_as_written_def split: option.splits pyfloat.splits if_splits)
qed

lemma band_round_trip:
  assumes "band_with_edge other read_float p = Inr band" "storable (snd p)"
  shows "band_from_sidecar other n i band = Inr (breakpoint_row (reread (fst p)) (snd p))"
proof -
  obtain edge where e: "edge_as_written other read_float (fst p) = Inr edge"
    and b: "band = PDict [(PStr ''upper'', edge), (PStr ''label'', snd p)]"
    using assms(1) by (auto simp: band_with_edge_def bind_result_Inr)
  have up: "dict_has ''upper'' [(PStr ''upper'', edge), (PStr ''label'', snd p)]"
    "dict_has ''label'' [(PStr ''upper'', edge), (PStr ''label'', snd p)]"
    "get_or ''upper'' PNone [(PStr ''upper'', edge), (PStr ''label'', snd p)] = edge"
    "get_or ''label'' PNone [(PStr ''upper'', edge), (PStr ''label'', snd p)] = snd p"
    by (simp_all add: dict_has_def get_or_def)
  show ?thesis
    unfolding b band_from_sidecar_def
    using up edge_round_trip [OF e] validate_storable [OF assms(2)] by (simp add: Let_def)
qed

definition open_last :: "(string \<times> pv) list \<Rightarrow> (string \<times> pv) list" where
  "open_last ps = filter (\<lambda>p. fst p \<noteq> []) ps @ filter (\<lambda>p. fst p = []) ps"

lemma filter_one_key:
  assumes "distinct (map fst ps)"
  shows "filter (\<lambda>p. fst p = k) ps = (case map_of ps k of None \<Rightarrow> [] | Some v \<Rightarrow> [(k, v)])"
  using assms
proof (induction ps)
  case (Cons p ps)
  then show ?case
    by (cases "fst p = k") (auto simp: filter_empty_conv image_iff split: option.splits)
qed simp

lemma bands_round_trip:
  assumes w: "bands_for_sidecar other read_float ps = Inr bands" and d: "distinct (map fst ps)"
    and s: "\<forall>p \<in> set ps. storable (snd p)"
  shows "bands_from_sidecar other (PList bands) =
    Inr (map (\<lambda>p. breakpoint_row (reread (fst p)) (snd p)) (open_last ps))"
proof -
  let ?row = "\<lambda>p. breakpoint_row (reread (fst p)) (snd p)"
  let ?closed = "filter (\<lambda>p. fst p \<noteq> []) ps" and ?open = "filter (\<lambda>p. fst p = []) ps"
  obtain bs where bs: "map_result (band_with_edge other read_float) ?closed = Inr bs"
    and bands: "bands = bs @ map (\<lambda>p. PDict [(PStr ''label'', snd p)]) ?open"
    using w by (auto simp: bands_for_sidecar_def bind_result_Inr filter_one_key [OF d] split: option.splits)
  have each: "list_all2 (\<lambda>p b. band_with_edge other read_float p = Inr b) ?closed bs"
    using bs by (simp add: map_result_Inr)
  have len: "length bs = length ?closed" using list_all2_lengthD [OF each] by simp
  have one: "length ?open \<le> 1" by (auto simp: filter_one_key [OF d] split: option.splits)
  have at: "band_from_sidecar other (length bands) k (bands ! k) = Inr (?row (open_last ps ! k))"
    if k: "k < length bands" for k
  proof (cases "k < length bs")
    case True
    have p: "?closed ! k \<in> set ps" using nth_mem [of k ?closed] True len by simp
    show ?thesis
      using band_round_trip [OF list_all2_nthD2 [OF each True]] s p True len
      by (simp add: bands open_last_def nth_append)
  next
    case False
    then have one': "k = length bs" "length ?open = 1" using k one bands by simp_all
    then obtain p where p: "?open = [p]" by (cases ?open) auto
    have "p \<in> set ?open" unfolding p by simp
    then have "p \<in> set ps \<and> fst p = []" by simp
    then have p': "storable (snd p)" "fst p = []" using s by auto
    have b: "bands ! k = PDict [(PStr ''label'', snd p)]" using one' p by (simp add: bands nth_append)
    have o: "open_last ps ! k = p" using one' p len by (simp add: open_last_def nth_append)
    have n: "Suc k = length bands" using one' by (simp add: bands)
    show ?thesis
      unfolding b o band_from_sidecar_def
      using validate_storable [OF p'(1)] p'(2) n by (simp add: dict_has_def get_or_def reread_def Let_def)
  qed
  have len_o: "length (open_last ps) = length bands" using len by (simp add: bands open_last_def)
  have "map_result (\<lambda>(i, b). band_from_sidecar other (length bands) i b) (enumerate 0 bands) =
      Inr (map ?row (open_last ps))"
    unfolding map_result_Inr
  proof (rule list_all2_all_nthI)
    show "length (enumerate 0 bands) = length (map ?row (open_last ps))"
      using len_o by simp
    show "(case enumerate 0 bands ! k of (i, b) \<Rightarrow> band_from_sidecar other (length bands) i b) =
        Inr (map ?row (open_last ps) ! k)" if "k < length (enumerate 0 bands)" for k
      using that at len_o by (simp add: nth_enumerate_eq)
  qed
  then show ?thesis by (simp add: bands_from_sidecar_def)
qed

section \<open>Factors\<close>

lemma map_of_public [simp]:
  "\<not> private_key k \<Longrightarrow> map_of (public_items d) k = map_of d k"
  unfolding public_items_def by (induction d) auto

lemma public_names [simp]: "\<not> private_key (PStr ''rules'')" "\<not> private_key (PStr ''banding'')"
  "\<not> private_key (PStr ''default'')" "\<not> private_key (PStr ''value'')" "\<not> private_key (PStr ''assignment'')"
  "\<not> private_key (PStr ''boundary'')" "\<not> private_key (PStr ''label'')"
  by (simp_all add: private_key_def)

lemma public_factor_other:
  "k \<noteq> ''rules'' \<Longrightarrow> \<not> private_key (PStr k) \<Longrightarrow> map_of (public_factor d) (PStr k) = map_of d (PStr k)"
  by (simp add: public_factor_def dict_put_def dict_simps Let_def split: pyval.split)

lemma public_factor_rules:
  "get_or ''rules'' PNone d = PList rows \<Longrightarrow>
   get_or ''rules'' PNone (public_factor d) = PList (map public_rule rows)"
  using get_or_cong [of "public_items d" "''rules''" d]
  by (simp add: public_factor_def get_or_put Let_def)

lemma row_pair_public: "row_pair other kind (public_rule r) = row_pair other kind r"
  by (cases r; cases kind) (simp_all add: row_pair_def get_or_def key_field_def value_field_def)

lemma drop_null_default_other:
  "k \<noteq> ''default'' \<Longrightarrow> map_of (drop_null_default d) (PStr k) = map_of d (PStr k)"
  by (simp add: drop_null_default_def dict_simps)

lemma drop_null_default_reads: "get_or ''default'' PNone (drop_null_default d) = get_or ''default'' PNone d"
  by (auto simp: drop_null_default_def get_or_def dict_has_def dict_simps split: option.splits)

text \<open>The rules as they read back: the text of each key with its value, nothing else of the row.\<close>

definition reloaded_rules :: "(pv \<Rightarrow> string) \<Rightarrow> rule_kind \<Rightarrow> pv list \<Rightarrow> pv list" where
  "reloaded_rules other kind rows =
     (case kind of
        Categorical_rule \<Rightarrow>
          map (\<lambda>p. categorical_row (fst p) (snd p)) (map (row_pair other kind) rows)
      | Breakpoint_rule \<Rightarrow>
          map (\<lambda>p. breakpoint_row (reread (fst p)) (snd p)) (open_last (map (row_pair other kind) rows)))"

definition rule_kind_name :: "rule_kind \<Rightarrow> string" where
  "rule_kind_name kind = (case kind of Categorical_rule \<Rightarrow> ''categorical'' | Breakpoint_rule \<Rightarrow> ''breakpoints'')"

text \<open>What the writer leaves of a factor: its rules in the sidecar's form, everything else as it was.\<close>

lemma compact_banding_factor_rules:
  assumes "compact_banding_factor other read_float d = Inr d'" "get_or ''rules'' PNone d = PList rows"
    "banding_type_of other d = rule_kind_name kind"
  obtains ps rules where "ps = map (row_pair other kind) rows" "distinct (map fst ps)"
    "\<forall>p \<in> set ps. storable (snd p)" "\<forall>r \<in> set rows. \<exists>i. compact_row other kind i (public_rule r) = Inr (row_pair other kind r)"
    "kind = Categorical_rule \<longrightarrow> rules = PDict (as_pydict ps)"
    "kind = Breakpoint_rule \<longrightarrow> (\<exists>bands. bands_for_sidecar other read_float ps = Inr bands \<and> rules = PList bands)"
    "d' = drop_null_default (dict_put ''rules'' rules (public_factor d))"
proof -
  let ?d = "public_factor d"
  have t: "banding_type_of other ?d = rule_kind_name kind"
    using assms(3) get_or_cong [OF public_factor_other [of "''banding''" d]]
    by (simp add: banding_type_of_def)
  have r: "get_or ''rules'' PNone ?d = PList (map public_rule rows)"
    by (rule public_factor_rules [OF assms(2)])
  obtain ps rules where ps: "compact_rule_rows other kind 0 (map public_rule rows) [] = Inr ps"
    and rules: "kind = Categorical_rule \<longrightarrow> rules = PDict (as_pydict ps)"
      "kind = Breakpoint_rule \<longrightarrow> (\<exists>bands. bands_for_sidecar other read_float ps = Inr bands \<and> rules = PList bands)"
      "d' = drop_null_default (dict_put ''rules'' rules ?d)"
    using assms(1) t r
    by (cases kind) (auto simp: compact_banding_factor_def compact_rules_def rule_kind_name_def
        bind_result_Inr Let_def)
  have e: "ps = map (row_pair other kind) rows"
    using compact_rows_pairs(1) [OF ps] by (simp add: row_pair_public o_def)
  obtain qs where qs: "list_all2 (\<lambda>(j, r) p. compact_row other kind j r = Inr p)
      (enumerate 0 (map public_rule rows)) qs"
    using compact_rule_rows_Inr [OF ps] by blast
  have "\<exists>i. compact_row other kind i (public_rule r) = Inr (row_pair other kind r)" if r: "r \<in> set rows" for r
  proof -
    obtain k where k: "k < length rows" "rows ! k = r" using r by (auto simp: in_set_conv_nth)
    then have "compact_row other kind k (public_rule r) = Inr (qs ! k)"
      using list_all2_nthD [OF qs, of k] by (simp add: nth_enumerate_eq)
    then show ?thesis using compact_row_pair row_pair_public by metis
  qed
  then show ?thesis
    using that [OF e] compact_rows_pairs(2,3) [OF ps] rules by blast
qed

text \<open>
  C33: What a banding factor's sidecar keeps. Take a categorical or breakpoints factor whose rules
  are a list, and that the writer accepts (and suppose Python's text of a value is never empty).
  It reads back from the file with one rule for each rule it had, in order: the rule's key as
  text, so that a number given as a key becomes its digits, and its assignment or label
  unchanged; any other field of a rule is dropped. The open-ended band comes last and an edge
  written minus zero is read as zero. Every public setting of the factor other than the rules is
  unchanged, and the default is the same, an absent one being null.
\<close>

theorem banding_factor_reloads:
  assumes "compact_banding_factor other read_float d = Inr d'"
    "get_or ''rules'' PNone d = PList rows" "banding_type_of other d = rule_kind_name kind"
    "\<And>v. other v \<noteq> []"
  shows "\<exists>d1 d2. read_banding_factor other (PDict d') = Inr (PDict d1) \<and>
    expand_banding_factor other d1 = Inr d2 \<and>
    get_or ''rules'' PNone d2 = PList (reloaded_rules other kind rows) \<and>
    get_or ''default'' PNone d2 = get_or ''default'' PNone d \<and>
    (\<forall>k. k \<noteq> ''rules'' \<longrightarrow> k \<noteq> ''default'' \<longrightarrow> \<not> private_key (PStr k) \<longrightarrow>
      map_of d2 (PStr k) = map_of d (PStr k))"
proof -
  from compact_banding_factor_rules [OF assms(1-3)] obtain ps rules where
    ps: "ps = map (row_pair other kind) rows" "distinct (map fst ps)" "\<forall>p \<in> set ps. storable (snd p)"
    and rows: "\<forall>r \<in> set rows. \<exists>i. compact_row other kind i (public_rule r) = Inr (row_pair other kind r)"
    and rules: "kind = Categorical_rule \<longrightarrow> rules = PDict (as_pydict ps)"
      "kind = Breakpoint_rule \<longrightarrow> (\<exists>bands. bands_for_sidecar other read_float ps = Inr bands \<and> rules = PList bands)"
    and d': "d' = drop_null_default (dict_put ''rules'' rules (public_factor d))" .
  define d0 where "d0 = (if dict_has ''default'' d' then d' else dict_put ''default'' PNone d')"
  have others: "map_of d0 (PStr k) = map_of d (PStr k)"
    if "k \<noteq> ''rules''" "k \<noteq> ''default''" "\<not> private_key (PStr k)" for k
    using that by (simp add: d0_def d' dict_put_def dict_simps drop_null_default_other public_factor_other)
  have r0: "get_or ''rules'' PNone d0 = rules"
    using get_or_cong [OF drop_null_default_other [of "''rules''" "dict_put ''rules'' rules (public_factor d)"]]
    by (simp add: d0_def d' get_or_put)
  have "get_or ''default'' PNone d' = get_or ''default'' PNone d"
    using get_or_cong [OF public_factor_other [of "''default''" d]]
    by (simp add: d' drop_null_default_reads get_or_put)
  then have def0: "get_or ''default'' PNone d0 = get_or ''default'' PNone d"
    by (auto simp: d0_def get_or_put) (simp add: get_or_def dict_has_def)
  have t0: "banding_type_of other d0 = rule_kind_name kind"
    using assms(3) get_or_cong [OF others [of "''banding''"]] by (simp add: banding_type_of_def)
  have has: "dict_has ''rules'' d0" using r0 rules by (cases kind) (auto simp: dict_has_def get_or_def split: option.splits)
  show ?thesis
  proof (cases kind)
    case Categorical_rule
    have key: "fst p \<noteq> []" if p: "p \<in> set ps" for p
    proof -
      obtain r where r: "r \<in> set rows" "p = row_pair other kind r" using p ps(1) by auto
      obtain i where "compact_row other kind i (public_rule r) = Inr (row_pair other kind r)"
        using rows r(1) by blast
      from compact_row_pair [OF this] Categorical_rule obtain e where
        e: "public_rule r = PDict e" "get_or ''value'' PNone e \<noteq> PStr []" by blast
      then have "p = (py_str other (get_or ''value'' PNone e), get_or ''assignment'' PNone e)"
        using r(2) Categorical_rule row_pair_public [of other kind r]
        by (simp add: row_pair_def key_field_def value_field_def)
      then show ?thesis using e(2) assms(4) show_nat_digits
        by (cases "get_or ''value'' PNone e") (auto simp: show_int_def)
    qed
    have "map_result (expand_rule other Categorical_rule) (as_pydict ps) =
        Inr (map (\<lambda>p. categorical_row (fst p) (snd p)) ps)"
      unfolding map_result_Inr list_all2_conv_all_nth
      using key ps(3) by (simp add: as_pydict_def expand_rule_def validate_storable)
    then have "expand_banding_factor other d0 =
        Inr (dict_put ''rules'' (PList (map (\<lambda>p. categorical_row (fst p) (snd p)) ps)) d0)"
      using has r0 mp [OF rules(1) Categorical_rule] t0 Categorical_rule
      by (simp add: expand_banding_factor_def normalise_banding_rules_def expand_rule_map_def rule_kind_name_def)
    moreover have "read_banding_factor other (PDict d') = Inr (PDict d0)"
      using t0 Categorical_rule by (simp add: read_banding_factor_def d0_def [symmetric] Let_def rule_kind_name_def)
    ultimately show ?thesis
      using others def0 Categorical_rule ps(1)
      by (simp add: get_or_put reloaded_rules_def) (simp add: dict_put_def dict_simps)
  next
    case Breakpoint_rule
    obtain bands where b: "bands_for_sidecar other read_float ps = Inr bands" "rules = PList bands"
      using mp [OF rules(2) Breakpoint_rule] by blast
    let ?rows = "map (\<lambda>p. breakpoint_row (reread (fst p)) (snd p)) (open_last ps)"
    have "read_banding_factor other (PDict d') = Inr (PDict (dict_put ''rules'' (PList ?rows) d0))"
      using t0 Breakpoint_rule r0 b bands_round_trip [OF b(1) ps(2,3)]
      by (simp add: read_banding_factor_def d0_def [symmetric] Let_def rule_kind_name_def)
    moreover have "expand_banding_factor other (dict_put ''rules'' (PList ?rows) d0) =
        Inr (dict_put ''rules'' (PList ?rows) (dict_put ''rules'' (PList ?rows) d0))"
      by (simp add: expand_banding_factor_def normalise_banding_rules_def get_or_put)
        (simp add: dict_has_def dict_put_def dict_simps)
    ultimately show ?thesis
      using others def0 Breakpoint_rule ps(1)
      by (simp add: get_or_put reloaded_rules_def) (simp add: dict_put_def dict_simps)
  qed
qed

definition sample_factor :: pydict where
  "sample_factor = [(PStr ''banding'', PStr ''breakpoints''), (PStr ''column'', PStr ''age''),
     (PStr ''_open'', PBool True),
     (PStr ''rules'', PList [breakpoint_row [] (PStr ''old''), breakpoint_row ''-0'' (PStr ''odd''),
        breakpoint_row ''25'' (PStr ''young'')])]"

theorem banding_factor_reloads_witness:
  "\<exists>d' d1 d2. compact_banding_factor (\<lambda>v. ''?'') (\<lambda>s. None) sample_factor = Inr d' \<and>
     read_banding_factor (\<lambda>v. ''?'') (PDict d') = Inr (PDict d1) \<and>
     expand_banding_factor (\<lambda>v. ''?'') d1 = Inr d2 \<and>
     get_or ''rules'' PNone d2 = PList [breakpoint_row ''0'' (PStr ''odd''),
       breakpoint_row ''25'' (PStr ''young''), breakpoint_row [] (PStr ''old'')]"
proof -
  let ?o = "\<lambda>v :: pv. ''?''"
  let ?rows = "[breakpoint_row [] (PStr ''old''), breakpoint_row ''-0'' (PStr ''odd''),
        breakpoint_row ''25'' (PStr ''young'')]"
  obtain d' where d': "compact_banding_factor ?o (\<lambda>s. None) sample_factor = Inr d'"
  proof -
    have "(case compact_banding_factor ?o (\<lambda>s. None) sample_factor of Inl e \<Rightarrow> False | Inr d \<Rightarrow> True)"
      by code_simp
    then show ?thesis using that by (auto split: sum.splits)
  qed
  have r: "get_or ''rules'' PNone sample_factor = PList ?rows" by code_simp
  have t: "banding_type_of ?o sample_factor = rule_kind_name Breakpoint_rule" by code_simp
  have e: "reloaded_rules ?o Breakpoint_rule ?rows = [breakpoint_row ''0'' (PStr ''odd''),
       breakpoint_row ''25'' (PStr ''young''), breakpoint_row [] (PStr ''old'')]" by code_simp
  from banding_factor_reloads [OF d' r t] d' e show ?thesis by auto
qed

end
