(* ===== verification/Banding.thy ===== *)
theory Banding
  imports Banding_Config Floats
begin

text \<open>
  Banding as the engine applies it, the banding half of \<open>haute/_rating.py\<close>: breakpoints become
  interval rules, rules become a Polars expression, factors become the columns written.

  Polars is not part of the repository. The code builds expressions, which are the datatype
  \<open>pl_expr\<close> with a constructor for every call the code makes; what an expression computes on a row
  is a parameter \<open>ev\<close>, and the locale \<open>polars\<close> states the documented behaviour the code relies on. A cell
  is what a row holds in a column: a number, a date (its ordinal day) or a date and time (its
  microseconds), text or nothing. The lemmas show that the intervals are those the breakpoints
  mean, that they do not overlap, and what the written columns hold.
\<close>

section \<open>Boundaries\<close>

datatype boundary = Bound_number rat | Bound_date int | Bound_moment int

definition require_banding_type :: "string \<Rightarrow> banding_error + unit" where
  "require_banding_type banding_type =
     refuse_if (banding_type \<notin> {''breakpoints'', ''categorical''}) (Unsupported_banding_type banding_type)"

text \<open>The digits at some places of a text, and the separators at others: a fixed-width pattern.\<close>

definition number_at :: "nat \<Rightarrow> nat \<Rightarrow> string \<Rightarrow> nat option" where
  "number_at i n s =
     (let part = take n (drop i s)
      in if length part = n \<and> list_all is_digit part
         then Some (foldl (\<lambda>a c. a * 10 + the (digit_of c)) 0 part) else None)"

definition char_at :: "nat \<Rightarrow> string \<Rightarrow> char option" where
  "char_at i s = (if i < length s then Some (s ! i) else None)"

text \<open>\<open>date.fromisoformat\<close>: a proleptic Gregorian day, as its ordinal.\<close>

definition leap_year :: "nat \<Rightarrow> bool" where
  "leap_year y \<longleftrightarrow> y mod 4 = 0 \<and> (y mod 100 \<noteq> 0 \<or> y mod 400 = 0)"

definition days_in_month :: "nat \<Rightarrow> nat \<Rightarrow> nat" where
  "days_in_month y m =
     (if m = 2 then (if leap_year y then 29 else 28) else if m \<in> {4, 6, 9, 11} then 30 else 31)"

definition day_ordinal :: "nat \<Rightarrow> nat \<Rightarrow> nat \<Rightarrow> int" where
  "day_ordinal y m d =
     (let p = y - 1
      in int (p * 365 + p div 4 - p div 100 + p div 400 +
           sum_list (map (days_in_month y) [1..<m]) + d))"

definition civil_day :: "nat \<Rightarrow> nat \<Rightarrow> nat \<Rightarrow> int option" where
  "civil_day y m d =
     (if 1 \<le> y \<and> 1 \<le> m \<and> m \<le> 12 \<and> 1 \<le> d \<and> d \<le> days_in_month y m
      then Some (day_ordinal y m d) else None)"

text \<open>The outer option says whether the pattern matches, the inner whether it names a day.\<close>

definition date_prefix :: "string \<Rightarrow> int option option" where
  "date_prefix s =
     (case (number_at 0 4 s, number_at 5 2 s, number_at 8 2 s) of
        (Some y, Some m, Some d) \<Rightarrow>
          if char_at 4 s = Some (CHR ''-'') \<and> char_at 7 s = Some (CHR ''-'')
          then Some (civil_day y m d) else None
      | _ \<Rightarrow> None)"

definition parse_date :: "string \<Rightarrow> int option" where
  "parse_date s = (if length s = 10 then Option.bind (date_prefix s) id else None)"

text \<open>Seconds and their fraction, after the minutes: absent, or two digits and at most six more.\<close>

definition parse_seconds :: "string \<Rightarrow> nat option" where
  "parse_seconds s =
     (if s = [] then Some 0
      else case number_at 1 2 s of
          Some sec \<Rightarrow>
            if char_at 0 s \<noteq> Some (CHR '':'') \<or> 59 < sec then None
            else if length s = 3 then Some (sec * 1000000)
            else let digits = length s - 4
                 in if char_at 3 s = Some (CHR ''.'') \<and> 1 \<le> digits \<and> digits \<le> 6
                    then map_option (\<lambda>f. sec * 1000000 + f * 10 ^ (6 - digits)) (number_at 4 digits s)
                    else None
        | None \<Rightarrow> None)"

definition parse_moment :: "string \<Rightarrow> int option" where
  "parse_moment s =
     (case (date_prefix s, number_at 11 2 s, number_at 14 2 s, parse_seconds (drop 16 s)) of
        (Some (Some day), Some h, Some mi, Some micros) \<Rightarrow>
          if (char_at 10 s = Some (CHR ''T'') \<or> char_at 10 s = Some (CHR '' '')) \<and>
             char_at 13 s = Some (CHR '':'') \<and> h < 24 \<and> mi < 60
          then Some (day * 86400000000 + int ((h * 60 + mi) * 60000000 + micros)) else None
      | _ \<Rightarrow> None)"

definition parse_breakpoint_boundary :: "(string \<Rightarrow> pyfloat option) \<Rightarrow> string \<Rightarrow>
    banding_error + boundary" where
  "parse_breakpoint_boundary read_float boundary =
     (let s = py_strip boundary
      in case read_float s of
          Some (Fin r) \<Rightarrow> Inr (Bound_number r)
        | Some _ \<Rightarrow> Inl (Boundary_not_finite boundary)
        | None \<Rightarrow>
            (case parse_date s of
               Some day \<Rightarrow> Inr (Bound_date day)
             | None \<Rightarrow>
                 (case parse_moment s of
                    Some m \<Rightarrow> Inr (Bound_moment m)
                  | None \<Rightarrow> Inl (Boundary_unreadable boundary))))"

definition kind_of :: "boundary \<Rightarrow> boundary_kind" where
  "kind_of b = (case b of Bound_number _ \<Rightarrow> Number_kind | Bound_date _ \<Rightarrow> Date_kind
     | Bound_moment _ \<Rightarrow> Datetime_kind)"

text \<open>Boundaries of one kind compare by this key.\<close>

definition bound_key :: "boundary \<Rightarrow> rat" where
  "bound_key b = (case b of Bound_number r \<Rightarrow> r | Bound_date d \<Rightarrow> of_int d | Bound_moment m \<Rightarrow> of_int m)"

text \<open>\<open>str(bp.get("boundary", "") or "").strip()\<close> of a row; a row that is no mapping has no \<open>get\<close>.\<close>

definition boundary_text :: "(pv \<Rightarrow> string) \<Rightarrow> pv \<Rightarrow> banding_error + string" where
  "boundary_text other row =
     (case row of
        PDict d \<Rightarrow> Inr (py_strip (text_or_empty other (get_or ''boundary'' (PStr []) d)))
      | _ \<Rightarrow> Inl Row_not_mapping)"

definition row_kind :: "(pv \<Rightarrow> string) \<Rightarrow> (string \<Rightarrow> pyfloat option) \<Rightarrow> pv \<Rightarrow>
    banding_error + boundary_kind option" where
  "row_kind other read_float row =
     bind_result (boundary_text other row) (\<lambda>s.
       if s = [] then Inr None
       else bind_result (parse_breakpoint_boundary read_float s) (\<lambda>b. Inr (Some (kind_of b))))"

definition breakpoints_kind :: "(pv \<Rightarrow> string) \<Rightarrow> (string \<Rightarrow> pyfloat option) \<Rightarrow> pv \<Rightarrow>
    banding_error + boundary_kind" where
  "breakpoints_kind other read_float breakpoints =
     bind_result (normalise_banding_rules other ''breakpoints'' breakpoints) (\<lambda>rows.
       bind_result (map_result (row_kind other read_float) rows) (\<lambda>kinds.
         case remdups (List.map_filter id kinds) of
           [] \<Rightarrow> Inr Number_kind
         | [k] \<Rightarrow> Inr k
         | ks \<Rightarrow> Inl (Kinds_mixed ks)))"

section \<open>Interval rules\<close>

record interval_rule =
  rule_op1 :: string
  rule_val1 :: "boundary option"
  rule_op2 :: string
  rule_val2 :: "boundary option"
  rule_assignment :: string

text \<open>A breakpoint with a boundary: its boundary, its label, its place among the rows.\<close>

type_synonym bounded = "boundary \<times> string \<times> nat"

definition label_text :: "(pv \<Rightarrow> string) \<Rightarrow> pv \<Rightarrow> string" where
  "label_text other row =
     (case row of PDict d \<Rightarrow> text_or_empty other (get_or ''label'' (PStr []) d) | _ \<Rightarrow> [])"

fun separate :: "(pv \<Rightarrow> string) \<Rightarrow> (string \<Rightarrow> pyfloat option) \<Rightarrow> nat \<Rightarrow> pv list \<Rightarrow>
    banding_error + bounded list \<times> (string \<times> nat) list" where
  "separate other read_float i [] = Inr ([], [])"
| "separate other read_float i (row # rows) =
     bind_result (boundary_text other row) (\<lambda>s.
       if s = []
       then bind_result (separate other read_float (Suc i) rows)
              (\<lambda>(bs, os). Inr (bs, (label_text other row, i) # os))
       else bind_result (parse_breakpoint_boundary read_float s) (\<lambda>b.
              bind_result (separate other read_float (Suc i) rows)
                (\<lambda>(bs, os). Inr ((b, label_text other row, i) # bs, os))))"

fun intervals_from :: "bool \<Rightarrow> boundary option \<Rightarrow> bounded list \<Rightarrow> (interval_rule \<times> nat) list" where
  "intervals_from right_closed prev [] = []"
| "intervals_from right_closed prev ((b, label, source) # bs) =
     (case prev of
        None \<Rightarrow> \<lparr>rule_op1 = (if right_closed then ''<='' else ''<''), rule_val1 = Some b, rule_op2 = [],
                 rule_val2 = None, rule_assignment = label\<rparr>
      | Some p \<Rightarrow> \<lparr>rule_op1 = (if right_closed then ''>'' else ''>=''), rule_val1 = Some p,
                   rule_op2 = (if right_closed then ''<='' else ''<''), rule_val2 = Some b,
                   rule_assignment = label\<rparr>, source)
     # intervals_from right_closed (Some b) bs"

definition open_interval :: "bool \<Rightarrow> boundary \<Rightarrow> string \<times> nat \<Rightarrow> interval_rule \<times> nat" where
  "open_interval right_closed b op =
     (\<lparr>rule_op1 = (if right_closed then ''>'' else ''>=''), rule_val1 = Some b, rule_op2 = [],
       rule_val2 = None, rule_assignment = fst op\<rparr>, snd op)"

definition rules_with_sources :: "(pv \<Rightarrow> string) \<Rightarrow> (string \<Rightarrow> pyfloat option) \<Rightarrow> pv \<Rightarrow> bool \<Rightarrow>
    banding_error + (interval_rule \<times> nat) list" where
  "rules_with_sources other read_float breakpoints right_closed =
     bind_result (normalise_banding_rules other ''breakpoints'' breakpoints) (\<lambda>rows.
       if rows = [] then Inr []
       else bind_result (breakpoints_kind other read_float (PList rows)) (\<lambda>_.
         bind_result (separate other read_float 0 rows) (\<lambda>(bounded, opens).
           if 1 < length opens then Inl (Two_open_bands (length opens))
           else if opens \<noteq> [] \<and> bounded = [] then Inl Only_open_band
           else let ordered = sort_key (\<lambda>e. bound_key (fst e)) bounded
                in if \<not> distinct (map fst ordered) then Inl Boundary_twice
                   else Inr (intervals_from right_closed None ordered @
                     (if ordered = [] then []
                      else map (open_interval right_closed (fst (last ordered))) opens)))))"

definition breakpoints_to_rules :: "(pv \<Rightarrow> string) \<Rightarrow> (string \<Rightarrow> pyfloat option) \<Rightarrow> pv \<Rightarrow> bool \<Rightarrow>
    banding_error + interval_rule list" where
  "breakpoints_to_rules other read_float breakpoints right_closed =
     bind_result (rules_with_sources other read_float breakpoints right_closed) (\<lambda>rs. Inr (map fst rs))"

definition supported_operators :: "string list" where
  "supported_operators = [''<'', ''<='', ''>'', ''>='']"

definition comparator :: "string \<Rightarrow> boundary option \<Rightarrow> banding_error + (string \<times> boundary) list" where
  "comparator raw_op v =
     (let op = py_strip raw_op
      in case v of
        None \<Rightarrow> Inr []
      | Some b \<Rightarrow> if op = [] then Inr []
                  else if op \<notin> set supported_operators then Inl (Unsupported_operator op)
                  else Inr [(op, b)])"

definition rule_comparators :: "interval_rule \<Rightarrow> banding_error + (string \<times> boundary) list" where
  "rule_comparators rule =
     bind_result (comparator (rule_op1 rule) (rule_val1 rule)) (\<lambda>c1.
       bind_result (comparator (rule_op2 rule) (rule_val2 rule)) (\<lambda>c2. Inr (c1 @ c2)))"

section \<open>Expressions\<close>

datatype pl_expr =
    Column string
  | Null_lit
  | Value_lit pv
  | Text_lit string
  | Index_lit nat
  | Compare string pl_expr boundary
  | And_expr pl_expr pl_expr
  | Or_expr pl_expr pl_expr
  | Is_nan pl_expr
  | Is_infinite pl_expr
  | Without_zone pl_expr
  | Date_part pl_expr
  | Cast_text pl_expr
  | Replace_strict pl_expr "(string \<times> pl_expr) list" pl_expr
  | When "(pl_expr \<times> pl_expr) list" pl_expr

text \<open>
  The column types the code tells apart; an absent column has none. The integer type stands for
  every numeric type that is no float, a decimal among them, which the code treats alike.
\<close>

datatype column_type =
    Null_type
  | Float_type
  | Integer_type
  | Date_type
  | Datetime_type bool
  | Text_type
  | Other_type

definition is_numeric :: "column_type \<Rightarrow> bool" where
  "is_numeric t \<longleftrightarrow> t = Float_type \<or> t = Integer_type"

definition is_temporal :: "column_type \<Rightarrow> bool" where
  "is_temporal t \<longleftrightarrow> t = Date_type \<or> (\<exists>z. t = Datetime_type z)"

definition banding_comparison_expr :: "pl_expr \<Rightarrow> column_type option \<Rightarrow> boundary_kind \<Rightarrow> string \<Rightarrow>
    banding_error + pl_expr" where
  "banding_comparison_expr col dtype kind output =
     (if dtype = Some Null_type then Inr col
      else case kind of
        Number_kind \<Rightarrow>
          (case dtype of
             None \<Rightarrow> Inr col
           | Some t \<Rightarrow>
               if is_temporal t \<or> \<not> is_numeric t then Inl (Column_kind_mismatch output)
               else if t = Float_type
               then Inr (When [(Or_expr (Is_nan col) (Is_infinite col), Null_lit)] col)
               else Inr col)
      | _ \<Rightarrow>
          (case dtype of
             Some (Datetime_type zoned) \<Rightarrow>
               let wall_clock = (if zoned then Without_zone col else col)
               in Inr (if kind = Date_kind then Date_part wall_clock else wall_clock)
           | Some Date_type \<Rightarrow>
               if kind = Date_kind then Inr col else Inl (Column_kind_mismatch output)
           | _ \<Rightarrow> Inl (Column_kind_mismatch output)))"

definition banding_condition :: "pl_expr \<Rightarrow> interval_rule \<Rightarrow> banding_error + pl_expr option" where
  "banding_condition col rule =
     bind_result (rule_comparators rule) (\<lambda>cs.
       Inr (case map (\<lambda>(op, b). Compare op col b) cs of
          [] \<Rightarrow> None
        | e # es \<Rightarrow> Some (fold (\<lambda>p r. And_expr r p) es e)))"

text \<open>
  One branch of the chain for every rule that has a condition and an assignment: the condition
  and what \<open>pick\<close> makes of the rule.
\<close>

fun chain_branches :: "pl_expr \<Rightarrow> (interval_rule \<times> nat \<Rightarrow> pl_expr) \<Rightarrow> (interval_rule \<times> nat) list \<Rightarrow>
    banding_error + (pl_expr \<times> pl_expr) list" where
  "chain_branches col pick [] = Inr []"
| "chain_branches col pick (r # rs) =
     bind_result (banding_condition col (fst r)) (\<lambda>cond.
       bind_result (chain_branches col pick rs) (\<lambda>branches.
         Inr (case cond of
            None \<Rightarrow> branches
          | Some c \<Rightarrow> if rule_assignment (fst r) = [] then branches else (c, pick r) # branches)))"

fun categorical_claims :: "(pv \<Rightarrow> string) \<Rightarrow> nat \<Rightarrow> pv list \<Rightarrow> (string, nat \<times> string) odict \<Rightarrow>
    banding_error + (string, nat \<times> string) odict" where
  "categorical_claims other i [] claims = Inr claims"
| "categorical_claims other i (row # rows) claims =
     (case row of
        PDict d \<Rightarrow>
          let v = get_or ''value'' (PStr []) d; a = get_or ''assignment'' (PStr []) d
          in categorical_claims other (Suc i) rows
               (if v = PNone \<or> v = PStr [] \<or> a = PNone \<or> a = PStr [] then claims
                else AList.update (py_str other v) (i, py_str other a) claims)
      | _ \<Rightarrow> Inl Row_not_mapping)"

text \<open>A default is a JSON scalar: \<open>pl.lit\<close> raises on a value it cannot hold, which is left out.\<close>

definition default_expr :: "pv \<Rightarrow> pl_expr" where
  "default_expr dflt = (if dflt = PNone then Null_lit else Value_lit dflt)"

text \<open>A factor as \<open>_apply_banding\<close> takes it.\<close>

record band_call =
  call_column :: string
  call_output :: string
  call_type :: string
  call_rules :: pv
  call_default :: pv
  call_right_closed :: bool

text \<open>The expression written to the output column, if any.\<close>

definition apply_categorical :: "(pv \<Rightarrow> string) \<Rightarrow> band_call \<Rightarrow> pv list \<Rightarrow> banding_error + pl_expr option" where
  "apply_categorical other call rows =
     bind_result (categorical_claims other 0 rows []) (\<lambda>claims.
       if claims = []
       then (if rows \<noteq> [] then Inl (No_usable_rule (call_output call)) else Inr None)
       else Inr (Some (Replace_strict (Cast_text (Column (call_column call)))
              (map (\<lambda>(v, i, a). (v, Text_lit a)) claims) (default_expr (call_default call)))))"

definition apply_breakpoints :: "(pv \<Rightarrow> string) \<Rightarrow> (string \<Rightarrow> pyfloat option) \<Rightarrow>
    (string \<Rightarrow> column_type option) \<Rightarrow> band_call \<Rightarrow> pv list \<Rightarrow> banding_error + pl_expr option" where
  "apply_breakpoints other read_float schema call rows =
     bind_result (breakpoints_kind other read_float (PList rows)) (\<lambda>kind.
     bind_result (rules_with_sources other read_float (PList rows) (call_right_closed call)) (\<lambda>rules.
     bind_result (banding_comparison_expr (Column (call_column call)) (schema (call_column call)) kind
       (call_output call)) (\<lambda>col.
     bind_result (chain_branches col (\<lambda>r. Text_lit (rule_assignment (fst r))) rules) (\<lambda>branches.
       if branches = []
       then (if rows \<noteq> [] then Inl (No_usable_rule (call_output call)) else Inr None)
       else Inr (Some (When branches (default_expr (call_default call))))))))"

definition apply_banding :: "(pv \<Rightarrow> string) \<Rightarrow> (string \<Rightarrow> pyfloat option) \<Rightarrow>
    (string \<Rightarrow> column_type option) \<Rightarrow> band_call \<Rightarrow> banding_error + pl_expr option" where
  "apply_banding other read_float schema call =
     bind_result (require_banding_type (call_type call)) (\<lambda>_.
     bind_result (normalise_banding_rules other (call_type call) (call_rules call)) (\<lambda>rows.
       if call_type call = ''categorical'' then apply_categorical other call rows
       else apply_breakpoints other read_float schema call rows))"

text \<open>
  The statistics of the editor ask which rule claims a row. With no rules no row is claimed
  (\<open>None\<close> stands for a column of nulls).
\<close>

definition rule_claim_expr :: "(pv \<Rightarrow> string) \<Rightarrow> (string \<Rightarrow> pyfloat option) \<Rightarrow>
    (string \<Rightarrow> column_type option) \<Rightarrow> band_call \<Rightarrow> banding_error + pl_expr option" where
  "rule_claim_expr other read_float schema call =
     bind_result (require_banding_type (call_type call)) (\<lambda>_.
     bind_result (normalise_banding_rules other (call_type call) (call_rules call)) (\<lambda>rows.
       if rows = [] then Inr None
       else if call_type call = ''categorical''
       then bind_result (categorical_claims other 0 rows []) (\<lambda>claims.
         if claims = [] then Inl (No_usable_rule (call_output call))
         else Inr (Some (Replace_strict (Cast_text (Column (call_column call)))
                (map (\<lambda>(v, i, a). (v, Index_lit i)) claims) Null_lit)))
       else
         bind_result (breakpoints_kind other read_float (PList rows)) (\<lambda>kind.
         bind_result (banding_comparison_expr (Column (call_column call)) (schema (call_column call)) kind
           (call_output call)) (\<lambda>col.
         bind_result (rules_with_sources other read_float (PList rows) (call_right_closed call)) (\<lambda>rules.
         bind_result (chain_branches col (\<lambda>r. Index_lit (snd r)) rules) (\<lambda>branches.
           if branches = [] then Inl (No_usable_rule (call_output call))
           else Inr (Some (When branches Null_lit))))))))"

section \<open>Factors\<close>

definition banding_name :: "(pv \<Rightarrow> string) \<Rightarrow> pydict \<Rightarrow> string" where
  "banding_name other factor = text_or_empty other (get_or ''banding'' (PStr []) factor)"

text \<open>A factor's call, for a factor whose column and output column are names.\<close>

definition band_call_of :: "(pv \<Rightarrow> string) \<Rightarrow> pydict \<Rightarrow> banding_error + band_call" where
  "band_call_of other f =
     (case (get_or ''column'' PNone f, get_or ''output_column'' PNone f) of
        (PStr c, PStr out) \<Rightarrow>
          Inr \<lparr>call_column = c, call_output = out, call_type = banding_name other f,
               call_rules = get_or ''rules'' PNone f, call_default = get_or ''default'' PNone f,
               call_right_closed = py_truthy (get_or ''right_closed'' (PBool True) f)\<rparr>
      | (PStr c, v) \<Rightarrow> Inl (Column_not_text v)
      | (v, _) \<Rightarrow> Inl (Column_not_text v))"

text \<open>
  The columns the factors write, in order. A written band is text, so the schema the later
  factors see has it as text.
\<close>

fun banding_plan :: "(pv \<Rightarrow> string) \<Rightarrow> (string \<Rightarrow> pyfloat option) \<Rightarrow> (string \<Rightarrow> column_type option) \<Rightarrow>
    pydict list \<Rightarrow> banding_error + (string \<times> pl_expr) list" where
  "banding_plan other read_float schema [] = Inr []"
| "banding_plan other read_float schema (f # fs) =
     bind_result (require_banding_type (banding_name other f)) (\<lambda>_.
       if \<not> banding_factor_is_active f then banding_plan other read_float schema fs
       else bind_result (band_call_of other f) (\<lambda>call.
            bind_result (apply_banding other read_float schema call) (\<lambda>e.
              case e of
                None \<Rightarrow> banding_plan other read_float schema fs
              | Some expr \<Rightarrow>
                  bind_result (banding_plan other read_float (schema(call_output call \<mapsto> Text_type)) fs)
                    (\<lambda>plan. Inr ((call_output call, expr) # plan)))))"

definition apply_banding_factors :: "(pv \<Rightarrow> string) \<Rightarrow> (string \<Rightarrow> pyfloat option) \<Rightarrow>
    (string \<Rightarrow> column_type option) \<Rightarrow> pydict list \<Rightarrow> banding_error + (string \<times> pl_expr) list" where
  "apply_banding_factors other read_float schema factors =
     bind_result (require_distinct_banding_outputs factors) (\<lambda>_.
       banding_plan other read_float schema factors)"

definition apply_banding_config :: "(pv \<Rightarrow> string) \<Rightarrow> (string \<Rightarrow> pyfloat option) \<Rightarrow>
    (string \<Rightarrow> column_type option) \<Rightarrow> pydict \<Rightarrow> banding_error + (string \<times> pl_expr) list" where
  "apply_banding_config other read_float schema config =
     bind_result (normalise_banding_factors other config)
       (apply_banding_factors other read_float schema)"

text \<open>The checks of a save.\<close>

fun check_types :: "(pv \<Rightarrow> string) \<Rightarrow> pydict list \<Rightarrow> banding_error + unit" where
  "check_types other [] = Inr ()"
| "check_types other (f # fs) =
     bind_result (require_banding_type (py_strip (banding_name other f))) (\<lambda>_. check_types other fs)"

fun has_usable_interval :: "interval_rule list \<Rightarrow> banding_error + bool" where
  "has_usable_interval [] = Inr False"
| "has_usable_interval (r # rs) =
     bind_result (rule_comparators r) (\<lambda>cs.
       if cs \<noteq> [] \<and> rule_assignment r \<noteq> [] then Inr True else has_usable_interval rs)"

definition check_intervals :: "(pv \<Rightarrow> string) \<Rightarrow> (string \<Rightarrow> pyfloat option) \<Rightarrow> pydict \<Rightarrow>
    banding_error + unit" where
  "check_intervals other read_float f =
     (let output = py_strip (text_or_empty other (get_or ''output_column'' (PStr []) f));
          column = py_strip (text_or_empty other (get_or ''column'' (PStr []) f));
          rules = get_or ''rules'' (PList []) f
      in if column = [] \<or> output = [] then Inr ()
         else if get_or ''banding'' PNone f = PStr ''breakpoints'' \<and> py_truthy rules
         then bind_result (normalise_banding_rules other ''breakpoints'' rules) (\<lambda>rows.
              bind_result (breakpoints_to_rules other read_float (PList rows)
                (py_truthy (get_or ''right_closed'' (PBool True) f))) (\<lambda>intervals.
              bind_result (has_usable_interval intervals) (\<lambda>usable.
                refuse_if (\<not> usable) (No_usable_rule output))))
         else Inr ())"

fun check_all_intervals :: "(pv \<Rightarrow> string) \<Rightarrow> (string \<Rightarrow> pyfloat option) \<Rightarrow> pydict list \<Rightarrow>
    banding_error + unit" where
  "check_all_intervals other read_float [] = Inr ()"
| "check_all_intervals other read_float (f # fs) =
     bind_result (check_intervals other read_float f) (\<lambda>_. check_all_intervals other read_float fs)"

definition validate_banding_config :: "(pv \<Rightarrow> string) \<Rightarrow> (string \<Rightarrow> pyfloat option) \<Rightarrow> pydict \<Rightarrow>
    banding_error + pydict list" where
  "validate_banding_config other read_float config =
     bind_result (normalise_banding_factors other config) (\<lambda>factors.
     bind_result (check_types other factors) (\<lambda>_.
     bind_result (compact_banding_config other read_float config) (\<lambda>_.
     bind_result (check_all_intervals other read_float factors) (\<lambda>_.
     bind_result (require_distinct_banding_outputs factors) (\<lambda>_. Inr factors)))))"

section \<open>What Polars computes\<close>

datatype cell =
    Null_cell
  | Truth_cell bool
  | Num_cell pyfloat
  | Index_cell nat
  | Date_cell int
  | Moment_cell int
  | Text_cell string

type_synonym row = "string \<Rightarrow> cell"

fun cell_key :: "boundary_kind \<Rightarrow> cell \<Rightarrow> rat option" where
  "cell_key Number_kind (Num_cell (Fin r)) = Some r"
| "cell_key Date_kind (Date_cell d) = Some (of_int d)"
| "cell_key Datetime_kind (Moment_cell m) = Some (of_int m)"
| "cell_key _ _ = None"

text \<open>A number is compared as a double, so exactly when it is one.\<close>

definition double_cell :: "cell \<Rightarrow> bool" where
  "double_cell c \<longleftrightarrow> (case c of Num_cell (Fin r) \<Rightarrow> round_double r = r | _ \<Rightarrow> True)"

definition op_holds :: "string \<Rightarrow> rat \<Rightarrow> rat \<Rightarrow> bool" where
  "op_holds op x b =
     (if op = ''<'' then x < b else if op = ''<='' then x \<le> b else if op = ''>'' then x > b else x \<ge> b)"

text \<open>
  The behaviour the code relies on: a comparison with a missing value is missing, a conjunction
  holds when both sides do, a chain takes its first branch that holds and a strict replacement
  without a match takes the default.
\<close>

locale polars =
  fixes ev :: "pl_expr \<Rightarrow> row \<Rightarrow> cell"
  assumes column: "ev (Column c) r = r c"
    and null_lit: "ev Null_lit r = Null_cell"
    and text_lit: "ev (Text_lit s) r = Text_cell s"
    and index_lit: "ev (Index_lit i) r = Index_cell i"
    and compare_null: "ev e r = Null_cell \<Longrightarrow> ev (Compare op e b) r = Null_cell"
    and compare: "op \<in> set supported_operators \<Longrightarrow> cell_key (kind_of b) (ev e r) = Some k \<Longrightarrow>
      double_cell (ev e r) \<Longrightarrow> ev (Compare op e b) r = Truth_cell (op_holds op k (bound_key b))"
    and and_true: "ev (And_expr e e') r = Truth_cell True \<longleftrightarrow>
      ev e r = Truth_cell True \<and> ev e' r = Truth_cell True"
    and or_true: "ev (Or_expr e e') r = Truth_cell True \<longleftrightarrow>
      ev e r = Truth_cell True \<or> ev e' r = Truth_cell True"
    and is_nan: "ev (Is_nan e) r = Truth_cell True \<longleftrightarrow> ev e r = Num_cell Nan"
    and is_infinite: "ev (Is_infinite e) r = Truth_cell True \<longleftrightarrow>
      ev e r = Num_cell Pos_inf \<or> ev e r = Num_cell Neg_inf"
    and when_first: "ev (When bs e) r =
      (case find (\<lambda>(c, v). ev c r = Truth_cell True) bs of Some (c, v) \<Rightarrow> ev v r | None \<Rightarrow> ev e r)"
    and cast_text: "ev (Cast_text e) r = Null_cell \<or> (\<exists>s. ev (Cast_text e) r = Text_cell s)"
    and replace_text: "ev e r = Text_cell s \<Longrightarrow> ev (Replace_strict e m d) r =
      (case map_of m s of Some v \<Rightarrow> ev v r | None \<Rightarrow> ev d r)"
    and replace_null: "ev e r = Null_cell \<Longrightarrow> ev (Replace_strict e m d) r = ev d r"
begin

lemma fold_and_true:
  "ev (fold (\<lambda>p q. And_expr q p) es e) r = Truth_cell True \<longleftrightarrow>
   ev e r = Truth_cell True \<and> (\<forall>e' \<in> set es. ev e' r = Truth_cell True)"
  by (induction es arbitrary: e) (auto simp: and_true)

lemma condition_true:
  assumes "banding_condition col rule = Inr cond" "rule_comparators rule = Inr cs"
  shows "(cs = [] \<and> cond = None) \<or>
    (\<exists>c. cond = Some c \<and> (ev c r = Truth_cell True \<longleftrightarrow>
      (\<forall>(op, b) \<in> set cs. ev (Compare op col b) r = Truth_cell True)))"
  using assms
  by (cases cs) (auto simp: banding_condition_def fold_and_true)

text \<open>A number column's missing, NaN and infinite values compare with nothing.\<close>

lemma finite_or_null:
  "ev (When [(Or_expr (Is_nan (Column c)) (Is_infinite (Column c)), Null_lit)] (Column c)) r =
    (if r c \<in> {Num_cell Nan, Num_cell Pos_inf, Num_cell Neg_inf} then Null_cell else r c)"
  by (auto simp: when_first or_true is_nan is_infinite null_lit column)

lemma compare_key:
  assumes "set (map fst cs) \<subseteq> set supported_operators" "\<forall>(op, b) \<in> set cs. kind_of b = kind"
    "cell_key kind (ev col r) = Some x" "double_cell (ev col r)"
  shows "(\<forall>(op, b) \<in> set cs. ev (Compare op col b) r = Truth_cell True) \<longleftrightarrow>
    (\<forall>(op, b) \<in> set cs. op_holds op x (bound_key b))"
proof -
  have "ev (Compare op col b) r = Truth_cell (op_holds op x (bound_key b))" if "(op, b) \<in> set cs" for op b
    using compare [of op b col r x] assms that by force
  then show ?thesis by auto
qed

end

text \<open>An evaluator with that behaviour; a cast leaves text and drops the rest.\<close>

fun truth_of :: "cell \<Rightarrow> bool option" where
  "truth_of (Truth_cell b) = Some b"
| "truth_of _ = None"

definition compared :: "string \<Rightarrow> cell \<Rightarrow> boundary \<Rightarrow> cell" where
  "compared op c b =
     (case cell_key (kind_of b) c of
        Some k \<Rightarrow> Truth_cell (op_holds op k (bound_key b)) | None \<Rightarrow> Null_cell)"

fun first_true :: "(cell \<times> cell) list \<Rightarrow> cell \<Rightarrow> cell" where
  "first_true [] d = d"
| "first_true ((c, v) # bs) d = (if c = Truth_cell True then v else first_true bs d)"

fun eval_expr :: "pl_expr \<Rightarrow> row \<Rightarrow> cell" where
  "eval_expr (Column c) r = r c"
| "eval_expr Null_lit r = Null_cell"
| "eval_expr (Value_lit v) r = (case v of PStr s \<Rightarrow> Text_cell s | PFloat x \<Rightarrow> Num_cell x
     | PInt i \<Rightarrow> Num_cell (Fin (of_int i)) | PBool b \<Rightarrow> Truth_cell b | _ \<Rightarrow> Null_cell)"
| "eval_expr (Text_lit s) r = Text_cell s"
| "eval_expr (Index_lit i) r = Index_cell i"
| "eval_expr (Compare op e b) r = compared op (eval_expr e r) b"
| "eval_expr (And_expr e e') r =
     Truth_cell (eval_expr e r = Truth_cell True \<and> eval_expr e' r = Truth_cell True)"
| "eval_expr (Or_expr e e') r =
     Truth_cell (eval_expr e r = Truth_cell True \<or> eval_expr e' r = Truth_cell True)"
| "eval_expr (Is_nan e) r = Truth_cell (eval_expr e r = Num_cell Nan)"
| "eval_expr (Is_infinite e) r =
     Truth_cell (eval_expr e r = Num_cell Pos_inf \<or> eval_expr e r = Num_cell Neg_inf)"
| "eval_expr (Without_zone e) r = eval_expr e r"
| "eval_expr (Date_part e) r =
     (case eval_expr e r of Moment_cell m \<Rightarrow> Date_cell (m div 86400000000) | c \<Rightarrow> c)"
| "eval_expr (Cast_text e) r = (case eval_expr e r of Text_cell s \<Rightarrow> Text_cell s | _ \<Rightarrow> Null_cell)"
| "eval_expr (Replace_strict e m d) r =
     (case eval_expr e r of
        Text_cell s \<Rightarrow>
          (case map_of (map (\<lambda>(k, v). (k, eval_expr v r)) m) s of Some c \<Rightarrow> c | None \<Rightarrow> eval_expr d r)
      | _ \<Rightarrow> eval_expr d r)"
| "eval_expr (When bs e) r = first_true (map (\<lambda>(c, v). (eval_expr c r, eval_expr v r)) bs) (eval_expr e r)"

lemma first_true_find:
  "first_true (map (\<lambda>(c, v). (f c, f v)) bs) d =
   (case find (\<lambda>(c, v). f c = Truth_cell True) bs of Some (c, v) \<Rightarrow> f v | None \<Rightarrow> d)"
  by (induction bs) auto

lemma map_of_map_values:
  "map_of (map (\<lambda>(k, v). (k, f v)) m) s = map_option f (map_of m s)"
  by (induction m) auto

interpretation pl: polars eval_expr
proof unfold_locales
  fix bs e r
  show "eval_expr (When bs e) r =
      (case find (\<lambda>(c, v). eval_expr c r = Truth_cell True) bs of Some (c, v) \<Rightarrow> eval_expr v r
       | None \<Rightarrow> eval_expr e r)"
    using first_true_find [of "\<lambda>e. eval_expr e r" bs "eval_expr e r"] by simp
next
  fix e r show "eval_expr (Cast_text e) r = Null_cell \<or> (\<exists>s. eval_expr (Cast_text e) r = Text_cell s)"
    by (auto split: cell.split)
next
  fix e r s m d assume "eval_expr e r = Text_cell s"
  then show "eval_expr (Replace_strict e m d) r =
      (case map_of m s of Some v \<Rightarrow> eval_expr v r | None \<Rightarrow> eval_expr d r)"
    by (simp add: map_of_map_values split: option.split)
next
  fix e r op b assume "eval_expr e r = Null_cell"
  then show "eval_expr (Compare op e b) r = Null_cell" by (cases "kind_of b") (simp_all add: compared_def)
qed (simp_all add: compared_def)

section \<open>Which rule a value meets\<close>

definition comparators_of :: "interval_rule \<Rightarrow> (string \<times> boundary) list" where
  "comparators_of rule = (case rule_comparators rule of Inr cs \<Rightarrow> cs | Inl _ \<Rightarrow> [])"

definition accepts :: "interval_rule \<Rightarrow> rat \<Rightarrow> bool" where
  "accepts rule x \<longleftrightarrow> (\<forall>(op, b) \<in> set (comparators_of rule). op_holds op x (bound_key b))"

definition well_formed :: "boundary_kind \<Rightarrow> interval_rule \<Rightarrow> bool" where
  "well_formed kind rule \<longleftrightarrow> (\<exists>cs. rule_comparators rule = Inr cs \<and> cs \<noteq> [] \<and>
     set (map fst cs) \<subseteq> set supported_operators \<and> (\<forall>(op, b) \<in> set cs. kind_of b = kind))"

text \<open>Whether a value lies on the lower side of a boundary.\<close>

definition reaches_up_to :: "bool \<Rightarrow> rat \<Rightarrow> boundary \<Rightarrow> bool" where
  "reaches_up_to right_closed x b \<longleftrightarrow> (if right_closed then x \<le> bound_key b else x < bound_key b)"

lemma comparator_ops:
  "comparator op (Some b) = (if py_strip op = [] then Inr [] else
     if py_strip op \<notin> set supported_operators then Inl (Unsupported_operator (py_strip op))
     else Inr [(py_strip op, b)])"
  "comparator op None = Inr []"
  by (simp_all add: comparator_def)

lemma operator_texts:
  "py_strip ''<='' = ''<=''" "py_strip ''<'' = ''<''" "py_strip ''>'' = ''>''" "py_strip ''>='' = ''>=''"
  by code_simp+

lemma supported_set: "set supported_operators = {''<'', ''<='', ''>'', ''>=''}"
  by (simp add: supported_operators_def)

lemma interval_comparators:
  "rule_comparators \<lparr>rule_op1 = (if rc then ''<='' else ''<''), rule_val1 = Some b, rule_op2 = [],
     rule_val2 = None, rule_assignment = l\<rparr> = Inr [((if rc then ''<='' else ''<''), b)]"
  "rule_comparators \<lparr>rule_op1 = (if rc then ''>'' else ''>=''), rule_val1 = Some p,
     rule_op2 = (if rc then ''<='' else ''<''), rule_val2 = Some b, rule_assignment = l\<rparr> =
     Inr [((if rc then ''>'' else ''>=''), p), ((if rc then ''<='' else ''<''), b)]"
  "rule_comparators \<lparr>rule_op1 = (if rc then ''>'' else ''>=''), rule_val1 = Some p, rule_op2 = [],
     rule_val2 = None, rule_assignment = l\<rparr> = Inr [((if rc then ''>'' else ''>=''), p)]"
  by (cases rc; simp add: rule_comparators_def comparator_ops operator_texts supported_set)+

lemma op_up: "op_holds (if rc then ''<='' else ''<'') x (bound_key b) \<longleftrightarrow> reaches_up_to rc x b"
  by (simp add: op_holds_def reaches_up_to_def)

lemma op_down: "op_holds (if rc then ''>'' else ''>='') x (bound_key b) \<longleftrightarrow> \<not> reaches_up_to rc x b"
  by (auto simp: op_holds_def reaches_up_to_def)

text \<open>The interval that ends at a boundary starts where the one before it ends.\<close>

definition above :: "bool \<Rightarrow> rat \<Rightarrow> boundary option \<Rightarrow> bool" where
  "above rc x prev \<longleftrightarrow> (case prev of None \<Rightarrow> True | Some p \<Rightarrow> \<not> reaches_up_to rc x p)"

lemma accepts_list:
  "rule_comparators rule = Inr cs \<Longrightarrow>
   accepts rule x \<longleftrightarrow> list_all (\<lambda>(op, b). op_holds op x (bound_key b)) cs"
  by (simp add: accepts_def comparators_of_def list_all_iff)

lemmas accepts_interval = interval_comparators [THEN accepts_list]

lemma first_interval:
  "intervals_from rc prev ((b, l, i) # bs) = (r, s) # intervals_from rc (Some b) bs \<Longrightarrow>
   (accepts r x \<longleftrightarrow> above rc x prev \<and> reaches_up_to rc x b) \<and> rule_assignment r = l \<and> s = i"
  by (cases prev) (auto simp: accepts_interval op_up op_down above_def)

lemma reaches_mono: "bound_key b \<le> bound_key b' \<Longrightarrow> reaches_up_to rc x b \<Longrightarrow> reaches_up_to rc x b'"
  by (auto simp: reaches_up_to_def split: if_splits)

lemma no_interval_below:
  assumes "sorted_wrt (\<lambda>e e'. bound_key (fst e) < bound_key (fst e')) bs"
    "\<forall>e \<in> set bs. bound_key p < bound_key (fst e)" "reaches_up_to rc x p"
  shows "filter (\<lambda>r. accepts (fst r) x) (intervals_from rc (Some p) bs) = []"
  using assms
proof (induction bs arbitrary: p)
  case (Cons e bs)
  obtain b l i where e: "e = (b, l, i)" by (metis prod_cases3)
  have "reaches_up_to rc x b" using Cons.prems e reaches_mono [of p b] by simp
  then have "filter (\<lambda>r. accepts (fst r) x) (intervals_from rc (Some b) bs) = []"
    using Cons.prems e by (intro Cons.IH) auto
  moreover obtain r s where r: "intervals_from rc (Some p) ((b, l, i) # bs) = (r, s) # intervals_from rc (Some b) bs"
    by simp
  moreover have "\<not> accepts r x" using first_interval [OF r, of x] Cons.prems(3) by (simp add: above_def)
  ultimately show ?case unfolding e by simp
qed simp

text \<open>A value meets at most one interval: the one that ends at the first boundary it lies below.\<close>

lemma intervals_filter:
  assumes "sorted_wrt (\<lambda>e e'. bound_key (fst e) < bound_key (fst e')) bs"
    "above rc x prev"
  shows "map (\<lambda>r. (rule_assignment (fst r), snd r)) (filter (\<lambda>r. accepts (fst r) x) (intervals_from rc prev bs)) =
    (case find (\<lambda>e. reaches_up_to rc x (fst e)) bs of None \<Rightarrow> [] | Some e \<Rightarrow> [snd e])"
  using assms
proof (induction bs arbitrary: prev)
  case (Cons e bs)
  obtain b l i where e: "e = (b, l, i)" by (metis prod_cases3)
  obtain r s where r: "intervals_from rc prev ((b, l, i) # bs) = (r, s) # intervals_from rc (Some b) bs"
    by simp
  note f = first_interval [OF r, of x]
  show ?case
  proof (cases "reaches_up_to rc x b")
    case True
    have "filter (\<lambda>r. accepts (fst r) x) (intervals_from rc (Some b) bs) = []"
      using Cons.prems(1) True e by (intro no_interval_below) auto
    then show ?thesis unfolding e r using f True Cons.prems(2) by simp
  next
    case False
    then have "above rc x (Some b)" by (simp add: above_def)
    from Cons.IH [OF _ this] Cons.prems(1) False f show ?thesis unfolding e r by simp
  qed
qed simp

lemma intervals_well_formed:
  "\<forall>e \<in> set bs. kind_of (fst e) = kind \<Longrightarrow> (\<And>p. prev = Some p \<Longrightarrow> kind_of p = kind) \<Longrightarrow>
   \<forall>r \<in> set (intervals_from rc prev bs). well_formed kind (fst r)"
proof (induction bs arbitrary: prev)
  case (Cons e bs)
  obtain b l i where e: "e = (b, l, i)" by (metis prod_cases3)
  have "\<forall>r \<in> set (intervals_from rc (Some b) bs). well_formed kind (fst r)"
    using Cons.prems e by (intro Cons.IH) auto
  moreover have "well_formed kind (fst (hd (intervals_from rc prev ((b, l, i) # bs))))"
    using Cons.prems e
    by (cases prev) (auto simp: well_formed_def interval_comparators supported_set)
  ultimately show ?case unfolding e by simp
qed simp

lemma open_interval_facts:
  "kind_of p = kind \<Longrightarrow> well_formed kind (fst (open_interval rc p op))"
  "accepts (fst (open_interval rc p op)) x \<longleftrightarrow> \<not> reaches_up_to rc x p"
  "rule_assignment (fst (open_interval rc p op)) = fst op" "snd (open_interval rc p op) = snd op"
  by (auto simp: open_interval_def well_formed_def interval_comparators supported_set
      accepts_interval op_down)

section \<open>The rules of a list of breakpoints\<close>

lemma separate_kinds:
  "separate other read_float i rows = Inr (bs, os) \<Longrightarrow> map_result (row_kind other read_float) rows = Inr ks \<Longrightarrow>
   map (\<lambda>e. kind_of (fst e)) bs = List.map_filter id ks \<and> length bs + length os = length rows"
proof (induction rows arbitrary: i bs os ks)
  case (Cons row rows)
  from Cons.prems(2) obtain k ks' where k: "row_kind other read_float row = Inr k"
    "map_result (row_kind other read_float) rows = Inr ks'" "ks = k # ks'"
    by (auto split: sum.splits)
  from k(1) obtain t where t: "boundary_text other row = Inr t"
    by (auto simp: row_kind_def bind_result_Inr)
  show ?case
  proof (cases "t = []")
    case True
    then obtain os' where "separate other read_float (Suc i) rows = Inr (bs, os')"
      "os = (label_text other row, i) # os'"
      using Cons.prems(1) t by (auto simp: bind_result_Inr)
    then show ?thesis using Cons.IH [OF _ k(2)] k t True by (auto simp: row_kind_def List.map_filter_simps)
  next
    case False
    then obtain b bs' where "parse_breakpoint_boundary read_float t = Inr b"
      "separate other read_float (Suc i) rows = Inr (bs', os)" "bs = (b, label_text other row, i) # bs'"
      using Cons.prems(1) t by (auto simp: bind_result_Inr)
    then show ?thesis using Cons.IH [OF _ k(2)] k t False
      by (auto simp: row_kind_def List.map_filter_simps)
  qed
qed (simp add: List.map_filter_simps)

definition labelled :: "(pv \<Rightarrow> string) \<Rightarrow> nat \<Rightarrow> pv list \<Rightarrow> string \<times> nat \<Rightarrow> bool" where
  "labelled other i rows p \<longleftrightarrow> i \<le> snd p \<and> snd p < i + length rows \<and>
     fst p = label_text other (rows ! (snd p - i))"

lemma labelled_Suc: "labelled other (Suc i) rows p \<Longrightarrow> labelled other i (row # rows) p"
  by (cases "snd p - i") (auto simp: labelled_def diff_Suc split: nat.splits)

lemma separate_labels:
  "separate other read_float i rows = Inr (bs, os) \<Longrightarrow>
   (\<forall>e \<in> set bs. labelled other i rows (snd e)) \<and> (\<forall>p \<in> set os. labelled other i rows p)"
proof (induction rows arbitrary: i bs os)
  case (Cons row rows)
  have here: "labelled other i (row # rows) (label_text other row, i)" by (simp add: labelled_def)
  obtain t where t: "boundary_text other row = Inr t" using Cons.prems by (auto simp: bind_result_Inr)
  show ?case
  proof (cases "t = []")
    case True
    then obtain os' where "separate other read_float (Suc i) rows = Inr (bs, os')"
      "os = (label_text other row, i) # os'"
      using Cons.prems t by (auto simp: bind_result_Inr)
    then show ?thesis using Cons.IH labelled_Suc here by fastforce
  next
    case False
    then obtain b bs' where "separate other read_float (Suc i) rows = Inr (bs', os)"
      "bs = (b, label_text other row, i) # bs'"
      using Cons.prems t by (auto simp: bind_result_Inr)
    then show ?thesis using Cons.IH labelled_Suc here by fastforce
  qed
qed simp

definition ordered :: "bounded list \<Rightarrow> bounded list" where
  "ordered bs = sort_key (\<lambda>e. bound_key (fst e)) bs"

lemma bound_key_inject: "kind_of b = kind_of b' \<Longrightarrow> bound_key b = bound_key b' \<Longrightarrow> b = b'"
  by (cases b; cases b') (simp_all add: kind_of_def bound_key_def)

lemma ordered_strict:
  assumes "distinct (map fst (ordered bs))" "\<forall>e \<in> set bs. kind_of (fst e) = kind"
  shows "sorted_wrt (\<lambda>e e'. bound_key (fst e) < bound_key (fst e')) (ordered bs)"
proof -
  have s: "sorted (map (\<lambda>e. bound_key (fst e)) (ordered bs))" by (simp add: ordered_def)
  have inj: "inj_on bound_key (set (map fst (ordered bs)))"
  proof (rule inj_onI)
    fix b b' assume "b \<in> set (map fst (ordered bs))" "b' \<in> set (map fst (ordered bs))"
    then have "kind_of b = kind" "kind_of b' = kind" using assms(2) by (auto simp: ordered_def)
    then show "bound_key b = bound_key b' \<Longrightarrow> b = b'" using bound_key_inject by simp
  qed
  have "distinct (map bound_key (map fst (ordered bs)))"
    using assms(1) inj by (simp only: distinct_map)
  then have "sorted_wrt (<) (map (\<lambda>e. bound_key (fst e)) (ordered bs))"
    using s by (simp add: strict_sorted_iff o_def)
  then show ?thesis by (simp add: sorted_wrt_map)
qed

lemma rules_with_sources_Inr:
  assumes "rules_with_sources other read_float (PList rows) rc = Inr rules" "rows \<noteq> []"
    "breakpoints_kind other read_float (PList rows) = Inr kind"
    "separate other read_float 0 rows = Inr (bs, os)"
  shows "length os \<le> 1" "bs \<noteq> []" "\<forall>e \<in> set bs. kind_of (fst e) = kind"
    "sorted_wrt (\<lambda>e e'. bound_key (fst e) < bound_key (fst e')) (ordered bs)"
    "rules = intervals_from rc None (ordered bs) @ map (open_interval rc (fst (last (ordered bs)))) os"
proof -
  from assms(3) obtain ks where ks: "map_result (row_kind other read_float) rows = Inr ks"
    and k: "(case remdups (List.map_filter id ks) of [] \<Rightarrow> Inr Number_kind | [k] \<Rightarrow> Inr k
      | ks \<Rightarrow> Inl (Kinds_mixed ks)) = Inr kind"
    by (auto simp: breakpoints_kind_def normalise_banding_rules_def bind_result_Inr)
  note sep = separate_kinds [OF assms(4) ks]
  have "set (List.map_filter id ks) \<subseteq> {kind}"
  proof (cases "remdups (List.map_filter id ks)")
    case (Cons k' r)
    then have "r = [] \<and> k' = kind" using k by (auto split: list.splits)
    then show ?thesis using Cons set_remdups [of "List.map_filter id ks"] by simp
  qed simp
  moreover have "(\<lambda>e. kind_of (fst e)) ` set bs = set (List.map_filter id ks)"
    using sep by (metis list.set_map)
  ultimately show kinds: "\<forall>e \<in> set bs. kind_of (fst e) = kind" by auto
  have r: "length os \<le> 1 \<and> \<not> (os \<noteq> [] \<and> bs = []) \<and> distinct (map fst (ordered bs)) \<and>
      rules = intervals_from rc None (ordered bs) @
        (if ordered bs = [] then [] else map (open_interval rc (fst (last (ordered bs)))) os)"
    using assms(1-4)
    by (auto simp: rules_with_sources_def normalise_banding_rules_def bind_result_Inr ordered_def Let_def
        split: if_splits)
  then show "length os \<le> 1" by blast
  show ne: "bs \<noteq> []" using r sep assms(2) by auto
  then have "ordered bs \<noteq> []" by (metis ordered_def length_0_conv length_sort)
  then show "rules = intervals_from rc None (ordered bs) @ map (open_interval rc (fst (last (ordered bs)))) os"
    using r by simp
  show "sorted_wrt (\<lambda>e e'. bound_key (fst e) < bound_key (fst e')) (ordered bs)"
    using ordered_strict r kinds by blast
qed

lemma separate_total:
  assumes "rules_with_sources other read_float (PList rows) rc = Inr rules" "rows \<noteq> []"
  obtains bs os where "separate other read_float 0 rows = Inr (bs, os)"
  using assms by (auto simp: rules_with_sources_def normalise_banding_rules_def bind_result_Inr)

text \<open>The rules a value meets: the first boundary it lies below, or the open-ended band, or none.\<close>

lemma rules_filter:
  assumes "sorted_wrt (\<lambda>e e'. bound_key (fst e) < bound_key (fst e')) (ordered bs)" "bs \<noteq> []"
  shows "map (\<lambda>r. (rule_assignment (fst r), snd r))
      (filter (\<lambda>r. accepts (fst r) x)
        (intervals_from rc None (ordered bs) @ map (open_interval rc (fst (last (ordered bs)))) os)) =
    (case find (\<lambda>e. reaches_up_to rc x (fst e)) (ordered bs) of None \<Rightarrow> os | Some e \<Rightarrow> [snd e])"
proof -
  let ?o = "ordered bs" let ?p = "fst (last ?o)"
  have ne: "?o \<noteq> []" using assms(2) by (metis ordered_def length_0_conv length_sort)
  have none: "find (\<lambda>e. reaches_up_to rc x (fst e)) ?o = None \<longleftrightarrow> \<not> reaches_up_to rc x ?p"
  proof -
    have "bound_key (fst e) \<le> bound_key ?p" if "e \<in> set ?o" for e
    proof -
      have "?o = butlast ?o @ [last ?o]" using ne by simp
      then have "sorted_wrt (\<lambda>e e'. bound_key (fst e) < bound_key (fst e')) (butlast ?o @ [last ?o])"
        using assms(1) by simp
      moreover have "e \<in> set (butlast ?o @ [last ?o])" using that ne by simp
      ultimately show ?thesis by (auto simp: sorted_wrt_append)
    qed
    then have "(\<exists>e \<in> set ?o. reaches_up_to rc x (fst e)) \<longleftrightarrow> reaches_up_to rc x ?p"
      using reaches_mono last_in_set [OF ne] by blast
    then show ?thesis unfolding find_None_iff by blast
  qed
  have tail: "filter (\<lambda>r. accepts (fst r) x) (map (open_interval rc ?p) os) =
      (if reaches_up_to rc x ?p then [] else map (open_interval rc ?p) os)"
    by (auto simp: open_interval_facts filter_empty_conv filter_id_conv)
  have pairs: "map (\<lambda>r. (rule_assignment (fst r), snd r)) (map (open_interval rc ?p) os) = os"
    by (induction os) (simp_all add: open_interval_facts)
  have head: "map (\<lambda>r. (rule_assignment (fst r), snd r))
      (filter (\<lambda>r. accepts (fst r) x) (intervals_from rc None ?o)) =
    (case find (\<lambda>e. reaches_up_to rc x (fst e)) ?o of None \<Rightarrow> [] | Some e \<Rightarrow> [snd e])"
    by (rule intervals_filter [OF assms(1)]) (simp add: above_def)
  show ?thesis
    unfolding filter_append map_append tail head using none pairs by (auto split: option.splits)
qed

lemma rules_well_formed:
  assumes "bs \<noteq> []" "\<forall>e \<in> set bs. kind_of (fst e) = kind"
  shows "\<forall>r \<in> set (intervals_from rc None (ordered bs) @
      map (open_interval rc (fst (last (ordered bs)))) os). well_formed kind (fst r)"
proof -
  have o: "set (ordered bs) = set bs" by (simp add: ordered_def)
  then have "ordered bs \<noteq> []" using assms(1) by auto
  then have "kind_of (fst (last (ordered bs))) = kind" using last_in_set o assms(2) by blast
  moreover have "\<forall>r \<in> set (intervals_from rc None (ordered bs)). well_formed kind (fst r)"
    by (rule intervals_well_formed) (use o assms(2) in auto)
  ultimately show ?thesis using open_interval_facts(1) by auto
qed

section \<open>What the chain computes\<close>

lemma chain_branches_pick:
  "chain_branches col pick rs = Inr bs \<Longrightarrow>
   \<exists>crs. (\<forall>pick'. chain_branches col pick' rs = Inr (map (\<lambda>(c, r). (c, pick' r)) crs)) \<and>
     bs = map (\<lambda>(c, r). (c, pick r)) crs \<and> set (map snd crs) \<subseteq> set rs"
  for pick :: "interval_rule \<times> nat \<Rightarrow> pl_expr"
proof (induction rs arbitrary: bs)
  case (Cons r rs)
  from Cons.prems obtain cond bs' where cond: "banding_condition col (fst r) = Inr cond"
    and bs': "chain_branches col pick rs = Inr bs'"
    by (auto simp: bind_result_Inr)
  from Cons.IH [OF bs'] obtain crs where crs:
    "\<forall>pick'. chain_branches col pick' rs = Inr (map (\<lambda>(c, r). (c, pick' r)) crs)"
    "bs' = map (\<lambda>(c, r). (c, pick r)) crs" "set (map snd crs) \<subseteq> set rs" by blast
  let ?crs = "case cond of None \<Rightarrow> crs | Some c \<Rightarrow> if rule_assignment (fst r) = [] then crs else (c, r) # crs"
  show ?case
    using Cons.prems cond bs' crs by (intro exI [of _ ?crs]) (auto split: option.splits)
qed simp

context polars
begin

lemma find_filter_map:
  "find P (map f xs) = map_option f (find (\<lambda>x. P (f x)) xs)"
  by (induction xs) auto

lemma chain_value:
  assumes "chain_branches col pick rs = Inr bs" "\<forall>r \<in> set rs. well_formed kind (fst r)"
    "cell_key kind (ev col row) = Some x" "double_cell (ev col row)"
  shows "ev (When bs d) row =
    (case filter (\<lambda>r. accepts (fst r) x \<and> rule_assignment (fst r) \<noteq> []) rs of
       [] \<Rightarrow> ev d row | r # _ \<Rightarrow> ev (pick r) row)"
  using assms(1,2)
proof (induction rs arbitrary: bs)
  case (Cons r rs)
  from Cons.prems(1) obtain cond bs' where cond: "banding_condition col (fst r) = Inr cond"
    and bs': "chain_branches col pick rs = Inr bs'"
    and bs: "bs = (case cond of None \<Rightarrow> bs' | Some c \<Rightarrow> if rule_assignment (fst r) = [] then bs' else (c, pick r) # bs')"
    by (auto simp: bind_result_Inr)
  from Cons.prems(2) obtain cs where cs: "rule_comparators (fst r) = Inr cs" "cs \<noteq> []"
    "set (map fst cs) \<subseteq> set supported_operators" "\<forall>(op, b) \<in> set cs. kind_of b = kind"
    by (auto simp: well_formed_def)
  from condition_true [OF cond cs(1)] cs(2) obtain c where c: "cond = Some c"
    "ev c row = Truth_cell True \<longleftrightarrow> (\<forall>(op, b) \<in> set cs. ev (Compare op col b) row = Truth_cell True)"
    by blast
  then have acc: "ev c row = Truth_cell True \<longleftrightarrow> accepts (fst r) x"
    using compare_key [OF cs(3,4) assms(3,4)] cs(1) by (simp add: accepts_def comparators_of_def)
  show ?case using Cons.IH [OF bs'] Cons.prems(2) acc bs c(1) by (simp add: when_first)
qed (simp add: when_first)

lemma chain_null:
  assumes "chain_branches col pick rs = Inr bs" "\<forall>r \<in> set rs. well_formed kind (fst r)"
    "ev col row = Null_cell"
  shows "ev (When bs d) row = ev d row"
  using assms(1,2)
proof (induction rs arbitrary: bs)
  case (Cons r rs)
  from Cons.prems(1) obtain cond bs' where cond: "banding_condition col (fst r) = Inr cond"
    and bs': "chain_branches col pick rs = Inr bs'"
    and bs: "bs = (case cond of None \<Rightarrow> bs' | Some c \<Rightarrow> if rule_assignment (fst r) = [] then bs' else (c, pick r) # bs')"
    by (auto simp: bind_result_Inr)
  from Cons.prems(2) obtain cs where cs: "rule_comparators (fst r) = Inr cs" "cs \<noteq> []"
    by (auto simp: well_formed_def)
  from condition_true [OF cond cs(1)] cs(2) obtain c where c: "cond = Some c"
    "ev c row = Truth_cell True \<longleftrightarrow> (\<forall>(op, b) \<in> set cs. ev (Compare op col b) row = Truth_cell True)"
    by blast
  have "ev c row \<noteq> Truth_cell True"
    using c(2) compare_null [OF assms(3)] cs(2) by (cases cs) auto
  then show ?case using Cons.IH [OF bs'] Cons.prems(2) bs c(1) by (simp add: when_first)
qed (simp add: when_first)

lemma chain_picks:
  assumes "chain_branches col (\<lambda>r. g (rule_assignment (fst r), snd r)) rs = Inr bs"
    "\<forall>r \<in> set rs. well_formed kind (fst r)"
    "cell_key kind (ev col row) = Some x" "double_cell (ev col row)"
    "map (\<lambda>r. (rule_assignment (fst r), snd r)) (filter (\<lambda>r. accepts (fst r) x) rs) = ps" "length ps \<le> 1"
  shows "ev (When bs d) row =
    (case ps of [] \<Rightarrow> ev d row | p # _ \<Rightarrow> if fst p = [] then ev d row else ev (g p) row)"
proof -
  let ?f = "filter (\<lambda>r. accepts (fst r) x) rs"
  have split: "filter (\<lambda>r. accepts (fst r) x \<and> rule_assignment (fst r) \<noteq> []) rs =
      filter (\<lambda>r. rule_assignment (fst r) \<noteq> []) ?f"
    by (simp add: conj_commute)
  note v = chain_value [OF assms(1-4), of d, unfolded split]
  show ?thesis
  proof (cases ?f)
    case Nil
    then show ?thesis using v assms(5) by simp
  next
    case (Cons r rest)
    then have "rest = []" using assms(5,6) by auto
    then show ?thesis using v Cons assms(5) by auto
  qed
qed

text \<open>Two chains over the same rules take the same branch.\<close>

lemma chains_agree:
  assumes "chain_branches col pick rs = Inr bs" "chain_branches col pick' rs = Inr bs'"
  shows "(ev (When bs d) row = ev d row \<and> ev (When bs' d') row = ev d' row) \<or>
    (\<exists>r \<in> set rs. ev (When bs d) row = ev (pick r) row \<and> ev (When bs' d') row = ev (pick' r) row)"
proof -
  obtain crs where crs: "\<forall>pick'. chain_branches col pick' rs = Inr (map (\<lambda>(c, r). (c, pick' r)) crs)"
    "bs = map (\<lambda>(c, r). (c, pick r)) crs" "set (map snd crs) \<subseteq> set rs"
    using chain_branches_pick [OF assms(1)] by blast
  have bs': "bs' = map (\<lambda>(c, r). (c, pick' r)) crs" using crs(1) assms(2) by simp
  show ?thesis
  proof (cases "find (\<lambda>(c, r). ev c row = Truth_cell True) crs")
    case None
    then show ?thesis by (simp add: crs(2) bs' when_first find_filter_map case_prod_unfold)
  next
    case (Some p)
    then have "snd p \<in> set rs" using find_Some_in [OF Some] crs(3) by auto
    then show ?thesis using Some
      by (intro disjI2 bexI [of _ "snd p"])
        (simp_all add: crs(2) bs' when_first find_filter_map case_prod_unfold)
  qed
qed

lemma replaced_agree:
  assumes "\<And>s. map_of m s = None \<longleftrightarrow> map_of m' s = None"
  shows "(ev (Replace_strict (Cast_text e) m d) row = ev d row \<and>
      ev (Replace_strict (Cast_text e) m' d') row = ev d' row) \<or>
    (\<exists>s v v'. map_of m s = Some v \<and> map_of m' s = Some v' \<and>
      ev (Replace_strict (Cast_text e) m d) row = ev v row \<and>
      ev (Replace_strict (Cast_text e) m' d') row = ev v' row)"
proof (cases "ev (Cast_text e) row = Null_cell")
  case True
  then show ?thesis by (simp add: replace_null)
next
  case False
  then obtain s where s: "ev (Cast_text e) row = Text_cell s" using cast_text by blast
  show ?thesis
  proof (cases "map_of m s")
    case None
    then have "map_of m' s = None" using assms by blast
    then show ?thesis using None s by (simp add: replace_text)
  next
    case (Some v)
    then obtain v' where "map_of m' s = Some v'" using assms [of s] by (cases "map_of m' s") auto
    then show ?thesis using Some s by (intro disjI2 exI) (simp add: replace_text)
  qed
qed

end

lemma intervals_labels:
  "map (\<lambda>r. (rule_assignment (fst r), snd r)) (intervals_from rc prev bs) = map snd bs"
  by (induction rc prev bs rule: intervals_from.induct) (auto split: option.splits)

lemma open_labels: "map (\<lambda>r. (rule_assignment (fst r), snd r)) (map (open_interval rc p) os) = os"
  by (induction os) (simp_all add: open_interval_facts)

lemma rules_labels:
  assumes "rules_with_sources other read_float (PList rows) rc = Inr rules" "rows \<noteq> []"
    "breakpoints_kind other read_float (PList rows) = Inr kind" "r \<in> set rules"
  shows "snd r < length rows \<and> rule_assignment (fst r) = label_text other (rows ! snd r)"
proof -
  obtain bs os where sep: "separate other read_float 0 rows = Inr (bs, os)"
    by (rule separate_total [OF assms(1,2)])
  have rules: "map (\<lambda>r. (rule_assignment (fst r), snd r)) rules = map snd (ordered bs) @ os"
    unfolding rules_with_sources_Inr(5) [OF assms(1-3) sep] map_append intervals_labels open_labels ..
  have "(rule_assignment (fst r), snd r) \<in> set (map snd (ordered bs) @ os)"
    using assms(4) by (simp flip: rules)
  then have "labelled other 0 rows (rule_assignment (fst r), snd r)"
    using separate_labels [OF sep] by (auto simp: ordered_def)
  then show ?thesis by (simp add: labelled_def)
qed

section \<open>The bands a breakpoints factor writes\<close>

lemma apply_breakpoints_Inr:
  assumes "call_type call = ''breakpoints''"
    "normalise_banding_rules other ''breakpoints'' (call_rules call) = Inr rows"
    "apply_banding other read_float schema call = Inr (Some e)"
  obtains kind rules col branches where
    "breakpoints_kind other read_float (PList rows) = Inr kind"
    "rules_with_sources other read_float (PList rows) (call_right_closed call) = Inr rules"
    "banding_comparison_expr (Column (call_column call)) (schema (call_column call)) kind (call_output call) = Inr col"
    "chain_branches col (\<lambda>r. Text_lit (rule_assignment (fst r))) rules = Inr branches"
    "e = When branches (default_expr (call_default call))" "branches \<noteq> []"
  using assms by (auto simp: apply_banding_def apply_breakpoints_def bind_result_Inr split: if_splits)

text \<open>
  C30: What breakpoints mean. Under the behaviour assumed of Polars, the column a breakpoints
  factor writes holds, for a value that compares, the label of the breakpoint with the least
  boundary the value does not pass (up to and including it when the bands are right-closed), and
  past every boundary the open-ended band's label, if there is one; an empty label, a missing
  value and a value past the last band take the default.
\<close>

theorem breakpoint_bands_exact:
  assumes "polars ev" "call_type call = ''breakpoints''"
    "normalise_banding_rules other ''breakpoints'' (call_rules call) = Inr rows" "rows \<noteq> []"
    "apply_banding other read_float schema call = Inr (Some e)"
    "breakpoints_kind other read_float (PList rows) = Inr kind"
    "banding_comparison_expr (Column (call_column call)) (schema (call_column call)) kind (call_output call) = Inr col"
    "separate other read_float 0 rows = Inr (bs, os)"
  shows "let dflt = ev (default_expr (call_default call)) row;
      band = (\<lambda>l. if l = [] then dflt else Text_cell l);
      below = reaches_up_to (call_right_closed call)
    in (\<forall>x. cell_key kind (ev col row) = Some x \<and> double_cell (ev col row) \<longrightarrow>
         (\<forall>(b, l, i) \<in> set bs. below x b \<and>
            (\<forall>(b', l', i') \<in> set bs. below x b' \<longrightarrow> bound_key b \<le> bound_key b') \<longrightarrow> ev e row = band l) \<and>
         ((\<forall>(b, l, i) \<in> set bs. \<not> below x b) \<longrightarrow>
            ev e row = (case os of [] \<Rightarrow> dflt | p # _ \<Rightarrow> band (fst p)))) \<and>
       (ev col row = Null_cell \<longrightarrow> ev e row = dflt)"
proof -
  let ?d = "default_expr (call_default call)" let ?rc = "call_right_closed call"
  obtain rules branches where
    rules: "rules_with_sources other read_float (PList rows) ?rc = Inr rules"
    and branches: "chain_branches col (\<lambda>r. Text_lit (rule_assignment (fst r))) rules = Inr branches"
    and e: "e = When branches ?d"
    using apply_breakpoints_Inr [OF assms(2,3,5)] assms(6,7) by force
  note facts = rules_with_sources_Inr [OF rules assms(4,6,8)]
  have wf: "\<forall>r \<in> set rules. well_formed kind (fst r)"
    unfolding facts(5) by (rule rules_well_formed [OF facts(2,3)])
  have val: "ev e row = (case find (\<lambda>e. reaches_up_to ?rc x (fst e)) (ordered bs) of
        Some b \<Rightarrow> if fst (snd b) = [] then ev ?d row else Text_cell (fst (snd b))
      | None \<Rightarrow> (case os of [] \<Rightarrow> ev ?d row | p # _ \<Rightarrow> if fst p = [] then ev ?d row else Text_cell (fst p)))"
    if x: "cell_key kind (ev col row) = Some x" "double_cell (ev col row)" for x
  proof -
    note f = rules_filter [OF facts(4,2), where rc = ?rc and x = x and os = os, folded facts(5)]
    note p = polars.chain_picks [OF assms(1), where g = "\<lambda>p. Text_lit (fst p)" and d = ?d, simplified,
        OF branches wf x f]
    show ?thesis using p facts(1) unfolding e by (auto simp: polars.text_lit [OF assms(1)] split: option.splits list.splits)
  qed
  have least: "find (\<lambda>e. reaches_up_to ?rc x (fst e)) (ordered bs) = Some (b, l, i)"
    if h: "(b, l, i) \<in> set bs" "reaches_up_to ?rc x b"
      "\<forall>(b', l', i') \<in> set bs. reaches_up_to ?rc x b' \<longrightarrow> bound_key b \<le> bound_key b'" for x b l i
  proof -
    have o: "set (ordered bs) = set bs" by (simp add: ordered_def)
    then obtain ps qs where split: "ordered bs = ps @ (b, l, i) # qs"
      using h(1) by (metis split_list)
    have "\<not> reaches_up_to ?rc x (fst e)" if e: "e \<in> set ps" for e
    proof
      assume r: "reaches_up_to ?rc x (fst e)"
      have "e \<in> set bs" using e split o by auto
      then have "bound_key b \<le> bound_key (fst e)"
        using r h(3)
        by (cases e) auto
      moreover have "bound_key (fst e) < bound_key b"
        using facts(4) e by (auto simp: split sorted_wrt_append)
      ultimately show False by simp
    qed
    then have "find (\<lambda>e. reaches_up_to ?rc x (fst e)) ps = None" unfolding find_None_iff by blast
    then show ?thesis using h(2) unfolding split by (induction ps) (auto split: if_splits)
  qed
  have none: "find (\<lambda>e. reaches_up_to ?rc x (fst e)) (ordered bs) = None"
    if "\<forall>(b, l, i) \<in> set bs. \<not> reaches_up_to ?rc x b" for x
    using that by (auto simp: find_None_iff ordered_def)
  have missing: "ev e row = ev ?d row" if "ev col row = Null_cell"
    unfolding e by (rule polars.chain_null [OF assms(1) branches wf that])
  show ?thesis
    unfolding Let_def using val least none missing by (auto split: list.splits)
qed

definition age_call :: band_call where
  "age_call = \<lparr>call_column = ''age'', call_output = ''band'', call_type = ''breakpoints'',
     call_rules = PList [breakpoint_row ''60'' (PStr ''old''), breakpoint_row ''25'' (PStr ''young'')],
     call_default = PNone, call_right_closed = True\<rparr>"

definition read_sample :: "string \<Rightarrow> pyfloat option" where
  "read_sample s = map_option (\<lambda>i. Fin (of_int i)) (py_int s)"

definition no_text :: "pv \<Rightarrow> string" where
  "no_text v = ''?''"

lemma polars_eval: "polars eval_expr"
  by unfold_locales

definition right_part :: "'e + 'a \<Rightarrow> 'a option" where
  "right_part r = (case r of Inl e \<Rightarrow> None | Inr x \<Rightarrow> Some x)"

lemma right_part_Some: "right_part r = Some x \<Longrightarrow> r = Inr x"
  by (cases r) (simp_all add: right_part_def)

theorem breakpoint_bands_exact_witness:
  "\<exists>e. apply_banding no_text read_sample (\<lambda>c. Some Float_type) age_call = Inr (Some e) \<and>
     eval_expr e (\<lambda>c. Num_cell (Fin 40)) = Text_cell ''old'' \<and>
     eval_expr e (\<lambda>c. Num_cell Nan) = Null_cell"
proof -
  let ?rows = "[breakpoint_row ''60'' (PStr ''old''), breakpoint_row ''25'' (PStr ''young'')]"
  let ?col = "When [(Or_expr (Is_nan (Column ''age'')) (Is_infinite (Column ''age'')), Null_lit)] (Column ''age'')"
  have t: "call_type age_call = ''breakpoints''" "call_column age_call = ''age''" "call_output age_call = ''band''"
    "call_right_closed age_call" "call_default age_call = PNone"
    by (simp_all add: age_call_def)
  have n: "normalise_banding_rules no_text ''breakpoints'' (call_rules age_call) = Inr ?rows" by code_simp
  have k: "breakpoints_kind no_text read_sample (PList ?rows) = Inr Number_kind"
    by (rule right_part_Some) code_simp
  have c: "banding_comparison_expr (Column (call_column age_call)) (Some Float_type) Number_kind (call_output age_call)
      = Inr ?col" unfolding t by code_simp
  have s: "separate no_text read_sample 0 ?rows =
      Inr ([(Bound_number 60, ''old'', 0), (Bound_number 25, ''young'', 1)], [])"
    by (rule right_part_Some) code_simp
  obtain e where e: "apply_banding no_text read_sample (\<lambda>c. Some Float_type) age_call = Inr (Some e)"
  proof -
    have "(case apply_banding no_text read_sample (\<lambda>c. Some Float_type) age_call of
        Inr (Some e) \<Rightarrow> True | _ \<Rightarrow> False)" by code_simp
    then show ?thesis using that by (auto split: sum.splits option.splits)
  qed
  note b = breakpoint_bands_exact [OF polars_eval t(1) n _ e k c s, unfolded Let_def]
  let ?r = "\<lambda>c :: string. Num_cell (Fin 40)"
  have "cell_key Number_kind (eval_expr ?col ?r) = Some 40" "double_cell (eval_expr ?col ?r)"
    by code_simp+
  then have "eval_expr e ?r = Text_cell ''old''"
    using b [of ?r] t(4) by (simp add: reaches_up_to_def bound_key_def)
  moreover have "eval_expr ?col (\<lambda>c. Num_cell Nan) = Null_cell" by code_simp
  then have "eval_expr e (\<lambda>c. Num_cell Nan) = Null_cell"
    using b [of "\<lambda>c. Num_cell Nan"] t(5) by (simp add: default_expr_def)
  ultimately show ?thesis using e by blast
qed

section \<open>Claims\<close>

definition rule_dict :: "pv list \<Rightarrow> nat \<Rightarrow> pydict" where
  "rule_dict rows i = (case rows ! i of PDict d \<Rightarrow> d | _ \<Rightarrow> [])"

text \<open>What the rule at a place assigns.\<close>

definition assignment_at :: "(pv \<Rightarrow> string) \<Rightarrow> string \<Rightarrow> pv list \<Rightarrow> nat \<Rightarrow> string" where
  "assignment_at other banding_type rows i =
     (if banding_type = ''categorical''
      then py_str other (get_or ''assignment'' (PStr []) (rule_dict rows i))
      else label_text other (rows ! i))"

lemma categorical_claims_Inr:
  "categorical_claims other i rows acc = Inr claims \<Longrightarrow>
   \<forall>s k a. map_of acc s = Some (k, a) \<longrightarrow> k < i + length rows \<and> Q k a \<Longrightarrow>
   \<forall>k < length rows. Q (i + k) (assignment_at other ''categorical'' rows k) \<Longrightarrow>
   \<forall>s k a. map_of claims s = Some (k, a) \<longrightarrow> k < i + length rows \<and> Q k a"
proof (induction rows arbitrary: i acc)
  case (Cons row rows)
  from Cons.prems(1) obtain d where row: "row = PDict d" by (cases row) auto
  have q: "Q i (py_str other (get_or ''assignment'' (PStr []) d))"
    using Cons.prems(3) by (auto simp: assignment_at_def rule_dict_def row dest: spec [of _ 0])
  have rest: "\<forall>k < length rows. Q (Suc i + k) (assignment_at other ''categorical'' rows k)"
  proof (intro allI impI)
    fix k assume "k < length rows"
    then show "Q (Suc i + k) (assignment_at other ''categorical'' rows k)"
      using Cons.prems(3) [rule_format, of "Suc k"] by (simp add: assignment_at_def rule_dict_def)
  qed
  define acc' where "acc' = (let v = get_or ''value'' (PStr []) d; a = get_or ''assignment'' (PStr []) d
      in if v = PNone \<or> v = PStr [] \<or> a = PNone \<or> a = PStr [] then acc
         else AList.update (py_str other v) (i, py_str other a) acc)"
  have go: "categorical_claims other (Suc i) rows acc' = Inr claims"
    using Cons.prems(1) by (simp add: row acc'_def Let_def)
  have acc': "\<forall>s k a. map_of acc' s = Some (k, a) \<longrightarrow> k < Suc i + length rows \<and> Q k a"
    using Cons.prems(2) q by (auto simp: acc'_def Let_def dict_simps split: if_splits)
  show ?case using Cons.IH [OF go acc' rest] by simp
qed simp

lemma map_of_claims:
  "map_of (map (\<lambda>(v, i, a). (v, f i a)) claims) s = map_option (\<lambda>(i, a). f i a) (map_of claims s)"
  by (induction claims) auto

text \<open>
  C31: A row's claim is its band. Where the engine writes a band the statistics have a claim and
  the other way round; on every row either no rule claims it and the band is the default, or
  the rule claimed is one of the rules and the band is exactly its assignment.
\<close>

theorem claim_is_the_band:
  assumes "polars ev" "normalise_banding_rules other (call_type call) (call_rules call) = Inr rows"
    "rows \<noteq> []" "apply_banding other read_float schema call = Inr (Some e)"
  shows "\<exists>c. rule_claim_expr other read_float schema call = Inr (Some c) \<and>
    ((ev c row = Null_cell \<and> ev e row = ev (default_expr (call_default call)) row) \<or>
     (\<exists>i < length rows. ev c row = Index_cell i \<and>
        ev e row = Text_cell (assignment_at other (call_type call) rows i)))"
proof (cases "call_type call = ''categorical''")
  case True
  let ?e = "Cast_text (Column (call_column call))"
  obtain claims where claims: "categorical_claims other 0 rows [] = Inr claims" "claims \<noteq> []"
    and e: "e = Replace_strict ?e (map (\<lambda>(v, i, a). (v, Text_lit a)) claims) (default_expr (call_default call))"
    using assms(2-4) True
    by (auto simp: apply_banding_def apply_categorical_def bind_result_Inr split: if_splits)
  let ?c = "Replace_strict ?e (map (\<lambda>(v, i, a). (v, Index_lit i)) claims) Null_lit"
  have c: "rule_claim_expr other read_float schema call = Inr (Some ?c)"
    using assms(2-4) True claims by (auto simp: rule_claim_expr_def apply_banding_def bind_result_Inr)
  have at: "i < length rows \<and> a = assignment_at other ''categorical'' rows i"
    if "map_of claims s = Some (i, a)" for s i a
    using categorical_claims_Inr [OF claims(1), where Q = "\<lambda>k a. a = assignment_at other ''categorical'' rows k"]
      that by auto
  let ?mt = "map (\<lambda>(v, i, a). (v, Text_lit a)) claims" and ?mi = "map (\<lambda>(v, i, a). (v, Index_lit i)) claims"
  have same: "map_of ?mt s = None \<longleftrightarrow> map_of ?mi s = None" for s
    by (simp add: map_of_claims)
  have "(ev c' row = Null_cell \<and> ev e row = ev (default_expr (call_default call)) row) \<or>
     (\<exists>i < length rows. ev c' row = Index_cell i \<and>
        ev e row = Text_cell (assignment_at other ''categorical'' rows i))" if "c' = ?c" for c'
    using polars.replaced_agree [OF assms(1), of ?mt ?mi "Column (call_column call)"
        "default_expr (call_default call)" row Null_lit, OF same] at that
    unfolding e by (force simp: map_of_claims polars.null_lit [OF assms(1)] polars.text_lit [OF assms(1)]
        polars.index_lit [OF assms(1)])
  then show ?thesis using c True by auto
next
  case False
  then have t: "call_type call = ''breakpoints''"
    using assms(4) by (auto simp: apply_banding_def require_banding_type_def bind_result_Inr refuse_if_def
        split: if_splits)
  have n: "normalise_banding_rules other ''breakpoints'' (call_rules call) = Inr rows" using assms(2) t by simp
  obtain kind rules col branches where
    k: "breakpoints_kind other read_float (PList rows) = Inr kind"
    and r: "rules_with_sources other read_float (PList rows) (call_right_closed call) = Inr rules"
    and col: "banding_comparison_expr (Column (call_column call)) (schema (call_column call)) kind (call_output call) = Inr col"
    and bs: "chain_branches col (\<lambda>r. Text_lit (rule_assignment (fst r))) rules = Inr branches"
    and e: "e = When branches (default_expr (call_default call))" and ne: "branches \<noteq> []"
    by (rule apply_breakpoints_Inr [OF t n assms(4)])
  obtain crs where crs: "\<forall>pick'. chain_branches col pick' rules = Inr (map (\<lambda>(c, r). (c, pick' r)) crs)"
    "branches = map (\<lambda>(c, r). (c, Text_lit (rule_assignment (fst r)))) crs"
    using chain_branches_pick [OF bs] by blast
  let ?bs = "map (\<lambda>(c, r). (c, Index_lit (snd r))) crs"
  have bs': "chain_branches col (\<lambda>r. Index_lit (snd r)) rules = Inr ?bs" using crs(1) by blast
  have c: "rule_claim_expr other read_float schema call = Inr (Some (When ?bs Null_lit))"
    using t n assms(3) k r col bs' ne crs(2)
    by (simp add: rule_claim_expr_def require_banding_type_def refuse_if_def)
  have "(ev (When ?bs Null_lit) row = Null_cell \<and> ev e row = ev (default_expr (call_default call)) row) \<or>
     (\<exists>i < length rows. ev (When ?bs Null_lit) row = Index_cell i \<and>
        ev e row = Text_cell (assignment_at other ''breakpoints'' rows i))"
    using polars.chains_agree [OF assms(1) bs' bs, of Null_lit row "default_expr (call_default call)"]
      rules_labels [OF r assms(3) k] unfolding e
    by (auto simp: polars.null_lit [OF assms(1)] polars.text_lit [OF assms(1)]
        polars.index_lit [OF assms(1)] assignment_at_def)
  then show ?thesis using c t by auto
qed

definition house_call :: band_call where
  "house_call = \<lparr>call_column = ''home'', call_output = ''band'', call_type = ''categorical'',
     call_rules = PList [categorical_row ''flat'' (PStr ''A''), categorical_row ''flat'' (PStr ''B'')],
     call_default = PStr ''other'', call_right_closed = True\<rparr>"

theorem claim_is_the_band_witness:
  "\<exists>c e. rule_claim_expr no_text read_sample (\<lambda>c. None) house_call = Inr (Some c) \<and>
     apply_banding no_text read_sample (\<lambda>c. None) house_call = Inr (Some e) \<and>
     eval_expr c (\<lambda>c. Text_cell ''flat'') = Index_cell 1 \<and>
     eval_expr e (\<lambda>c. Text_cell ''flat'') = Text_cell ''B''"
proof -
  let ?rows = "[categorical_row ''flat'' (PStr ''A''), categorical_row ''flat'' (PStr ''B'')]"
  let ?r = "\<lambda>c :: string. Text_cell ''flat''"
  let ?e = "Replace_strict (Cast_text (Column ''home'')) [(''flat'', Text_lit ''B'')] (Value_lit (PStr ''other''))"
  let ?c = "Replace_strict (Cast_text (Column ''home'')) [(''flat'', Index_lit 1)] Null_lit"
  have n: "normalise_banding_rules no_text (call_type house_call) (call_rules house_call) = Inr ?rows"
    by code_simp
  have e: "apply_banding no_text read_sample (\<lambda>c. None) house_call = Inr (Some ?e)"
    by (rule right_part_Some) code_simp
  have c: "rule_claim_expr no_text read_sample (\<lambda>c. None) house_call = Inr (Some ?c)"
    by (rule right_part_Some) code_simp
  have v: "eval_expr ?c ?r = Index_cell 1" by code_simp
  have a: "assignment_at no_text (call_type house_call) ?rows 1 = ''B''" by code_simp
  have "eval_expr ?e ?r = Text_cell ''B''"
    using claim_is_the_band [OF polars_eval n _ e, of ?r] c v a by auto
  then show ?thesis using e c v by blast
qed

section \<open>What a node's factors write\<close>

text \<open>Each column is written in turn, on the row as the columns before left it.\<close>

fun run_plan :: "(pl_expr \<Rightarrow> row \<Rightarrow> cell) \<Rightarrow> (string \<times> pl_expr) list \<Rightarrow> row \<Rightarrow> row" where
  "run_plan ev [] row = row"
| "run_plan ev ((out, e) # plan) row = run_plan ev plan (row(out := ev e row))"

lemma run_plan_other: "c \<notin> set (map fst plan) \<Longrightarrow> run_plan ev plan row c = row c"
  by (induction ev plan row rule: run_plan.induct) auto

lemma run_plan_at:
  "distinct (map fst plan) \<Longrightarrow> k < length plan \<Longrightarrow>
   run_plan ev plan row (fst (plan ! k)) = ev (snd (plan ! k)) (run_plan ev (take k plan) row)"
proof (induction ev plan row arbitrary: k rule: run_plan.induct)
  case (2 ev out e plan row)
  then show ?case by (cases k) (simp_all add: run_plan_other fun_upd_def)
qed simp

lemma distinct_outputs:
  "distinct_outputs_loop i fs seen = Inr u \<Longrightarrow>
   distinct (map (get_or ''output_column'' PNone) (filter banding_factor_is_active fs)) \<and>
   set (map (get_or ''output_column'' PNone) (filter banding_factor_is_active fs)) \<inter> set (keys seen) = {}"
proof (induction i fs seen rule: distinct_outputs_loop.induct)
  case (2 i f fs seen)
  show ?case
  proof (cases "banding_factor_is_active f")
    case True
    then have h: "hashable (get_or ''output_column'' PNone f)"
      and new: "map_of seen (get_or ''output_column'' PNone f) = None"
      and rest: "distinct_outputs_loop (Suc i) fs
          (AList.update (get_or ''output_column'' PNone f) i seen) = Inr u"
      using 2(3) by (auto simp: Let_def split: if_splits option.splits)
    from 2(2) [OF _ refl _ new rest] h True have
      "distinct (map (get_or ''output_column'' PNone) (filter banding_factor_is_active fs)) \<and>
       set (map (get_or ''output_column'' PNone) (filter banding_factor_is_active fs)) \<inter>
         set (keys (AList.update (get_or ''output_column'' PNone f) i seen)) = {}" by simp
    then show ?thesis using True new by (auto simp: set_keys_update map_of_None_keys)
  next
    case False
    then show ?thesis using 2(1,3) by simp
  qed
qed simp

lemma normalised_rows:
  "normalise_banding_rules other t rules = Inr rows \<Longrightarrow> py_truthy rules \<Longrightarrow> rows \<noteq> []"
  by (cases rules)
    (auto simp: normalise_banding_rules_def expand_rule_map_def map_result_Inr split: if_splits)

lemma apply_banding_Some:
  assumes "apply_banding other read_float schema call = Inr r" "py_truthy (call_rules call)"
  shows "r \<noteq> None"
  using assms normalised_rows
  by (fastforce simp: apply_banding_def apply_categorical_def apply_breakpoints_def bind_result_Inr
      split: if_splits)

lemma band_call_of_Inr:
  assumes "band_call_of other f = Inr call"
  shows "get_or ''output_column'' PNone f = PStr (call_output call)"
    "get_or ''column'' PNone f = PStr (call_column call)" "call_type call = banding_name other f"
    "call_rules call = get_or ''rules'' PNone f"
    "call_right_closed call = py_truthy (get_or ''right_closed'' (PBool True) f)"
  using assms by (auto simp: band_call_of_def split: pyval.splits)

lemma banding_plan_outputs:
  "banding_plan other read_float schema fs = Inr plan \<Longrightarrow>
   map (\<lambda>p. PStr (fst p)) plan = map (get_or ''output_column'' PNone) (filter banding_factor_is_active fs)"
proof (induction fs arbitrary: schema plan)
  case (Cons f fs)
  show ?case
  proof (cases "banding_factor_is_active f")
    case True
    then obtain call e where call: "band_call_of other f = Inr call"
      and e: "apply_banding other read_float schema call = Inr e"
      and rest: "(case e of None \<Rightarrow> banding_plan other read_float schema fs
        | Some expr \<Rightarrow> bind_result (banding_plan other read_float (schema(call_output call \<mapsto> Text_type)) fs)
            (\<lambda>plan. Inr ((call_output call, expr) # plan))) = Inr plan"
      using Cons.prems by (auto simp: bind_result_Inr)
    have "py_truthy (call_rules call)"
      using True band_call_of_Inr(4) [OF call] by (simp add: banding_factor_is_active_def)
    then obtain expr where "e = Some expr" using apply_banding_Some [OF e] by auto
    then show ?thesis using rest Cons.IH True band_call_of_Inr(1) [OF call]
      by (auto simp: bind_result_Inr)
  next
    case False
    then show ?thesis using Cons by (auto simp: bind_result_Inr)
  qed
qed simp

text \<open>
  The plan is the factors' own expressions: each entry is what its factor's call gives, under the
  schema in which the outputs before it are text.
\<close>

definition with_bands :: "(string \<Rightarrow> column_type option) \<Rightarrow> string list \<Rightarrow> string \<Rightarrow> column_type option" where
  "with_bands schema outputs c = (if c \<in> set outputs then Some Text_type else schema c)"

lemma with_bands_Nil [simp]: "with_bands schema [] = schema"
  by (rule ext) (simp add: with_bands_def)

lemma with_bands_update: "with_bands (schema(out \<mapsto> Text_type)) outputs = with_bands schema (out # outputs)"
  by (rule ext) (simp add: with_bands_def)

lemma banding_plan_entries:
  "banding_plan other read_float schema fs = Inr plan \<Longrightarrow>
   list_all2 (\<lambda>f p. \<exists>call. band_call_of other f = Inr call \<and> fst p = call_output call)
     (filter banding_factor_is_active fs) plan \<and>
   (\<forall>k call. k < length plan \<longrightarrow> band_call_of other (filter banding_factor_is_active fs ! k) = Inr call \<longrightarrow>
     apply_banding other read_float (with_bands schema (map fst (take k plan))) call = Inr (Some (snd (plan ! k))))"
proof (induction fs arbitrary: schema plan)
  case (Cons f fs)
  show ?case
  proof (cases "banding_factor_is_active f")
    case True
    then obtain call e where call: "band_call_of other f = Inr call"
      and e: "apply_banding other read_float schema call = Inr e"
      and rest: "(case e of None \<Rightarrow> banding_plan other read_float schema fs
        | Some expr \<Rightarrow> bind_result (banding_plan other read_float (schema(call_output call \<mapsto> Text_type)) fs)
            (\<lambda>plan. Inr ((call_output call, expr) # plan))) = Inr plan"
      using Cons.prems by (auto simp: bind_result_Inr)
    have "py_truthy (call_rules call)"
      using True band_call_of_Inr(4) [OF call] by (simp add: banding_factor_is_active_def)
    then obtain expr where expr: "e = Some expr" using apply_banding_Some [OF e] by auto
    then obtain plan' where p: "plan = (call_output call, expr) # plan'"
      and go: "banding_plan other read_float (schema(call_output call \<mapsto> Text_type)) fs = Inr plan'"
      using rest by (auto simp: bind_result_Inr)
    note IH = Cons.IH [OF go, unfolded with_bands_update]
    have "apply_banding other read_float (with_bands schema (map fst (take k plan))) call' = Inr (Some (snd (plan ! k)))"
      if "k < length plan" "band_call_of other (filter banding_factor_is_active (f # fs) ! k) = Inr call'" for k call'
      using that IH True call e expr by (cases k) (simp_all add: p)
    moreover have "list_all2 (\<lambda>f p. \<exists>call. band_call_of other f = Inr call \<and> fst p = call_output call)
        (filter banding_factor_is_active (f # fs)) plan"
      using IH True call by (simp add: p)
    ultimately show ?thesis by blast
  next
    case False
    then have "banding_plan other read_float schema fs = Inr plan" using Cons.prems by (simp add: bind_result_Inr)
    then show ?thesis using Cons.IH False by simp
  qed
qed simp

text \<open>
  C34: What a banding node writes. The plan of its factors has one column for each active factor,
  in their order and all different, and the column's expression is the one that factor's own
  call gives when the columns written before it are text in the schema. Run on a row, an output
  column holds what its factor's expression gives on the row as the earlier factors left it,
  whatever the later factors write, and every other column of the row is as it was.
\<close>

theorem banding_writes_its_outputs:
  assumes "apply_banding_factors other read_float schema factors = Inr plan"
  shows "map (\<lambda>p. PStr (fst p)) plan =
      map (get_or ''output_column'' PNone) (filter banding_factor_is_active factors) \<and>
    distinct (map fst plan) \<and>
    (\<forall>k < length plan. \<exists>call. band_call_of other (filter banding_factor_is_active factors ! k) = Inr call \<and>
      apply_banding other read_float (with_bands schema (map fst (take k plan))) call = Inr (Some (snd (plan ! k))) \<and>
      run_plan ev plan row (call_output call) = ev (snd (plan ! k)) (run_plan ev (take k plan) row)) \<and>
    (\<forall>c. c \<notin> set (map fst plan) \<longrightarrow> run_plan ev plan row c = row c)"
proof -
  have plan: "banding_plan other read_float schema factors = Inr plan"
    and outs: "distinct_outputs_loop 0 factors [] = Inr ()"
    using assms by (auto simp: apply_banding_factors_def require_distinct_banding_outputs_def bind_result_Inr)
  note same = banding_plan_outputs [OF plan] and entries = banding_plan_entries [OF plan]
  have "distinct (map PStr (map fst plan))"
    using distinct_outputs [OF outs] by (simp add: same [symmetric] o_def)
  then have d: "distinct (map fst plan)" by (simp only: distinct_map)
  have "\<exists>call. band_call_of other (filter banding_factor_is_active factors ! k) = Inr call \<and>
      apply_banding other read_float (with_bands schema (map fst (take k plan))) call = Inr (Some (snd (plan ! k))) \<and>
      run_plan ev plan row (call_output call) = ev (snd (plan ! k)) (run_plan ev (take k plan) row)"
    if k: "k < length plan" for k
  proof -
    obtain call where call: "band_call_of other (filter banding_factor_is_active factors ! k) = Inr call"
      "fst (plan ! k) = call_output call"
      using list_all2_nthD2 [OF conjunct1 [OF entries] k] by blast
    then show ?thesis using entries k run_plan_at [OF d k, of ev row] by auto
  qed
  then show ?thesis using same d run_plan_other by blast
qed

definition two_factors :: "pydict list" where
  "two_factors =
     [[(PStr ''banding'', PStr ''categorical''), (PStr ''column'', PStr ''home''),
       (PStr ''output_column'', PStr ''a''), (PStr ''rules'', PList [categorical_row ''flat'' (PStr ''x'')])],
      [(PStr ''banding'', PStr ''categorical''), (PStr ''column'', PStr ''a''),
       (PStr ''output_column'', PStr ''b''), (PStr ''rules'', PList [categorical_row ''x'' (PStr ''y'')])]]"

theorem banding_writes_its_outputs_witness:
  "\<exists>plan. apply_banding_factors no_text read_sample (\<lambda>c. None) two_factors = Inr plan \<and>
     map fst plan = [''a'', ''b''] \<and>
     run_plan eval_expr plan (\<lambda>c. Text_cell ''flat'') ''b'' = Text_cell ''y'' \<and>
     run_plan eval_expr plan (\<lambda>c. Text_cell ''flat'') ''home'' = Text_cell ''flat''"
proof -
  let ?plan = "[(''a'', Replace_strict (Cast_text (Column ''home'')) [(''flat'', Text_lit ''x'')] Null_lit),
    (''b'', Replace_strict (Cast_text (Column ''a'')) [(''x'', Text_lit ''y'')] Null_lit)]"
  let ?r = "\<lambda>c :: string. Text_cell ''flat''"
  have p: "apply_banding_factors no_text read_sample (\<lambda>c. None) two_factors = Inr ?plan"
    by (rule right_part_Some) code_simp
  note w = banding_writes_its_outputs [OF p, of eval_expr ?r]
  have c: "band_call_of no_text (filter banding_factor_is_active two_factors ! 1) =
      Inr \<lparr>call_column = ''a'', call_output = ''b'', call_type = ''categorical'',
        call_rules = PList [categorical_row ''x'' (PStr ''y'')], call_default = PNone, call_right_closed = True\<rparr>"
    by (rule right_part_Some) code_simp
  have "run_plan eval_expr ?plan ?r ''b'' =
      eval_expr (snd (?plan ! 1)) (run_plan eval_expr (take 1 ?plan) ?r)"
    using w c by (elim conjE allE [of _ 1]) simp
  moreover have "eval_expr (snd (?plan ! 1)) (run_plan eval_expr (take 1 ?plan) ?r) = Text_cell ''y''"
    by code_simp
  moreover have "run_plan eval_expr ?plan ?r ''home'' = Text_cell ''flat''"
    using w by (elim conjE allE [of _ "''home''"]) simp
  ultimately show ?thesis using p by (intro exI [of _ ?plan]) simp
qed

section \<open>A config that validates runs\<close>

text \<open>A row that names a value and what it maps to claims that value.\<close>

definition claiming :: "pv \<Rightarrow> bool" where
  "claiming row \<longleftrightarrow> (\<exists>d. row = PDict d \<and> get_or ''value'' (PStr []) d \<notin> {PNone, PStr []} \<and>
     get_or ''assignment'' (PStr []) d \<notin> {PNone, PStr []})"

lemma categorical_claims_total:
  "\<forall>row \<in> set rows. claiming row \<Longrightarrow>
   \<exists>claims. categorical_claims other i rows acc = Inr claims \<and> (rows \<noteq> [] \<or> acc \<noteq> [] \<longrightarrow> claims \<noteq> [])"
proof (induction rows arbitrary: i acc)
  case (Cons row rows)
  then obtain d where d: "row = PDict d" "get_or ''value'' (PStr []) d \<notin> {PNone, PStr []}"
    "get_or ''assignment'' (PStr []) d \<notin> {PNone, PStr []}"
    by (auto simp: claiming_def)
  let ?acc = "AList.update (py_str other (get_or ''value'' (PStr []) d))
      (i, py_str other (get_or ''assignment'' (PStr []) d)) acc"
  have ne: "?acc \<noteq> []" by (cases acc) (auto split: prod.split)
  obtain claims where "categorical_claims other (Suc i) rows ?acc = Inr claims" "claims \<noteq> []"
    using Cons.IH [of "Suc i" ?acc] Cons.prems ne by auto
  then show ?case using d by (auto simp: Let_def)
qed auto

lemma get_or_other_default: "get_or k v d \<noteq> v \<Longrightarrow> get_or k v' d = get_or k v d"
  by (simp add: get_or_def split: option.splits)

lemma compact_row_claims:
  assumes "compact_row other Categorical_rule i (public_rule row) = Inr p"
  shows "claiming row"
proof -
  obtain d where d: "row = PDict d"
    using assms by (cases row) (auto simp: compact_row_def)
  have same: "get_or k v (public_items d) = get_or k v d" if "k \<in> {''value'', ''assignment''}" for k v
    using that by (auto intro!: get_or_cong)
  have v: "get_or ''value'' PNone d \<noteq> PNone \<and> get_or ''value'' PNone d \<noteq> PStr []"
    and a: "get_or ''assignment'' PNone d \<noteq> PNone \<and> get_or ''assignment'' PNone d \<noteq> PStr []"
    using assms d by (auto simp: compact_row_def key_field_def value_field_def same Let_def split: if_splits)
  show ?thesis
    unfolding claiming_def d using v a
      get_or_other_default [of "''value''" PNone d "PStr []"]
      get_or_other_default [of "''assignment''" PNone d "PStr []"] by simp
qed

lemma expanded_rows_claim:
  assumes "expand_rule_map other ''categorical'' items = Inr rows"
  shows "\<forall>row \<in> set rows. claiming row"
proof -
  have "list_all2 (\<lambda>item row. expand_rule other Categorical_rule item = Inr row) items rows"
    using assms by (simp add: expand_rule_map_def map_result_Inr)
  moreover have "claiming row" if "expand_rule other Categorical_rule item = Inr row" for item row
    using that
    by (auto simp: expand_rule_def claiming_def categorical_row_def get_or_def validate_map_value_def
        bind_result_Inr refuse_if_def Let_def split: if_splits)
  ultimately show ?thesis by (induction rule: list_all2_induct) auto
qed

lemma factors_loop_Inr:
  "factors_loop f i vs = Inr ds \<longleftrightarrow>
   (\<exists>es. vs = map PDict es \<and> list_all2 (\<lambda>e d. f e = Inr d) es ds)"
proof (induction vs arbitrary: i ds)
  case (Cons v vs)
  show ?case
  proof (cases v)
    case (PDict e)
    show ?thesis
      unfolding PDict factors_loop.simps pyval.case bind_result_Inr Cons.IH
      by (auto simp: list_all2_Cons1 Cons_eq_map_conv) (metis list_all2_Cons)+
  qed auto
qed auto

lemma dicts_of_map [simp]: "dicts_of (PList (map PDict ds)) = ds"
  by (induction ds) auto

text \<open>What a validated factor came from: one source factor, expanded, that the writer accepts.\<close>

lemma validated_factor:
  assumes "validate_banding_config other read_float config = Inr factors" "f \<in> set factors"
  obtains f0 d' where "expand_banding_factor other f0 = Inr f"
    "compact_banding_factor other read_float f0 = Inr d'"
    "check_intervals other read_float f = Inr ()" "require_banding_type (py_strip (banding_name other f)) = Inr ()"
proof -
  have n: "normalise_banding_factors other config = Inr factors"
    and c: "\<exists>c. compact_banding_config other read_float config = Inr c"
    and i: "check_all_intervals other read_float factors = Inr ()"
    and t: "check_types other factors = Inr ()"
    using assms(1) by (auto simp: validate_banding_config_def bind_result_Inr)
  have ci: "check_intervals other read_float f = Inr ()"
    using i assms(2) by (induction factors) (auto simp: bind_result_Inr)
  have ct: "require_banding_type (py_strip (banding_name other f)) = Inr ()"
    using t assms(2) by (induction factors) (auto simp: bind_result_Inr)
  obtain vs where vs: "get_or ''factors'' PNone config = PList vs"
    using n assms(2) by (auto simp: normalise_banding_factors_def split: pyval.splits)
  obtain ds where ds: "factors_loop (expand_banding_factor other) 0 vs = Inr ds"
    using n vs by (auto simp: normalise_banding_factors_def expand_banding_config_def with_factors_def
        bind_result_Inr)
  then have fs: "factors = ds"
    using n vs by (auto simp: normalise_banding_factors_def expand_banding_config_def with_factors_def get_or_put)
  obtain ds' where ds': "factors_loop (compact_banding_factor other read_float) 0 vs = Inr ds'"
    using c vs by (auto simp: compact_banding_config_def with_factors_def bind_result_Inr)
  obtain es where es: "vs = map PDict es" "list_all2 (\<lambda>e d. expand_banding_factor other e = Inr d) es ds"
    using ds unfolding factors_loop_Inr by blast
  obtain es' where es': "vs = map PDict es'"
    "list_all2 (\<lambda>e d. compact_banding_factor other read_float e = Inr d) es' ds'"
    using ds' unfolding factors_loop_Inr by blast
  have "es' = es" using es(1) es'(1) by (metis inj_map_eq_map injI pyval.inject(6))
  obtain k where k: "k < length ds" "ds ! k = f" using assms(2) fs by (auto simp: in_set_conv_nth)
  show ?thesis
  proof (rule that [OF _ _ ci ct])
    show "expand_banding_factor other (es ! k) = Inr f" using list_all2_nthD2 [OF es(2) k(1)] k(2) by simp
    have "k < length es'" using k(1) list_all2_lengthD [OF es(2)] \<open>es' = es\<close> by simp
    from list_all2_nthD [OF es'(2) this]
    show "compact_banding_factor other read_float (es ! k) = Inr (ds' ! k)" using \<open>es' = es\<close> by simp
  qed
qed

lemma expanded_other:
  "expand_banding_factor other f0 = Inr f \<Longrightarrow> k \<noteq> ''rules'' \<Longrightarrow> get_or k v f = get_or k v f0"
  by (auto simp: expand_banding_factor_def bind_result_Inr get_or_put split: if_splits)

lemma validated_categorical_rows:
  assumes "expand_banding_factor other f0 = Inr f" "compact_banding_factor other read_float f0 = Inr d'"
    "banding_type_of other f0 = ''categorical''" "get_or ''rules'' PNone f = PList rows"
  shows "\<forall>row \<in> set rows. claiming row"
proof (cases "get_or ''rules'' PNone f0")
  case (PList rs)
  then have "rows = rs"
    using assms(1,4) by (auto simp: expand_banding_factor_def normalise_banding_rules_def get_or_put split: if_splits)
  moreover have t: "banding_type_of other f0 = rule_kind_name Categorical_rule"
    using assms(3) by (simp add: rule_kind_name_def)
  obtain ps rules where "\<forall>r \<in> set rs. \<exists>i. compact_row other Categorical_rule i (public_rule r) =
      Inr (row_pair other Categorical_rule r)"
    by (rule compact_banding_factor_rules [OF assms(2) PList t])
  then have "\<forall>r \<in> set rs. claiming r" using compact_row_claims by blast
  ultimately show ?thesis by simp
next
  case (PDict items)
  then have "dict_has ''rules'' f0" by (auto simp: dict_has_def get_or_def split: option.splits)
  then have "expand_rule_map other ''categorical'' items = Inr rows"
    using assms(1,3,4) PDict
    by (auto simp: expand_banding_factor_def normalise_banding_rules_def bind_result_Inr get_or_put)
  then show ?thesis by (rule expanded_rows_claim)
qed (use assms(1,4) in \<open>auto simp: expand_banding_factor_def normalise_banding_rules_def bind_result_Inr get_or_put split: if_splits\<close>)

lemma chain_total:
  assumes "\<forall>r \<in> set rs. well_formed kind (fst r)"
  shows "\<exists>bs. chain_branches col pick rs = Inr bs \<and> ((\<exists>r \<in> set rs. rule_assignment (fst r) \<noteq> []) \<longrightarrow> bs \<noteq> [])"
  using assms
proof (induction rs)
  case (Cons r rs)
  then obtain cs where cs: "rule_comparators (fst r) = Inr cs" "cs \<noteq> []" by (auto simp: well_formed_def)
  then obtain c where "banding_condition col (fst r) = Inr (Some c)"
    by (cases cs) (auto simp: banding_condition_def)
  then show ?case using Cons by auto
qed simp

lemma usable_assignment:
  "has_usable_interval rules = Inr True \<Longrightarrow> \<exists>r \<in> set rules. rule_assignment r \<noteq> []"
  by (induction rules) (auto simp: bind_result_Inr split: if_splits)

text \<open>The column types that breakpoints of a kind can be compared with.\<close>

definition comparable :: "boundary_kind \<Rightarrow> column_type option \<Rightarrow> bool" where
  "comparable kind dtype \<longleftrightarrow> dtype = Some Null_type \<or>
     dtype \<in> (case kind of
        Number_kind \<Rightarrow> {None, Some Float_type, Some Integer_type}
      | Date_kind \<Rightarrow> {Some Date_type, Some (Datetime_type False), Some (Datetime_type True)}
      | Datetime_kind \<Rightarrow> {Some (Datetime_type False), Some (Datetime_type True)})"

lemma comparison_comparable:
  "if comparable kind dtype then \<exists>e. banding_comparison_expr col dtype kind out = Inr e
   else banding_comparison_expr col dtype kind out = Inl (Column_kind_mismatch out)"
  by (cases dtype rule: option.exhaust; cases kind)
    (auto simp: banding_comparison_expr_def comparable_def is_numeric_def is_temporal_def Let_def
      split: column_type.splits)

text \<open>A factor with a plainly written type and, when it is active, names that are not blank.\<close>

definition plainly_written :: "pydict \<Rightarrow> bool" where
  "plainly_written f \<longleftrightarrow> (\<exists>t. get_or ''banding'' PNone f = PStr t \<and> py_strip t = t) \<and>
     (banding_factor_is_active f \<longrightarrow> (\<exists>c out. get_or ''column'' PNone f = PStr c \<and>
        get_or ''output_column'' PNone f = PStr out \<and> py_strip c \<noteq> [] \<and> py_strip out \<noteq> []))"

lemma validated_factor_applies:
  assumes "validate_banding_config other read_float config = Inr factors" "f \<in> set factors"
    "banding_factor_is_active f" "band_call_of other f = Inr call"
    "get_or ''banding'' PNone f = PStr t" "t \<in> {''categorical'', ''breakpoints''}"
    "py_strip (call_column call) \<noteq> []" "py_strip (call_output call) \<noteq> []"
  shows "call_type call = t \<and>
    (if t = ''categorical'' then \<exists>e. apply_banding other read_float schema call = Inr (Some e)
     else \<exists>kind. breakpoints_kind other read_float (call_rules call) = Inr kind \<and>
       (if comparable kind (schema (call_column call))
        then \<exists>e. apply_banding other read_float schema call = Inr (Some e)
        else apply_banding other read_float schema call = Inl (Column_kind_mismatch (call_output call))))"
proof -
  obtain f0 d' where f0: "expand_banding_factor other f0 = Inr f"
    "compact_banding_factor other read_float f0 = Inr d'"
    and ci: "check_intervals other read_float f = Inr ()"
    by (rule validated_factor [OF assms(1,2)])
  note call = band_call_of_Inr [OF assms(4)]
  have b: "get_or ''banding'' (PStr []) f = PStr t" "t \<noteq> []"
    using assms(5,6) get_or_other_default [of "''banding''" PNone f "PStr []"] by auto
  then have type: "call_type call = t" using call(3) by (simp add: banding_name_def text_or_empty_def)
  have truthy: "py_truthy (get_or ''rules'' PNone f)" using assms(3) by (simp add: banding_factor_is_active_def)
  have has: "dict_has ''rules'' f0"
    using truthy f0(1) by (auto simp: expand_banding_factor_def dict_has_def get_or_def split: if_splits)
  then obtain rows where rows: "get_or ''rules'' PNone f = PList rows"
    using f0(1) by (auto simp: expand_banding_factor_def bind_result_Inr get_or_put)
  then have ne: "rows \<noteq> []" using truthy by simp
  have norm: "normalise_banding_rules other t (call_rules call) = Inr rows"
    using call(4) rows by (simp add: normalise_banding_rules_def)
  have req: "require_banding_type t = Inr ()" using assms(6) by (auto simp: require_banding_type_def)
  show ?thesis
  proof (cases "t = ''categorical''")
    case True
    have "banding_type_of other f0 = ''categorical''"
    proof -
      have "get_or ''banding'' PNone f0 = PStr ''categorical''"
        using expanded_other [OF f0(1), of "''banding''" PNone] assms(5) True by simp
      then show ?thesis by (simp add: banding_type_of_def text_or_empty_def)
    qed
    from categorical_claims_total [OF validated_categorical_rows [OF f0 this rows], of other 0 "[]"] ne
    obtain claims where "categorical_claims other 0 rows [] = Inr claims" "claims \<noteq> []" by auto
    then show ?thesis
      using True type req norm by (simp add: apply_banding_def apply_categorical_def)
  next
    case False
    then have t: "t = ''breakpoints''" using assms(6) by simp
    have out: "text_or_empty other (get_or ''output_column'' (PStr []) f) = call_output call"
      "text_or_empty other (get_or ''column'' (PStr []) f) = call_column call"
      using call(1,2) get_or_other_default [of "''output_column''" PNone f "PStr []"]
        get_or_other_default [of "''column''" PNone f "PStr []"]
      by (auto simp: text_or_empty_def)
    have r: "get_or ''rules'' (PList []) f = PList rows"
      using rows get_or_other_default [of "''rules''" PNone f "PList []"] by simp
    obtain intervals where
      i: "breakpoints_to_rules other read_float (PList rows) (call_right_closed call) = Inr intervals"
      and u: "has_usable_interval intervals = Inr True"
      using ci t assms(5,7,8) out r ne call(5)
      by (auto simp: check_intervals_def bind_result_Inr normalise_banding_rules_def)
    obtain rules where rules: "rules_with_sources other read_float (PList rows) (call_right_closed call) = Inr rules"
      "intervals = map fst rules"
      using i by (auto simp: breakpoints_to_rules_def bind_result_Inr)
    obtain kind where kind: "breakpoints_kind other read_float (PList rows) = Inr kind"
      using rules(1) ne by (auto simp: rules_with_sources_def normalise_banding_rules_def bind_result_Inr)
    obtain bs os where sep: "separate other read_float 0 rows = Inr (bs, os)"
      by (rule separate_total [OF rules(1) ne])
    note facts = rules_with_sources_Inr [OF rules(1) ne kind sep]
    have wf: "\<forall>r \<in> set rules. well_formed kind (fst r)"
      unfolding facts(5) by (rule rules_well_formed [OF facts(2,3)])
    have "\<exists>r \<in> set rules. rule_assignment (fst r) \<noteq> []" using usable_assignment [OF u] rules(2) by auto
    then obtain branches where branches: "\<And>col. \<exists>bs. chain_branches col (\<lambda>r. Text_lit (rule_assignment (fst r))) rules
        = Inr bs \<and> bs \<noteq> []"
      using chain_total [OF wf] by metis
    have k: "breakpoints_kind other read_float (call_rules call) = Inr kind" using call(4) rows kind by simp
    note fit = comparison_comparable [of kind "schema (call_column call)" "Column (call_column call)" "call_output call"]
    show ?thesis
    proof (cases "comparable kind (schema (call_column call))")
      case False
      then have "apply_banding other read_float schema call = Inl (Column_kind_mismatch (call_output call))"
        using fit t type req norm kind rules(1) by (simp add: apply_banding_def apply_breakpoints_def)
      then show ?thesis using False k t type by simp
    next
      case True
      then obtain col where col: "banding_comparison_expr (Column (call_column call)) (schema (call_column call)) kind
          (call_output call) = Inr col" using fit by auto
      obtain cb where "chain_branches col (\<lambda>r. Text_lit (rule_assignment (fst r))) rules = Inr cb" "cb \<noteq> []"
        using branches by blast
      then have "\<exists>e. apply_banding other read_float schema call = Inr (Some e)"
        using col t type req norm kind rules(1) by (simp add: apply_banding_def apply_breakpoints_def)
      then show ?thesis using True k t type by simp
    qed
  qed
qed

text \<open>The frames on which every active breakpoints factor finds a column it can compare.\<close>

definition factor_fits :: "(pv \<Rightarrow> string) \<Rightarrow> (string \<Rightarrow> pyfloat option) \<Rightarrow>
    (string \<Rightarrow> column_type option) \<Rightarrow> pydict \<Rightarrow> bool" where
  "factor_fits other read_float schema f \<longleftrightarrow>
     get_or ''banding'' PNone f = PStr ''breakpoints'' \<longrightarrow>
     (case (breakpoints_kind other read_float (get_or ''rules'' PNone f), get_or ''column'' PNone f) of
        (Inr kind, PStr c) \<Rightarrow> comparable kind (schema c)
      | _ \<Rightarrow> False)"

fun columns_fit :: "(pv \<Rightarrow> string) \<Rightarrow> (string \<Rightarrow> pyfloat option) \<Rightarrow> (string \<Rightarrow> column_type option) \<Rightarrow>
    pydict list \<Rightarrow> bool" where
  "columns_fit other read_float schema [] \<longleftrightarrow> True"
| "columns_fit other read_float schema (f # fs) \<longleftrightarrow>
     (if banding_factor_is_active f
      then factor_fits other read_float schema f \<and>
        (case get_or ''output_column'' PNone f of
           PStr out \<Rightarrow> columns_fit other read_float (schema(out \<mapsto> Text_type)) fs
         | _ \<Rightarrow> False)
      else columns_fit other read_float schema fs)"

lemma validated_plan:
  assumes valid: "validate_banding_config other read_float config = Inr factors"
  shows "set fs \<subseteq> set factors \<Longrightarrow> \<forall>f \<in> set fs. plainly_written f \<Longrightarrow>
    (\<exists>plan. banding_plan other read_float schema fs = Inr plan) \<longleftrightarrow> columns_fit other read_float schema fs"
proof (induction fs arbitrary: schema)
  case (Cons f fs)
  then obtain t where t: "get_or ''banding'' PNone f = PStr t" "py_strip t = t" by (auto simp: plainly_written_def)
  have name: "banding_name other f = t"
    using t(1) by (cases "t = []")
      (auto simp: banding_name_def text_or_empty_def get_or_def split: option.splits)
  have "require_banding_type t = Inr ()"
    using validated_factor [OF valid, of f] Cons.prems(1) t(2) name by (metis list.set_intros(1) subsetD)
  then have type: "t \<in> {''categorical'', ''breakpoints''}" and req: "require_banding_type (banding_name other f) = Inr ()"
    using name by (auto simp: require_banding_type_def refuse_if_def split: if_splits)
  show ?case
  proof (cases "banding_factor_is_active f")
    case False
    then show ?thesis using Cons req by simp
  next
    case True
    then obtain c out where names: "get_or ''column'' PNone f = PStr c" "get_or ''output_column'' PNone f = PStr out"
      "py_strip c \<noteq> []" "py_strip out \<noteq> []"
      using Cons.prems(2) by (auto simp: plainly_written_def)
    then obtain call where call: "band_call_of other f = Inr call" "call_column call = c" "call_output call = out"
      "call_rules call = get_or ''rules'' PNone f"
      by (simp add: band_call_of_def)
    note one = validated_factor_applies [OF valid _ True call(1) t(1) type, of schema]
    have IH: "(\<exists>plan. banding_plan other read_float (schema(out \<mapsto> Text_type)) fs = Inr plan) \<longleftrightarrow>
        columns_fit other read_float (schema(out \<mapsto> Text_type)) fs"
      by (rule Cons.IH) (use Cons.prems in auto)
    show ?thesis
    proof (cases "factor_fits other read_float schema f")
      case fits: True
      then obtain e where "apply_banding other read_float schema call = Inr (Some e)"
        using one Cons.prems(1) names call type t(1) by (auto simp: factor_fits_def split: if_splits)
      then show ?thesis using IH req True names(2) call(1,3) fits by (auto simp: bind_result_Inr)
    next
      case misfit: False
      then have "apply_banding other read_float schema call = Inl (Column_kind_mismatch out)"
        using one Cons.prems(1) names call type t(1) by (auto simp: factor_fits_def split: if_splits)
      then show ?thesis using req True misfit call(1) by simp
    qed
  qed
qed simp

text \<open>
  C32: A banding config that validates runs. A config accepted on a save, whose factors have a
  plainly written type (no surrounding space) and whose active factors have names that are not
  blank, is applied as a whole exactly on the frames where every active breakpoints factor finds
  a column of a type it can be compared with, the outputs of the factors before it being text:
  there is no other refusal left.
\<close>

theorem validated_banding_runs:
  assumes "validate_banding_config other read_float config = Inr factors" "\<forall>f \<in> set factors. plainly_written f"
  shows "(\<exists>plan. apply_banding_config other read_float schema config = Inr plan) \<longleftrightarrow>
    columns_fit other read_float schema factors"
proof -
  have "normalise_banding_factors other config = Inr factors" "require_distinct_banding_outputs factors = Inr ()"
    using assms(1) by (auto simp: validate_banding_config_def bind_result_Inr)
  then show ?thesis
    using validated_plan [OF assms(1) subset_refl assms(2), of schema]
    by (simp add: apply_banding_config_def apply_banding_factors_def)
qed

definition home_config :: pydict where
  "home_config = [(PStr ''factors'', PList [PDict (hd two_factors), PDict
     [(PStr ''banding'', PStr ''breakpoints''), (PStr ''column'', PStr ''age''), (PStr ''output_column'', PStr ''c''),
      (PStr ''rules'', PList [breakpoint_row ''60'' (PStr ''old''), breakpoint_row ''25'' (PStr ''young'')])]])]"

theorem validated_banding_runs_witness:
  "(\<exists>plan. apply_banding_config no_text read_sample [''age'' \<mapsto> Float_type] home_config = Inr plan) \<and>
   \<not> (\<exists>plan. apply_banding_config no_text read_sample [''age'' \<mapsto> Date_type] home_config = Inr plan)"
proof -
  have "case validate_banding_config no_text read_sample home_config of Inl _ \<Rightarrow> False
      | Inr fs \<Rightarrow> fs = dicts_of (get_or ''factors'' PNone home_config)"
    by code_simp
  then obtain fs where v: "validate_banding_config no_text read_sample home_config = Inr fs"
    "fs = dicts_of (get_or ''factors'' PNone home_config)"
    by (auto split: sum.splits)
  have strips: "py_strip ''categorical'' = ''categorical''" "py_strip ''breakpoints'' = ''breakpoints''"
    "py_strip ''home'' \<noteq> []" "py_strip ''a'' \<noteq> []" "py_strip ''age'' \<noteq> []" "py_strip ''c'' \<noteq> []"
    by code_simp+
  have "\<forall>f \<in> set fs. plainly_written f"
    using strips by (simp add: v(2) home_config_def two_factors_def plainly_written_def get_or_def)
  note runs = validated_banding_runs [OF v(1) this]
  have "columns_fit no_text read_sample [''age'' \<mapsto> Float_type] fs"
    "\<not> columns_fit no_text read_sample [''age'' \<mapsto> Date_type] fs"
    unfolding v(2) by code_simp+
  then show ?thesis by (simp add: runs)
qed

text \<open>
  Without the hypothesis it fails: the save strips a type before it checks it, execution does
  not, so a draft whose type has a space before it is accepted and then stops the whole node.
\<close>

definition padded_config :: pydict where
  "padded_config = [(PStr ''factors'', PList [PDict (hd two_factors),
     PDict [(PStr ''banding'', PStr '' categorical'')]])]"

lemma padded_draft_stops_the_node:
  "(case validate_banding_config no_text read_sample padded_config of Inl _ \<Rightarrow> False | Inr _ \<Rightarrow> True) \<and>
   (case apply_banding_config no_text read_sample (\<lambda>c. None) padded_config of Inl _ \<Rightarrow> True | Inr _ \<Rightarrow> False)"
  by code_simp

end
