(* ===== verification/Json_Text.thy ===== *)
theory Json_Text
  imports Py_Text
begin

text \<open>
  \<open>json.dumps\<close> of a scalar and of a list of scalars, with its default ASCII escapes. \<open>other\<close> is the
  text of a float. The lemmas show that two values with one text are one value, which is what the
  code rests on where it keys a dictionary by this text: a string's escapes read back, and a text
  ends where the next separator stands.
\<close>

definition hex_char :: "nat \<Rightarrow> char" where
  "hex_char d = char_of (if d < 10 then 48 + d else 87 + d)"

definition hex_value :: "char \<Rightarrow> nat" where
  "hex_value c = (let n = of_char c in if n < 58 then n - 48 else n - 87)"

text \<open>Two-character escapes, then \<open>\u00XX\<close> for whatever is not printable ASCII.\<close>

definition short_escapes :: "(char \<times> char) list" where
  "short_escapes = [(CHR 0x22, CHR 0x22), (CHR 0x5C, CHR 0x5C), (CHR 0x0A, CHR ''n''),
     (CHR 0x0D, CHR ''r''), (CHR 0x09, CHR ''t''), (CHR 0x08, CHR ''b''), (CHR 0x0C, CHR ''f'')]"

definition json_char :: "char \<Rightarrow> string" where
  "json_char c =
     (case map_of short_escapes c of
        Some e \<Rightarrow> [CHR 0x5C, e]
      | None \<Rightarrow>
          (let n = of_char c :: nat
           in if 32 \<le> n \<and> n \<le> 126 then [c]
              else [CHR 0x5C, CHR ''u'', CHR ''0'', CHR ''0'', hex_char (n div 16), hex_char (n mod 16)]))"

definition json_string :: "string \<Rightarrow> string" where
  "json_string s = CHR 0x22 # concat (map json_char s) @ [CHR 0x22]"

fun json_scalar :: "(pv \<Rightarrow> string) \<Rightarrow> pv \<Rightarrow> string" where
  "json_scalar other PNone = ''null''"
| "json_scalar other (PBool b) = (if b then ''true'' else ''false'')"
| "json_scalar other (PInt i) = show_int i"
| "json_scalar other (PStr s) = json_string s"
| "json_scalar other v = other v"

text \<open>The elements between brackets, each after the first preceded by a comma and a space.\<close>

definition json_list :: "(pv \<Rightarrow> string) \<Rightarrow> pv list \<Rightarrow> string" where
  "json_list other vs =
     (case vs of
        [] \<Rightarrow> ''[]''
      | v # ws \<Rightarrow> CHR ''['' # json_scalar other v @
          concat (map (\<lambda>w. CHR '','' # CHR '' '' # json_scalar other w) ws) @ '']'')"

section \<open>Strings read back\<close>

fun read_char :: "string \<Rightarrow> (char \<times> string) option" where
  "read_char [] = None"
| "read_char (c # s) =
     (if c = CHR 0x5C
      then (case s of
          [] \<Rightarrow> None
        | e # t \<Rightarrow>
            if e = CHR ''u''
            then (case t of _ # _ # h # l # u \<Rightarrow> Some (char_of (hex_value h * 16 + hex_value l), u) | _ \<Rightarrow> None)
            else map_option (\<lambda>p. (fst p, t)) (find (\<lambda>p. snd p = e) short_escapes))
      else if c = CHR 0x22 then None else Some (c, s))"

lemma hex_value_char:
  assumes "d < 16"
  shows "hex_value (hex_char d) = d"
proof (cases "d < 10")
  case True
  then show ?thesis by (simp add: hex_value_def hex_char_def Let_def)
next
  case False
  then show ?thesis using assms by (simp add: hex_value_def hex_char_def Let_def)
qed

lemma read_json_char: "read_char (json_char c @ s) = Some (c, s)"
proof (cases "map_of short_escapes c")
  case (Some e)
  have "\<forall>(c, e) \<in> set short_escapes. e \<noteq> CHR ''u'' \<and> find (\<lambda>p. snd p = e) short_escapes = Some (c, e)"
    by code_simp
  then have "e \<noteq> CHR ''u'' \<and> find (\<lambda>p. snd p = e) short_escapes = Some (c, e)"
    using map_of_SomeD [OF Some] by blast
  then show ?thesis using Some by (simp add: json_char_def)
next
  case None
  let ?n = "of_char c :: nat"
  have n: "?n < 256" by (rule nat_of_char_less_256)
  have "\<forall>c \<in> set [CHR 0x22, CHR 0x5C]. map_of short_escapes c \<noteq> None" by code_simp
  then have c: "c \<noteq> CHR 0x22" "c \<noteq> CHR 0x5C" using None by auto
  have "?n div 16 < 16" using n div_less_iff_less_mult [of 16 ?n 16] by simp
  moreover have "?n mod 16 < 16" by simp
  ultimately have
    "hex_value (hex_char (?n div 16)) * 16 + hex_value (hex_char (?n mod 16)) = ?n"
    by (simp add: hex_value_char)
  then show ?thesis using None c by (simp add: json_char_def Let_def)
qed

lemma json_char_ne: "json_char c \<noteq> []"
  using read_json_char [of c "[]"] by auto

lemma read_quote: "read_char (CHR 0x22 # s) = None"
  by simp

text \<open>The escaped text up to the closing quote determines the string and what follows it.\<close>

lemma json_body_inject:
  "concat (map json_char s) @ CHR 0x22 # r = concat (map json_char t) @ CHR 0x22 # r' \<Longrightarrow> s = t \<and> r = r'"
proof (induction s arbitrary: t)
  case Nil
  show ?case
  proof (cases t)
    case (Cons d t')
    have "read_char (CHR 0x22 # r) = read_char (json_char d @ concat (map json_char t') @ CHR 0x22 # r')"
      using Nil Cons by simp
    then show ?thesis unfolding read_json_char read_quote by simp
  qed (use Nil in simp)
next
  case (Cons c s)
  show ?case
  proof (cases t)
    case Nil
    have "read_char (json_char c @ concat (map json_char s) @ CHR 0x22 # r) = read_char (CHR 0x22 # r')"
      using Cons.prems Nil by simp
    then show ?thesis unfolding read_json_char read_quote by simp
  next
    case (Cons d t')
    have "read_char (json_char c @ concat (map json_char s) @ CHR 0x22 # r) =
        read_char (json_char d @ concat (map json_char t') @ CHR 0x22 # r')"
      using Cons.prems Cons by simp
    then show ?thesis using Cons.IH [of t'] unfolding read_json_char Cons by simp
  qed
qed

section \<open>Scalars\<close>

text \<open>What is used of the text of finite floats: it tells floats apart, and looks like one.\<close>

definition float_texts :: "(pv \<Rightarrow> string) \<Rightarrow> bool" where
  "float_texts other \<longleftrightarrow>
     (\<forall>q r. other (PFloat (Fin q)) = other (PFloat (Fin r)) \<longrightarrow> q = r) \<and>
     (\<forall>r. (\<exists>c \<in> set (other (PFloat (Fin r))). c \<in> {CHR ''.'', CHR ''e''}) \<and>
       (\<forall>c \<in> set (other (PFloat (Fin r))). is_digit c \<or> c \<in> {CHR ''.'', CHR ''e'', CHR ''+'', CHR ''-''}))"

fun finite_scalar :: "pv \<Rightarrow> bool" where
  "finite_scalar (PBool b) = True"
| "finite_scalar (PInt i) = True"
| "finite_scalar (PFloat (Fin r)) = True"
| "finite_scalar (PStr s) = True"
| "finite_scalar _ = False"

definition plain_char :: "char \<Rightarrow> bool" where
  "plain_char c \<longleftrightarrow> c \<noteq> CHR '','' \<and> c \<noteq> CHR '']'' \<and> c \<noteq> CHR 0x22"

lemma show_nat_inject: "show_nat m = show_nat n \<longleftrightarrow> m = n"
  using value_show_nat by metis

lemma show_int_chars: "c \<in> set (show_int i) \<Longrightarrow> is_digit c \<or> c = CHR ''-''"
  using show_nat_digits by (auto simp: show_int_def list_all_iff split: if_splits)

lemma show_int_inject: "show_int i = show_int j \<longleftrightarrow> i = j"
proof
  assume e: "show_int i = show_int j"
  have h: "show_nat m \<noteq> CHR ''-'' # s" for m s
  proof
    assume "show_nat m = CHR ''-'' # s"
    then have "is_digit (CHR ''-'')" using show_nat_digits [of m] by simp
    then show False by (simp add: is_digit_def digit_of_def)
  qed
  consider "i < 0" "j < 0" | "i < 0" "\<not> j < 0" | "\<not> i < 0" "j < 0" | "\<not> i < 0" "\<not> j < 0"
    by blast
  then show "i = j"
  proof cases
    case 2
    then have "show_nat (nat j) = CHR ''-'' # show_nat (nat (- i))" using e by (simp add: show_int_def)
    then show ?thesis using h by blast
  next
    case 3
    then have "show_nat (nat i) = CHR ''-'' # show_nat (nat (- j))" using e by (simp add: show_int_def)
    then show ?thesis using h by blast
  qed (use e in \<open>simp_all add: show_int_def show_nat_inject\<close>)
qed simp

lemma float_text_ne: "float_texts other \<Longrightarrow> other (PFloat (Fin r)) \<noteq> []"
  unfolding float_texts_def by (metis empty_iff list.set(1))

lemma scalar_text_ne: "float_texts other \<Longrightarrow> finite_scalar v \<Longrightarrow> json_scalar other v \<noteq> []"
  using float_text_ne show_nat_digits
  by (cases v rule: finite_scalar.cases) (auto simp: json_string_def show_int_def)

lemma plain_digit: "is_digit c \<Longrightarrow> plain_char c \<and> c \<notin> {CHR ''t'', CHR ''f'', CHR ''.'', CHR ''e'', CHR 0x22}"
  by (auto simp: is_digit_def digit_of_def plain_char_def)

text \<open>Which kind of value a text is of shows in its characters.\<close>

lemma scalar_plain:
  assumes "float_texts other" "finite_scalar v" "\<forall>s. v \<noteq> PStr s"
  shows "list_all plain_char (json_scalar other v)"
proof -
  have plain: "is_digit c \<or> c \<in> {CHR ''.'', CHR ''e'', CHR ''+'', CHR ''-''} \<Longrightarrow> plain_char c" for c
    using plain_digit by (auto simp: plain_char_def)
  have f: "list_all plain_char (other (PFloat (Fin r)))" for r
    using assms(1) plain unfolding float_texts_def list_all_iff by blast
  have i: "list_all plain_char (show_int i)" for i
    using show_int_chars plain unfolding list_all_iff by blast
  have "list_all plain_char ''true''" "list_all plain_char ''false''" by (simp_all add: plain_char_def)
  then show ?thesis
    using assms(2,3) f i by (cases v rule: finite_scalar.cases) auto
qed

lemma scalar_inject:
  assumes o: "float_texts other" and v: "finite_scalar v" "\<forall>s. v \<noteq> PStr s"
    and w: "finite_scalar w" "\<forall>s. w \<noteq> PStr s" and e: "json_scalar other v = json_scalar other w"
  shows "v = w"
proof -
  have int_float: "show_int i \<noteq> other (PFloat (Fin r))" for i r
  proof
    assume s: "show_int i = other (PFloat (Fin r))"
    obtain c where "c \<in> set (show_int i)" "c \<in> {CHR ''.'', CHR ''e''}"
      using o unfolding float_texts_def s by blast
    then show False using show_int_chars [of c i] plain_digit by auto
  qed
  have letters: "c \<notin> {CHR ''t'', CHR ''f''}" if "c \<in> set (show_int i)" for c i
    using show_int_chars [OF that] plain_digit by auto
  have letters': "c \<notin> {CHR ''t'', CHR ''f''}" if "c \<in> set (other (PFloat (Fin r)))" for c r
  proof -
    have "is_digit c \<or> c \<in> {CHR ''.'', CHR ''e'', CHR ''+'', CHR ''-''}"
      using o that unfolding float_texts_def by blast
    then show ?thesis using plain_digit by auto
  qed
  have word_int: "json_scalar other (PBool b) \<noteq> show_int i" for b i
  proof
    assume "json_scalar other (PBool b) = show_int i"
    then have "set (json_scalar other (PBool b)) = set (show_int i)" by (rule arg_cong)
    moreover have "CHR ''t'' \<in> set (json_scalar other (PBool b)) \<or> CHR ''f'' \<in> set (json_scalar other (PBool b))"
      by (cases b) simp_all
    ultimately show False using letters [of _ i] by blast
  qed
  have word_float: "json_scalar other (PBool b) \<noteq> other (PFloat (Fin r))" for b r
  proof
    assume "json_scalar other (PBool b) = other (PFloat (Fin r))"
    then have "set (json_scalar other (PBool b)) = set (other (PFloat (Fin r)))" by (rule arg_cong)
    moreover have "CHR ''t'' \<in> set (json_scalar other (PBool b)) \<or> CHR ''f'' \<in> set (json_scalar other (PBool b))"
      by (cases b) simp_all
    ultimately show False using letters' [of _ r] by blast
  qed
  have bools: "json_scalar other (PBool b) = json_scalar other (PBool b') \<Longrightarrow> b = b'" for b b'
    by (cases b; cases b') simp_all
  have floats: "other (PFloat (Fin q)) = other (PFloat (Fin r)) \<Longrightarrow> q = r" for q r
    using o unfolding float_texts_def by blast
  have int: "json_scalar other (PInt i) = show_int i" and float: "json_scalar other (PFloat x) = other (PFloat x)"
    for i x by simp_all
  have kinds: "(\<exists>b. x = PBool b) \<or> (\<exists>i. x = PInt i) \<or> (\<exists>r. x = PFloat (Fin r))"
    if "finite_scalar x" "\<forall>s. x \<noteq> PStr s" for x
    using that by (cases x rule: finite_scalar.cases) auto
  have false: False if "json_scalar other x = json_scalar other y"
    "(\<exists>b. x = PBool b) \<and> (\<not> (\<exists>b. y = PBool b)) \<or> (\<exists>i. x = PInt i) \<and> (\<exists>r. y = PFloat (Fin r))"
    "(\<exists>b. y = PBool b) \<or> (\<exists>i. y = PInt i) \<or> (\<exists>r. y = PFloat (Fin r))" for x y
    using that word_int word_float int_float unfolding int [symmetric] float [symmetric] by blast
  note kv = kinds [OF v] and kw = kinds [OF w]
  show ?thesis
  proof (cases "\<exists>b. v = PBool b")
    case True
    then have "\<exists>b. w = PBool b" using false [OF e _ kw] by blast
    then show ?thesis using True bools e by blast
  next
    case False
    note notb = False
    then have wb: "\<not> (\<exists>b. w = PBool b)" using false [OF e [symmetric] _ kv] by blast
    show ?thesis
    proof (cases "\<exists>i. v = PInt i")
      case True
      then obtain i where vi: "v = PInt i" by blast
      have "\<exists>j. w = PInt j" using false [OF e _ kw] True kw wb by blast
      then obtain j where "w = PInt j" by blast
      then show ?thesis using vi e by (simp add: show_int_inject)
    next
      case False
      then obtain q where vq: "v = PFloat (Fin q)" using kv notb by blast
      have "\<not> (\<exists>i. w = PInt i)" using false [OF e [symmetric] _ kv] vq by blast
      then obtain r where "w = PFloat (Fin r)" using kw wb by blast
      then show ?thesis using vq e floats by simp
    qed
  qed
qed

lemma split_plain:
  assumes "list_all plain_char s" "list_all plain_char t" "s @ r = t @ u"
    "r = [] \<or> \<not> plain_char (hd r)" "u = [] \<or> \<not> plain_char (hd u)"
  shows "s = t \<and> r = u"
proof -
  have "takeWhile plain_char (s @ r) = s" "takeWhile plain_char (t @ u) = t"
    using assms(1,2,4,5) by (cases r; cases u; simp add: list_all_iff takeWhile_append)+
  then have "s = t" using assms(3) by metis
  then show ?thesis using assms(3) by simp
qed

text \<open>A scalar's text ends where a separator or nothing follows.\<close>

lemma scalar_prefix:
  assumes o: "float_texts other" and v: "finite_scalar v" and w: "finite_scalar w"
    and e: "json_scalar other v @ r = json_scalar other w @ u"
    and r: "r = [] \<or> hd r \<in> {CHR '','', CHR '']''}" and u: "u = [] \<or> hd u \<in> {CHR '','', CHR '']''}"
  shows "v = w \<and> r = u"
proof -
  have ends: "r = [] \<or> \<not> plain_char (hd r)" "u = [] \<or> \<not> plain_char (hd u)"
    using r u by (auto simp: plain_char_def)
  note ne = scalar_text_ne [OF o]
  have mixed: False
    if "\<forall>s. x \<noteq> PStr s" "finite_scalar x" "json_scalar other x @ p = json_string t @ q" for x p t q
  proof -
    have "hd (json_scalar other x) = CHR 0x22"
      using that(3) ne [OF that(2)] by (cases "json_scalar other x") (auto simp: json_string_def)
    moreover have "plain_char (hd (json_scalar other x))"
      using scalar_plain [OF o that(2,1)] ne [OF that(2)] by (metis hd_in_set list_all_iff)
    ultimately show False by (simp add: plain_char_def)
  qed
  show ?thesis
  proof (cases "\<exists>s. v = PStr s")
    case True
    then obtain s where s: "v = PStr s" by blast
    show ?thesis
    proof (cases "\<exists>t. w = PStr t")
      case True
      then obtain t where "w = PStr t" by blast
      then show ?thesis using e s json_body_inject [of s r t u] by (simp add: json_string_def)
    next
      case False
      then show ?thesis using mixed [of w u s r] w e s by simp
    qed
  next
    case False
    show ?thesis
    proof (cases "\<exists>t. w = PStr t")
      case True
      then obtain t where "w = PStr t" by blast
      then show ?thesis using mixed [of v r t u] v e False by simp
    next
      case w': False
      have "json_scalar other v = json_scalar other w \<and> r = u"
        using split_plain [OF scalar_plain [OF o v] scalar_plain [OF o w] e ends] False w' by simp
      then show ?thesis using scalar_inject [OF o v _ w] False w' by simp
    qed
  qed
qed

lemma json_scalar_inject:
  assumes "float_texts other" "finite_scalar v" "finite_scalar w" "json_scalar other v = json_scalar other w"
  shows "v = w"
  using scalar_prefix [OF assms(1-3), of "[]" "[]"] assms(4) by simp

section \<open>Lists\<close>

lemma json_tail_inject:
  assumes o: "float_texts other"
  shows "list_all finite_scalar vs \<Longrightarrow> list_all finite_scalar ws \<Longrightarrow>
    concat (map (\<lambda>w. CHR '','' # CHR '' '' # json_scalar other w) vs) @ '']'' =
    concat (map (\<lambda>w. CHR '','' # CHR '' '' # json_scalar other w) ws) @ '']'' \<Longrightarrow> vs = ws"
proof (induction vs arbitrary: ws)
  case Nil
  then show ?case by (cases ws) auto
next
  case (Cons v vs)
  then obtain w ws' where ws: "ws = w # ws'" by (cases ws) auto
  let ?t = "\<lambda>vs. concat (map (\<lambda>w. CHR '','' # CHR '' '' # json_scalar other w) vs) @ '']''"
  have hd: "hd (?t xs) \<in> {CHR '','', CHR '']''}" for xs by (cases xs) auto
  have "json_scalar other v @ ?t vs = json_scalar other w @ ?t ws'" using Cons.prems(3) ws by simp
  from scalar_prefix [OF o _ _ this] Cons.prems ws hd have "v = w \<and> ?t vs = ?t ws'" by simp
  then show ?case using Cons ws by simp
qed

lemma json_list_inject:
  assumes "float_texts other" "list_all finite_scalar vs" "list_all finite_scalar ws"
    "json_list other vs = json_list other ws"
  shows "vs = ws"
proof -
  let ?t = "\<lambda>vs. concat (map (\<lambda>w. CHR '','' # CHR '' '' # json_scalar other w) vs) @ '']''"
  have hd: "hd (?t xs) \<in> {CHR '','', CHR '']''}" for xs by (cases xs) auto
  have first: False if "finite_scalar v" "json_scalar other v @ ?t xs = '']''" for v xs
  proof -
    have "json_scalar other v = [] \<or> length (?t xs) = 0"
      using that(2) by (cases "json_scalar other v") auto
    moreover have "json_scalar other v \<noteq> []" by (rule scalar_text_ne [OF assms(1) that(1)])
    ultimately show False by simp
  qed
  show ?thesis
  proof (cases vs)
    case Nil
    then show ?thesis using assms first by (cases ws) (auto simp: json_list_def)
  next
    case (Cons v vs')
    note v = Cons
    show ?thesis
    proof (cases ws)
      case Nil
      then show ?thesis using assms first [of v vs'] Cons by (simp add: json_list_def)
    next
      case (Cons w ws')
      have "json_scalar other v @ ?t vs' = json_scalar other w @ ?t ws'"
        using assms(4) v Cons by (simp add: json_list_def)
      from scalar_prefix [OF assms(1) _ _ this] assms v Cons hd have "v = w \<and> ?t vs' = ?t ws'" by simp
      then show ?thesis using json_tail_inject [OF assms(1), of vs' ws'] assms(2,3) v Cons by simp
    qed
  qed
qed

end
