(* ===== verification/Rating_Config.thy ===== *)
theory Rating_Config
  imports Json_Text Floats
begin

text \<open>
  Rating-step configs, \<open>haute/_rating_step_config.py\<close> with the descriptor predicate of
  \<open>haute/_rating.py\<close>: the validation of tables and their entries, and the grid a sidecar writes
  in place of the entries.

  A table and an entry are dictionaries with text keys. \<open>other\<close> is the text of a float and
  \<open>read_float\<close> is \<open>float\<close> of a text. A raise is a constructor of \<open>rating_error\<close>, with the index of
  the table it names. Floats are rationals, infinities and not-a-number, so the levels \<open>-0.0\<close> and
  \<open>0.0\<close> are one here, where \<open>json.dumps\<close> keeps them apart. The check of a save that converts levels
  through a table's recorded types calls the run's own lookup and is in the theory \<open>Rating\<close>.
\<close>

datatype rating_error =
    Tables_not_a_list
  | Table_not_object nat
  | Factors_not_a_list nat
  | Factor_not_a_column nat nat
  | Factor_twice nat string
  | Factor_is_rate_key nat nat
  | Too_many_factors nat
  | Factors_empty nat
  | Dtypes_not_object nat
  | Dtype_key_unknown nat pv
  | Dtype_invalid nat pv
  | Entries_not_a_list nat
  | Entry_not_object nat nat
  | Entry_without_factor nat nat string
  | Level_not_scalar nat nat string
  | Level_not_finite nat nat string
  | Rate_required nat nat
  | Rate_not_numeric nat nat
  | Rate_not_finite nat nat
  | Rate_not_text_or_number nat nat
  | Levels_written_twice "pv list list"
  | Output_column_twice string nat nat
  | Entry_extra_key
  | Row_array_form nat
  | Columns_without_rows nat
  | Rows_not_a_list nat
  | Columns_with_one_factor nat
  | Grid_row_malformed nat nat
  | Columns_not_a_list nat
  | Missing_key string
  | Not_a_mapping
  | Unhashable_value
  | Float_too_large

definition rate_key :: string where
  "rate_key = ''value''"

definition max_rating_factors :: nat where
  "max_rating_factors = 3"

section \<open>Types of factors\<close>

text \<open>The stable descriptors of the types a factor may have. An unhashable kind or unit raises in the set test.\<close>

definition primitive_kinds :: "string list" where
  "primitive_kinds = [''Int8'', ''Int16'', ''Int32'', ''Int64'', ''Int128'', ''UInt8'', ''UInt16'',
     ''UInt32'', ''UInt64'', ''Float32'', ''Float64'', ''Boolean'', ''String'', ''Categorical'',
     ''Date'', ''Time'', ''Null'']"

fun unhashable :: "pv \<Rightarrow> bool" where
  "unhashable (PList _) = True"
| "unhashable (PDict _) = True"
| "unhashable _ = False"

definition text_in :: "pv \<Rightarrow> string list \<Rightarrow> rating_error + bool" where
  "text_in v names =
     (if unhashable v then Inl Unhashable_value else Inr (v \<in> set (map PStr names)))"

definition names_are :: "pydict \<Rightarrow> string list \<Rightarrow> bool" where
  "names_are d names \<longleftrightarrow> set (keys d) = set (map PStr names)"

definition whole_number :: "pv \<Rightarrow> bool" where
  "whole_number v \<longleftrightarrow> (case v of PInt _ \<Rightarrow> True | _ \<Rightarrow> False)"

definition is_text :: "pv \<Rightarrow> bool" where
  "is_text v \<longleftrightarrow> (case v of PStr _ \<Rightarrow> True | _ \<Rightarrow> False)"

definition time_units :: "string list" where
  "time_units = [''ms'', ''us'', ''ns'']"

definition is_rating_dtype_descriptor :: "pv \<Rightarrow> rating_error + bool" where
  "is_rating_dtype_descriptor v =
     (case v of
        PDict d \<Rightarrow>
          let kind = get_or ''kind'' PNone d; unit = get_or ''time_unit'' PNone d
          in bind_result (text_in kind primitive_kinds) (\<lambda>primitive.
            if primitive then Inr (names_are d [''kind''])
            else if kind = PStr ''Datetime''
            then if \<not> names_are d [''kind'', ''time_unit'', ''time_zone''] then Inr False
                 else bind_result (text_in unit time_units) (\<lambda>ok.
                   Inr (ok \<and> (get_or ''time_zone'' PNone d = PNone \<or> is_text (get_or ''time_zone'' PNone d))))
            else if kind = PStr ''Duration''
            then if \<not> names_are d [''kind'', ''time_unit''] then Inr False else text_in unit time_units
            else if kind = PStr ''Decimal''
            then Inr (names_are d [''kind'', ''precision'', ''scale''] \<and>
                   (get_or ''precision'' PNone d = PNone \<or> whole_number (get_or ''precision'' PNone d)) \<and>
                   whole_number (get_or ''scale'' PNone d))
            else if kind = PStr ''Enum''
            then Inr (names_are d [''kind'', ''categories''] \<and>
                   (case get_or ''categories'' PNone d of
                      PList cs \<Rightarrow> list_all is_text cs \<and> distinct cs | _ \<Rightarrow> False))
            else Inr False)
      | _ \<Rightarrow> Inr False)"

section \<open>Tables\<close>

fun factors_of :: "nat \<Rightarrow> nat \<Rightarrow> pv list \<Rightarrow> string list \<Rightarrow> rating_error + string list" where
  "factors_of table i [] found = Inr found"
| "factors_of table i (v # vs) found =
     (case v of
        PStr f \<Rightarrow>
          if py_strip f = [] then Inl (Factor_not_a_column table i)
          else if f \<in> set found then Inl (Factor_twice table f)
          else if f = rate_key then Inl (Factor_is_rate_key table i)
          else factors_of table (Suc i) vs (found @ [f])
      | _ \<Rightarrow> Inl (Factor_not_a_column table i))"

definition validate_factors :: "pydict \<Rightarrow> nat \<Rightarrow> rating_error + string list" where
  "validate_factors table i =
     (case get_or ''factors'' PNone table of
        PList vs \<Rightarrow> bind_result (factors_of i 0 vs []) (\<lambda>fs.
          if max_rating_factors < length fs then Inl (Too_many_factors i) else Inr fs)
      | _ \<Rightarrow> Inl (Factors_not_a_list i))"

fun check_dtypes :: "nat \<Rightarrow> string list \<Rightarrow> pydict \<Rightarrow> rating_error + unit" where
  "check_dtypes table factors [] = Inr ()"
| "check_dtypes table factors ((k, descriptor) # items) =
     (if k \<notin> set (map PStr factors) then Inl (Dtype_key_unknown table k)
      else bind_result (is_rating_dtype_descriptor descriptor) (\<lambda>ok.
        if \<not> ok then Inl (Dtype_invalid table k) else check_dtypes table factors items))"

definition validate_factor_dtypes :: "pydict \<Rightarrow> string list \<Rightarrow> nat \<Rightarrow> rating_error + unit" where
  "validate_factor_dtypes table factors i =
     (if \<not> dict_has ''factor_dtypes'' table then Inr ()
      else case get_or ''factor_dtypes'' PNone table of
          PDict d \<Rightarrow> check_dtypes i factors d | _ \<Rightarrow> Inl (Dtypes_not_object i))"

definition validate_factor_value :: "nat \<Rightarrow> nat \<Rightarrow> string \<Rightarrow> pv \<Rightarrow> rating_error + unit" where
  "validate_factor_value table row factor v =
     (case v of
        PNone \<Rightarrow> Inl (Level_not_scalar table row factor)
      | PList _ \<Rightarrow> Inl (Level_not_scalar table row factor)
      | PDict _ \<Rightarrow> Inl (Level_not_scalar table row factor)
      | PFloat (Fin r) \<Rightarrow> Inr ()
      | PFloat _ \<Rightarrow> Inl (Level_not_finite table row factor)
      | _ \<Rightarrow> Inr ())"

definition finite_number :: "nat \<Rightarrow> nat \<Rightarrow> pyfloat \<Rightarrow> rating_error + unit" where
  "finite_number table row x = (case x of Fin r \<Rightarrow> Inr () | _ \<Rightarrow> Inl (Rate_not_finite table row))"

definition validate_rating_value :: "(string \<Rightarrow> pyfloat option) \<Rightarrow> nat \<Rightarrow> nat \<Rightarrow> pv \<Rightarrow>
    rating_error + unit" where
  "validate_rating_value read_float table row v =
     (case v of
        PNone \<Rightarrow> Inl (Rate_required table row)
      | PBool _ \<Rightarrow> Inl (Rate_not_numeric table row)
      | PInt i \<Rightarrow> if \<bar>i\<bar> < float_overflow_bound then Inr () else Inl Float_too_large
      | PFloat x \<Rightarrow> finite_number table row x
      | PStr s \<Rightarrow>
          if py_strip s = [] then Inl (Rate_required table row)
          else (case read_float s of
              None \<Rightarrow> Inl (Rate_not_numeric table row) | Some x \<Rightarrow> finite_number table row x)
      | _ \<Rightarrow> Inl (Rate_not_text_or_number table row))"

fun check_levels :: "nat \<Rightarrow> nat \<Rightarrow> pydict \<Rightarrow> string list \<Rightarrow> rating_error + unit" where
  "check_levels table row d [] = Inr ()"
| "check_levels table row d (f # fs) =
     (if \<not> dict_has f d then Inl (Entry_without_factor table row f)
      else bind_result (validate_factor_value table row f (get_or f PNone d))
             (\<lambda>_. check_levels table row d fs))"

text \<open>An accepted row is returned as it is, so only whether it is accepted matters.\<close>

definition validate_entry_row :: "(string \<Rightarrow> pyfloat option) \<Rightarrow> pv \<Rightarrow> string list \<Rightarrow> nat \<Rightarrow> nat \<Rightarrow>
    rating_error + pv" where
  "validate_entry_row read_float row factors table i =
     (case row of
        PDict d \<Rightarrow> bind_result (check_levels table i d factors) (\<lambda>_.
          if \<not> dict_has rate_key d then Inl (Rate_required table i)
          else bind_result (validate_rating_value read_float table i (get_or rate_key PNone d))
                 (\<lambda>_. Inr (PDict (dict_put rate_key (get_or rate_key PNone d) d))))
      | _ \<Rightarrow> Inl (Entry_not_object table i))"

definition normalise_entry_rows :: "(string \<Rightarrow> pyfloat option) \<Rightarrow> pv list \<Rightarrow> string list \<Rightarrow> nat \<Rightarrow>
    rating_error + pv list" where
  "normalise_entry_rows read_float rows factors table =
     map_result (\<lambda>(i, row). validate_entry_row read_float row factors table i) (enumerate 0 rows)"

definition entry_value :: "string \<Rightarrow> pv \<Rightarrow> pv" where
  "entry_value k entry = (case entry of PDict d \<Rightarrow> get_or k PNone d | _ \<Rightarrow> PNone)"

definition levels_of :: "string list \<Rightarrow> pv \<Rightarrow> pv list" where
  "levels_of factors entry = map (\<lambda>f. entry_value f entry) factors"

definition refuse_levels_written_twice :: "(pv \<Rightarrow> string) \<Rightarrow> pv list \<Rightarrow> string list \<Rightarrow>
    rating_error + unit" where
  "refuse_levels_written_twice other entries factors =
     (let written = map (\<lambda>e. map (json_scalar other) (levels_of factors e)) entries
      in refuse_if (\<not> list_all (\<lambda>k. count_list written k = 1) written)
           (Levels_written_twice (map (levels_of factors)
              (map fst (filter (\<lambda>(e, k). 1 < count_list written k) (zip entries written))))))"

definition normalise_entries_for_table :: "(pv \<Rightarrow> string) \<Rightarrow> (string \<Rightarrow> pyfloat option) \<Rightarrow> pydict \<Rightarrow>
    nat \<Rightarrow> rating_error + pydict" where
  "normalise_entries_for_table other read_float table i =
     (if \<not> dict_has ''entries'' table
      then if dict_has ''factors'' table \<or> dict_has ''factor_dtypes'' table
           then bind_result (validate_factors table i) (\<lambda>fs.
                bind_result (validate_factor_dtypes table fs i) (\<lambda>_. Inr table))
           else Inr table
      else case get_or ''entries'' PNone table of
          PList entries \<Rightarrow>
            bind_result (validate_factors table i) (\<lambda>fs.
            bind_result (validate_factor_dtypes table fs i) (\<lambda>_.
              if fs = [] \<and> entries \<noteq> [] then Inl (Factors_empty i)
              else bind_result (normalise_entry_rows read_float entries fs i) (\<lambda>rows.
                   bind_result (refuse_levels_written_twice other rows fs) (\<lambda>_.
                     Inr (dict_put ''entries'' (PList rows) table)))))
        | _ \<Rightarrow> Inl (Entries_not_a_list i))"

fun unique_outputs_loop :: "(pv \<Rightarrow> string) \<Rightarrow> nat \<Rightarrow> pydict list \<Rightarrow> (string, nat) odict \<Rightarrow>
    rating_error + unit" where
  "unique_outputs_loop other i [] seen = Inr ()"
| "unique_outputs_loop other i (t # ts) seen =
     (let output = py_strip (text_or_empty other (get_or ''output_column'' (PStr []) t))
      in if output = [] then unique_outputs_loop other (Suc i) ts seen
         else case map_of seen output of
             Some j \<Rightarrow> Inl (Output_column_twice output i j)
           | None \<Rightarrow> unique_outputs_loop other (Suc i) ts (AList.update output i seen))"

definition validate_unique_rating_table_outputs :: "(pv \<Rightarrow> string) \<Rightarrow> pydict list \<Rightarrow> rating_error + unit" where
  "validate_unique_rating_table_outputs other tables = unique_outputs_loop other 0 tables []"

fun tables_loop :: "(nat \<Rightarrow> pydict \<Rightarrow> rating_error + pydict) \<Rightarrow> nat \<Rightarrow> pv list \<Rightarrow>
    rating_error + pydict list" where
  "tables_loop f i [] = Inr []"
| "tables_loop f i (v # vs) =
     (case v of
        PDict t \<Rightarrow> bind_result (f i t) (\<lambda>t'. bind_result (tables_loop f (Suc i) vs) (\<lambda>ts. Inr (t' # ts)))
      | _ \<Rightarrow> Inl (Table_not_object i))"

definition normalise_rating_step_config :: "(pv \<Rightarrow> string) \<Rightarrow> (string \<Rightarrow> pyfloat option) \<Rightarrow> pydict \<Rightarrow>
    rating_error + pydict" where
  "normalise_rating_step_config other read_float config =
     (case get_or ''tables'' PNone config of
        PNone \<Rightarrow> Inr config
      | PList vs \<Rightarrow>
          bind_result (tables_loop (\<lambda>i t. normalise_entries_for_table other read_float t i) 0 vs) (\<lambda>tables.
          bind_result (validate_unique_rating_table_outputs other tables) (\<lambda>_.
            Inr (dict_put ''tables'' (PList (map PDict tables)) config)))
      | _ \<Rightarrow> Inl Tables_not_a_list)"

definition normalise_rating_tables :: "(pv \<Rightarrow> string) \<Rightarrow> (string \<Rightarrow> pyfloat option) \<Rightarrow> pydict \<Rightarrow>
    rating_error + pv list" where
  "normalise_rating_tables other read_float config =
     bind_result (normalise_rating_step_config other read_float config) (\<lambda>c.
       Inr (case get_or ''tables'' PNone c of PList ts \<Rightarrow> ts | _ \<Rightarrow> []))"

section \<open>The sidecar's grid\<close>

definition drop_names :: "string list \<Rightarrow> pydict \<Rightarrow> pydict" where
  "drop_names names d = filter (\<lambda>item. fst item \<notin> set (map PStr names)) d"

definition extra_keys :: "string list \<Rightarrow> pydict \<Rightarrow> pv list" where
  "extra_keys factors d = filter (\<lambda>k. k \<notin> set (map PStr (factors @ [rate_key]))) (keys d)"

fun refuse_extra_keys :: "string list \<Rightarrow> pv list \<Rightarrow> rating_error + unit" where
  "refuse_extra_keys factors [] = Inr ()"
| "refuse_extra_keys factors (e # es) =
     (case e of
        PDict d \<Rightarrow> (case extra_keys factors d of
           [] \<Rightarrow> refuse_extra_keys factors es | _ \<Rightarrow> Inl Entry_extra_key)
      | _ \<Rightarrow> Inl Not_a_mapping)"

text \<open>\<open>d.setdefault(k, v)\<close>, and \<open>entry[k]\<close>, which raises for an absent key.\<close>

definition set_default :: "'k \<Rightarrow> 'v \<Rightarrow> ('k, 'v) odict \<Rightarrow> ('k, 'v) odict" where
  "set_default k v d = (if has_key k d then d else AList.update k v d)"

definition entry_get :: "string \<Rightarrow> pv \<Rightarrow> rating_error + pv" where
  "entry_get k entry =
     (case entry of
        PDict d \<Rightarrow> (case map_of d (PStr k) of None \<Rightarrow> Inl (Missing_key k) | Some v \<Rightarrow> Inr v)
      | _ \<Rightarrow> Inl Not_a_mapping)"

record grid_state =
  grid_columns :: "(string, pv) odict"
  grid_rows :: "(string, pv list) odict"
  grid_cells :: "(string \<times> string, pv) odict"

definition add_cell :: "(pv \<Rightarrow> string) \<Rightarrow> pv list \<times> pv \<times> pv \<Rightarrow> grid_state \<Rightarrow> grid_state" where
  "add_cell other cell g =
     (let (leading, last_level, rate) = cell; column = json_scalar other last_level;
          row = json_list other leading
      in \<lparr>grid_columns = set_default column last_level (grid_columns g),
          grid_rows = set_default row leading (grid_rows g),
          grid_cells = AList.update (row, column) rate (grid_cells g)\<rparr>)"

definition cell_of :: "string list \<Rightarrow> string \<Rightarrow> pv \<Rightarrow> rating_error + pv list \<times> pv \<times> pv" where
  "cell_of leading last_factor entry =
     bind_result (entry_get last_factor entry) (\<lambda>l.
     bind_result (map_result (\<lambda>f. entry_get f entry) leading) (\<lambda>ls.
     bind_result (entry_get rate_key entry) (\<lambda>v. Inr (ls, l, v))))"

definition grid_row :: "grid_state \<Rightarrow> string \<times> pv list \<Rightarrow> pv" where
  "grid_row g r =
     PList (snd r @ map (\<lambda>c. case map_of (grid_cells g) (fst r, fst c) of None \<Rightarrow> PNone | Some v \<Rightarrow> v)
       (grid_columns g))"

definition text_items :: "pv list \<Rightarrow> string list option" where
  "text_items vs = (if list_all is_text vs then Some (map (\<lambda>v. case v of PStr s \<Rightarrow> s | _ \<Rightarrow> []) vs) else None)"

text \<open>
  A table's factors as the grid reads them: names, or nothing to write a grid for. The writer only
  meets validated names; the reader refuses names that are not text, which the validation after
  it would.
\<close>

definition grid_factors :: "pydict \<Rightarrow> string list" where
  "grid_factors table =
     (case get_or ''factors'' PNone table of
        PList vs \<Rightarrow> (case text_items vs of Some fs \<Rightarrow> fs | None \<Rightarrow> []) | _ \<Rightarrow> [])"

definition grid_from_entries :: "(pv \<Rightarrow> string) \<Rightarrow> pydict \<Rightarrow> rating_error + pydict" where
  "grid_from_entries other table =
     (let result = drop_names [''entries''] table; factors = grid_factors table
      in case get_or ''entries'' PNone table of
        PList entries \<Rightarrow>
          if factors = [] then Inr result
          else bind_result (refuse_extra_keys factors entries) (\<lambda>_.
            if length factors = 1
            then bind_result (map_result (\<lambda>e.
                   bind_result (entry_get (hd factors) e) (\<lambda>l.
                   bind_result (entry_get rate_key e) (\<lambda>v. Inr (PList [l, v])))) entries)
                 (\<lambda>rows. Inr (dict_put ''rows'' (PList rows) result))
            else bind_result (map_result (cell_of (butlast factors) (last factors)) entries) (\<lambda>cells.
                 let g = fold (add_cell other) cells \<lparr>grid_columns = [], grid_rows = [], grid_cells = []\<rparr>
                 in Inr (dict_put ''rows'' (PList (map (grid_row g) (grid_rows g)))
                          (dict_put ''columns'' (PList (map snd (grid_columns g))) result))))
      | _ \<Rightarrow> Inr result)"

definition make_entry :: "string list \<Rightarrow> pv list \<Rightarrow> pv \<Rightarrow> pv" where
  "make_entry factors levels rate =
     PDict (dict_put rate_key rate (fold (\<lambda>(f, l) d. dict_put f l d) (zip factors levels) []))"

definition single_entry :: "nat \<Rightarrow> string \<Rightarrow> nat \<Rightarrow> pv \<Rightarrow> rating_error + pv list" where
  "single_entry table factor i row =
     (case row of
        PList [level, rate] \<Rightarrow> Inr (if rate = PNone then [] else [make_entry [factor] [level] rate])
      | _ \<Rightarrow> Inl (Grid_row_malformed table i))"

definition row_entries :: "nat \<Rightarrow> string list \<Rightarrow> pv list \<Rightarrow> nat \<Rightarrow> pv \<Rightarrow> rating_error + pv list" where
  "row_entries table factors columns i row =
     (let leading = length factors - 1
      in case row of
        PList vs \<Rightarrow>
          if length vs \<noteq> leading + length columns then Inl (Grid_row_malformed table i)
          else Inr (map (\<lambda>(c, rate). make_entry factors (take leading vs @ [c]) rate)
                 (filter (\<lambda>(c, rate). rate \<noteq> PNone) (zip columns (drop leading vs))))
      | _ \<Rightarrow> Inl (Grid_row_malformed table i))"

definition entries_from_grid :: "pydict \<Rightarrow> nat \<Rightarrow> rating_error + pydict" where
  "entries_from_grid table i =
     (if dict_has ''entries'' table then Inl (Row_array_form i)
      else let result = drop_names [''columns'', ''rows''] table; rows = get_or ''rows'' PNone table;
               factors = grid_factors table
        in if rows = PNone
           then if dict_has ''columns'' table then Inl (Columns_without_rows i) else Inr result
           else if factors = [] then Inl (Factors_empty i)
           else case rows of
               PList rs \<Rightarrow>
                 if length factors = 1
                 then if dict_has ''columns'' table then Inl (Columns_with_one_factor i)
                      else bind_result (map_result (\<lambda>(j, r). single_entry i (hd factors) j r) (enumerate 0 rs))
                             (\<lambda>es. Inr (dict_put ''entries'' (PList (concat es)) result))
                 else (case get_or ''columns'' PNone table of
                     PList cs \<Rightarrow>
                       bind_result (map_result (\<lambda>(j, r). row_entries i factors cs j r) (enumerate 0 rs))
                         (\<lambda>es. Inr (dict_put ''entries'' (PList (concat es)) result))
                   | _ \<Rightarrow> Inl (Columns_not_a_list i))
             | _ \<Rightarrow> Inl (Rows_not_a_list i))"

definition on_tables :: "(nat \<Rightarrow> pydict \<Rightarrow> rating_error + pydict) \<Rightarrow> pydict \<Rightarrow> rating_error + pydict" where
  "on_tables f config =
     (case get_or ''tables'' PNone config of
        PList vs \<Rightarrow>
          bind_result (map_result (\<lambda>(i, v). case v of
               PDict t \<Rightarrow> bind_result (f i t) (\<lambda>t'. Inr (PDict t')) | _ \<Rightarrow> Inr v) (enumerate 0 vs))
            (\<lambda>vs'. Inr (dict_put ''tables'' (PList vs') config))
      | _ \<Rightarrow> Inr config)"

definition compact_rating_config :: "(pv \<Rightarrow> string) \<Rightarrow> pydict \<Rightarrow> rating_error + pydict" where
  "compact_rating_config other config = on_tables (\<lambda>i t. grid_from_entries other t) config"

definition expand_rating_config :: "pydict \<Rightarrow> rating_error + pydict" where
  "expand_rating_config config = on_tables (\<lambda>i t. entries_from_grid t i) config"

section \<open>What validation establishes\<close>

lemma factors_of_Inr:
  "factors_of table i vs found = Inr fs \<Longrightarrow>
   \<exists>gs. vs = map PStr gs \<and> fs = found @ gs \<and> (distinct found \<longrightarrow> distinct fs) \<and> rate_key \<notin> set gs"
proof (induction vs arbitrary: i found)
  case (Cons v vs)
  then obtain f where f: "v = PStr f" "f \<notin> set found" "f \<noteq> rate_key"
    and rest: "factors_of table (Suc i) vs (found @ [f]) = Inr fs"
    by (cases v) (auto split: if_splits)
  from Cons.IH [OF rest] obtain gs where "vs = map PStr gs" "fs = (found @ [f]) @ gs"
    "distinct (found @ [f]) \<longrightarrow> distinct fs" "rate_key \<notin> set gs" by blast
  then show ?case using f by (intro exI [of _ "f # gs"]) auto
qed simp

lemma text_items_names [simp]: "text_items (map PStr fs) = Some fs"
  by (simp add: text_items_def is_text_def list_all_iff o_def)

lemma validate_factors_Inr:
  assumes "validate_factors t i = Inr fs"
  shows "get_or ''factors'' PNone t = PList (map PStr fs)" "distinct fs" "rate_key \<notin> set fs"
    "length fs \<le> max_rating_factors" "grid_factors t = fs"
proof -
  obtain vs where vs: "get_or ''factors'' PNone t = PList vs" "factors_of i 0 vs [] = Inr fs"
    "length fs \<le> max_rating_factors"
    using assms by (auto simp: validate_factors_def bind_result_Inr split: pyval.splits if_splits)
  then show "get_or ''factors'' PNone t = PList (map PStr fs)" "distinct fs" "rate_key \<notin> set fs"
    "length fs \<le> max_rating_factors"
    using factors_of_Inr [OF vs(2)] by auto
  then show "grid_factors t = fs" by (simp add: grid_factors_def)
qed

definition good_entry :: "string list \<Rightarrow> pv \<Rightarrow> bool" where
  "good_entry fs e \<longleftrightarrow> (\<exists>d. e = PDict d \<and> (\<forall>f \<in> set (fs @ [rate_key]). dict_has f d)) \<and>
     list_all finite_scalar (levels_of fs e) \<and> entry_value rate_key e \<noteq> PNone"

lemma check_levels_Inr:
  "check_levels table i d fs = Inr u \<Longrightarrow> \<forall>f \<in> set fs. dict_has f d \<and> finite_scalar (get_or f PNone d)"
proof (induction fs)
  case (Cons f fs)
  then have "validate_factor_value table i f (get_or f PNone d) = Inr ()"
    by (auto simp: bind_result_Inr split: if_splits)
  then have "finite_scalar (get_or f PNone d)"
    by (cases "get_or f PNone d" rule: finite_scalar.cases) (auto simp: validate_factor_value_def)
  then show ?case using Cons by (auto simp: bind_result_Inr split: if_splits)
qed simp

lemma put_same: "dict_has k d \<Longrightarrow> map_of (dict_put k (get_or k PNone d) d) = map_of d"
  by (auto simp: dict_put_def dict_has_def get_or_def update_conv' fun_upd_idem_iff)

lemma validate_entry_row_good:
  assumes "validate_entry_row read_float row fs table i = Inr e" "rate_key \<notin> set fs"
  shows "good_entry fs e"
proof -
  obtain d where d: "row = PDict d" "check_levels table i d fs = Inr ()" "dict_has rate_key d"
    "validate_rating_value read_float table i (get_or rate_key PNone d) = Inr ()"
    and e: "e = PDict (dict_put rate_key (get_or rate_key PNone d) d)"
    using assms(1) by (auto simp: validate_entry_row_def bind_result_Inr split: pyval.splits if_splits)
  have same: "get_or k v (dict_put rate_key (get_or rate_key PNone d) d) = get_or k v d"
    "dict_has k (dict_put rate_key (get_or rate_key PNone d) d) = dict_has k d" for k v
    using put_same [OF d(3)] by (simp_all add: get_or_def dict_has_def)
  have "get_or rate_key PNone d \<noteq> PNone" using d(4) by (auto simp: validate_rating_value_def)
  then show ?thesis
    using check_levels_Inr [OF d(2)] d(3)
    by (auto simp: good_entry_def e same levels_of_def entry_value_def list_all_iff)
qed

lemma count_one_distinct: "\<forall>x \<in> set xs. count_list xs x = 1 \<Longrightarrow> distinct xs"
  unfolding distinct_count_atmost_1 count_mset by (metis count_list_0_iff)

lemma normalised_table:
  assumes "normalise_entries_for_table other read_float t0 i = Inr t"
    "get_or ''entries'' PNone t = PList es" "grid_factors t = fs"
  shows "distinct fs" "rate_key \<notin> set fs" "\<forall>e \<in> set es. good_entry fs e"
    "distinct (map (\<lambda>e. map (json_scalar other) (levels_of fs e)) es)"
proof -
  have has: "dict_has ''entries'' t0"
    using assms(1,2) by (auto simp: normalise_entries_for_table_def bind_result_Inr dict_has_def get_or_def
        split: if_splits)
  then obtain es0 fs' where e: "get_or ''entries'' PNone t0 = PList es0"
    and v: "validate_factors t0 i = Inr fs'" and n: "normalise_entry_rows read_float es0 fs' i = Inr es"
    and r: "refuse_levels_written_twice other es fs' = Inr ()"
    and t: "t = dict_put ''entries'' (PList es) t0"
    using assms(1,2)
    by (auto simp: normalise_entries_for_table_def bind_result_Inr get_or_put split: pyval.splits if_splits)
  have "grid_factors t = fs'"
    using validate_factors_Inr(1) [OF v] by (simp add: t grid_factors_def get_or_put)
  then have fs: "fs' = fs" using assms(3) by simp
  show "distinct fs" "rate_key \<notin> set fs" using validate_factors_Inr(2,3) [OF v] fs by simp_all
  then have rk: "rate_key \<notin> set fs'" using fs by simp
  have l: "list_all2 (\<lambda>x e. (case x of (i', row) \<Rightarrow> validate_entry_row read_float row fs' i i') = Inr e)
      (enumerate 0 es0) es"
    using n by (simp add: normalise_entry_rows_def map_result_Inr)
  show "\<forall>e \<in> set es. good_entry fs e"
  proof
    fix e assume "e \<in> set es"
    then obtain k where "k < length es" "e = es ! k" by (auto simp: in_set_conv_nth)
    then have "validate_entry_row read_float (es0 ! k) fs' i k = Inr e"
      using list_all2_nthD2 [OF l, of k] list_all2_lengthD [OF l] by (simp add: nth_enumerate_eq)
    then show "good_entry fs e" using validate_entry_row_good [OF _ rk] fs by simp
  qed
  have "list_all (\<lambda>k. count_list (map (\<lambda>e. map (json_scalar other) (levels_of fs e)) es) k = 1)
      (map (\<lambda>e. map (json_scalar other) (levels_of fs e)) es)"
    using r fs by (simp add: refuse_levels_written_twice_def Let_def)
  then show "distinct (map (\<lambda>e. map (json_scalar other) (levels_of fs e)) es)"
    unfolding list_all_iff by (rule count_one_distinct)
qed

section \<open>The grid holds the entries\<close>

lemma set_default_fold:
  assumes "\<forall>c \<in> set cs. \<forall>c' \<in> set cs. key c = key c' \<longrightarrow> val c = val c'"
    "wf_dict acc" "\<forall>p \<in> set acc. \<forall>c \<in> set cs. key c = fst p \<longrightarrow> val c = snd p"
  shows "wf_dict (fold (\<lambda>c. set_default (key c) (val c)) cs acc) \<and>
    set (fold (\<lambda>c. set_default (key c) (val c)) cs acc) = set acc \<union> (\<lambda>c. (key c, val c)) ` set cs"
  using assms
proof (induction cs arbitrary: acc)
  case (Cons c cs)
  let ?acc = "set_default (key c) (val c) acc"
  have wf: "wf_dict ?acc" using Cons.prems(2) by (simp add: set_default_def)
  have set: "set ?acc = insert (key c, val c) (set acc)"
  proof (cases "has_key (key c) acc")
    case True
    then obtain v where "(key c, v) \<in> set acc" by (auto simp: has_key_def dest: map_of_SomeD)
    moreover from this have "v = val c" using Cons.prems(3) [rule_format, of "(key c, v)" c] by simp
    ultimately show ?thesis using True by (auto simp: set_default_def)
  next
    case False
    then show ?thesis by (simp add: set_default_def has_key_iff update_new)
  qed
  have k: "key c' = fst p \<longrightarrow> val c' = snd p" if p: "p \<in> set ?acc" and c': "c' \<in> set cs" for p c'
  proof (cases "p \<in> set acc")
    case True
    then show ?thesis using Cons.prems(3) c' by simp
  next
    case False
    then have "p = (key c, val c)" using p set by blast
    then show ?thesis using Cons.prems(1) [rule_format, of c' c] c' by simp
  qed
  have acc: "\<forall>p \<in> set ?acc. \<forall>c \<in> set cs. key c = fst p \<longrightarrow> val c = snd p"
    by (intro ballI k)
  have "\<forall>c \<in> set cs. \<forall>c' \<in> set cs. key c = key c' \<longrightarrow> val c = val c'"
  proof (intro ballI impI)
    fix c1 c2 assume h: "c1 \<in> set cs" "c2 \<in> set cs" "key c1 = key c2"
    show "val c1 = val c2"
      by (rule Cons.prems(1) [rule_format, OF list.set_intros(2) list.set_intros(2), OF h])
  qed
  from Cons.IH [OF this wf acc] show ?case by (simp add: set)
qed simp

lemma update_fold:
  assumes "distinct (map key cs)" "set (map key cs) \<inter> set (keys acc) = {}"
  shows "fold (\<lambda>c. AList.update (key c) (val c)) cs acc = acc @ map (\<lambda>c. (key c, val c)) cs"
  using assms
proof (induction cs arbitrary: acc)
  case (Cons c cs)
  then have "AList.update (key c) (val c) acc = acc @ [(key c, val c)]" by (simp add: update_new)
  then show ?case using Cons by simp
qed simp

lemma add_cell_parts:
  "grid_columns (fold (add_cell other) cs g) =
     fold (\<lambda>c. set_default (json_scalar other (fst (snd c))) (fst (snd c))) cs (grid_columns g)"
  "grid_rows (fold (add_cell other) cs g) =
     fold (\<lambda>c. set_default (json_list other (fst c)) (fst c)) cs (grid_rows g)"
  "grid_cells (fold (add_cell other) cs g) =
     fold (\<lambda>c. AList.update (json_list other (fst c), json_scalar other (fst (snd c))) (snd (snd c))) cs
       (grid_cells g)"
  by (induction cs arbitrary: g) (simp_all add: add_cell_def Let_def case_prod_beta)

lemma map_concat_product:
  "concat (map (\<lambda>r. map (\<lambda>c. g r c) (filter (\<lambda>c. P r c) cols)) rows) =
   map (\<lambda>(r, c). g r c) (filter (\<lambda>(r, c). P r c) (List.product rows cols))"
  by (induction rows) (auto simp: filter_map o_def)

text \<open>The rates of a grid, each with its levels, against the cells it was built from.\<close>

lemma grid_holds_cells:
  assumes o: "float_texts other"
    and fin: "\<forall>(ls, l, v) \<in> set cs. list_all finite_scalar ls \<and> finite_scalar l \<and> v \<noteq> PNone"
    and dist: "distinct (map (\<lambda>c. (fst c, fst (snd c))) cs)"
    and g: "g = fold (add_cell other) cs \<lparr>grid_columns = [], grid_rows = [], grid_cells = []\<rparr>"
  defines "look \<equiv> \<lambda>r c. case map_of (grid_cells g) (fst r, fst c) of None \<Rightarrow> PNone | Some v \<Rightarrow> v"
  shows "mset (map (\<lambda>(r, c). (snd r, snd c, look r c))
      (filter (\<lambda>(r, c). look r c \<noteq> PNone) (List.product (grid_rows g) (grid_columns g)))) = mset cs"
proof -
  let ?K = "json_list other" and ?k = "json_scalar other"
  have kc: "\<forall>c \<in> set cs. \<forall>c' \<in> set cs. ?k (fst (snd c)) = ?k (fst (snd c')) \<longrightarrow> fst (snd c) = fst (snd c')"
    using fin json_scalar_inject [OF o] by (auto simp: case_prod_beta)
  have kr: "\<forall>c \<in> set cs. \<forall>c' \<in> set cs. ?K (fst c) = ?K (fst c') \<longrightarrow> fst c = fst c'"
    using fin json_list_inject [OF o] by (auto simp: case_prod_beta)
  have cols: "wf_dict (grid_columns g)" "set (grid_columns g) = (\<lambda>c. (?k (fst (snd c)), fst (snd c))) ` set cs"
    using set_default_fold [of cs "\<lambda>c. ?k (fst (snd c))" "\<lambda>c. fst (snd c)" "[]"] kc
    by (simp_all add: g add_cell_parts)
  have rows: "wf_dict (grid_rows g)" "set (grid_rows g) = (\<lambda>c. (?K (fst c), fst c)) ` set cs"
    using set_default_fold [of cs "\<lambda>c. ?K (fst c)" fst "[]"] kr by (simp_all add: g add_cell_parts)
  let ?key = "\<lambda>c. (?K (fst c), ?k (fst (snd c)))"
  have inj: "inj_on ?key (set cs)"
  proof (rule inj_onI)
    fix c c' assume c: "c \<in> set cs" "c' \<in> set cs" "?key c = ?key c'"
    then have "fst c = fst c'" "fst (snd c) = fst (snd c')" using kc kr by blast+
    then show "c = c'" using dist c(1,2) by (auto simp: distinct_map inj_on_def)
  qed
  have "distinct cs" using dist by (simp add: distinct_map)
  then have dk: "distinct (map ?key cs)" using inj by (simp add: distinct_map)
  have cells: "grid_cells g = map (\<lambda>c. (?key c, snd (snd c))) cs"
    using update_fold [OF dk, of "[]" "\<lambda>c. snd (snd c)"] by (simp add: g add_cell_parts)
  have look_at: "look (?K (fst c), fst c) (?k (fst (snd c)), fst (snd c)) = snd (snd c)" if "c \<in> set cs" for c
  proof -
    have "map_of (grid_cells g) (?key c) = Some (snd (snd c))"
      unfolding cells using that dk by (intro map_of_is_SomeI) (auto simp: o_def)
    then show ?thesis by (simp add: look_def)
  qed
  have found: "\<exists>c \<in> set cs. r = (?K (fst c), fst c) \<and> col = (?k (fst (snd c)), fst (snd c))"
    if h: "look r col \<noteq> PNone" "r \<in> set (grid_rows g)" "col \<in> set (grid_columns g)" for r col
  proof -
    obtain v where "map_of (grid_cells g) (fst r, fst col) = Some v"
      using h(1) by (auto simp: look_def split: option.splits)
    then have "((fst r, fst col), v) \<in> set (grid_cells g)" by (rule map_of_SomeD)
    then obtain c where c: "c \<in> set cs" "fst r = ?K (fst c)" "fst col = ?k (fst (snd c))"
      unfolding cells by auto
    obtain a where a: "a \<in> set cs" "r = (?K (fst a), fst a)" using h(2) rows(2) by auto
    obtain b where b: "b \<in> set cs" "col = (?k (fst (snd b)), fst (snd b))" using h(3) cols(2) by auto
    have "fst a = fst c" "fst (snd b) = fst (snd c)" using a b c kr kc by auto
    then show ?thesis using a b c by auto
  qed
  let ?P = "\<lambda>(r, c). look r c \<noteq> PNone"
  let ?f = "\<lambda>(r, c). (snd r, snd c, look r c)"
  let ?L = "filter ?P (List.product (grid_rows g) (grid_columns g))"
  have set: "set (map ?f ?L) = set cs"
  proof
    show "set (map ?f ?L) \<subseteq> set cs"
      using found look_at by (force simp: set_product)
    show "set cs \<subseteq> set (map ?f ?L)"
    proof
      fix c assume c: "c \<in> set cs"
      let ?r = "(?K (fst c), fst c)" and ?c = "(?k (fst (snd c)), fst (snd c))"
      have "look ?r ?c = snd (snd c)" by (rule look_at [OF c])
      moreover have "snd (snd c) \<noteq> PNone" using fin c by (auto simp: case_prod_beta)
      moreover have "?r \<in> set (grid_rows g)" "?c \<in> set (grid_columns g)" using c rows(2) cols(2) by auto
      ultimately have l: "(?r, ?c) \<in> set ?L" "?f (?r, ?c) = c" by (simp_all add: set_product)
      show "c \<in> set (map ?f ?L)"
        unfolding set_map by (rule image_eqI [where f = ?f, OF l(2) [symmetric] l(1)])
    qed
  qed
  have "distinct (grid_rows g)" "distinct (grid_columns g)"
    using rows(1) cols(1) by (simp_all add: wf_dict_def keys_def distinct_map)
  then have "distinct ?L" by (simp add: distinct_product)
  moreover have "inj_on ?f (set ?L)"
  proof (rule inj_onI)
    fix p q assume p: "p \<in> set ?L" and q: "q \<in> set ?L" and e: "?f p = ?f q"
    obtain a where a: "a \<in> set cs" "fst p = (?K (fst a), fst a)" "snd p = (?k (fst (snd a)), fst (snd a))"
      using found [of "fst p" "snd p"] p by (auto simp: set_product)
    obtain b where b: "b \<in> set cs" "fst q = (?K (fst b), fst b)" "snd q = (?k (fst (snd b)), fst (snd b))"
      using found [of "fst q" "snd q"] q by (auto simp: set_product)
    have "fst a = fst b" "fst (snd a) = fst (snd b)" using e a b by (auto simp: case_prod_beta)
    then show "p = q" using a b by (simp add: prod_eq_iff)
  qed
  ultimately have "distinct (map ?f ?L)" by (simp add: distinct_map)
  then show ?thesis using set \<open>distinct cs\<close> set_eq_iff_mset_eq_distinct by blast
qed

lemma grid_rows_from:
  assumes "float_texts other" "\<forall>(ls, l, v) \<in> set cs. list_all finite_scalar ls \<and> finite_scalar l \<and> v \<noteq> PNone"
  shows "snd ` set (grid_rows (fold (add_cell other) cs \<lparr>grid_columns = [], grid_rows = [], grid_cells = []\<rparr>)) =
    fst ` set cs"
proof -
  let ?K = "json_list other"
  have kr: "\<forall>c \<in> set cs. \<forall>c' \<in> set cs. ?K (fst c) = ?K (fst c') \<longrightarrow> fst c = fst c'"
    using assms(2) json_list_inject [OF assms(1)] by (auto simp: case_prod_beta)
  show ?thesis
    using set_default_fold [of cs "\<lambda>c. ?K (fst c)" fst "[]"] kr
    by (simp add: add_cell_parts image_image)
qed

section \<open>The sidecar reloads\<close>

lemma map_of_drop: "map_of (drop_names ns d) (PStr k) = (if k \<in> set ns then None else map_of d (PStr k))"
  by (induction d) (auto simp: drop_names_def)

lemma get_or_drop: "get_or k v (drop_names ns d) = (if k \<in> set ns then v else get_or k v d)"
  by (simp add: get_or_def map_of_drop)

lemma dict_has_drop: "dict_has k (drop_names ns d) \<longleftrightarrow> k \<notin> set ns \<and> dict_has k d"
  by (simp add: dict_has_def map_of_drop)

lemma dict_has_put: "dict_has k (dict_put k' v d) \<longleftrightarrow> k = k' \<or> dict_has k d"
  by (simp add: dict_has_def dict_put_def dict_simps)

lemma grid_factors_cong:
  "get_or ''factors'' PNone t = get_or ''factors'' PNone t' \<Longrightarrow> grid_factors t = grid_factors t'"
  by (simp add: grid_factors_def)

lemma entry_get_good:
  "good_entry fs e \<Longrightarrow> f \<in> set (fs @ [rate_key]) \<Longrightarrow> entry_get f e = Inr (entry_value f e)"
  by (auto simp: good_entry_def entry_get_def entry_value_def get_or_def dict_has_def)

lemma make_entry_other:
  "f \<notin> set fs \<Longrightarrow> length ls = length fs \<Longrightarrow>
   get_or f v (fold (\<lambda>(f, l) d. dict_put f l d) (zip fs ls) d) = get_or f v d"
  by (induction fs ls arbitrary: d rule: list_induct2') (auto simp: get_or_put)

lemma make_entry_levels:
  "distinct fs \<Longrightarrow> length ls = length fs \<Longrightarrow>
   map (\<lambda>f. get_or f v (fold (\<lambda>(f, l) d. dict_put f l d) (zip fs ls) d)) fs = ls"
  by (induction fs ls arbitrary: d rule: list_induct2') (auto simp: get_or_put make_entry_other)

lemma levels_of_make_entry:
  assumes "distinct fs" "rate_key \<notin> set fs" "length ls = length fs"
  shows "levels_of fs (make_entry fs ls r) = ls" "entry_value rate_key (make_entry fs ls r) = r"
proof -
  have "map (\<lambda>f. get_or f PNone (fold (\<lambda>(f, l) d. dict_put f l d) (zip fs ls) [])) fs = ls"
    by (rule make_entry_levels [OF assms(1,3)])
  moreover have "get_or f PNone (dict_put rate_key r d) = get_or f PNone d" if "f \<in> set fs" for f d
    using that assms(2) by (auto simp: get_or_put)
  ultimately show "levels_of fs (make_entry fs ls r) = ls"
    by (simp add: levels_of_def make_entry_def entry_value_def cong: map_cong)
  show "entry_value rate_key (make_entry fs ls r) = r"
    by (simp add: make_entry_def entry_value_def get_or_put)
qed

lemma map_result_map: "(\<And>x. x \<in> set xs \<Longrightarrow> f x = Inr (g x)) \<Longrightarrow> map_result f xs = Inr (map g xs)"
  by (induction xs) simp_all

lemma map_result_enumerate:
  "(\<And>j x. x \<in> set xs \<Longrightarrow> f (j, x) = Inr (g x)) \<Longrightarrow> map_result f (enumerate n xs) = Inr (map g xs)"
  by (induction xs arbitrary: n) simp_all

lemma refuse_extra_keys_good:
  "\<forall>e \<in> set es. good_entry fs e \<Longrightarrow> refuse_extra_keys fs es \<in> {Inr (), Inl Entry_extra_key}"
  by (induction es) (auto simp: good_entry_def split: list.split)

text \<open>An entry as the grid sees it: the levels of the leading factors, the last level, the rate.\<close>

definition entry_cell :: "string list \<Rightarrow> pv \<Rightarrow> pv list \<times> pv \<times> pv" where
  "entry_cell fs e = (levels_of (butlast fs) e, entry_value (last fs) e, entry_value rate_key e)"

definition rated_levels :: "string list \<Rightarrow> pv \<Rightarrow> pv list \<times> pv" where
  "rated_levels fs e = (levels_of fs e, entry_value rate_key e)"

lemma entry_cell_levels:
  "fs \<noteq> [] \<Longrightarrow> levels_of fs e = fst (entry_cell fs e) @ [fst (snd (entry_cell fs e))]"
  unfolding entry_cell_def levels_of_def by (cases fs rule: rev_cases) auto

lemma cell_of_good:
  assumes "good_entry fs e" "fs \<noteq> []"
  shows "cell_of (butlast fs) (last fs) e = Inr (entry_cell fs e)"
proof -
  have "entry_get f e = Inr (entry_value f e)" if "f \<in> set (butlast fs) \<or> f \<in> {last fs, rate_key}" for f
    using that assms by (intro entry_get_good) (auto dest: in_set_butlastD)
  then show ?thesis
    using map_result_map [of "butlast fs" "\<lambda>f. entry_get f e" "\<lambda>f. entry_value f e"]
    by (simp add: cell_of_def entry_cell_def levels_of_def)
qed

lemma cells_good:
  assumes "\<forall>e \<in> set es. good_entry fs e" "fs \<noteq> []"
  shows "\<forall>(ls, l, v) \<in> set (map (entry_cell fs) es).
    list_all finite_scalar ls \<and> finite_scalar l \<and> v \<noteq> PNone"
proof -
  have "list_all finite_scalar (fst (entry_cell fs e)) \<and> finite_scalar (fst (snd (entry_cell fs e))) \<and>
      snd (snd (entry_cell fs e)) \<noteq> PNone" if "e \<in> set es" for e
  proof -
    have "good_entry fs e" using that assms(1) by blast
    then have "list_all finite_scalar (levels_of fs e)" "entry_value rate_key e \<noteq> PNone"
      by (simp_all add: good_entry_def)
    then show ?thesis unfolding entry_cell_levels [OF assms(2)] by (simp add: entry_cell_def)
  qed
  then show ?thesis by (simp add: case_prod_beta)
qed

lemma single_grid_reads:
  assumes "\<forall>e \<in> set es. good_entry [f] e" "f \<noteq> rate_key"
  shows "\<exists>rows ess. map_result (\<lambda>e. bind_result (entry_get f e) (\<lambda>l.
      bind_result (entry_get rate_key e) (\<lambda>v. Inr (PList [l, v])))) es = Inr rows \<and>
    map_result (\<lambda>(j, r). single_entry i f j r) (enumerate 0 rows) = Inr ess \<and>
    map (rated_levels [f]) (concat ess) = map (rated_levels [f]) es"
proof -
  let ?row = "\<lambda>e. PList [entry_value f e, entry_value rate_key e]"
  let ?entry = "\<lambda>e. make_entry [f] [entry_value f e] (entry_value rate_key e)"
  have "map_result (\<lambda>e. bind_result (entry_get f e) (\<lambda>l.
      bind_result (entry_get rate_key e) (\<lambda>v. Inr (PList [l, v])))) es = Inr (map ?row es)"
    by (rule map_result_map) (use assms(1) entry_get_good [of "[f]"] in simp)
  moreover have "map_result (\<lambda>(j, r). single_entry i f j r) (enumerate 0 (map ?row es)) =
      Inr (map (\<lambda>e. [?entry e]) es)"
  proof -
    have "map_result (\<lambda>(j, r). single_entry i f j r) (enumerate n (map ?row xs)) =
        Inr (map (\<lambda>e. [?entry e]) xs)" if "set xs \<subseteq> set es" for n xs
      using that assms(1)
      by (induction xs arbitrary: n) (auto simp: single_entry_def good_entry_def)
    then show ?thesis by simp
  qed
  moreover have "rated_levels [f] (?entry e) = rated_levels [f] e" for e
    using levels_of_make_entry [of "[f]" "[entry_value f e]" "entry_value rate_key e"] assms(2)
    by (simp add: rated_levels_def levels_of_def)
  then have "map (rated_levels [f]) (concat (map (\<lambda>e. [?entry e]) es)) = map (rated_levels [f]) es"
    by (induction es) simp_all
  ultimately show ?thesis by blast
qed

lemma zip_map_filter:
  "map h (filter P (zip (map a xs) (map b xs))) = map (\<lambda>x. h (a x, b x)) (filter (\<lambda>x. P (a x, b x)) xs)"
  by (induction xs) auto

lemma grid_row_reads:
  assumes "length (snd r) = length fs - 1"
  shows "row_entries i fs (map snd (grid_columns g)) j (grid_row g r) =
    Inr (map (\<lambda>c. make_entry fs (snd r @ [snd c])
           (case map_of (grid_cells g) (fst r, fst c) of None \<Rightarrow> PNone | Some v \<Rightarrow> v))
         (filter (\<lambda>c. (case map_of (grid_cells g) (fst r, fst c) of None \<Rightarrow> PNone | Some v \<Rightarrow> v) \<noteq> PNone)
           (grid_columns g)))"
  using assms by (simp add: row_entries_def grid_row_def Let_def zip_map_filter)

lemma grid_reads:
  assumes o: "float_texts other" and good: "\<forall>e \<in> set es. good_entry fs e" and ne: "fs \<noteq> []"
    and fs: "distinct fs" "rate_key \<notin> set fs"
    and dist: "distinct (map (\<lambda>e. map (json_scalar other) (levels_of fs e)) es)"
    and g: "g = fold (add_cell other) (map (entry_cell fs) es)
      \<lparr>grid_columns = [], grid_rows = [], grid_cells = []\<rparr>"
  shows "\<exists>ess. map_result (\<lambda>(j, r). row_entries i fs (map snd (grid_columns g)) j r)
      (enumerate 0 (map (grid_row g) (grid_rows g))) = Inr ess \<and>
    mset (map (rated_levels fs) (concat ess)) = mset (map (rated_levels fs) es)"
proof -
  let ?cs = "map (entry_cell fs) es"
  define look :: "string \<times> pv list \<Rightarrow> string \<times> pv \<Rightarrow> pv" where
    "look = (\<lambda>r c. case map_of (grid_cells g) (fst r, fst c) of None \<Rightarrow> PNone | Some v \<Rightarrow> v)"
  let ?e = "\<lambda>r c. make_entry fs (snd r @ [snd c]) (look r c)"
  let ?P = "\<lambda>r c. look r c \<noteq> PNone"
  have cg: "\<forall>(ls, l, v) \<in> set ?cs. list_all finite_scalar ls \<and> finite_scalar l \<and> v \<noteq> PNone"
    by (rule cells_good [OF good ne])
  have "snd ` set (grid_rows g) = fst ` set ?cs" unfolding g by (rule grid_rows_from [OF o cg])
  moreover have "length (fst c) = length fs - 1" if "c \<in> set ?cs" for c
    using that by (auto simp: entry_cell_def levels_of_def)
  ultimately have len: "length (snd r) = length fs - 1" if "r \<in> set (grid_rows g)" for r
    using that by (metis (no_types, lifting) imageE imageI)
  let ?L = "filter (\<lambda>(r, c). ?P r c) (List.product (grid_rows g) (grid_columns g))"
  let ?ess = "map (\<lambda>r. map (?e r) (filter (?P r) (grid_columns g))) (grid_rows g)"
  have rows: "map_result (\<lambda>(j, r). row_entries i fs (map snd (grid_columns g)) j r)
      (enumerate n (map (grid_row g) rs)) = Inr (map (\<lambda>r. map (?e r) (filter (?P r) (grid_columns g))) rs)"
    if "set rs \<subseteq> set (grid_rows g)" for rs n
    using that grid_row_reads [OF len]
    by (induction rs arbitrary: n) (simp_all add: look_def)
  have "distinct (map (\<lambda>c. (fst c, fst (snd c))) ?cs)"
  proof -
    have e: "map (\<lambda>e. map (json_scalar other) (levels_of fs e)) es =
        map (\<lambda>p. map (json_scalar other) (fst p @ [snd p])) (map (\<lambda>c. (fst c, fst (snd c))) ?cs)"
      by (simp add: entry_cell_levels [OF ne])
    show ?thesis by (rule conjunct1 [OF distinct_map [THEN iffD1, OF dist [unfolded e]]])
  qed
  then have cells: "mset (map (\<lambda>(r, c). (snd r, snd c, look r c)) ?L) = mset ?cs"
    unfolding look_def by (rule grid_holds_cells [OF o cg _ g])
  let ?j = "\<lambda>(ls, l, v). (ls @ [l], v)"
  have "rated_levels fs (?e r c) = (snd r @ [snd c], look r c)" if "r \<in> set (grid_rows g)" for r c
    using levels_of_make_entry [OF fs, of "snd r @ [snd c]"] len [OF that] ne
    by (simp add: rated_levels_def)
  then have "map (rated_levels fs) (concat ?ess) = map ?j (map (\<lambda>(r, c). (snd r, snd c, look r c)) ?L)"
    unfolding map_concat_product by (auto simp: set_product)
  then have "mset (map (rated_levels fs) (concat ?ess)) =
      mset (map ?j (map (\<lambda>(r, c). (snd r, snd c, look r c)) ?L))" by (rule arg_cong)
  also have "\<dots> = image_mset ?j (mset ?cs)" unfolding mset_map [of ?j] cells by (rule refl)
  also have "\<dots> = mset (map (rated_levels fs) es)"
  proof -
    have "?j (entry_cell fs e) = rated_levels fs e" for e
      by (simp add: rated_levels_def entry_cell_levels [OF ne] entry_cell_def)
    then show ?thesis by (simp only: mset_map multiset.map_comp o_def)
  qed
  finally show ?thesis using rows [of "grid_rows g"] by blast
qed

lemma read_entries_simps:
  assumes "t' = dict_put ''entries'' (PList es) (drop_names [''columns'', ''rows''] g)"
    "g = dict_put ''rows'' x h" "h = drop_names [''entries''] t \<or> h = dict_put ''columns'' y (drop_names [''entries''] t)"
  shows "get_or ''entries'' PNone t' = PList es"
    "k \<notin> {''entries'', ''rows'', ''columns''} \<Longrightarrow> get_or k PNone t' = get_or k PNone t"
  using assms by (auto simp: get_or_put get_or_drop)

lemma single_grid_round_trip:
  assumes t: "get_or ''entries'' PNone t = PList es" "grid_factors t = [f]" "\<not> dict_has ''columns'' t"
    and es: "refuse_extra_keys [f] es = Inr ()" "\<forall>e \<in> set es. good_entry [f] e" "f \<noteq> rate_key"
  shows "\<exists>rows ess. grid_from_entries other t = Inr (dict_put ''rows'' (PList rows) (drop_names [''entries''] t)) \<and>
    entries_from_grid (dict_put ''rows'' (PList rows) (drop_names [''entries''] t)) j =
      Inr (dict_put ''entries'' (PList (concat ess))
        (drop_names [''columns'', ''rows''] (dict_put ''rows'' (PList rows) (drop_names [''entries''] t)))) \<and>
    map (rated_levels [f]) (concat ess) = map (rated_levels [f]) es"
proof -
  obtain rows ess where r: "map_result (\<lambda>e. bind_result (entry_get f e) (\<lambda>l.
      bind_result (entry_get rate_key e) (\<lambda>v. Inr (PList [l, v])))) es = Inr rows"
    "map_result (\<lambda>(k, r). single_entry j f k r) (enumerate 0 rows) = Inr ess"
    "map (rated_levels [f]) (concat ess) = map (rated_levels [f]) es"
    using single_grid_reads [OF es(2,3), of j] by blast
  let ?g = "dict_put ''rows'' (PList rows) (drop_names [''entries''] t)"
  have "grid_factors ?g = [f]"
    using t(2) grid_factors_cong [of ?g t] by (simp add: get_or_put get_or_drop)
  then have "entries_from_grid ?g j =
      Inr (dict_put ''entries'' (PList (concat ess)) (drop_names [''columns'', ''rows''] ?g))"
    using t(3) r(2) by (simp add: entries_from_grid_def Let_def get_or_put dict_has_put dict_has_drop)
  moreover have "grid_from_entries other t = Inr ?g"
    using t es(1) r(1) by (simp add: grid_from_entries_def Let_def)
  ultimately show ?thesis using r(3) by blast
qed

lemma many_grid_round_trip:
  assumes t: "get_or ''entries'' PNone t = PList es" "grid_factors t = fs" "fs \<noteq> []" "length fs \<noteq> 1"
    and es: "refuse_extra_keys fs es = Inr ()" "\<forall>e \<in> set es. good_entry fs e" "distinct fs" "rate_key \<notin> set fs"
      "distinct (map (\<lambda>e. map (json_scalar other) (levels_of fs e)) es)" "float_texts other"
  shows "\<exists>g rows cols ess. g = dict_put ''rows'' (PList rows)
        (dict_put ''columns'' (PList cols) (drop_names [''entries''] t)) \<and>
    grid_from_entries other t = Inr g \<and>
    entries_from_grid g j =
      Inr (dict_put ''entries'' (PList (concat ess)) (drop_names [''columns'', ''rows''] g)) \<and>
    mset (map (rated_levels fs) (concat ess)) = mset (map (rated_levels fs) es)"
proof -
  define G where "G = fold (add_cell other) (map (entry_cell fs) es)
      \<lparr>grid_columns = [], grid_rows = [], grid_cells = []\<rparr>"
  let ?rows = "map (grid_row G) (grid_rows G)" and ?cols = "map snd (grid_columns G)"
  obtain ess where r: "map_result (\<lambda>(k, r). row_entries j fs ?cols k r) (enumerate 0 ?rows) = Inr ess"
    "mset (map (rated_levels fs) (concat ess)) = mset (map (rated_levels fs) es)"
    using grid_reads [OF es(6,2) t(3) es(3-5) G_def, of j] by blast
  let ?g = "dict_put ''rows'' (PList ?rows) (dict_put ''columns'' (PList ?cols) (drop_names [''entries''] t))"
  have "grid_factors ?g = fs"
    using t(2) grid_factors_cong [of ?g t] by (simp add: get_or_put get_or_drop)
  then have "entries_from_grid ?g j =
      Inr (dict_put ''entries'' (PList (concat ess)) (drop_names [''columns'', ''rows''] ?g))"
    using t(3,4) r(1) by (simp add: entries_from_grid_def Let_def get_or_put dict_has_put dict_has_drop)
  moreover have "map_result (cell_of (butlast fs) (last fs)) es = Inr (map (entry_cell fs) es)"
    using es(2) cell_of_good [OF _ t(3)] by (intro map_result_map) blast
  then have "grid_from_entries other t = Inr ?g"
    using t es(1) by (simp add: grid_from_entries_def Let_def G_def)
  ultimately show ?thesis using r(2) by blast
qed

section \<open>Validation returns what it was given\<close>

lemma dict_put_same: "dict_has k d \<Longrightarrow> dict_put k (get_or k v d) d = d"
  by (induction d) (auto simp: dict_put_def dict_has_def get_or_def)

lemma validated_row_same: "validate_entry_row read_float row fs i j = Inr e \<Longrightarrow> e = row"
  by (auto simp: validate_entry_row_def bind_result_Inr dict_put_same split: pyval.splits if_splits)

lemma normalised_rows_same:
  assumes "normalise_entry_rows read_float rows fs i = Inr es"
  shows "es = rows"
proof -
  have "map_result (\<lambda>(j, row). validate_entry_row read_float row fs i j) (enumerate n xs) = Inr ys \<Longrightarrow> ys = xs"
    for n xs ys
    by (induction xs arbitrary: n ys) (auto split: sum.splits dest: validated_row_same)
  then show ?thesis using assms by (auto simp: normalise_entry_rows_def)
qed

lemma normalised_table_same:
  assumes "normalise_entries_for_table other read_float t i = Inr t'"
  shows "t' = t"
proof (cases "dict_has ''entries'' t")
  case False
  then show ?thesis
    using assms by (auto simp: normalise_entries_for_table_def bind_result_Inr split: if_splits)
next
  case True
  then obtain es fs es' where e: "get_or ''entries'' PNone t = PList es"
    "normalise_entry_rows read_float es fs i = Inr es'" "t' = dict_put ''entries'' (PList es') t"
    using assms by (auto simp: normalise_entries_for_table_def bind_result_Inr split: pyval.splits if_splits)
  then have "t' = dict_put ''entries'' (get_or ''entries'' PNone t) t"
    using normalised_rows_same [OF e(2)] by simp
  then show ?thesis using dict_put_same [OF True] by simp
qed

text \<open>A rate that is a finite number, or a text that reads as one.\<close>

definition finite_rate :: "(string \<Rightarrow> pyfloat option) \<Rightarrow> pv \<Rightarrow> bool" where
  "finite_rate read_float v =
     (case v of
        PInt i \<Rightarrow> \<bar>i\<bar> < float_overflow_bound
      | PFloat x \<Rightarrow> (case x of Fin r \<Rightarrow> True | _ \<Rightarrow> False)
      | PStr s \<Rightarrow> (case read_float s of Some (Fin r) \<Rightarrow> True | _ \<Rightarrow> False)
      | _ \<Rightarrow> False)"

definition sound_table :: "(pv \<Rightarrow> string) \<Rightarrow> (string \<Rightarrow> pyfloat option) \<Rightarrow> pydict \<Rightarrow> bool" where
  "sound_table other read_float t =
     (case get_or ''entries'' PNone t of
        PList es \<Rightarrow>
          let fs = grid_factors t
          in get_or ''factors'' PNone t = PList (map PStr fs) \<and> distinct fs \<and> rate_key \<notin> set fs \<and>
             length fs \<le> max_rating_factors \<and> (fs \<noteq> [] \<or> es = []) \<and>
             list_all (\<lambda>e. good_entry fs e \<and> finite_rate read_float (entry_value rate_key e)) es \<and>
             distinct (map (\<lambda>e. map (json_scalar other) (levels_of fs e)) es)
      | _ \<Rightarrow> \<not> dict_has ''entries'' t)"

lemma accepted_rate: "validate_rating_value read_float i j v = Inr () \<Longrightarrow> finite_rate read_float v"
  by (auto simp: validate_rating_value_def finite_rate_def finite_number_def
      split: pyval.splits if_splits option.splits pyfloat.splits)

lemma normalised_table_sound:
  assumes "normalise_entries_for_table other read_float t i = Inr t'"
  shows "sound_table other read_float t"
proof (cases "dict_has ''entries'' t")
  case False
  then show ?thesis by (simp add: sound_table_def dict_has_def get_or_def)
next
  case True
  then obtain es fs es' where e: "get_or ''entries'' PNone t = PList es" and f: "validate_factors t i = Inr fs"
    and r: "normalise_entry_rows read_float es fs i = Inr es'" and ne: "fs \<noteq> [] \<or> es = []"
    using assms by (auto simp: normalise_entries_for_table_def bind_result_Inr split: pyval.splits if_splits)
  have t: "normalise_entries_for_table other read_float t i = Inr t"
    using assms normalised_table_same [OF assms] by simp
  note v = validate_factors_Inr [OF f]
  note n = normalised_table [OF t e v(5)]
  have "finite_rate read_float (entry_value rate_key (es ! k))" if "k < length es" for k
  proof -
    have l: "list_all2 (\<lambda>x e. (case x of (i', row) \<Rightarrow> validate_entry_row read_float row fs i i') = Inr e)
        (enumerate 0 es) es'"
      using r by (simp add: normalise_entry_rows_def map_result_Inr)
    have "validate_entry_row read_float (es ! k) fs i k = Inr (es' ! k)"
      using list_all2_nthD [OF l, of k] that by (simp add: nth_enumerate_eq)
    then show ?thesis
      by (auto simp: validate_entry_row_def bind_result_Inr entry_value_def split: pyval.splits if_splits
          dest: accepted_rate)
  qed
  then show ?thesis
    using n v ne by (auto simp: sound_table_def e Let_def list_all_iff in_set_conv_nth)
qed

lemma tables_loop_Inr:
  "tables_loop (\<lambda>i t. normalise_entries_for_table other read_float t i) n vs = Inr ts \<Longrightarrow>
   vs = map PDict ts \<and> list_all (sound_table other read_float) ts"
proof (induction vs arbitrary: n ts)
  case (Cons v vs)
  then obtain t t' ts' where v: "v = PDict t" "normalise_entries_for_table other read_float t n = Inr t'"
    "tables_loop (\<lambda>i t. normalise_entries_for_table other read_float t i) (Suc n) vs = Inr ts'" "ts = t' # ts'"
    by (auto simp: bind_result_Inr split: pyval.splits)
  then show ?case
    using Cons.IH [OF v(3)] normalised_table_same [OF v(2)] normalised_table_sound [OF v(2)] by simp
qed simp

definition table_output :: "(pv \<Rightarrow> string) \<Rightarrow> pydict \<Rightarrow> string" where
  "table_output other t = py_strip (text_or_empty other (get_or ''output_column'' (PStr []) t))"

lemma unique_outputs_Inr:
  "unique_outputs_loop other n ts seen = Inr () \<Longrightarrow>
   distinct (filter (\<lambda>c. c \<noteq> []) (map (table_output other) ts)) \<and>
   set (filter (\<lambda>c. c \<noteq> []) (map (table_output other) ts)) \<inter> dom (map_of seen) = {}"
proof (induction ts arbitrary: n seen)
  case (Cons t ts)
  show ?case
  proof (cases "table_output other t = []")
    case True
    then show ?thesis using Cons.prems Cons.IH by (simp add: table_output_def)
  next
    case False
    then have none: "map_of seen (table_output other t) = None"
      and rest: "unique_outputs_loop other (Suc n) ts (AList.update (table_output other t) n seen) = Inr ()"
      using Cons.prems by (auto simp: table_output_def Let_def split: option.splits)
    have "set (filter (\<lambda>c. c \<noteq> []) (map (table_output other) ts)) \<inter>
        insert (table_output other t) (dom (map_of seen)) = {}"
      using conjunct2 [OF Cons.IH [OF rest]] by (simp only: update_conv' dom_fun_upd option.simps if_False)
    moreover have "filter (\<lambda>c. c \<noteq> []) (map (table_output other) (t # ts)) =
        table_output other t # filter (\<lambda>c. c \<noteq> []) (map (table_output other) ts)"
      using False by simp
    moreover have "table_output other t \<notin> dom (map_of seen)" using none by (simp add: domIff)
    ultimately show ?thesis using conjunct1 [OF Cons.IH [OF rest]]
      by (simp only: distinct.simps list.set) blast
  qed
qed simp

section \<open>A table to compute with\<close>

text \<open>A text of floats with what \<open>float_texts\<close> asks: the numerator, a point and the denominator.\<close>

fun fraction_text :: "pv \<Rightarrow> string" where
  "fraction_text (PFloat (Fin q)) =
     show_int (fst (quotient_of q)) @ CHR ''.'' # show_int (snd (quotient_of q))"
| "fraction_text _ = []"

lemma fraction_text_ok: "float_texts fraction_text"
proof -
  have c: "is_digit c \<or> c = CHR ''-''" if "c \<in> set (show_int i)" for c i
    using that by (rule show_int_chars)
  have d: "CHR ''.'' \<notin> set (show_int i)" for i
    using c [of "CHR ''.''" i] by (auto simp: is_digit_def digit_of_def)
  have "q = r" if "fraction_text (PFloat (Fin q)) = fraction_text (PFloat (Fin r))" for q r
  proof -
    have "show_int (fst (quotient_of q)) = show_int (fst (quotient_of r)) \<and>
        show_int (snd (quotient_of q)) = show_int (snd (quotient_of r))"
      using that append_Cons_eq_iff [OF d d] by simp
    then have "quotient_of q = quotient_of r" by (simp add: show_int_inject prod_eq_iff)
    then show ?thesis by (rule quotient_of_inject)
  qed
  then show ?thesis unfolding float_texts_def using c by auto
qed

definition sample_rating_table :: pydict where
  "sample_rating_table =
     [(PStr ''factors'', PList [PStr ''age'', PStr ''area'']), (PStr ''name'', PStr ''base''),
      (PStr ''entries'', PList [
         PDict [(PStr ''age'', PInt 25), (PStr ''area'', PStr ''N''), (PStr ''value'', PInt 0)],
         PDict [(PStr ''age'', PStr ''25''), (PStr ''area'', PStr ''S''), (PStr ''value'', PStr ''1.5'')],
         PDict [(PStr ''age'', PInt 25), (PStr ''area'', PStr ''S''), (PStr ''value'', PInt 2)]])]"

section \<open>Properties of saved tables\<close>

lemma rating_config_sound:
  assumes "normalise_rating_step_config other read_float c = Inr c'"
  shows "c' = c \<and> (get_or ''tables'' PNone c = PNone \<or>
    (\<exists>ts. get_or ''tables'' PNone c = PList (map PDict ts) \<and>
       distinct (filter (\<lambda>n. n \<noteq> []) (map (table_output other) ts)) \<and>
       list_all (sound_table other read_float) ts))"
proof (cases "get_or ''tables'' PNone c = PNone")
  case True
  then show ?thesis using assms by (simp add: normalise_rating_step_config_def)
next
  case False
  then obtain vs ts where v: "get_or ''tables'' PNone c = PList vs"
    and l: "tables_loop (\<lambda>i t. normalise_entries_for_table other read_float t i) 0 vs = Inr ts"
    and u: "validate_unique_rating_table_outputs other ts = Inr ()"
    and c': "c' = dict_put ''tables'' (PList (map PDict ts)) c"
    using assms by (auto simp: normalise_rating_step_config_def bind_result_Inr split: pyval.splits)
  note t = tables_loop_Inr [OF l]
  have "dict_has ''tables'' c" using False by (auto simp: dict_has_def get_or_def split: option.splits)
  then have "c' = c" using dict_put_same [of "''tables''" c PNone] c' v t by simp
  then show ?thesis
    using v t unique_outputs_Inr [OF u [unfolded validate_unique_rating_table_outputs_def]] by blast
qed

text \<open>
  C36: A rating config that validation accepts is returned as it was given. Its tables write distinct
  output columns; each table with entries names at most three distinct factors, none of them the rate's
  own key; every entry gives each factor a finite scalar and a rate that reads as a finite number; and no
  two entries of a table have the same levels as written.
\<close>

theorem rating_config_validated:
  assumes "normalise_rating_step_config other read_float c = Inr c'"
  shows "c' = c \<and> (get_or ''tables'' PNone c = PNone \<or>
    (\<exists>ts. get_or ''tables'' PNone c = PList (map PDict ts) \<and>
       distinct (filter (\<lambda>n. n \<noteq> []) (map (table_output other) ts)) \<and>
       list_all (sound_table other read_float) ts))"
  by (rule rating_config_sound [OF assms])

lemma rating_config_validated_witness:
  "\<exists>ts. get_or ''tables'' PNone [(PStr ''tables'', PList [PDict sample_rating_table])] = PList (map PDict ts) \<and>
     list_all (sound_table fraction_text (\<lambda>_. Some (Fin 1))) ts"
proof -
  let ?c = "[(PStr ''tables'', PList [PDict sample_rating_table])]"
  have "normalise_rating_step_config fraction_text (\<lambda>_. Some (Fin 1)) ?c = Inr ?c" by code_simp
  from rating_config_validated [OF this] have "get_or ''tables'' PNone ?c = PNone \<or>
      (\<exists>ts. get_or ''tables'' PNone ?c = PList (map PDict ts) \<and>
        list_all (sound_table fraction_text (\<lambda>_. Some (Fin 1))) ts)" by blast
  moreover have "get_or ''tables'' PNone ?c \<noteq> PNone" by (simp add: get_or_def)
  ultimately show ?thesis by blast
qed

text \<open>
  C35: A table that passed validation is written to its sidecar unless an entry holds a key the
  grid cannot keep, and the sidecar reads back: every entry returns with its levels, of the JSON
  type they had, and its rate, none is added and none is lost; with one factor they keep their
  order; and every setting of the table but the grid's own \<open>rows\<close> is unchanged. A stray \<open>columns\<close> key of a table is
  excluded: the writer copies it and the reader of a one-factor table refuses it.
\<close>

theorem rating_grid_round_trip:
  assumes "normalise_entries_for_table other read_float t0 i = Inr t"
    "get_or ''entries'' PNone t = PList es" "grid_factors t \<noteq> []"
    "float_texts other" "\<not> dict_has ''columns'' t"
  shows "case grid_from_entries other t of
      Inl e \<Rightarrow> e = Entry_extra_key
    | Inr g \<Rightarrow> \<exists>t' es'. entries_from_grid g j = Inr t' \<and> get_or ''entries'' PNone t' = PList es' \<and>
        mset (map (rated_levels (grid_factors t)) es') = mset (map (rated_levels (grid_factors t)) es) \<and>
        (length (grid_factors t) = 1 \<longrightarrow>
           map (rated_levels (grid_factors t)) es' = map (rated_levels (grid_factors t)) es) \<and>
        (\<forall>k. k \<notin> {''entries'', ''rows'', ''columns''} \<longrightarrow> get_or k PNone t' = get_or k PNone t)"
proof -
  define fs where "fs = grid_factors t"
  note fs = fs_def [symmetric] and ne = assms(3) [folded fs_def]
  note n = normalised_table [OF assms(1,2) fs]
  have "refuse_extra_keys fs es \<in> {Inr (), Inl Entry_extra_key}" by (rule refuse_extra_keys_good [OF n(3)])
  then consider (extra) "refuse_extra_keys fs es = Inl Entry_extra_key"
    | (single) f where "refuse_extra_keys fs es = Inr ()" "fs = [f]"
    | (many) "refuse_extra_keys fs es = Inr ()" "length fs \<noteq> 1"
    by (cases "length fs = 1") (auto simp: length_Suc_conv)
  then show ?thesis
  proof cases
    case extra
    then have "grid_from_entries other t = Inl Entry_extra_key"
      using assms(2) ne by (simp add: grid_from_entries_def fs Let_def)
    then show ?thesis by simp
  next
    case single
    then obtain rows ess where r: "grid_from_entries other t = Inr (dict_put ''rows'' (PList rows) (drop_names [''entries''] t))"
      "entries_from_grid (dict_put ''rows'' (PList rows) (drop_names [''entries''] t)) j =
        Inr (dict_put ''entries'' (PList (concat ess))
          (drop_names [''columns'', ''rows''] (dict_put ''rows'' (PList rows) (drop_names [''entries''] t))))"
      "map (rated_levels fs) (concat ess) = map (rated_levels fs) es"
      using single_grid_round_trip [OF assms(2) _ assms(5), of f other j] n fs by auto
    from r(3) have "mset (map (rated_levels fs) (concat ess)) = mset (map (rated_levels fs) es)"
      by (rule arg_cong)
    then show ?thesis using r by (simp add: fs get_or_put get_or_drop del: mset_map)
  next
    case many
    then obtain g rows cols ess where r: "g = dict_put ''rows'' (PList rows)
        (dict_put ''columns'' (PList cols) (drop_names [''entries''] t))"
      "grid_from_entries other t = Inr g"
      "entries_from_grid g j =
        Inr (dict_put ''entries'' (PList (concat ess)) (drop_names [''columns'', ''rows''] g))"
      "mset (map (rated_levels fs) (concat ess)) = mset (map (rated_levels fs) es)"
      using many_grid_round_trip [OF assms(2) fs ne many(2,1) n(3,1,2,4) assms(4), of j] by blast
    have "get_or k PNone (dict_put ''entries'' (PList (concat ess)) (drop_names [''columns'', ''rows''] g)) =
        get_or k PNone t" if "k \<notin> {''entries'', ''rows'', ''columns''}" for k
      using that by (simp add: r(1) get_or_put get_or_drop)
    then show ?thesis using r(2-4) many(2) by (simp add: fs get_or_put)
  qed
qed

lemma rating_grid_round_trip_witness:
  "\<exists>t es g t' es'. normalise_entries_for_table fraction_text (\<lambda>_. Some (Fin 1)) sample_rating_table 0 = Inr t \<and>
     get_or ''entries'' PNone t = PList es \<and> length es = 3 \<and>
     grid_from_entries fraction_text t = Inr g \<and> entries_from_grid g 0 = Inr t' \<and>
     get_or ''entries'' PNone t' = PList es' \<and>
     mset (map (rated_levels (grid_factors t)) es') = mset (map (rated_levels (grid_factors t)) es)"
proof -
  let ?t = sample_rating_table
  have t: "normalise_entries_for_table fraction_text (\<lambda>_. Some (Fin 1)) ?t 0 = Inr ?t"
    by code_simp
  obtain es where es: "get_or ''entries'' PNone ?t = PList es" "length es = 3"
    by (simp add: sample_rating_table_def get_or_def)
  have ok: "grid_factors ?t \<noteq> []" "\<not> dict_has ''columns'' ?t"
    "(case grid_from_entries fraction_text ?t of Inl _ \<Rightarrow> False | Inr _ \<Rightarrow> True)" by code_simp+
  then obtain g where "grid_from_entries fraction_text ?t = Inr g" by (auto split: sum.splits)
  then show ?thesis
    using rating_grid_round_trip [OF t es(1) ok(1) fraction_text_ok ok(2), of 0] t es by auto
qed

end
