(* ===== verification/Dtypes.thy ===== *)
theory Dtypes
  imports Py_Text
begin

text \<open>
  The dtype codec, \<open>haute/_polars_dtypes.py\<close>: a Polars dtype as the JSON spec a config persists and
  back, schema mappings of such specs, and the feature-contract names.

  A dtype is \<open>pl_dtype\<close>: a class named by itself, which Polars equates with its only instance where
  it takes no arguments, or an instance with its arguments. \<open>polars_types\<close> holds what the code asks
  of Polars: which names are dtype classes, what a class makes without arguments, what a decimal's
  arguments become, which time zones and which enum categories it takes without raising, and which
  category pools exist. The lemmas show which dtypes read back from their spec.
\<close>

datatype dtype_error =
    Unsupported_name string
  | Spec_not_object
  | Spec_without_type
  | Spec_requires string string
  | Spec_unknown_keys "pv list"
  | Bad_time_unit pv
  | Bad_array_size pv
  | Bad_struct_fields
  | Bad_enum_categories
  | Bad_category_pool
  | Pool_refused
  | Decimal_refused
  | Zone_refused pv
  | Categories_refused
  | No_spec
  | Class_needs_arguments string
  | Mapping_expected string
  | Bad_column_name pv
  | Wide_integer string

datatype pl_dtype =
    Class_t string
  | Datetime_t string pv
  | Duration_t string
  | Decimal_t pv pv
  | Enum_t "string list"
  | Categorical_t pv pv pl_dtype
  | List_t pl_dtype
  | Array_t pl_dtype int
  | Struct_t "(pv \<times> pl_dtype) list"
  | Map_t pl_dtype pl_dtype
  | Extension_t

record polars_types =
  is_class :: "string \<Rightarrow> bool"
  no_argument_instance :: "string \<Rightarrow> pl_dtype option"
  decimal_of :: "pv \<Rightarrow> pv \<Rightarrow> (pv \<times> pv) option"
  zone_accepted :: "pv \<Rightarrow> bool"
  categories_accepted :: "string list \<Rightarrow> bool"
  pool_of :: "pv \<Rightarrow> pv \<Rightarrow> pl_dtype \<Rightarrow> bool"
  default_pool :: "pv \<times> pv \<times> pl_dtype"

section \<open>Reading a spec\<close>

definition dtype_aliases :: "(string \<times> string) list" where
  "dtype_aliases =
     [(''bool'', ''Boolean''), (''boolean'', ''Boolean''), (''date'', ''Date''),
      (''datetime'', ''Datetime''), (''duration'', ''Duration''), (''time'', ''Time''),
      (''float32'', ''Float32''), (''float64'', ''Float64''), (''float'', ''Float64''),
      (''int8'', ''Int8''), (''int16'', ''Int16''), (''int32'', ''Int32''), (''int64'', ''Int64''),
      (''int'', ''Int64''), (''string'', ''String''), (''str'', ''String''), (''uint8'', ''UInt8''),
      (''uint16'', ''UInt16''), (''uint32'', ''UInt32''), (''uint64'', ''UInt64''),
      (''utf8'', ''String''), (''binary'', ''Binary''), (''null'', ''Null''),
      (''categorical'', ''Categorical''), (''decimal'', ''Decimal'')]"

definition time_unit_names :: "string list" where
  "time_unit_names = [''ms'', ''us'', ''ns'']"

text \<open>\<open>str.lower\<close> of ASCII text.\<close>

definition lower_char :: "char \<Rightarrow> char" where
  "lower_char c = (let n = of_char c :: nat in if 65 \<le> n \<and> n \<le> 90 then char_of (n + 32) else c)"

definition scalar_dtype :: "polars_types \<Rightarrow> string \<Rightarrow> dtype_error + pl_dtype" where
  "scalar_dtype pl name =
     (let key = py_strip name
      in case map_of dtype_aliases (map lower_char key) of
          Some n \<Rightarrow> Inr (Class_t n)
        | None \<Rightarrow> if is_class pl key then Inr (Class_t key) else Inl (Unsupported_name name))"

definition check_spec_keys :: "pydict \<Rightarrow> string list \<Rightarrow> dtype_error + unit" where
  "check_spec_keys spec allowed =
     (let unknown = filter (\<lambda>k. k \<notin> set (map PStr allowed)) (keys spec)
      in refuse_if (unknown \<noteq> []) (Spec_unknown_keys unknown))"

definition spec_time_unit :: "pydict \<Rightarrow> dtype_error + string" where
  "spec_time_unit spec =
     (case get_or ''time_unit'' (PStr ''us'') spec of
        PStr u \<Rightarrow> if u \<in> set time_unit_names then Inr u else Inl (Bad_time_unit (PStr u))
      | v \<Rightarrow> Inl (Bad_time_unit v))"

definition positive_int :: "pv \<Rightarrow> int option" where
  "positive_int v = (case v of PInt n \<Rightarrow> if 0 < n then Some n else None | _ \<Rightarrow> None)"

definition all_texts :: "pv list \<Rightarrow> string list option" where
  "all_texts vs =
     (if list_all (\<lambda>v. case v of PStr _ \<Rightarrow> True | _ \<Rightarrow> False) vs
      then Some (map (\<lambda>v. case v of PStr s \<Rightarrow> s | _ \<Rightarrow> []) vs) else None)"

text \<open>The kinds without a spec inside them.\<close>

definition parse_leaf :: "polars_types \<Rightarrow> string \<Rightarrow> pydict \<Rightarrow> dtype_error + pl_dtype" where
  "parse_leaf pl kind spec =
     (if kind = ''Decimal''
      then bind_result (check_spec_keys spec [''type'', ''precision'', ''scale'']) (\<lambda>_.
             case decimal_of pl (get_or ''precision'' PNone spec) (get_or ''scale'' (PInt 0) spec) of
               None \<Rightarrow> Inl Decimal_refused | Some (p, s) \<Rightarrow> Inr (Decimal_t p s))
      else if kind = ''Datetime''
      then bind_result (check_spec_keys spec [''type'', ''time_unit'', ''time_zone'']) (\<lambda>_.
           bind_result (spec_time_unit spec) (\<lambda>u.
             let zone = get_or ''time_zone'' PNone spec
             in if zone_accepted pl zone then Inr (Datetime_t u zone) else Inl (Zone_refused zone)))
      else if kind = ''Duration''
      then bind_result (check_spec_keys spec [''type'', ''time_unit'']) (\<lambda>_.
           bind_result (spec_time_unit spec) (\<lambda>u. Inr (Duration_t u)))
      else if kind = ''Enum''
      then bind_result (check_spec_keys spec [''type'', ''categories'']) (\<lambda>_.
             if \<not> dict_has ''categories'' spec then Inl (Spec_requires kind ''categories'')
             else case get_or ''categories'' PNone spec of
               PList vs \<Rightarrow>
                 (case all_texts vs of
                    None \<Rightarrow> Inl Bad_enum_categories
                  | Some cs \<Rightarrow> if categories_accepted pl cs then Inr (Enum_t cs) else Inl Categories_refused)
             | _ \<Rightarrow> Inl Bad_enum_categories)
      else bind_result (check_spec_keys spec [''type'']) (\<lambda>_. scalar_dtype pl kind))"

lemma size_pair_list: "(k, v) \<in> set d \<Longrightarrow> size v < Suc (size_list (size_prod size size) d)"
  by (induction d) auto

lemma size_of_item: "map_of d k = Some v \<Longrightarrow> size v < size (PDict d)"
  using size_pair_list [OF map_of_SomeD [of d k v]] by simp

lemma size_of_nested:
  assumes "map_of d k = Some (PDict e)"
  shows "Suc (size_list (size_prod size size) e) < size (PDict d)"
  using size_of_item [OF assms] by simp

lemma size_of_nested_item:
  assumes "map_of d k = Some (PDict e)" "map_of e l = Some v"
  shows "size v < size (PDict d)"
  using size_of_item [OF assms(1)] size_of_item [OF assms(2)] by simp

lemma bind_result_cong [fundef_cong]:
  "r = r' \<Longrightarrow> (\<And>x. r' = Inr x \<Longrightarrow> f x = g x) \<Longrightarrow> bind_result r f = bind_result r' g"
  by (cases r') simp_all

function (sequential) parse_dtype :: "polars_types \<Rightarrow> pv \<Rightarrow> dtype_error + pl_dtype"
  and parse_fields :: "polars_types \<Rightarrow> pydict \<Rightarrow> dtype_error + (pv \<times> pl_dtype) list" where
  "parse_dtype pl (PStr name) = scalar_dtype pl name"
| "parse_dtype pl (PDict spec) =
     (case map_of spec (PStr ''type'') of
        Some (PStr kind) \<Rightarrow>
          if kind = [] then Inl Spec_without_type
          else if kind = ''List''
          then bind_result (check_spec_keys spec [''type'', ''inner'']) (\<lambda>_.
                 case map_of spec (PStr ''inner'') of
                   None \<Rightarrow> Inl (Spec_requires kind ''inner'')
                 | Some v \<Rightarrow> bind_result (parse_dtype pl v) (\<lambda>d. Inr (List_t d)))
          else if kind = ''Array''
          then bind_result (check_spec_keys spec [''type'', ''inner'', ''size'']) (\<lambda>_.
                 if \<not> dict_has ''size'' spec then Inl (Spec_requires kind ''size'')
                 else case positive_int (get_or ''size'' PNone spec) of
                     None \<Rightarrow> Inl (Bad_array_size (get_or ''size'' PNone spec))
                   | Some n \<Rightarrow>
                       (case map_of spec (PStr ''inner'') of
                          None \<Rightarrow> Inl (Spec_requires kind ''inner'')
                        | Some v \<Rightarrow> bind_result (parse_dtype pl v) (\<lambda>d. Inr (Array_t d n))))
          else if kind = ''Struct''
          then bind_result (check_spec_keys spec [''type'', ''fields'']) (\<lambda>_.
                 case map_of spec (PStr ''fields'') of
                   None \<Rightarrow> Inl (Spec_requires kind ''fields'')
                 | Some (PDict fs) \<Rightarrow>
                     if fs = [] then Inl Bad_struct_fields
                     else bind_result (parse_fields pl fs) (\<lambda>ds. Inr (Struct_t ds))
                 | Some _ \<Rightarrow> Inl Bad_struct_fields)
          else if kind = ''Categorical''
          then bind_result (check_spec_keys spec [''type'', ''categories'']) (\<lambda>_.
                 case map_of spec (PStr ''categories'') of
                   None \<Rightarrow> Inr (case default_pool pl of (n, ns, p) \<Rightarrow> Categorical_t n ns p)
                 | Some PNone \<Rightarrow> Inr (case default_pool pl of (n, ns, p) \<Rightarrow> Categorical_t n ns p)
                 | Some (PDict pool) \<Rightarrow>
                     if set (keys pool) \<noteq> {PStr ''name'', PStr ''namespace'', PStr ''physical''}
                     then Inl Bad_category_pool
                     else (case map_of pool (PStr ''physical'') of
                         None \<Rightarrow> Inl Bad_category_pool
                       | Some v \<Rightarrow> bind_result (parse_dtype pl v) (\<lambda>p.
                           let n = get_or ''name'' PNone pool; ns = get_or ''namespace'' PNone pool
                           in if pool_of pl n ns p then Inr (Categorical_t n ns p) else Inl Pool_refused))
                 | Some _ \<Rightarrow> Inl Bad_category_pool)
          else parse_leaf pl kind spec
      | _ \<Rightarrow> Inl Spec_without_type)"
| "parse_dtype pl _ = Inl Spec_not_object"
| "parse_fields pl [] = Inr []"
| "parse_fields pl ((name, v) # fs) =
     bind_result (parse_dtype pl v) (\<lambda>d. bind_result (parse_fields pl fs) (\<lambda>ds. Inr ((name, d) # ds)))"
  by pat_completeness auto
termination
  apply (relation "measure (\<lambda>x. case x of Inl (_, v) \<Rightarrow> size v
    | Inr (_, fs) \<Rightarrow> Suc (size_list (size_prod size size) fs))")
  apply (simp_all only: wf_measure in_measure sum.case prod.case)
  subgoal by (erule size_of_item)
  subgoal by (erule size_of_item)
  subgoal by (erule size_of_nested)
  subgoal by (erule size_of_nested_item)
  subgoal by simp
  subgoal by simp
  done

section \<open>Writing a spec\<close>

definition leaf_spec :: "polars_types \<Rightarrow> pl_dtype \<Rightarrow> dtype_error + pv" where
  "leaf_spec pl d =
     (case d of
        Class_t n \<Rightarrow> Inr (PStr n)
      | Decimal_t p s \<Rightarrow>
          Inr (PDict [(PStr ''type'', PStr ''Decimal''), (PStr ''precision'', p), (PStr ''scale'', s)])
      | Datetime_t u z \<Rightarrow>
          Inr (PDict [(PStr ''type'', PStr ''Datetime''), (PStr ''time_unit'', PStr u), (PStr ''time_zone'', z)])
      | Duration_t u \<Rightarrow> Inr (PDict [(PStr ''type'', PStr ''Duration''), (PStr ''time_unit'', PStr u)])
      | Enum_t cs \<Rightarrow>
          Inr (PDict [(PStr ''type'', PStr ''Enum''), (PStr ''categories'', PList (map PStr cs))])
      | Categorical_t n ns p \<Rightarrow>
          if (n, ns, p) = default_pool pl then Inr (PDict [(PStr ''type'', PStr ''Categorical'')])
          else Inl No_spec
      | _ \<Rightarrow> Inl No_spec)"

text \<open>A dictionary built from pairs: a later value of a key takes the earlier one's place.\<close>

definition dict_of_pairs :: "(pv \<times> pv) list \<Rightarrow> pydict" where
  "dict_of_pairs ps = fold (\<lambda>p. AList.update (fst p) (snd p)) ps []"

text \<open>A class is called without arguments first, which the nested ones refuse.\<close>

fun dtype_to_spec :: "polars_types \<Rightarrow> pl_dtype \<Rightarrow> dtype_error + pv"
  and field_specs :: "polars_types \<Rightarrow> (pv \<times> pl_dtype) list \<Rightarrow> dtype_error + pydict" where
  "dtype_to_spec pl (Class_t n) =
     (case no_argument_instance pl n of
        None \<Rightarrow> Inl (Class_needs_arguments n) | Some d \<Rightarrow> leaf_spec pl d)"
| "dtype_to_spec pl (List_t d) =
     bind_result (dtype_to_spec pl d) (\<lambda>s.
       Inr (PDict [(PStr ''type'', PStr ''List''), (PStr ''inner'', s)]))"
| "dtype_to_spec pl (Array_t d n) =
     bind_result (dtype_to_spec pl d) (\<lambda>s.
       Inr (PDict [(PStr ''type'', PStr ''Array''), (PStr ''inner'', s), (PStr ''size'', PInt n)]))"
| "dtype_to_spec pl (Struct_t fs) =
     bind_result (field_specs pl fs) (\<lambda>ss.
       Inr (PDict [(PStr ''type'', PStr ''Struct''), (PStr ''fields'', PDict (dict_of_pairs ss))]))"
| "dtype_to_spec pl (Categorical_t n ns p) =
     (if (n, ns, p) = default_pool pl then leaf_spec pl (Categorical_t n ns p)
      else bind_result (dtype_to_spec pl p) (\<lambda>s.
             Inr (PDict [(PStr ''type'', PStr ''Categorical''), (PStr ''categories'',
               PDict [(PStr ''name'', n), (PStr ''namespace'', ns), (PStr ''physical'', s)])])))"
| "dtype_to_spec pl d = leaf_spec pl d"
| "field_specs pl [] = Inr []"
| "field_specs pl ((name, d) # fs) =
     bind_result (dtype_to_spec pl d) (\<lambda>s. bind_result (field_specs pl fs) (\<lambda>ss. Inr ((name, s) # ss)))"

section \<open>Schemas and contracts\<close>

fun decode_columns :: "polars_types \<Rightarrow> pydict \<Rightarrow> dtype_error + (string \<times> pl_dtype) list" where
  "decode_columns pl [] = Inr []"
| "decode_columns pl ((k, spec) # items) =
     (case k of
        PStr name \<Rightarrow>
          if name = [] then Inl (Bad_column_name k)
          else bind_result (parse_dtype pl spec) (\<lambda>d.
               bind_result (decode_columns pl items) (\<lambda>ds. Inr ((name, d) # ds)))
      | _ \<Rightarrow> Inl (Bad_column_name k))"

definition parse_schema_mapping :: "polars_types \<Rightarrow> pv \<Rightarrow> string \<Rightarrow>
    dtype_error + (string \<times> pl_dtype) list" where
  "parse_schema_mapping pl raw argument =
     (case raw of PDict d \<Rightarrow> decode_columns pl d | _ \<Rightarrow> Inl (Mapping_expected argument))"

definition wide_integer_dtypes :: "pl_dtype list" where
  "wide_integer_dtypes = [Class_t ''Int128'', Class_t ''UInt128'']"

fun holds_wide_integer :: "pl_dtype \<Rightarrow> bool" where
  "holds_wide_integer (List_t d) = holds_wide_integer d"
| "holds_wide_integer (Array_t d n) = holds_wide_integer d"
| "holds_wide_integer (Struct_t fs) = list_ex (\<lambda>f. holds_wide_integer (snd f)) fs"
| "holds_wide_integer (Map_t k v) = (holds_wide_integer k \<or> holds_wide_integer v)"
| "holds_wide_integer d = (d \<in> set wide_integer_dtypes)"

definition wide_integer_column :: "(string \<times> pl_dtype) list \<Rightarrow> (string \<times> pl_dtype) option" where
  "wide_integer_column schema = find (\<lambda>c. holds_wide_integer (snd c)) schema"

definition refuse_wide_integers :: "(string \<times> pl_dtype) list \<Rightarrow> dtype_error + unit" where
  "refuse_wide_integers schema =
     (case wide_integer_column schema of None \<Rightarrow> Inr () | Some (c, d) \<Rightarrow> Inl (Wide_integer c))"

definition is_string_or_categorical :: "pl_dtype \<Rightarrow> bool" where
  "is_string_or_categorical d \<longleftrightarrow>
     (case d of Class_t n \<Rightarrow> n \<in> {''String'', ''Categorical''} | Categorical_t _ _ _ \<Rightarrow> True | _ \<Rightarrow> False)"

definition integer_names :: "string list" where
  "integer_names = [''Int8'', ''Int16'', ''Int32'', ''Int64'', ''Int128'', ''UInt8'', ''UInt16'',
     ''UInt32'', ''UInt64'', ''UInt128'']"

definition float_names :: "string list" where
  "float_names = [''Float16'', ''Float32'', ''Float64'']"

text \<open>\<open>render\<close> is the text Polars writes for a dtype.\<close>

definition contract_dtype_name :: "(pl_dtype \<Rightarrow> string) \<Rightarrow> string \<Rightarrow> pl_dtype \<Rightarrow> dtype_error + string" where
  "contract_dtype_name render column d =
     (if d = Class_t ''Boolean'' then Inr ''Boolean''
      else if is_string_or_categorical d then Inr ''String''
      else if d \<in> set wide_integer_dtypes then Inl (Wide_integer column)
      else if d \<in> Class_t ` set integer_names then Inr ''Int64''
      else if d \<in> Class_t ` set float_names then Inr ''Float64''
      else Inr (render d))"

lemma refused_schema_contract:
  "refuse_wide_integers schema = Inr () \<Longrightarrow> (c, d) \<in> set schema \<Longrightarrow>
   \<exists>n. contract_dtype_name render c d = Inr n"
  by (force simp: refuse_wide_integers_def wide_integer_column_def contract_dtype_name_def
      wide_integer_dtypes_def find_None_iff split: option.splits prod.splits)

section \<open>Reading back\<close>

lemma dict_of_pairs_distinct: "distinct (map fst ps) \<Longrightarrow> dict_of_pairs ps = ps"
proof -
  have "distinct (map fst (acc @ ps)) \<Longrightarrow> fold (\<lambda>p. AList.update (fst p) (snd p)) ps acc = acc @ ps" for acc
    by (induction ps arbitrary: acc) (auto simp: update_new keys_def)
  from this [of "[]"] show "distinct (map fst ps) \<Longrightarrow> dict_of_pairs ps = ps"
    by (simp add: dict_of_pairs_def)
qed

text \<open>
  The Polars classes that take no arguments, by their own names: what such a class makes is written
  as its name. That the codec's table of aliases reads each name back is proved, not assumed.
\<close>

definition scalar_names :: "string list" where
  "scalar_names = [''Boolean'', ''Date'', ''Time'', ''Null'', ''Binary'', ''String'', ''Object'', ''Unknown'',
     ''Float16'', ''Float32'', ''Float64'', ''Int8'', ''Int16'', ''Int32'', ''Int64'', ''Int128'',
     ''UInt8'', ''UInt16'', ''UInt32'', ''UInt64'', ''UInt128'']"

definition own_class :: "polars_types \<Rightarrow> string \<Rightarrow> bool" where
  "own_class pl n \<longleftrightarrow> n \<in> set scalar_names \<and> is_class pl n \<and> no_argument_instance pl n = Some (Class_t n)"

text \<open>What Polars can hold: an instance is what its own arguments make, and field names differ.\<close>

fun proper_dtype :: "polars_types \<Rightarrow> pl_dtype \<Rightarrow> bool" where
  "proper_dtype pl (Class_t n) = own_class pl n"
| "proper_dtype pl (Datetime_t u z) = (u \<in> set time_unit_names \<and> zone_accepted pl z)"
| "proper_dtype pl (Duration_t u) = (u \<in> set time_unit_names)"
| "proper_dtype pl (Decimal_t p s) = (decimal_of pl p s = Some (p, s))"
| "proper_dtype pl (Enum_t cs) = categories_accepted pl cs"
| "proper_dtype pl (Categorical_t n ns p) =
     (pool_of pl n ns p \<and> (case p of Class_t m \<Rightarrow> own_class pl m | _ \<Rightarrow> False))"
| "proper_dtype pl (List_t d) = proper_dtype pl d"
| "proper_dtype pl (Array_t d n) = proper_dtype pl d"
| "proper_dtype pl (Struct_t fs) = (distinct (map fst fs) \<and> list_all (\<lambda>f. proper_dtype pl (snd f)) fs)"
| "proper_dtype pl _ = False"

fun readable_dtype :: "pl_dtype \<Rightarrow> bool" where
  "readable_dtype (List_t d) = readable_dtype d"
| "readable_dtype (Array_t d n) = (0 < n \<and> readable_dtype d)"
| "readable_dtype (Struct_t fs) = (fs \<noteq> [] \<and> list_all (\<lambda>f. readable_dtype (snd f)) fs)"
| "readable_dtype d = True"

definition reads_as :: "'e + 'a \<Rightarrow> bool \<Rightarrow> 'a \<Rightarrow> bool" where
  "reads_as r ok x \<longleftrightarrow> (if ok then r = Inr x else (\<exists>e. r = Inl e))"

lemma all_texts_names [simp]: "all_texts (map PStr cs) = Some cs"
  by (simp add: all_texts_def list_all_iff o_def)

lemma scalar_names_read:
  "list_all (\<lambda>n. py_strip n = n \<and>
     (case map_of dtype_aliases (map lower_char n) of None \<Rightarrow> True | Some m \<Rightarrow> m = n)) scalar_names"
  by code_simp

lemma scalar_own_class:
  assumes "own_class pl n"
  shows "scalar_dtype pl n = Inr (Class_t n)"
proof -
  have "py_strip n = n \<and> (case map_of dtype_aliases (map lower_char n) of None \<Rightarrow> True | Some m \<Rightarrow> m = n)"
    using scalar_names_read assms by (simp add: list_all_iff own_class_def)
  then show ?thesis using assms by (auto simp: own_class_def scalar_dtype_def Let_def split: option.splits)
qed

lemma check_spec_keys_ok: "set (keys d) \<subseteq> PStr ` set ks \<Longrightarrow> check_spec_keys d ks = Inr ()"
  by (force simp: check_spec_keys_def refuse_if_def filter_empty_conv)

lemma parse_leaf_spec:
  assumes "proper_dtype pl d" "leaf_spec pl d = Inr s" "\<And>n ns p. d \<noteq> Categorical_t n ns p"
  shows "parse_dtype pl s = Inr d"
  using assms
  by (cases d) (auto simp: leaf_spec_def parse_leaf_def check_spec_keys_ok get_or_def dict_has_def
      spec_time_unit_def scalar_own_class)

lemma leaf_spec_some:
  "(\<And>n ns p. d \<noteq> Categorical_t n ns p) \<Longrightarrow> (\<And>e. d \<noteq> List_t e) \<Longrightarrow> (\<And>e n. d \<noteq> Array_t e n) \<Longrightarrow>
   (\<And>fs. d \<noteq> Struct_t fs) \<Longrightarrow> proper_dtype pl d \<Longrightarrow> \<exists>s. leaf_spec pl d = Inr s"
  by (cases d) (auto simp: leaf_spec_def)

lemma parse_list_spec:
  "parse_dtype pl (PDict [(PStr ''type'', PStr ''List''), (PStr ''inner'', s)]) =
   bind_result (parse_dtype pl s) (\<lambda>d. Inr (List_t d))"
  by (simp add: check_spec_keys_ok)

lemma parse_array_spec:
  "parse_dtype pl (PDict [(PStr ''type'', PStr ''Array''), (PStr ''inner'', s), (PStr ''size'', PInt n)]) =
   (if 0 < n then bind_result (parse_dtype pl s) (\<lambda>d. Inr (Array_t d n)) else Inl (Bad_array_size (PInt n)))"
  by (simp add: check_spec_keys_ok dict_has_def get_or_def positive_int_def)

lemma parse_struct_spec:
  "parse_dtype pl (PDict [(PStr ''type'', PStr ''Struct''), (PStr ''fields'', PDict fs)]) =
   (if fs = [] then Inl Bad_struct_fields else bind_result (parse_fields pl fs) (\<lambda>ds. Inr (Struct_t ds)))"
  by (simp add: check_spec_keys_ok)

lemma parse_pool_spec:
  "parse_dtype pl (PDict [(PStr ''type'', PStr ''Categorical''), (PStr ''categories'',
      PDict [(PStr ''name'', n), (PStr ''namespace'', ns), (PStr ''physical'', s)])]) =
   bind_result (parse_dtype pl s) (\<lambda>p. if pool_of pl n ns p then Inr (Categorical_t n ns p) else Inl Pool_refused)"
  by (simp add: check_spec_keys_ok get_or_def Let_def insert_commute)

lemma reads_bind:
  "reads_as r ok x \<Longrightarrow> reads_as (bind_result r (\<lambda>d. Inr (f d))) ok (f x)"
  by (auto simp: reads_as_def)

lemma spec_reads:
  "proper_dtype pl d \<Longrightarrow>
     \<exists>s. dtype_to_spec pl d = Inr s \<and> reads_as (parse_dtype pl s) (readable_dtype d) d"
  "list_all (\<lambda>f. proper_dtype pl (snd f)) fs \<Longrightarrow>
     \<exists>ss. field_specs pl fs = Inr ss \<and> map fst ss = map fst fs \<and>
       reads_as (parse_fields pl ss) (list_all (\<lambda>f. readable_dtype (snd f)) fs) fs"
proof (induction pl d and pl fs rule: dtype_to_spec_field_specs.induct)
  case (1 pl n)
  then have "no_argument_instance pl n = Some (Class_t n)" by (simp add: own_class_def)
  then show ?case using 1 by (simp add: leaf_spec_def scalar_own_class reads_as_def)
next
  case (2 pl d)
  then obtain s where s: "dtype_to_spec pl d = Inr s" "reads_as (parse_dtype pl s) (readable_dtype d) d"
    by auto
  show ?case using s(1) reads_bind [OF s(2), of List_t] by (simp add: parse_list_spec del: parse_dtype.simps)
next
  case (3 pl d n)
  then obtain s where s: "dtype_to_spec pl d = Inr s" "reads_as (parse_dtype pl s) (readable_dtype d) d"
    by auto
  show ?case using s(1) reads_bind [OF s(2), of "\<lambda>d. Array_t d n"]
    by (simp add: parse_array_spec reads_as_def del: parse_dtype.simps)
next
  case (4 pl fs)
  then obtain ss where s: "field_specs pl fs = Inr ss" "map fst ss = map fst fs"
    "reads_as (parse_fields pl ss) (list_all (\<lambda>f. readable_dtype (snd f)) fs) fs" by auto
  have "dict_of_pairs ss = ss" using 4 s(2) by (intro dict_of_pairs_distinct) simp
  moreover have "ss = [] \<longleftrightarrow> fs = []" using s(2) by (metis map_is_Nil_conv)
  ultimately show ?case using s(1) reads_bind [OF s(3), of Struct_t]
    by (simp add: parse_struct_spec reads_as_def del: parse_dtype.simps)
next
  case (5 pl n ns p)
  then obtain m where p: "p = Class_t m" "own_class pl m" "pool_of pl n ns p"
    by (auto split: pl_dtype.splits)
  show ?case
  proof (cases "(n, ns, p) = default_pool pl")
    case True
    then show ?thesis
      by (simp add: leaf_spec_def reads_as_def check_spec_keys_ok split: prod.splits) (metis prod.inject)
  next
    case False
    have "no_argument_instance pl m = Some (Class_t m)" using p(2) by (simp add: own_class_def)
    then have "dtype_to_spec pl p = Inr (PStr m)" by (simp add: p(1) leaf_spec_def)
    moreover have "parse_dtype pl (PStr m) = Inr p" using scalar_own_class [OF p(2)] p(1) by simp
    ultimately show ?thesis using False p(3)
      by (simp add: parse_pool_spec reads_as_def del: parse_dtype.simps)
  qed
next
  case 7
  then show ?case by (simp add: reads_as_def)
next
  case (8 pl name d fs)
  then obtain s ss where s: "dtype_to_spec pl d = Inr s" "reads_as (parse_dtype pl s) (readable_dtype d) d"
    and ss: "field_specs pl fs = Inr ss" "map fst ss = map fst fs"
      "reads_as (parse_fields pl ss) (list_all (\<lambda>f. readable_dtype (snd f)) fs) fs" by auto
  then show ?case by (auto simp: reads_as_def split: if_splits)
qed (use parse_leaf_spec leaf_spec_some in \<open>fastforce simp: reads_as_def\<close>)+

text \<open>
  C37: The dtype codec loses nothing. Take a dtype built of the argument-free Polars classes, of
  decimals, datetimes, durations, enums and categoricals whose arguments Polars takes as they are,
  and of lists, arrays and structs of these with different field names. It has a spec, and the
  spec reads back as the same dtype, every class by the codec's own table of names, however deep
  the nesting. The only exceptions are a struct without fields and an array of width zero, at any
  depth: their specs are written and then refused.
\<close>

theorem dtype_spec_round_trip:
  assumes "proper_dtype pl d"
  shows "\<exists>s. dtype_to_spec pl d = Inr s \<and>
    (if readable_dtype d then parse_dtype pl s = Inr d else (\<exists>e. parse_dtype pl s = Inl e))"
  using spec_reads(1) [OF assms] by (simp add: reads_as_def)

definition sample_polars :: polars_types where
  "sample_polars =
     \<lparr>is_class = (\<lambda>n. n \<in> {''Int64'', ''Float64'', ''String'', ''Boolean'', ''UInt8'', ''UInt32'', ''Int128'', ''Date'', ''Time''}),
      no_argument_instance = (\<lambda>n. if n = ''Datetime'' then Some (Datetime_t ''us'' PNone) else Some (Class_t n)),
      decimal_of = (\<lambda>p s. Some (if p = PNone then PInt 38 else p, s)),
      zone_accepted = (\<lambda>z. z = PNone \<or> z = PStr ''UTC''), categories_accepted = distinct,
      pool_of = (\<lambda>_ _ _. True), default_pool = (PStr [], PStr [], Class_t ''UInt32'')\<rparr>"

definition sample_dtype :: pl_dtype where
  "sample_dtype =
     Struct_t [(PStr ''a'', List_t (Class_t ''Int64'')), (PStr ''t'', Class_t ''Time''),
       (PStr ''b'', Categorical_t (PStr ''pool'') (PStr []) (Class_t ''UInt8'')),
       (PStr ''c'', Array_t (Struct_t [(PStr ''d'', Decimal_t (PInt 38) (PInt 2)),
          (PStr ''e'', Datetime_t ''us'' (PStr ''UTC''))]) 3), (PStr ''f'', Enum_t [''x'', ''y''])]"

lemma dtype_spec_round_trip_witness:
  "(\<exists>s. dtype_to_spec sample_polars sample_dtype = Inr s \<and> parse_dtype sample_polars s = Inr sample_dtype) \<and>
   (\<exists>s e. dtype_to_spec sample_polars (List_t (Struct_t [])) = Inr s \<and> parse_dtype sample_polars s = Inl e)"
proof -
  have "proper_dtype sample_polars sample_dtype" "readable_dtype sample_dtype"
    "proper_dtype sample_polars (List_t (Struct_t []))" "\<not> readable_dtype (List_t (Struct_t []))"
    by code_simp+
  then show ?thesis
    using dtype_spec_round_trip [of sample_polars sample_dtype]
      dtype_spec_round_trip [of sample_polars "List_t (Struct_t [])"] by auto
qed

end
