(* ===== verification/Rating_Types.thy ===== *)
theory Rating_Types
  imports Rating_Config Dtypes
begin

text \<open>
  The types of rating factors: the descriptor a table records for a factor's dtype and the dtype a
  descriptor reads as, \<open>rating_dtype_descriptor\<close> and \<open>rating_dtype_from_descriptor\<close> of
  \<open>haute/_rating.py\<close>. A descriptor is the codec's spec under other key names, for the dtypes a
  factor may have.
\<close>

datatype factor_type_error =
    Unsupported_factor_dtype
  | Invalid_descriptor
  | Predicate_raises rating_error
  | Codec_raises dtype_error

definition parametric_kinds :: "string list" where
  "parametric_kinds = [''Categorical'', ''Datetime'', ''Duration'', ''Decimal'', ''Enum'']"

definition rename_key :: "string \<Rightarrow> string \<Rightarrow> pydict \<Rightarrow> pydict" where
  "rename_key old_name new_name d =
     map (\<lambda>(k, v). (if k = PStr old_name then PStr new_name else k, v)) d"

text \<open>A spec without one is unsupported; any other failure of the codec is its own.\<close>

definition supported_descriptor :: "pv \<Rightarrow> factor_type_error + pv" where
  "supported_descriptor spec =
     (case spec of
        PStr n \<Rightarrow>
          if n \<in> set primitive_kinds then Inr (PDict [(PStr ''kind'', PStr n)]) else Inl Unsupported_factor_dtype
      | PDict d \<Rightarrow>
          if get_or ''type'' PNone d \<in> set (map PStr parametric_kinds)
          then Inr (PDict (rename_key ''type'' ''kind'' d)) else Inl Unsupported_factor_dtype
      | _ \<Rightarrow> Inl Unsupported_factor_dtype)"

definition rating_dtype_descriptor :: "polars_types \<Rightarrow> pl_dtype \<Rightarrow> factor_type_error + pv" where
  "rating_dtype_descriptor pl d =
     (case d of
        Categorical_t _ _ _ \<Rightarrow> Inr (PDict [(PStr ''kind'', PStr ''Categorical'')])
      | _ \<Rightarrow> (case dtype_to_spec pl d of
            Inl (Class_needs_arguments n) \<Rightarrow> Inl (Codec_raises (Class_needs_arguments n))
          | Inl _ \<Rightarrow> Inl Unsupported_factor_dtype
          | Inr spec \<Rightarrow> supported_descriptor spec))"

definition rating_dtype_from_descriptor :: "polars_types \<Rightarrow> pv \<Rightarrow> factor_type_error + pl_dtype" where
  "rating_dtype_from_descriptor pl v =
     bind_result (map_error Predicate_raises (is_rating_dtype_descriptor v)) (\<lambda>ok.
       case v of
         PDict d \<Rightarrow>
           if \<not> ok then Inl Invalid_descriptor
           else let kind = get_or ''kind'' PNone d
             in map_error Codec_raises (parse_dtype pl
                  (if kind \<in> set (map PStr parametric_kinds) then PDict (rename_key ''kind'' ''type'' d) else kind))
       | _ \<Rightarrow> Inl Invalid_descriptor)"

section \<open>Descriptors read back\<close>

fun factor_kind :: "pl_dtype \<Rightarrow> bool" where
  "factor_kind (Class_t n) = (n \<in> set primitive_kinds)"
| "factor_kind (List_t d) = False"
| "factor_kind (Array_t d n) = False"
| "factor_kind (Struct_t fs) = False"
| "factor_kind (Map_t k v) = False"
| "factor_kind Extension_t = False"
| "factor_kind d = True"

text \<open>The arguments Polars gives its instances: a zone is text, a scale an integer, categories differ.\<close>

fun instance_arguments :: "pl_dtype \<Rightarrow> bool" where
  "instance_arguments (Class_t n) = (n \<noteq> ''Categorical'')"
| "instance_arguments (Datetime_t u z) = (z = PNone \<or> is_text z)"
| "instance_arguments (Decimal_t p s) = ((p = PNone \<or> whole_number p) \<and> whole_number s)"
| "instance_arguments (Enum_t cs) = distinct cs"
| "instance_arguments d = True"

definition without_pool :: "polars_types \<Rightarrow> pl_dtype \<Rightarrow> pl_dtype" where
  "without_pool pl d =
     (case d of
        Categorical_t _ _ _ \<Rightarrow> (case default_pool pl of (n, ns, p) \<Rightarrow> Categorical_t n ns p)
      | _ \<Rightarrow> d)"

lemma text_in_names: "text_in (PStr n) ns = Inr (n \<in> set ns)"
  by (auto simp: text_in_def)

lemma text_in_none: "text_in (PStr ''Datetime'') primitive_kinds = Inr False"
  "text_in (PStr ''Duration'') primitive_kinds = Inr False"
  "text_in (PStr ''Decimal'') primitive_kinds = Inr False"
  "text_in (PStr ''Enum'') primitive_kinds = Inr False"
  "text_in (PStr ''Categorical'') primitive_kinds = Inr True"
  by (simp_all add: text_in_def primitive_kinds_def)

lemma primitive_not_parametric:
  "n \<in> set primitive_kinds \<Longrightarrow> n \<noteq> ''Categorical'' \<Longrightarrow> n \<notin> set parametric_kinds"
  by (auto simp: primitive_kinds_def parametric_kinds_def)

definition reads_descriptor :: "polars_types \<Rightarrow> pl_dtype \<Rightarrow> pl_dtype \<Rightarrow> bool" where
  "reads_descriptor pl d d' \<longleftrightarrow> (\<exists>v. rating_dtype_descriptor pl d = Inr v \<and>
     is_rating_dtype_descriptor v = Inr True \<and> rating_dtype_from_descriptor pl v = Inr d')"

lemma reads_class:
  assumes "own_class pl n" "n \<in> set primitive_kinds" "n \<noteq> ''Categorical''"
  shows "reads_descriptor pl (Class_t n) (Class_t n)"
proof -
  let ?v = "PDict [(PStr ''kind'', PStr n)]"
  have "dtype_to_spec pl (Class_t n) = Inr (PStr n)"
    using assms(1) by (simp add: own_class_def leaf_spec_def)
  then have "rating_dtype_descriptor pl (Class_t n) = Inr ?v"
    using assms(2) by (simp add: rating_dtype_descriptor_def supported_descriptor_def)
  moreover have ok: "is_rating_dtype_descriptor ?v = Inr True"
    using assms(2) by (simp add: is_rating_dtype_descriptor_def get_or_def text_in_names names_are_def)
  moreover have "n \<notin> set parametric_kinds" by (rule primitive_not_parametric [OF assms(2,3)])
  then have "rating_dtype_from_descriptor pl ?v = Inr (Class_t n)"
    using ok scalar_own_class [OF assms(1)]
    by (auto simp: rating_dtype_from_descriptor_def get_or_def Let_def map_error_def)
  ultimately show ?thesis unfolding reads_descriptor_def by blast
qed

lemma descriptor_of_spec:
  assumes "\<And>n ns p. d \<noteq> Categorical_t n ns p" "dtype_to_spec pl d = Inr spec"
  shows "rating_dtype_descriptor pl d = supported_descriptor spec"
proof -
  have "\<not> (case d of Categorical_t _ _ _ \<Rightarrow> True | _ \<Rightarrow> False)"
    using assms(1) by (auto split: pl_dtype.splits)
  then show ?thesis using assms(2)
    by (cases d) (simp_all add: rating_dtype_descriptor_def del: dtype_to_spec.simps)
qed

lemma reads_parametric:
  assumes s: "leaf_spec pl d = Inr (PDict sp)" "dtype_to_spec pl d = leaf_spec pl d"
    and kind: "get_or ''type'' PNone sp \<in> set (map PStr parametric_kinds)"
    and ok: "is_rating_dtype_descriptor (PDict (rename_key ''type'' ''kind'' sp)) = Inr True"
    and reverse: "rename_key ''kind'' ''type'' (rename_key ''type'' ''kind'' sp) = sp"
      "get_or ''kind'' PNone (rename_key ''type'' ''kind'' sp) = get_or ''type'' PNone sp"
    and parse: "parse_dtype pl (PDict sp) = Inr d" and no: "\<And>n ns p. d \<noteq> Categorical_t n ns p"
  shows "reads_descriptor pl d d"
proof -
  let ?v = "PDict (rename_key ''type'' ''kind'' sp)"
  have "rating_dtype_descriptor pl d = Inr ?v"
    using descriptor_of_spec [OF no, of pl "PDict sp"] s kind by (simp add: supported_descriptor_def)
  moreover have "rating_dtype_from_descriptor pl ?v = Inr d"
    using ok kind reverse parse by (simp add: rating_dtype_from_descriptor_def Let_def map_error_def)
  ultimately show ?thesis using ok unfolding reads_descriptor_def by blast
qed

lemmas descriptor_simps = leaf_spec_def get_or_def rename_key_def parametric_kinds_def
  is_rating_dtype_descriptor_def text_in_none text_in_names names_are_def Let_def primitive_kinds_def

lemma reads_instances:
  "u \<in> set time_unit_names \<Longrightarrow> zone_accepted pl z \<Longrightarrow> z = PNone \<or> is_text z \<Longrightarrow>
    reads_descriptor pl (Datetime_t u z) (Datetime_t u z)"
  "u \<in> set time_unit_names \<Longrightarrow> reads_descriptor pl (Duration_t u) (Duration_t u)"
  "decimal_of pl p s = Some (p, s) \<Longrightarrow> p = PNone \<or> whole_number p \<Longrightarrow> whole_number s \<Longrightarrow>
    reads_descriptor pl (Decimal_t p s) (Decimal_t p s)"
  "categories_accepted pl cs \<Longrightarrow> distinct cs \<Longrightarrow> reads_descriptor pl (Enum_t cs) (Enum_t cs)"
  subgoal
    by (rule reads_parametric [OF _ _ _ _ _ _ parse_leaf_spec])
      (auto simp: descriptor_simps time_unit_names_def time_units_def)
  subgoal
    by (rule reads_parametric [OF _ _ _ _ _ _ parse_leaf_spec])
      (auto simp: descriptor_simps time_unit_names_def time_units_def)
  subgoal
    by (rule reads_parametric [OF _ _ _ _ _ _ parse_leaf_spec]) (auto simp: descriptor_simps)
  subgoal
    by (rule reads_parametric [OF _ _ _ _ _ _ parse_leaf_spec])
      (auto simp: descriptor_simps is_text_def list_all_iff distinct_map inj_on_def)
  done

lemma reads_categorical: "reads_descriptor pl (Categorical_t n ns p) (without_pool pl (Categorical_t n ns p))"
  by (auto simp: reads_descriptor_def rating_dtype_descriptor_def rating_dtype_from_descriptor_def
      descriptor_simps map_error_def check_spec_keys_ok without_pool_def split: prod.splits)

lemma unsupported_spec:
  assumes "proper_dtype pl d" "\<not> factor_kind d"
  shows "rating_dtype_descriptor pl d = Inl Unsupported_factor_dtype"
proof -
  obtain s where s: "dtype_to_spec pl d = Inr s" using spec_reads(1) [OF assms(1)] by blast
  have no: "d \<noteq> Categorical_t n ns p" for n ns p using assms(2) by auto
  have "supported_descriptor s = Inl Unsupported_factor_dtype"
  proof (cases d)
    case (Class_t n)
    then have "s = PStr n" using s assms(1) by (simp add: own_class_def leaf_spec_def)
    then show ?thesis using assms(2) Class_t by (simp add: supported_descriptor_def)
  qed (use s assms in \<open>auto simp: supported_descriptor_def bind_result_Inr get_or_def parametric_kinds_def\<close>)
  then show ?thesis by (simp add: descriptor_of_spec [OF no s])
qed

text \<open>
  C38: A factor's recorded type is the type. Every argument-free class a factor may have, every
  datetime, duration, decimal and enum with the arguments Polars gives its instances gets a
  descriptor; the config validation accepts it and it reads back as that dtype by the codec's
  table of names. A categorical gets one too, which reads back with the default pool. Any other
  dtype that has a spec is refused as unsupported.
\<close>

theorem rating_descriptor_round_trip:
  assumes "proper_dtype pl d" "instance_arguments d"
  shows "if factor_kind d
    then \<exists>v. rating_dtype_descriptor pl d = Inr v \<and> is_rating_dtype_descriptor v = Inr True \<and>
      rating_dtype_from_descriptor pl v = Inr (without_pool pl d)
    else rating_dtype_descriptor pl d = Inl Unsupported_factor_dtype"
proof (cases "factor_kind d")
  case False
  then show ?thesis using unsupported_spec [OF assms(1)] by simp
next
  case True
  have "reads_descriptor pl d (without_pool pl d)"
  proof (cases d)
    case (Categorical_t n ns p)
    then show ?thesis using reads_categorical by simp
  qed (use True assms reads_class reads_instances in \<open>simp_all add: without_pool_def\<close>)
  then show ?thesis using True by (simp add: reads_descriptor_def)
qed

lemma rating_descriptor_round_trip_witness:
  "(\<exists>v. rating_dtype_descriptor sample_polars (Decimal_t (PInt 9) (PInt 2)) = Inr v \<and>
      rating_dtype_from_descriptor sample_polars v = Inr (Decimal_t (PInt 9) (PInt 2))) \<and>
   rating_dtype_descriptor sample_polars sample_dtype = Inl Unsupported_factor_dtype"
proof -
  let ?d = "Decimal_t (PInt 9) (PInt 2)"
  have "proper_dtype sample_polars ?d" "instance_arguments ?d" "factor_kind ?d"
    "proper_dtype sample_polars sample_dtype" "instance_arguments sample_dtype" "\<not> factor_kind sample_dtype"
    "without_pool sample_polars ?d = ?d"
    by code_simp+
  then show ?thesis
    using rating_descriptor_round_trip [of sample_polars ?d]
      rating_descriptor_round_trip [of sample_polars sample_dtype] by auto
qed

end
