(* ===== verification/Duration_Keys.thy ===== *)
theory Duration_Keys
  imports Py_Text
begin

text \<open>
  The text of a duration as a rating key, \<open>_duration_key_to_physical\<close> of \<open>haute/_rating.py\<close>: an
  ISO-8601 duration of days, hours, minutes and seconds, read as an exact number of the units of a
  column. A pattern match is a deterministic reader, which no group of the pattern makes ambiguous:
  each ends in a letter of its own. Python's limit of 4300 digits for \<open>int\<close> of a text is left out.
  The lemmas show that the reader takes exactly the texts the pattern describes.
\<close>

datatype duration_unit = Milliseconds | Microseconds | Nanoseconds

datatype duration_error = Duration_invalid | Duration_not_exact | Duration_out_of_range

definition units_per_second :: "duration_unit \<Rightarrow> nat" where
  "units_per_second u = (case u of Milliseconds \<Rightarrow> 1000 | Microseconds \<Rightarrow> 1000000 | Nanoseconds \<Rightarrow> 1000000000)"

definition int64_min :: int where
  "int64_min = - (2 ^ 63)"

definition int64_max_excl :: int where
  "int64_max_excl = 2 ^ 63"

text \<open>The groups of a match; \<open>has_time\<close> says whether the letter \<open>T\<close> is there.\<close>

record duration_match =
  is_negative :: bool
  days_group :: "string option"
  has_time :: bool
  hours_group :: "string option"
  minutes_group :: "string option"
  seconds_group :: "(string \<times> string option) option"

section \<open>Reading\<close>

definition read_count :: "char \<Rightarrow> string \<Rightarrow> string option \<times> string" where
  "read_count letter s =
     (let ds = takeWhile is_digit s
      in case dropWhile is_digit s of
          [] \<Rightarrow> (None, s)
        | c # rest \<Rightarrow> if ds \<noteq> [] \<and> c = letter then (Some ds, rest) else (None, s))"

definition read_duration_seconds :: "string \<Rightarrow> (string \<times> string option) option \<times> string" where
  "read_duration_seconds s =
     (let ds = takeWhile is_digit s
      in if ds = [] then (None, s)
         else case dropWhile is_digit s of
             [] \<Rightarrow> (None, s)
           | c # rest \<Rightarrow>
               if c = CHR ''S'' then (Some (ds, None), rest)
               else if c \<noteq> CHR ''.'' then (None, s)
               else (let fs = takeWhile is_digit rest
                     in case dropWhile is_digit rest of
                         [] \<Rightarrow> (None, s)
                       | e # rest' \<Rightarrow>
                           if fs \<noteq> [] \<and> e = CHR ''S'' then (Some (ds, Some fs), rest') else (None, s)))"

definition match_time :: "bool \<Rightarrow> string option \<Rightarrow> string \<Rightarrow> duration_match option" where
  "match_time neg days s =
     (let (h, s1) = read_count (CHR ''H'') s; (m, s2) = read_count (CHR ''M'') s1;
          (sec, s3) = read_duration_seconds s2
      in if s3 \<noteq> [] then None
         else Some \<lparr>is_negative = neg, days_group = days, has_time = True, hours_group = h,
                minutes_group = m, seconds_group = sec\<rparr>)"

definition match_unsigned :: "bool \<Rightarrow> string \<Rightarrow> duration_match option" where
  "match_unsigned neg s =
     (case s of
        [] \<Rightarrow> None
      | p # r \<Rightarrow>
          if p \<noteq> CHR ''P'' then None
          else (let (days, r1) = read_count (CHR ''D'') r
                in case r1 of
                    [] \<Rightarrow> Some \<lparr>is_negative = neg, days_group = days, has_time = False,
                        hours_group = None, minutes_group = None, seconds_group = None\<rparr>
                  | t # r2 \<Rightarrow> if t = CHR ''T'' then match_time neg days r2 else None))"

definition match_duration :: "string \<Rightarrow> duration_match option" where
  "match_duration s =
     (case s of [] \<Rightarrow> None | c # r \<Rightarrow> if c = CHR ''-'' then match_unsigned True r else match_unsigned False s)"

section \<open>The value of a match\<close>

definition digits_nat :: "string \<Rightarrow> nat" where
  "digits_nat s = foldl (\<lambda>a c. a * 10 + the (digit_of c)) 0 s"

definition count_value :: "string option \<Rightarrow> nat" where
  "count_value g = (case g of None \<Rightarrow> 0 | Some ds \<Rightarrow> digits_nat ds)"

definition seconds_value :: "(string \<times> string option) option \<Rightarrow> rat" where
  "seconds_value g =
     (case g of
        None \<Rightarrow> 0
      | Some (ds, None) \<Rightarrow> of_nat (digits_nat ds)
      | Some (ds, Some fs) \<Rightarrow> of_nat (digits_nat ds) + of_nat (digits_nat fs) / of_nat (10 ^ length fs))"

definition duration_seconds :: "duration_match \<Rightarrow> rat" where
  "duration_seconds m =
     of_nat (count_value (days_group m) * 86400 + count_value (hours_group m) * 3600 +
       count_value (minutes_group m) * 60) + seconds_value (seconds_group m)"

definition some_group :: "duration_match \<Rightarrow> bool" where
  "some_group m \<longleftrightarrow> days_group m \<noteq> None \<or> hours_group m \<noteq> None \<or> minutes_group m \<noteq> None \<or>
     seconds_group m \<noteq> None"

definition duration_key_to_physical :: "string \<Rightarrow> duration_unit \<Rightarrow> duration_error + int" where
  "duration_key_to_physical text unit =
     (case match_duration text of
        None \<Rightarrow> Inl Duration_invalid
      | Some m \<Rightarrow>
          if \<not> some_group m then Inl Duration_invalid
          else let (n, d) = quotient_of (duration_seconds m * of_nat (units_per_second unit))
            in if d \<noteq> 1 then Inl Duration_not_exact
               else let result = (if is_negative m then - n else n)
                 in if \<not> (int64_min \<le> result \<and> result < int64_max_excl) then Inl Duration_out_of_range
                    else Inr result)"

section \<open>The texts of the pattern\<close>

definition count_text :: "char \<Rightarrow> string option \<Rightarrow> string" where
  "count_text letter g = (case g of None \<Rightarrow> [] | Some ds \<Rightarrow> ds @ [letter])"

definition seconds_text :: "(string \<times> string option) option \<Rightarrow> string" where
  "seconds_text g =
     (case g of None \<Rightarrow> [] | Some (ds, None) \<Rightarrow> ds @ ''S'' | Some (ds, Some fs) \<Rightarrow> ds @ CHR ''.'' # fs @ ''S'')"

definition duration_text :: "duration_match \<Rightarrow> string" where
  "duration_text m =
     (if is_negative m then ''-'' else []) @ ''P'' @ count_text (CHR ''D'') (days_group m) @
     (if has_time m
      then ''T'' @ count_text (CHR ''H'') (hours_group m) @ count_text (CHR ''M'') (minutes_group m) @
        seconds_text (seconds_group m)
      else [])"

definition digits :: "string \<Rightarrow> bool" where
  "digits s \<longleftrightarrow> s \<noteq> [] \<and> list_all is_digit s"

definition good_count :: "string option \<Rightarrow> bool" where
  "good_count g \<longleftrightarrow> (case g of None \<Rightarrow> True | Some ds \<Rightarrow> digits ds)"

definition good_seconds :: "(string \<times> string option) option \<Rightarrow> bool" where
  "good_seconds g \<longleftrightarrow> (case g of None \<Rightarrow> True | Some (ds, f) \<Rightarrow> digits ds \<and> good_count f)"

text \<open>The groups are numerals, and those after the letter \<open>T\<close> only come with it.\<close>

definition good_match :: "duration_match \<Rightarrow> bool" where
  "good_match m \<longleftrightarrow> good_count (days_group m) \<and> good_count (hours_group m) \<and> good_count (minutes_group m) \<and>
     good_seconds (seconds_group m) \<and>
     (has_time m \<or> (hours_group m = None \<and> minutes_group m = None \<and> seconds_group m = None))"

lemma letter_not_digit:
  "\<not> is_digit (CHR ''H'')" "\<not> is_digit (CHR ''M'')" "\<not> is_digit (CHR ''S'')" "\<not> is_digit (CHR ''D'')"
  "\<not> is_digit (CHR ''T'')" "\<not> is_digit (CHR ''.'')" "\<not> is_digit (CHR ''-'')" "\<not> is_digit (CHR ''P'')"
  by (simp_all add: is_digit_def digit_of_def)

lemma take_digits:
  "list_all is_digit ds \<Longrightarrow> \<not> is_digit c \<Longrightarrow>
   takeWhile is_digit (ds @ c # r) = ds \<and> dropWhile is_digit (ds @ c # r) = c # r"
  by (induction ds) auto

lemma digit_span:
  obtains ds rest where "s = ds @ rest" "list_all is_digit ds" "takeWhile is_digit s = ds"
    "dropWhile is_digit s = rest"
proof
  show "s = takeWhile is_digit s @ dropWhile is_digit s" by simp
  show "list_all is_digit (takeWhile is_digit s)" by (auto simp: list_all_iff dest: set_takeWhileD)
qed simp_all

lemma read_count_text:
  assumes "good_count g" "\<not> is_digit letter"
    "g = None \<longrightarrow> (case dropWhile is_digit r of [] \<Rightarrow> True | c # r' \<Rightarrow> c \<noteq> letter)"
  shows "read_count letter (count_text letter g @ r) = (g, r)"
proof (cases g)
  case None
  then show ?thesis using assms(3)
    by (cases "dropWhile is_digit r") (auto simp: count_text_def read_count_def Let_def simp del: dropWhile_eq_Nil_conv)
next
  case (Some ds)
  then show ?thesis using assms(1,2) take_digits [of ds letter r]
    by (simp add: count_text_def read_count_def good_count_def digits_def)
qed

lemma read_count_split:
  assumes "read_count letter s = (g, r)"
  shows "s = count_text letter g @ r \<and> good_count g"
proof -
  obtain ds rest where s: "s = ds @ rest" "list_all is_digit ds" "takeWhile is_digit s = ds"
    "dropWhile is_digit s = rest" by (rule digit_span)
  show ?thesis
    using assms unfolding read_count_def s(3,4) using s(1,2)
    by (auto simp: count_text_def good_count_def digits_def Let_def split: list.splits if_splits)
qed

lemma read_seconds_split:
  assumes "read_duration_seconds s = (g, r)"
  shows "s = seconds_text g @ r \<and> good_seconds g"
proof -
  obtain ds rest where s: "s = ds @ rest" "list_all is_digit ds" "takeWhile is_digit s = ds"
    "dropWhile is_digit s = rest" by (rule digit_span)
  show ?thesis
  proof (cases "ds \<noteq> [] \<and> (\<exists>rest'. rest = CHR ''.'' # rest')")
    case False
    then show ?thesis
      using assms unfolding read_duration_seconds_def s(3,4) using s(1,2)
      by (auto simp: seconds_text_def good_seconds_def good_count_def digits_def Let_def
          split: list.splits if_splits)
  next
    case True
    then obtain t where t: "rest = CHR ''.'' # t" by blast
    obtain fs ends where f: "t = fs @ ends" "list_all is_digit fs" "takeWhile is_digit t = fs"
      "dropWhile is_digit t = ends" by (rule digit_span)
    show ?thesis
      using assms True unfolding read_duration_seconds_def s(3,4) t using s(1,2) t f
      by (auto simp: seconds_text_def good_seconds_def good_count_def digits_def Let_def
          split: list.splits if_splits)
  qed
qed

lemma read_seconds_text:
  assumes "good_seconds g"
  shows "read_duration_seconds (seconds_text g) = (g, [])"
proof (cases g)
  case (Some p)
  obtain ds f where p: "p = (ds, f)" by (cases p)
  show ?thesis
  proof (cases f)
    case None
    then show ?thesis using assms Some p take_digits [of ds "CHR ''S''" "[]"]
      by (simp add: seconds_text_def read_duration_seconds_def good_seconds_def digits_def letter_not_digit)
  next
    case (Some fs)
    then show ?thesis using assms \<open>g = Some p\<close> p take_digits [of ds "CHR ''.''" "fs @ ''S''"]
        take_digits [of fs "CHR ''S''" "[]"]
      by (simp add: seconds_text_def read_duration_seconds_def good_seconds_def good_count_def digits_def
          letter_not_digit)
  qed
qed (simp add: seconds_text_def read_duration_seconds_def)

text \<open>What follows a group that is absent does not end in its letter.\<close>

definition next_letter :: "string \<Rightarrow> char option" where
  "next_letter s = (case dropWhile is_digit s of [] \<Rightarrow> None | c # r \<Rightarrow> Some c)"

lemma next_letter_count:
  "good_count g \<Longrightarrow> \<not> is_digit letter \<Longrightarrow>
   next_letter (count_text letter g @ r) = (case g of None \<Rightarrow> next_letter r | Some ds \<Rightarrow> Some letter)"
  using take_digits
  by (auto simp: next_letter_def count_text_def good_count_def digits_def split: option.splits)

lemma next_letter_seconds:
  "good_seconds g \<Longrightarrow> next_letter (seconds_text g) \<in> {None, Some (CHR ''S''), Some (CHR ''.'')}"
  using take_digits letter_not_digit
  by (auto simp: next_letter_def seconds_text_def good_seconds_def digits_def split: option.splits)

lemma read_count_next:
  assumes "good_count g" "\<not> is_digit letter" "g = None \<longrightarrow> next_letter r \<noteq> Some letter"
  shows "read_count letter (count_text letter g @ r) = (g, r)"
  using assms by (intro read_count_text) (auto simp: next_letter_def simp del: dropWhile_eq_Nil_conv split: list.splits)

section \<open>The reader is the pattern\<close>

lemma match_time_text:
  assumes "good_count h" "good_count m" "good_seconds sec"
  shows "match_time neg days (count_text (CHR ''H'') h @ count_text (CHR ''M'') m @ seconds_text sec) =
    Some \<lparr>is_negative = neg, days_group = days, has_time = True, hours_group = h, minutes_group = m,
      seconds_group = sec\<rparr>"
proof -
  let ?r = "count_text (CHR ''M'') m @ seconds_text sec"
  have n: "next_letter (seconds_text sec) \<in> {None, Some (CHR ''S''), Some (CHR ''.'')}"
    by (rule next_letter_seconds [OF assms(3)])
  then have "read_count (CHR ''M'') ?r = (m, seconds_text sec)"
    using assms(2) letter_not_digit by (intro read_count_next) auto
  moreover have "next_letter ?r \<noteq> Some (CHR ''H'')"
    using n next_letter_count [OF assms(2), of "CHR ''M''"] letter_not_digit
    by (auto split: option.splits)
  then have "read_count (CHR ''H'') (count_text (CHR ''H'') h @ ?r) = (h, ?r)"
    using assms(1) letter_not_digit by (intro read_count_next) auto
  ultimately show ?thesis using read_seconds_text [OF assms(3)] by (simp add: match_time_def)
qed

lemma match_unsigned_text:
  assumes "good_match m"
  shows "match_unsigned (is_negative m) (duration_text (m\<lparr>is_negative := False\<rparr>)) = Some m"
proof -
  let ?t = "if has_time m then ''T'' @ count_text (CHR ''H'') (hours_group m) @
      count_text (CHR ''M'') (minutes_group m) @ seconds_text (seconds_group m) else []"
  have "next_letter ?t \<noteq> Some (CHR ''D'')"
    using letter_not_digit by (auto simp: next_letter_def)
  then have d: "read_count (CHR ''D'') (count_text (CHR ''D'') (days_group m) @ ?t) = (days_group m, ?t)"
    using assms letter_not_digit by (intro read_count_next) (auto simp: good_match_def)
  have shape: "duration_text (m\<lparr>is_negative := False\<rparr>) = CHR ''P'' # count_text (CHR ''D'') (days_group m) @ ?t"
    by (simp add: duration_text_def)
  show ?thesis
  proof (cases "has_time m")
    case True
    then show ?thesis
      using d match_time_text [of "hours_group m" "minutes_group m" "seconds_group m"] assms
      unfolding shape by (simp add: match_unsigned_def good_match_def)
  next
    case False
    then show ?thesis using d assms unfolding shape by (simp add: match_unsigned_def good_match_def)
  qed
qed

lemma match_duration_text:
  assumes "good_match m"
  shows "match_duration (duration_text m) = Some m"
proof -
  have "duration_text m = (if is_negative m then ''-'' else []) @ duration_text (m\<lparr>is_negative := False\<rparr>)"
    "\<exists>r. duration_text (m\<lparr>is_negative := False\<rparr>) = CHR ''P'' # r"
    by (simp_all add: duration_text_def)
  then show ?thesis using match_unsigned_text [OF assms] by (auto simp: match_duration_def)
qed

lemma match_time_Some:
  assumes "match_time neg days s = Some m"
  shows "is_negative m = neg \<and> days_group m = days \<and> has_time m \<and> good_count (hours_group m) \<and>
    good_count (minutes_group m) \<and> good_seconds (seconds_group m) \<and>
    s = count_text (CHR ''H'') (hours_group m) @ count_text (CHR ''M'') (minutes_group m) @
      seconds_text (seconds_group m)"
proof -
  obtain h s1 mi s2 sec s3 where r: "read_count (CHR ''H'') s = (h, s1)" "read_count (CHR ''M'') s1 = (mi, s2)"
    "read_duration_seconds s2 = (sec, s3)" by (metis surj_pair)
  have "s3 = []" "m = \<lparr>is_negative = neg, days_group = days, has_time = True, hours_group = h,
      minutes_group = mi, seconds_group = sec\<rparr>"
    using assms by (simp_all add: match_time_def r split: if_splits)
  then show ?thesis
    using read_count_split [OF r(1)] read_count_split [OF r(2)] read_seconds_split [OF r(3)] by simp
qed

lemma match_unsigned_Some:
  assumes "match_unsigned neg s = Some m"
  shows "good_match m \<and> is_negative m = neg \<and> s = duration_text (m\<lparr>is_negative := False\<rparr>)"
proof -
  obtain r where s: "s = CHR ''P'' # r"
    using assms by (auto simp: match_unsigned_def split: list.splits if_splits)
  obtain days r1 where r: "read_count (CHR ''D'') r = (days, r1)" by (metis surj_pair)
  show ?thesis
  proof (cases r1)
    case Nil
    then show ?thesis using assms r s read_count_split [OF r]
      by (auto simp: match_unsigned_def good_match_def duration_text_def good_count_def good_seconds_def)
  next
    case (Cons t r2)
    then have t: "t = CHR ''T''" "match_time neg days r2 = Some m"
      using assms r s by (auto simp: match_unsigned_def split: if_splits)
    show ?thesis using match_time_Some [OF t(2)] read_count_split [OF r] Cons t(1) s
      by (auto simp: good_match_def duration_text_def)
  qed
qed

lemma match_duration_Some: "match_duration s = Some m \<longleftrightarrow> good_match m \<and> s = duration_text m"
proof
  assume "match_duration s = Some m"
  then obtain neg r where r: "match_unsigned neg r = Some m" "s = (if neg then ''-'' else []) @ r"
    by (auto simp: match_duration_def split: list.splits if_splits)
  show "good_match m \<and> s = duration_text m"
    using match_unsigned_Some [OF r(1)] r(2) by (auto simp: duration_text_def)
qed (use match_duration_text in blast)

section \<open>Exact values\<close>

lemma quotient_of_whole: "snd (quotient_of r) = 1 \<longleftrightarrow> r = of_int (fst (quotient_of r))"
proof
  assume "snd (quotient_of r) = 1"
  then show "r = of_int (fst (quotient_of r))"
    using quotient_of_div [of r "fst (quotient_of r)" 1] by (simp add: prod_eq_iff)
next
  assume "r = of_int (fst (quotient_of r))"
  then obtain k where "r = of_int k" by blast
  then show "snd (quotient_of r) = 1" by (simp add: quotient_of_int)
qed

text \<open>
  A duration key is read exactly or not at all. The result is a number exactly for a text of the
  pattern, with a sign, days, hours, minutes and seconds of which one is there, whose signed length in
  seconds is that number of the column's units, with no rounding however many decimals the seconds have,
  and fits a 64-bit integer.
\<close>

theorem duration_key_exact:
  "duration_key_to_physical text unit = Inr n \<longleftrightarrow>
   (\<exists>m. good_match m \<and> some_group m \<and> text = duration_text m \<and>
      of_int n = (if is_negative m then -1 else 1) * duration_seconds m * of_nat (units_per_second unit) \<and>
      - (2 ^ 63) \<le> n \<and> n < 2 ^ 63)"
proof -
  have q: "(let (k, d) = quotient_of r in if d \<noteq> 1 then Inl Duration_not_exact
        else let result = (if neg then - k else k)
          in if \<not> (int64_min \<le> result \<and> result < int64_max_excl) then Inl Duration_out_of_range
             else Inr result) = Inr n \<longleftrightarrow>
      of_int n = (if neg then -1 else 1) * r \<and> - (2 ^ 63) \<le> n \<and> n < 2 ^ 63" for r neg
  proof (cases "snd (quotient_of r) = 1")
    case True
    then have r: "r = of_int (fst (quotient_of r))" by (simp add: quotient_of_whole)
    have "of_int n = (if neg then -1 else 1) * r \<longleftrightarrow>
        n = (if neg then - fst (quotient_of r) else fst (quotient_of r))"
      by (subst r) (auto simp del: of_int_minus simp: of_int_minus [symmetric])
    then show ?thesis using True by (auto simp: case_prod_beta Let_def int64_min_def int64_max_excl_def)
  next
    case False
    have "of_int n \<noteq> (if neg then -1 else 1) * r"
    proof
      assume "of_int n = (if neg then -1 else 1) * r"
      then have "r = of_int (if neg then - n else n)" by (auto split: if_splits)
      then obtain k where "r = of_int k" by blast
      then show False using False by (simp add: quotient_of_int)
    qed
    then show ?thesis using False by (simp add: case_prod_beta)
  qed
  show ?thesis
  proof (cases "match_duration text")
    case None
    then have "\<nexists>m. good_match m \<and> text = duration_text m" using match_duration_Some [of "text"] by auto
    then show ?thesis using None by (auto simp: duration_key_to_physical_def)
  next
    case (Some m)
    have m: "good_match m" "text = duration_text m"
      using match_duration_Some [of "text" m] Some by simp_all
    have only: "m' = m" if "good_match m'" "text = duration_text m'" for m'
      using match_duration_Some [of "text" m'] Some that by simp
    have "duration_key_to_physical text unit = Inr n \<longleftrightarrow> some_group m \<and>
        of_int n = (if is_negative m then -1 else 1) * (duration_seconds m * of_nat (units_per_second unit)) \<and>
        - (2 ^ 63) \<le> n \<and> n < 2 ^ 63"
      using Some q [of "duration_seconds m * of_nat (units_per_second unit)" "is_negative m"]
      by (simp add: duration_key_to_physical_def)
    then have r: "duration_key_to_physical text unit = Inr n \<longleftrightarrow> some_group m \<and>
        of_int n = (if is_negative m then -1 else 1) * duration_seconds m * of_nat (units_per_second unit) \<and>
        - (2 ^ 63) \<le> n \<and> n < 2 ^ 63" by (simp only: mult.assoc)
    show ?thesis
    proof
      assume "duration_key_to_physical text unit = Inr n"
      then show "\<exists>m. good_match m \<and> some_group m \<and> text = duration_text m \<and>
          of_int n = (if is_negative m then -1 else 1) * duration_seconds m * of_nat (units_per_second unit) \<and>
          - (2 ^ 63) \<le> n \<and> n < 2 ^ 63"
        using r m by (intro exI [of _ m]) simp
    next
      assume "\<exists>m. good_match m \<and> some_group m \<and> text = duration_text m \<and>
          of_int n = (if is_negative m then -1 else 1) * duration_seconds m * of_nat (units_per_second unit) \<and>
          - (2 ^ 63) \<le> n \<and> n < 2 ^ 63"
      then obtain m' where m': "good_match m'" "some_group m'" "text = duration_text m'"
        "of_int n = (if is_negative m' then -1 else 1) * duration_seconds m' * of_nat (units_per_second unit)"
        "- (2 ^ 63) \<le> n \<and> n < 2 ^ 63" by blast
      show "duration_key_to_physical text unit = Inr n"
        using r m'(2,4,5) unfolding only [OF m'(1,3)] by blast
    qed
  qed
qed

end
