(* ===== verification/Rating.thy ===== *)
theory Rating
  imports Rating_Types Duration_Keys
begin

text \<open>
  A rating table's lookup, \<open>rating_table_lookup\<close> of \<open>haute/_rating.py\<close> and what it calls: the checks
  of a table against a frame's schema, the conversion of its levels to the types of the factors, the
  canonical keys both sides of the join are matched by, and the skip reason of an incomplete table.

  Polars is not part of the repository. \<open>engine\<close> holds what the code asks of it: reading entries
  into columns, strict conversions and the text of a value. The expressions the code builds for a key
  are the datatype \<open>key_expr\<close>, and \<open>eval_key\<close> is their documented meaning on a cell, with missing
  values; a strict conversion that fails is \<open>None\<close>.
\<close>

datatype lookup_error =
    Table_factors_not_a_list
  | Table_entries_not_a_list
  | Entries_without_factors
  | Unknown_on_missing string
  | Unhashable_factor
  | Factor_column_absent pv
  | Unsupported_factor string
  | Factor_type_raises
  | Entries_unreadable
  | Value_refused
  | Entries_not_finite nat
  | Entries_null nat
  | Columns_twice
  | Duration_key_refused duration_error
  | Level_refused string
  | Levels_twice nat
  | Key_type_unsupported factor_type_error

section \<open>Cells and the engine\<close>

datatype 'v rcell =
    Missing
  | Number pyfloat
  | Whole int
  | Truth bool
  | Written string
  | Typed 'v

type_synonym 'v rrow = "string \<Rightarrow> 'v rcell"

text \<open>The conversions of \<open>_coerce_rating_lookup_expr\<close>, and of a parsed duration.\<close>

datatype coercion =
    Null_column
  | Replace_truth
  | Strip_to_date
  | To_time
  | To_datetime string pv
  | Physical_to string
  | Cast_to pl_dtype

record 'v engine =
  read_entries :: "pv list \<Rightarrow> ((string \<times> pl_dtype) list \<times> 'v rrow list) option"
  series_of :: "pv \<Rightarrow> pl_dtype \<times> 'v rcell"
  to_float :: "'v rcell \<Rightarrow> 'v rcell option"
  convert :: "coercion \<Rightarrow> 'v rcell \<Rightarrow> 'v rcell option"
  text_of :: "'v rcell \<Rightarrow> string"
  iso_of :: "'v rcell \<Rightarrow> string"
  round_float :: "pyfloat \<Rightarrow> pyfloat"

definition string_type :: pl_dtype where
  "string_type = Class_t ''String''"

definition float_types :: "pl_dtype list" where
  "float_types = [Class_t ''Float32'', Class_t ''Float64'']"

definition coerce_rating_lookup :: "pl_dtype \<Rightarrow> pl_dtype \<Rightarrow> coercion" where
  "coerce_rating_lookup source target =
     (if target = Class_t ''Null'' then Null_column
      else if target = Class_t ''Boolean'' \<and> source = string_type then Replace_truth
      else if target = Class_t ''Date'' \<and> source = string_type then Strip_to_date
      else if target = Class_t ''Time'' \<and> source = string_type then To_time
      else case target of
          Datetime_t u z \<Rightarrow> if source = string_type then To_datetime u z else Cast_to target
        | _ \<Rightarrow> Cast_to target)"

section \<open>Keys\<close>

datatype key_expr =
    Key_column
  | Is_finite key_expr
  | Round_of key_expr
  | Same key_expr key_expr
  | At_least key_expr int
  | Below key_expr int
  | Both key_expr key_expr
  | Cast_int key_expr
  | Cast_text key_expr
  | Iso_text key_expr
  | Choose key_expr key_expr key_expr

definition iso_type :: "pl_dtype \<Rightarrow> bool" where
  "iso_type d \<longleftrightarrow> (case d of Class_t n \<Rightarrow> n = ''Time'' | Duration_t u \<Rightarrow> True | _ \<Rightarrow> False)"

definition rating_key_expr :: "pl_dtype \<Rightarrow> key_expr" where
  "rating_key_expr d =
     (if d \<in> set float_types
      then Choose (Both (Both (Both (Is_finite Key_column) (Same Key_column (Round_of Key_column)))
               (At_least Key_column int64_min)) (Below Key_column int64_max_excl))
             (Cast_text (Cast_int Key_column)) (Cast_text Key_column)
      else if iso_type d then Iso_text Key_column
      else Cast_text Key_column)"

text \<open>A cast to an integer drops the fraction and is missing out of the 64-bit range.\<close>

definition cast_int :: "'v rcell \<Rightarrow> 'v rcell" where
  "cast_int c =
     (case c of
        Number (Fin q) \<Rightarrow>
          let i = (if 0 \<le> q then \<lfloor>q\<rfloor> else \<lceil>q\<rceil>)
          in if int64_min \<le> i \<and> i < int64_max_excl then Whole i else Missing
      | _ \<Rightarrow> Missing)"

definition cast_text :: "'v engine \<Rightarrow> 'v rcell \<Rightarrow> 'v rcell" where
  "cast_text eng c =
     (case c of Missing \<Rightarrow> Missing | Whole i \<Rightarrow> Written (show_int i) | _ \<Rightarrow> Written (text_of eng c))"

definition iso_text :: "'v engine \<Rightarrow> 'v rcell \<Rightarrow> 'v rcell" where
  "iso_text eng c = (case c of Missing \<Rightarrow> Missing | _ \<Rightarrow> Written (iso_of eng c))"

text \<open>Comparisons order not-a-number above every number; with a missing side they are missing.\<close>

definition compare_float :: "(rat \<Rightarrow> bool) \<Rightarrow> bool \<Rightarrow> 'v rcell \<Rightarrow> 'v rcell" where
  "compare_float finite_case high c =
     (case c of
        Number x \<Rightarrow> Truth (case x of Fin q \<Rightarrow> finite_case q | Pos_inf \<Rightarrow> high | Neg_inf \<Rightarrow> \<not> high | Nan \<Rightarrow> high)
      | _ \<Rightarrow> Missing)"

fun both_cells :: "'v rcell \<Rightarrow> 'v rcell \<Rightarrow> 'v rcell" where
  "both_cells (Truth a) (Truth b) = Truth (a \<and> b)"
| "both_cells (Truth False) _ = Truth False"
| "both_cells _ (Truth False) = Truth False"
| "both_cells _ _ = Missing"

fun eval_key :: "'v engine \<Rightarrow> key_expr \<Rightarrow> 'v rcell \<Rightarrow> 'v rcell" where
  "eval_key eng Key_column c = c"
| "eval_key eng (Is_finite e) c =
     (case eval_key eng e c of
        Number x \<Rightarrow> Truth (case x of Fin q \<Rightarrow> True | _ \<Rightarrow> False) | _ \<Rightarrow> Missing)"
| "eval_key eng (Round_of e) c =
     (case eval_key eng e c of Number x \<Rightarrow> Number (round_float eng x) | _ \<Rightarrow> Missing)"
| "eval_key eng (Same e e') c =
     (case (eval_key eng e c, eval_key eng e' c) of
        (Number x, Number y) \<Rightarrow> Truth (x = y) | _ \<Rightarrow> Missing)"
| "eval_key eng (At_least e i) c = compare_float (\<lambda>q. of_int i \<le> q) True (eval_key eng e c)"
| "eval_key eng (Below e i) c = compare_float (\<lambda>q. q < of_int i) False (eval_key eng e c)"
| "eval_key eng (Both e e') c = both_cells (eval_key eng e c) (eval_key eng e' c)"
| "eval_key eng (Cast_int e) c = cast_int (eval_key eng e c)"
| "eval_key eng (Cast_text e) c = cast_text eng (eval_key eng e c)"
| "eval_key eng (Iso_text e) c = iso_text eng (eval_key eng e c)"
| "eval_key eng (Choose p a b) c =
     (if eval_key eng p c = Truth True then eval_key eng a c else eval_key eng b c)"

section \<open>Durations among the levels\<close>

definition unit_named :: "string \<Rightarrow> duration_unit" where
  "unit_named u = (if u = ''ms'' then Milliseconds else if u = ''us'' then Microseconds else Nanoseconds)"

text \<open>\<open>_duration_key_series\<close> on one key: a null stays one, a text is parsed and taken as its dtype.\<close>

definition duration_cell :: "'v engine \<Rightarrow> string \<Rightarrow> 'v rcell \<Rightarrow> lookup_error + 'v rcell" where
  "duration_cell eng u c =
     (case c of
        Written s \<Rightarrow>
          bind_result (map_error Duration_key_refused (duration_key_to_physical s (unit_named u))) (\<lambda>n.
            case convert eng (Physical_to u) (Whole n) of None \<Rightarrow> Inl (Level_refused u) | Some x \<Rightarrow> Inr x)
      | _ \<Rightarrow> Inr Missing)"

definition parses_durations :: "pl_dtype \<Rightarrow> pl_dtype \<Rightarrow> bool" where
  "parses_durations source target \<longleftrightarrow>
     (case target of Duration_t u \<Rightarrow> source = string_type | _ \<Rightarrow> False)"

definition duration_column :: "'v engine \<Rightarrow> pl_dtype \<Rightarrow> pl_dtype \<Rightarrow> 'v rcell list \<Rightarrow>
    lookup_error + 'v rcell list" where
  "duration_column eng source target cells =
     (case target of
        Duration_t u \<Rightarrow> if source = string_type then map_result (duration_cell eng u) cells else Inr cells
      | _ \<Rightarrow> Inr cells)"

text \<open>The dtype a factor column has once its durations are parsed.\<close>

definition parsed_type :: "pl_dtype \<Rightarrow> pl_dtype \<Rightarrow> pl_dtype" where
  "parsed_type source target = (if parses_durations source target then target else source)"

definition coerce_cell :: "'v engine \<Rightarrow> string \<Rightarrow> coercion \<Rightarrow> 'v rcell \<Rightarrow> lookup_error + 'v rcell" where
  "coerce_cell eng f e c =
     (if e = Null_column then Inr Missing
      else case convert eng e c of None \<Rightarrow> Inl (Level_refused f) | Some x \<Rightarrow> Inr x)"

definition coerce_column :: "'v engine \<Rightarrow> string \<Rightarrow> pl_dtype \<Rightarrow> pl_dtype \<Rightarrow> 'v rcell list \<Rightarrow>
    lookup_error + 'v rcell list" where
  "coerce_column eng f source target cells =
     map_result (coerce_cell eng f (coerce_rating_lookup (parsed_type source target) target)) cells"

section \<open>The scalar mirror\<close>

text \<open>
  \<open>normalise_rating_key\<close>: the same key for one value, step by step on a series of one element.
\<close>

definition int_like :: "'v engine \<Rightarrow> 'v rcell \<Rightarrow> bool" where
  "int_like eng c \<longleftrightarrow>
     (case c of
        Number (Fin q) \<Rightarrow>
          Fin q = round_float eng (Fin q) \<and> of_int int64_min \<le> q \<and> q < of_int int64_max_excl
      | _ \<Rightarrow> False)"

definition typed_scalar :: "'v engine \<Rightarrow> pv \<Rightarrow> pl_dtype \<Rightarrow> lookup_error + 'v rcell" where
  "typed_scalar eng v dtype =
     (let (source, raw) = series_of eng v
      in if dtype = Class_t ''Null'' then Inr Missing
         else case dtype of
             Duration_t u \<Rightarrow>
               if source = string_type then duration_cell eng u raw
               else coerce_cell eng [] (Cast_to dtype) raw
           | _ \<Rightarrow> coerce_cell eng [] (coerce_rating_lookup source dtype) raw)"

definition normalise_rating_key :: "'v engine \<Rightarrow> polars_types \<Rightarrow> pv \<Rightarrow> pl_dtype \<Rightarrow>
    lookup_error + 'v rcell" where
  "normalise_rating_key eng pl v dtype =
     bind_result (map_error Key_type_unsupported (rating_dtype_descriptor pl dtype)) (\<lambda>_.
     bind_result (typed_scalar eng v dtype) (\<lambda>typed.
       Inr (if dtype \<in> set float_types
            then (if typed = Missing then Missing
                  else if int_like eng typed then cast_text eng (cast_int typed) else cast_text eng typed)
            else if iso_type dtype then iso_text eng typed
            else cast_text eng typed)))"

section \<open>Internal names\<close>

text \<open>The name is lengthened until it is free, which ends as only finitely many names are taken.\<close>

function fresh_name :: "string list \<Rightarrow> string \<Rightarrow> string" where
  "fresh_name occupied candidate =
     (if candidate \<in> set occupied then fresh_name occupied (CHR ''_'' # candidate) else candidate)"
  by pat_completeness auto
termination
proof (relation "measure (\<lambda>(occ, c). card {n \<in> set occ. length c \<le> length n})")
  fix occ :: "string list" and c assume "c \<in> set occ"
  then have "{n \<in> set occ. Suc (length c) \<le> length n} \<subset> {n \<in> set occ. length c \<le> length n}"
    (is "?A \<subset> ?B")
  proof -
    have "c \<in> ?B" "c \<notin> ?A" "?A \<subseteq> ?B" using \<open>c \<in> set occ\<close> by auto
    then show ?thesis by blast
  qed
  then have "card {n \<in> set occ. Suc (length c) \<le> length n} < card {n \<in> set occ. length c \<le> length n}"
    by (intro psubset_card_mono) simp_all
  then show "((occ, CHR ''_'' # c), (occ, c)) \<in> measure (\<lambda>(occ, c). card {n \<in> set occ. length c \<le> length n})"
    by simp
qed simp

declare fresh_name.simps [simp del]

lemma fresh_name_free: "fresh_name occupied c \<notin> set occupied"
proof (induction occupied c rule: fresh_name.induct)
  case (1 occupied c)
  then show ?case by (cases "c \<in> set occupied") (simp_all add: fresh_name.simps [of occupied c])
qed

text \<open>\<open>_rating_internal_column\<close> in turn for several stems, each name then taken.\<close>

fun internal_columns :: "string list \<Rightarrow> string list \<Rightarrow> string list" where
  "internal_columns occupied [] = []"
| "internal_columns occupied (stem # stems) =
     (let c = fresh_name occupied stem in c # internal_columns (c # occupied) stems)"

lemma internal_columns_fresh:
  "set (internal_columns occupied stems) \<inter> set occupied = {} \<and>
   distinct (internal_columns occupied stems) \<and> length (internal_columns occupied stems) = length stems"
proof (induction stems arbitrary: occupied)
  case (Cons stem stems)
  let ?c = "fresh_name occupied stem"
  show ?case using Cons.IH [of "?c # occupied"] fresh_name_free [of occupied stem]
    by (auto simp: Let_def)
qed simp

section \<open>The lookup\<close>

definition list_setting :: "string \<Rightarrow> lookup_error \<Rightarrow> pydict \<Rightarrow> lookup_error + pv list" where
  "list_setting k e table =
     (case get_or k PNone table of PNone \<Rightarrow> Inr [] | PList vs \<Rightarrow> Inr vs | _ \<Rightarrow> Inl e)"

definition normalise_on_missing :: "(pv \<Rightarrow> string) \<Rightarrow> pv \<Rightarrow> lookup_error + string" where
  "normalise_on_missing other v =
     (if v = PNone then Inr ''error''
      else let s = py_strip (py_str other v)
        in if s = [] then Inr ''error''
           else if s \<notin> {''error'', ''neutral''} then Inl (Unknown_on_missing s) else Inr s)"

fun check_factor_columns :: "(string \<times> pl_dtype) list \<Rightarrow> pv list \<Rightarrow> lookup_error + string list" where
  "check_factor_columns schema [] = Inr []"
| "check_factor_columns schema (v # vs) =
     (if unhashable v then Inl Unhashable_factor
      else case v of
          PStr f \<Rightarrow>
            if f \<notin> set (keys schema) then Inl (Factor_column_absent v)
            else bind_result (check_factor_columns schema vs) (\<lambda>fs. Inr (f # fs))
        | _ \<Rightarrow> Inl (Factor_column_absent v))"

definition entry_columns :: "pv list \<Rightarrow> pv list" where
  "entry_columns entries = concat (map (\<lambda>e. case e of PDict d \<Rightarrow> keys d | _ \<Rightarrow> []) entries)"

definition columns_ready :: "pv list \<Rightarrow> pv list \<Rightarrow> bool" where
  "columns_ready factors entries \<longleftrightarrow>
     PStr rate_key \<in> set (entry_columns entries) \<and> set factors \<subseteq> set (entry_columns entries)"

definition has_default :: "(pv \<Rightarrow> string) \<Rightarrow> pv \<Rightarrow> bool" where
  "has_default other v \<longleftrightarrow> v \<noteq> PNone \<and> py_strip (py_str other v) \<noteq> []"

definition usable_default :: "(pv \<Rightarrow> string) \<Rightarrow> (string \<Rightarrow> pyfloat option) \<Rightarrow> pv \<Rightarrow> rat option" where
  "usable_default other read_float v =
     (if has_default other v
      then (case read_float (py_str other v) of Some (Fin q) \<Rightarrow> Some q | _ \<Rightarrow> None) else None)"

text \<open>The dtype of a factor; each was found in the schema.\<close>

definition factor_type :: "(string \<times> pl_dtype) list \<Rightarrow> string \<Rightarrow> pl_dtype" where
  "factor_type schema f = (case map_of schema f of Some d \<Rightarrow> d | None \<Rightarrow> Extension_t)"

fun check_factor_types :: "polars_types \<Rightarrow> (string \<times> pl_dtype) list \<Rightarrow> string list \<Rightarrow>
    lookup_error + unit" where
  "check_factor_types pl schema [] = Inr ()"
| "check_factor_types pl schema (f # fs) =
     (case rating_dtype_descriptor pl (factor_type schema f) of
        Inr d \<Rightarrow> check_factor_types pl schema fs
      | Inl Unsupported_factor_dtype \<Rightarrow> Inl (Unsupported_factor f)
      | Inl _ \<Rightarrow> Inl Factor_type_raises)"

definition rate_cell :: "'v engine \<Rightarrow> 'v rrow \<Rightarrow> lookup_error + 'v rcell" where
  "rate_cell eng r = (case to_float eng (r rate_key) of None \<Rightarrow> Inl Value_refused | Some c \<Rightarrow> Inr c)"

definition not_finite :: "'v rcell \<Rightarrow> bool" where
  "not_finite c \<longleftrightarrow> (case c of Number (Fin q) \<Rightarrow> False | Number _ \<Rightarrow> True | _ \<Rightarrow> False)"

definition finite_value :: "'v rcell \<Rightarrow> rat" where
  "finite_value c = (case c of Number (Fin q) \<Rightarrow> q | _ \<Rightarrow> 0)"

text \<open>The rates, of which none may be missing or not finite.\<close>

definition entry_rates :: "'v engine \<Rightarrow> 'v rrow list \<Rightarrow> lookup_error + rat list" where
  "entry_rates eng rows =
     bind_result (map_result (rate_cell eng) rows) (\<lambda>cells.
       let bad = length (filter not_finite cells); nulls = length (filter (\<lambda>c. c = Missing) cells)
       in if bad \<noteq> 0 then Inl (Entries_not_finite bad)
          else if nulls \<noteq> 0 then Inl (Entries_null nulls)
          else Inr (map finite_value cells))"

text \<open>The levels of every factor in its frame dtype: durations first, then every column converted.\<close>

definition level_columns :: "'v engine \<Rightarrow> (string \<Rightarrow> pl_dtype) \<Rightarrow> (string \<times> pl_dtype) list \<Rightarrow>
    string list \<Rightarrow> 'v rrow list \<Rightarrow> lookup_error + 'v rcell list list" where
  "level_columns eng target entry_schema factors rows =
     bind_result (map_result (\<lambda>f. duration_column eng (factor_type entry_schema f) (target f)
         (map (\<lambda>r. r f) rows)) factors) (\<lambda>columns.
       map_result (\<lambda>(f, cells). coerce_column eng f (factor_type entry_schema f) (target f) cells)
         (zip factors columns))"

definition key_cell :: "'v engine \<Rightarrow> pl_dtype \<Rightarrow> 'v rcell \<Rightarrow> 'v rcell" where
  "key_cell eng d c = eval_key eng (rating_key_expr d) c"

definition entry_keys :: "'v engine \<Rightarrow> (string \<Rightarrow> pl_dtype) \<Rightarrow> string list \<Rightarrow> 'v rcell list list \<Rightarrow> nat \<Rightarrow>
    'v rcell list list" where
  "entry_keys eng target factors columns n =
     map (\<lambda>i. map (\<lambda>(f, cells). key_cell eng (target f) (cells ! i)) (zip factors columns)) [0..<n]"

text \<open>The canonical key columns and rates of the entries, without two entries of one key.\<close>

definition keyed_entries :: "'v engine \<Rightarrow> (string \<Rightarrow> pl_dtype) \<Rightarrow> pv list \<Rightarrow> string list \<Rightarrow>
    lookup_error + ('v rcell list \<times> rat) list" where
  "keyed_entries eng target entries factors =
     (case read_entries eng entries of
        None \<Rightarrow> Inl Entries_unreadable
      | Some (entry_schema, rows) \<Rightarrow>
          bind_result (entry_rates eng rows) (\<lambda>rates.
            if \<not> distinct (factors @ [rate_key]) then Inl Columns_twice
            else bind_result (level_columns eng target entry_schema factors rows) (\<lambda>columns.
              let ks = entry_keys eng target factors columns (length rows);
                  twice = length (filter (\<lambda>k. 1 < count_list ks k) ks)
              in if twice \<noteq> 0 then Inl (Levels_twice twice) else Inr (zip ks rates))))"

record 'v rating_lookup =
  lookup_factors :: "string list"
  lookup_output :: pv
  lookup_types :: "string \<Rightarrow> pl_dtype"
  lookup_key_columns :: "string list"
  lookup_value_column :: string
  lookup_entries :: "('v rcell list \<times> rat) list"
  lookup_default :: "rat option"
  lookup_default_ignored :: bool
  lookup_on_missing :: string

definition texts_of :: "pv list \<Rightarrow> string list" where
  "texts_of vs = List.map_filter (\<lambda>v. case v of PStr s \<Rightarrow> Some s | _ \<Rightarrow> None) vs"

definition key_stem :: "nat \<Rightarrow> string" where
  "key_stem i = ''__haute_rating_key_'' @ show_nat i @ ''__''"

definition lookup_val :: string where
  "lookup_val = ''__haute_lookup_val__''"

definition internal_names :: "(string \<times> pl_dtype) list \<Rightarrow> pv list \<Rightarrow> pv \<Rightarrow> nat \<Rightarrow> string list" where
  "internal_names schema entries output n =
     internal_columns (keys schema @ texts_of (entry_columns entries) @ texts_of [output])
       (map key_stem [0..<n] @ [lookup_val])"

definition rating_table_lookup :: "'v engine \<Rightarrow> polars_types \<Rightarrow> (pv \<Rightarrow> string) \<Rightarrow>
    (string \<Rightarrow> pyfloat option) \<Rightarrow> pydict \<Rightarrow> (string \<times> pl_dtype) list \<Rightarrow>
    lookup_error + 'v rating_lookup option" where
  "rating_table_lookup eng pl other read_float table schema =
     bind_result (list_setting ''factors'' Table_factors_not_a_list table) (\<lambda>factors.
     bind_result (list_setting ''entries'' Table_entries_not_a_list table) (\<lambda>entries.
       if entries \<noteq> [] \<and> factors = [] then Inl Entries_without_factors
       else let output = get_or ''output_column'' (PStr []) table;
                dflt = get_or ''default_value'' PNone table
         in bind_result (normalise_on_missing other (get_or ''on_missing'' PNone table)) (\<lambda>on_missing.
              if factors = [] \<or> \<not> py_truthy output then Inr None
              else bind_result (check_factor_columns schema factors) (\<lambda>fs.
                if entries = [] \<or> \<not> columns_ready factors entries then Inr None
                else bind_result (check_factor_types pl schema fs) (\<lambda>_.
                     bind_result (keyed_entries eng (factor_type schema) entries fs) (\<lambda>keyed.
                       let names = internal_names schema entries output (length fs)
                       in Inr (Some
                            \<lparr>lookup_factors = fs, lookup_output = output, lookup_types = factor_type schema,
                             lookup_key_columns = butlast names, lookup_value_column = last names,
                             lookup_entries = keyed,
                             lookup_default = usable_default other read_float dflt,
                             lookup_default_ignored =
                               (has_default other dflt \<and> usable_default other read_float dflt = None),
                             lookup_on_missing = on_missing\<rparr>)))))))"

section \<open>Incomplete tables\<close>

datatype skip_reason = No_factors | No_entries | No_output_column | No_value_key | Factors_in_no_entry "pv list"

definition items_or_none :: "string \<Rightarrow> pydict \<Rightarrow> pv list" where
  "items_or_none k table = (case get_or k (PList []) table of PList vs \<Rightarrow> vs | _ \<Rightarrow> [])"

definition rating_table_skip_reason :: "pydict \<Rightarrow> skip_reason option" where
  "rating_table_skip_reason table =
     (let factors = items_or_none ''factors'' table; entries = items_or_none ''entries'' table;
          columns = entry_columns entries; absent = filter (\<lambda>f. f \<notin> set columns) factors
      in if factors = [] then Some No_factors
         else if entries = [] then Some No_entries
         else if \<not> py_truthy (get_or ''output_column'' (PStr []) table) then Some No_output_column
         else if PStr rate_key \<notin> set columns then Some No_value_key
         else if absent \<noteq> [] then Some (Factors_in_no_entry absent)
         else None)"

definition rating_table_materialises :: "pydict \<Rightarrow> bool" where
  "rating_table_materialises table \<longleftrightarrow> rating_table_skip_reason table = None"

section \<open>The save check\<close>

text \<open>
  \<open>refuse_levels_equal_under_factor_dtypes\<close>: a table whose factors all have a recorded type is looked
  up against a frame of exactly these types, and only entries of one level are refused.
\<close>

definition recorded_schema :: "polars_types \<Rightarrow> pydict \<Rightarrow> string list \<Rightarrow>
    factor_type_error + (string \<times> pl_dtype) list" where
  "recorded_schema pl dtypes factors =
     map_result (\<lambda>f. bind_result (rating_dtype_from_descriptor pl (get_or f PNone dtypes)) (\<lambda>d. Inr (f, d))) factors"

fun all_recorded :: "pydict \<Rightarrow> pv list \<Rightarrow> lookup_error + bool" where
  "all_recorded dtypes [] = Inr True"
| "all_recorded dtypes (v # vs) =
     (if unhashable v then Inl Unhashable_factor
      else if v \<notin> set (keys dtypes) then Inr False else all_recorded dtypes vs)"

definition table_levels_differ :: "'v engine \<Rightarrow> polars_types \<Rightarrow> (pv \<Rightarrow> string) \<Rightarrow>
    (string \<Rightarrow> pyfloat option) \<Rightarrow> pydict \<Rightarrow> lookup_error + unit" where
  "table_levels_differ eng pl other read_float table =
     (case (get_or ''factor_dtypes'' PNone table, get_or ''factors'' PNone table) of
        (PDict dtypes, PList factors) \<Rightarrow>
          if factors = [] then Inr ()
          else bind_result (all_recorded dtypes factors) (\<lambda>recorded.
            if \<not> recorded then Inr ()
            else (case recorded_schema pl dtypes (texts_of factors) of
              Inl _ \<Rightarrow> Inr ()
            | Inr schema \<Rightarrow>
                (case rating_table_lookup eng pl other read_float table schema of
                   Inl (Levels_twice n) \<Rightarrow> Inl (Levels_twice n) | _ \<Rightarrow> Inr ())))
      | _ \<Rightarrow> Inr ())"

fun refuse_levels_equal :: "'v engine \<Rightarrow> polars_types \<Rightarrow> (pv \<Rightarrow> string) \<Rightarrow>
    (string \<Rightarrow> pyfloat option) \<Rightarrow> pv list \<Rightarrow> lookup_error + unit" where
  "refuse_levels_equal eng pl other read_float [] = Inr ()"
| "refuse_levels_equal eng pl other read_float (v # vs) =
     bind_result (case v of PDict t \<Rightarrow> table_levels_differ eng pl other read_float t | _ \<Rightarrow> Inr ())
       (\<lambda>_. refuse_levels_equal eng pl other read_float vs)"

section \<open>Lemmas\<close>

lemma check_factor_columns_Inr:
  "check_factor_columns schema vs = Inr fs \<Longrightarrow> vs = map PStr fs \<and> set fs \<subseteq> set (keys schema)"
proof (induction vs arbitrary: fs)
  case (Cons v vs)
  then obtain f where "v = PStr f" by (cases v) (auto split: if_splits)
  then show ?case using Cons by (auto simp: bind_result_Inr split: if_splits)
qed simp

lemma check_factor_columns_names:
  "set fs \<subseteq> set (keys schema) \<Longrightarrow> check_factor_columns schema (map PStr fs) = Inr fs"
  by (induction fs) auto

lemma list_setting_Inr: "list_setting k e t = Inr vs \<Longrightarrow> items_or_none k t = vs"
  by (auto simp: list_setting_def items_or_none_def get_or_def split: pyval.splits option.splits)

lemma map_result_cong:
  "(\<And>x. x \<in> set xs \<Longrightarrow> f x = g x) \<Longrightarrow> map_result f xs = map_result g xs"
  by (induction xs) (auto split: sum.splits)

lemma keyed_entries_cong:
  assumes "\<And>f. f \<in> set fs \<Longrightarrow> target f = target' f"
  shows "keyed_entries eng target entries fs = keyed_entries eng target' entries fs"
proof -
  have cols: "level_columns eng target sch fs rows = level_columns eng target' sch fs rows" for sch rows
  proof -
    have "map_result (\<lambda>f. duration_column eng (factor_type sch f) (target f) (map (\<lambda>r. r f) rows)) fs =
        map_result (\<lambda>f. duration_column eng (factor_type sch f) (target' f) (map (\<lambda>r. r f) rows)) fs"
      by (rule map_result_cong) (simp add: assms)
    moreover have "map_result (\<lambda>(f, cells). coerce_column eng f (factor_type sch f) (target f) cells) (zip fs cs) =
        map_result (\<lambda>(f, cells). coerce_column eng f (factor_type sch f) (target' f) cells) (zip fs cs)" for cs
      by (rule map_result_cong) (auto simp: assms dest: set_zip_leftD)
    ultimately show ?thesis by (simp add: level_columns_def)
  qed
  have ks: "entry_keys eng target fs cs n = entry_keys eng target' fs cs n" for cs n
    using assms by (auto simp: entry_keys_def dest: set_zip_leftD)
  show ?thesis unfolding keyed_entries_def cols ks by (rule refl)
qed

lemma check_factor_types_cong:
  "(\<And>f. f \<in> set fs \<Longrightarrow> factor_type schema f = factor_type schema' f) \<Longrightarrow>
   check_factor_types pl schema fs = check_factor_types pl schema' fs"
  by (induction fs) (simp_all split: sum.split factor_type_error.split)

lemma all_recorded_names: "all_recorded dtypes (map PStr fs) = Inr (PStr ` set fs \<subseteq> set (keys dtypes))"
  by (induction fs) auto

lemma texts_of_names [simp]: "texts_of (map PStr fs) = fs"
  by (simp add: texts_of_def map_filter_simps(1) comp_def List.map_filter_def)

lemma recorded_schema_Inr:
  "(\<And>f. f \<in> set fs \<Longrightarrow> rating_dtype_from_descriptor pl (get_or f PNone dtypes) = Inr (ty f)) \<Longrightarrow>
   recorded_schema pl dtypes fs = Inr (map (\<lambda>f. (f, ty f)) fs)"
  unfolding recorded_schema_def by (rule map_result_map) simp

lemma lookup_twice_cong:
  assumes "get_or ''factors'' PNone t = PList (map PStr fs)"
    "set fs \<subseteq> set (keys schema)" "set fs \<subseteq> set (keys schema')"
    "\<And>f. f \<in> set fs \<Longrightarrow> factor_type schema f = factor_type schema' f"
    "rating_table_lookup eng pl other read_float t schema = Inl (Levels_twice n)"
  shows "rating_table_lookup eng pl other read_float t schema' = Inl (Levels_twice n)"
proof -
  have f: "list_setting ''factors'' Table_factors_not_a_list t = Inr (map PStr fs)"
    using assms(1) by (simp add: list_setting_def)
  note c = check_factor_columns_names [OF assms(2)] check_factor_columns_names [OF assms(3)]
  have k: "check_factor_types pl schema fs = check_factor_types pl schema' fs"
    "keyed_entries eng (factor_type schema) es fs = keyed_entries eng (factor_type schema') es fs" for es
    by (rule check_factor_types_cong keyed_entries_cong, erule assms(4))+
  show ?thesis
    using assms(5) by (auto simp: rating_table_lookup_def f c k Let_def bind_result_def
        split: sum.splits if_splits)
qed

lemma passes_through_iff:
  assumes "rating_table_lookup eng pl other read_float table schema = Inr b"
  shows "b = None \<longleftrightarrow> \<not> rating_table_materialises table"
proof -
  obtain factors entries on_missing where
    f: "list_setting ''factors'' Table_factors_not_a_list table = Inr factors"
    and e: "list_setting ''entries'' Table_entries_not_a_list table = Inr entries"
    and m: "normalise_on_missing other (get_or ''on_missing'' PNone table) = Inr on_missing"
    and empty: "\<not> (entries \<noteq> [] \<and> factors = [])"
    using assms by (auto simp: rating_table_lookup_def bind_result_Inr Let_def split: if_splits)
  note items = list_setting_Inr [OF f] list_setting_Inr [OF e]
  let ?out = "py_truthy (get_or ''output_column'' (PStr []) table)"
  have "b = None \<longleftrightarrow> factors = [] \<or> \<not> ?out \<or> entries = [] \<or> \<not> columns_ready factors entries"
    using assms f e m empty
    by (auto simp: rating_table_lookup_def bind_result_Inr Let_def split: if_splits)
  then show ?thesis
    by (auto simp: rating_table_materialises_def rating_table_skip_reason_def Let_def items columns_ready_def
        filter_empty_conv split: if_splits)
qed

section \<open>Properties of lookups\<close>

text \<open>
  The two answers about an incomplete table agree. When the lookup of a table raises nothing,
  execution passes the table through exactly when there is a skip reason for it, so a column is
  counted as written exactly when it is.
\<close>

theorem skip_reason_agrees:
  assumes "rating_table_lookup eng pl other read_float table schema = Inr b"
  shows "b = None \<longleftrightarrow> \<not> rating_table_materialises table"
  by (rule passes_through_iff [OF assms])

text \<open>
  A saved table stays readable. A table that passes the save's check on the types it records
  for its factors is never refused for two entries of one level by a run whose frame has these types
  in the factors' columns, whatever other columns the frame has.
\<close>

theorem saved_levels_differ:
  assumes "table_levels_differ eng pl other read_float table = Inr ()"
    "get_or ''factor_dtypes'' PNone table = PDict dtypes"
    "get_or ''factors'' PNone table = PList (map PStr fs)"
    "list_all (\<lambda>f. dict_has f dtypes \<and>
       rating_dtype_from_descriptor pl (get_or f PNone dtypes) = Inr (ty f) \<and> map_of schema f = Some (ty f)) fs"
  shows "rating_table_lookup eng pl other read_float table schema \<noteq> Inl (Levels_twice n)"
proof (cases "fs = []")
  case True
  then show ?thesis using assms(3)
    by (auto simp: rating_table_lookup_def list_setting_def bind_result_def Let_def normalise_on_missing_def
        split: sum.splits if_splits pyval.splits)
next
  case False
  let ?rec = "map (\<lambda>f. (f, ty f)) fs"
  have each: "dict_has f dtypes" "rating_dtype_from_descriptor pl (get_or f PNone dtypes) = Inr (ty f)"
    "map_of schema f = Some (ty f)" if "f \<in> set fs" for f
    using assms(4) that by (auto simp: list_all_iff)
  have "all_recorded dtypes (map PStr fs) = Inr True"
    using each(1) by (auto simp: all_recorded_names dict_has_def map_of_None_keys)
  then have "rating_table_lookup eng pl other read_float table ?rec \<noteq> Inl (Levels_twice n)" for n
    using assms(1) False by (auto simp: table_levels_differ_def assms(2,3) recorded_schema_Inr [OF each(2)]
        split: sum.splits lookup_error.splits)
  moreover have "map_of ?rec f = Some (ty f)" if "f \<in> set fs" for f
    using that by (simp add: map_of_map_restrict)
  then have "factor_type schema f = factor_type ?rec f" if "f \<in> set fs" for f
    using that each(3) by (simp add: factor_type_def)
  moreover have "set fs \<subseteq> set (keys schema)" "set fs \<subseteq> set (keys ?rec)"
    using map_of_SomeD_keys [OF each(3)] by (blast, simp add: keys_def o_def)
  ultimately show ?thesis using lookup_twice_cong [OF assms(3), of schema ?rec] by blast
qed

section \<open>The mirror agrees\<close>

lemma key_cell_scalar:
  assumes "d \<in> set float_types \<Longrightarrow> c = Missing \<or> (\<exists>x. c = Number x)"
  shows "key_cell eng d c =
    (if d \<in> set float_types
     then (if c = Missing then Missing
           else if int_like eng c then cast_text eng (cast_int c) else cast_text eng c)
     else if iso_type d then iso_text eng c else cast_text eng c)"
proof (cases "d \<in> set float_types")
  case True
  then consider "c = Missing" | q where "c = Number (Fin q)" | x where "c = Number x" "\<And>q. x \<noteq> Fin q"
    using assms by (metis pyfloat.exhaust)
  then show ?thesis
  proof cases
    case 1
    then show ?thesis using True by (simp add: key_cell_def rating_key_expr_def cast_text_def compare_float_def cast_int_def)
  next
    case 2
    then show ?thesis using True
      by (auto simp: key_cell_def rating_key_expr_def int_like_def compare_float_def split: pyfloat.split)
  next
    case 3
    then have "(case x of Fin q \<Rightarrow> True | _ \<Rightarrow> False) = False" by (cases x) auto
    moreover have "both_cells (Truth False) z = Truth False" for z :: "'a rcell" by (cases z) auto
    ultimately show ?thesis using True 3
      by (cases x) (simp_all add: key_cell_def rating_key_expr_def int_like_def)
  qed
qed (simp add: key_cell_def rating_key_expr_def)

text \<open>The path of one entry's level through the lookup.\<close>

definition lookup_key :: "'v engine \<Rightarrow> string \<Rightarrow> pl_dtype \<Rightarrow> pl_dtype \<Rightarrow> 'v rcell \<Rightarrow>
    lookup_error + 'v rcell list" where
  "lookup_key eng f source d raw =
     bind_result (duration_column eng source d [raw]) (\<lambda>cs.
     bind_result (coerce_column eng f source d cs) (\<lambda>cs. Inr (map (key_cell eng d) cs)))"

lemma coerce_cell_Inr:
  "coerce_cell eng f e c = Inr x \<longleftrightarrow> (if e = Null_column then x = Missing else convert eng e c = Some x)"
  by (auto simp: coerce_cell_def split: option.splits)

lemma coerce_plain:
  "coerce_rating_lookup s (Duration_t u) = Cast_to (Duration_t u)"
  "coerce_rating_lookup s d = Null_column \<longleftrightarrow> d = Class_t ''Null''"
  "d \<in> set float_types \<Longrightarrow> coerce_rating_lookup s d = Cast_to d"
  by (auto simp: coerce_rating_lookup_def float_types_def split: pl_dtype.splits)

lemma lookup_key_Inr:
  "lookup_key eng f source d raw = Inr [k] \<longleftrightarrow>
   (\<exists>c c'. duration_column eng source d [raw] = Inr [c] \<and>
      coerce_cell eng f (coerce_rating_lookup (parsed_type source d) d) c = Inr c' \<and> k = key_cell eng d c')"
  by (auto simp: lookup_key_def bind_result_Inr coerce_column_def duration_column_def split: sum.splits
      pl_dtype.splits if_splits)

lemma typed_scalar_lookup:
  assumes s: "series_of eng v = (source, raw)"
    and dur: "\<And>u c. d = Duration_t u \<Longrightarrow> duration_cell eng u raw = Inr c \<Longrightarrow> convert eng (Cast_to d) c = Some c"
  shows "typed_scalar eng v d = Inr c' \<longleftrightarrow>
    (\<exists>c. duration_column eng source d [raw] = Inr [c] \<and>
       coerce_cell eng f (coerce_rating_lookup (parsed_type source d) d) c = Inr c')"
proof (cases "\<exists>u. d = Duration_t u")
  case False
  then have "duration_column eng source d [raw] = Inr [raw]" "parsed_type source d = source"
    by (auto simp: duration_column_def parsed_type_def parses_durations_def split: pl_dtype.split)
  then show ?thesis using False s
    by (cases d) (auto simp: typed_scalar_def coerce_cell_Inr coerce_plain)
next
  case True
  then obtain u where d: "d = Duration_t u" by blast
  show ?thesis
  proof (cases "source = string_type")
    case True
    then show ?thesis using s dur d
      by (auto simp: typed_scalar_def duration_column_def parsed_type_def parses_durations_def coerce_plain
          coerce_cell_Inr split: sum.splits)
  next
    case False
    then show ?thesis using s d
      by (auto simp: typed_scalar_def duration_column_def parsed_type_def parses_durations_def coerce_plain
          coerce_cell_Inr)
  qed
qed

text \<open>
  The scalar mirror agrees with the engine's keys. For a factor of a supported type, a value has
  a canonical key exactly when a lookup entry with that value converts, and the key is the one the
  lookup joins by. Assumed of the engine: a conversion to a float column gives a float or nothing, and
  a duration converted to its own type stays what it is.
\<close>

theorem rating_key_mirror:
  assumes "series_of eng v = (source, raw)" "rating_dtype_descriptor pl d = Inr desc"
    "\<And>c. d \<in> set float_types \<Longrightarrow> convert eng (Cast_to d) raw = Some c \<Longrightarrow> c = Missing \<or> (\<exists>x. c = Number x)"
    "\<And>u c. d = Duration_t u \<Longrightarrow> duration_cell eng u raw = Inr c \<Longrightarrow> convert eng (Cast_to d) c = Some c"
  shows "normalise_rating_key eng pl v d = Inr k \<longleftrightarrow> lookup_key eng f source d raw = Inr [k]"
proof -
  have key: "(if d \<in> set float_types
      then (if c = Missing then Missing
            else if int_like eng c then cast_text eng (cast_int c) else cast_text eng c)
      else if iso_type d then iso_text eng c else cast_text eng c) = key_cell eng d c"
    if "typed_scalar eng v d = Inr c" for c
  proof (rule key_cell_scalar [symmetric])
    assume f: "d \<in> set float_types"
    then have "duration_column eng source d [raw] = Inr [raw]" "d \<noteq> Class_t ''Null''"
      by (auto simp: duration_column_def float_types_def)
    then have "convert eng (Cast_to d) raw = Some c"
      using that typed_scalar_lookup [OF assms(1,4), where c' = c and f = f] f by (simp add: coerce_plain coerce_cell_Inr)
    then show "c = Missing \<or> (\<exists>x. c = Number x)" using assms(3) f by blast
  qed
  have "normalise_rating_key eng pl v d = Inr k \<longleftrightarrow>
      (\<exists>c. typed_scalar eng v d = Inr c \<and> k = key_cell eng d c)"
  proof (cases "typed_scalar eng v d")
    case (Inl e)
    then show ?thesis by (simp add: normalise_rating_key_def assms(2) map_error_def)
  next
    case (Inr c)
    have "normalise_rating_key eng pl v d = Inr (key_cell eng d c)"
      unfolding normalise_rating_key_def assms(2) Inr map_error_def sum.case bind_result_simps
      by (simp only: key [OF Inr])
    then show ?thesis using Inr by auto
  qed
  moreover have "typed_scalar eng v d = Inr c' \<longleftrightarrow>
      (\<exists>c. duration_column eng source d [raw] = Inr [c] \<and>
         coerce_cell eng f (coerce_rating_lookup (parsed_type source d) d) c = Inr c')" for c'
    by (rule typed_scalar_lookup [OF assms(1,4)])
  ultimately show ?thesis unfolding lookup_key_Inr by blast
qed

section \<open>An engine to compute with\<close>

definition pv_cell :: "pv \<Rightarrow> unit rcell" where
  "pv_cell v = (case v of PInt i \<Rightarrow> Whole i | PFloat x \<Rightarrow> Number x | PStr s \<Rightarrow> Written s | PBool b \<Rightarrow> Truth b
     | _ \<Rightarrow> Missing)"

definition pv_type :: "pv \<Rightarrow> pl_dtype" where
  "pv_type v = (case v of PInt i \<Rightarrow> Class_t ''Int64'' | PFloat x \<Rightarrow> Class_t ''Float64''
     | PStr s \<Rightarrow> string_type | PBool b \<Rightarrow> Class_t ''Boolean'' | _ \<Rightarrow> Class_t ''Null'')"

definition sample_float :: "unit rcell \<Rightarrow> unit rcell option" where
  "sample_float c =
     (case c of Missing \<Rightarrow> Some Missing | Number x \<Rightarrow> Some (Number x)
      | Whole i \<Rightarrow> Some (Number (Fin (of_int i)))
      | Written s \<Rightarrow> map_option (\<lambda>i. Number (Fin (of_int i))) (py_int s) | _ \<Rightarrow> None)"

definition sample_convert :: "coercion \<Rightarrow> unit rcell \<Rightarrow> unit rcell option" where
  "sample_convert e c =
     (case e of
        Cast_to d \<Rightarrow>
          if d \<in> set float_types then sample_float c
          else if d = Class_t ''Int64''
          then (case c of Written s \<Rightarrow> map_option Whole (py_int s) | _ \<Rightarrow> Some c)
          else Some c
      | _ \<Rightarrow> Some c)"

definition sample_engine :: "unit engine" where
  "sample_engine =
     \<lparr>read_entries = (\<lambda>es. case es of [] \<Rightarrow> None | e # _ \<Rightarrow>
          Some (map (\<lambda>k. (k, pv_type (entry_value k e))) (texts_of (remdups (entry_columns es))),
            map (\<lambda>e k. pv_cell (entry_value k e)) es)),
      series_of = (\<lambda>v. (pv_type v, pv_cell v)), to_float = sample_float, convert = sample_convert,
      text_of = (\<lambda>c. case c of Written s \<Rightarrow> s | Truth b \<Rightarrow> (if b then ''true'' else ''false'')
          | Number x \<Rightarrow> fraction_text (PFloat x) | _ \<Rightarrow> []),
      iso_of = (\<lambda>c. []),
      round_float = (\<lambda>x. case x of Fin q \<Rightarrow> Fin (of_int \<lfloor>q + 1 / 2\<rfloor>) | _ \<Rightarrow> x)\<rparr>"

definition sample_lookup_table :: pydict where
  "sample_lookup_table =
     [(PStr ''factors'', PList [PStr ''age'']), (PStr ''output_column'', PStr ''rate''),
      (PStr ''factor_dtypes'', PDict [(PStr ''age'', PDict [(PStr ''kind'', PStr ''Int64'')])]),
      (PStr ''entries'', PList [
         PDict [(PStr ''age'', PStr ''25''), (PStr ''value'', PInt 2)],
         PDict [(PStr ''age'', PStr ''30''), (PStr ''value'', PInt 3)]])]"

definition sample_frame_schema :: "(string \<times> pl_dtype) list" where
  "sample_frame_schema = [(''id'', string_type), (''age'', Class_t ''Int64'')]"

definition sample_lookup :: "lookup_error + unit rating_lookup option" where
  "sample_lookup = rating_table_lookup sample_engine sample_polars (\<lambda>_. []) (\<lambda>_. None)
     sample_lookup_table sample_frame_schema"

lemma skip_reason_agrees_witness:
  "\<exists>b. rating_table_lookup sample_engine sample_polars (\<lambda>_. []) (\<lambda>_. None) sample_lookup_table
       sample_frame_schema = Inr b \<and> (b = None \<longleftrightarrow> \<not> rating_table_materialises sample_lookup_table)"
proof -
  have "case sample_lookup of Inl _ \<Rightarrow> False | Inr _ \<Rightarrow> True" by code_simp
  then obtain b where b: "rating_table_lookup sample_engine sample_polars (\<lambda>_. []) (\<lambda>_. None)
      sample_lookup_table sample_frame_schema = Inr b"
    unfolding sample_lookup_def by (auto split: sum.splits)
  then show ?thesis using skip_reason_agrees [OF b] by blast
qed

lemma saved_levels_differ_witness:
  "rating_table_lookup sample_engine sample_polars (\<lambda>_. []) (\<lambda>_. None) sample_lookup_table
     sample_frame_schema \<noteq> Inl (Levels_twice 2)"
proof (rule saved_levels_differ)
  show "table_levels_differ sample_engine sample_polars (\<lambda>_. []) (\<lambda>_. None) sample_lookup_table = Inr ()"
    by code_simp
  show "get_or ''factor_dtypes'' PNone sample_lookup_table =
      PDict [(PStr ''age'', PDict [(PStr ''kind'', PStr ''Int64'')])]" by code_simp
  show "get_or ''factors'' PNone sample_lookup_table = PList (map PStr [''age''])" by code_simp
  show "list_all (\<lambda>f. dict_has f [(PStr ''age'', PDict [(PStr ''kind'', PStr ''Int64'')])] \<and>
      rating_dtype_from_descriptor sample_polars
        (get_or f PNone [(PStr ''age'', PDict [(PStr ''kind'', PStr ''Int64'')])]) = Inr (Class_t ''Int64'') \<and>
      map_of sample_frame_schema f = Some (Class_t ''Int64'')) [''age'']" by code_simp
qed

lemma rating_key_mirror_witness:
  "normalise_rating_key sample_engine sample_polars (PInt 25) (Class_t ''Float64'') = Inr (Written ''25'') \<longleftrightarrow>
   lookup_key sample_engine ''age'' (Class_t ''Int64'') (Class_t ''Float64'') (Whole 25) = Inr [Written ''25'']"
proof (rule rating_key_mirror)
  show "series_of sample_engine (PInt 25) = (Class_t ''Int64'', Whole 25)" by code_simp
  show "rating_dtype_descriptor sample_polars (Class_t ''Float64'') = Inr (PDict [(PStr ''kind'', PStr ''Float64'')])"
    by code_simp
qed (auto simp: sample_engine_def sample_convert_def sample_float_def)

end
