(* ===== verification/Rating_Step.thy ===== *)
theory Rating_Step
  imports Rating
begin

text \<open>
  A rating step on a frame, the rest of \<open>haute/_rating.py\<close>: the join of a table's lookup and what it
  writes for a miss, the combination of table outputs, and the loop over tables and combined outputs.

  A frame is its schema and its rows, a row the cells of its columns. Building the step and running
  it are apart, as the code builds a lazy plan: \<open>rating_plan\<close> raises what the code raises while it
  builds, \<open>run_steps\<close> what is raised when the rows are computed. The join is the documented left join
  that keeps the left order and in which a missing key matches nothing. The arithmetic of floats is a
  parameter. The lemmas show that a step keeps rows and columns, and what its columns hold.
\<close>

datatype step_error =
    Lookup_refused lookup_error
  | Tables_refused rating_error
  | Output_not_text
  | Lookup_missed nat
  | Unsupported_operation string
  | Participants_twice "string list"
  | Output_overwrites_participant string
  | Participant_absent string
  | Extrema_undefined string
  | Combined_not_a_list
  | Combined_not_object nat
  | Combined_without_output nat
  | Combined_output_twice nat string
  | Base_value_required nat
  | Base_value_not_numeric nat
  | Base_value_not_finite nat
  | Base_value_overflows nat

record 'v rframe =
  frame_schema :: "(string \<times> pl_dtype) list"
  frame_rows :: "'v rrow list"

record arithmetic =
  multiply :: "pyfloat \<Rightarrow> pyfloat \<Rightarrow> pyfloat"
  plus_float :: "pyfloat \<Rightarrow> pyfloat \<Rightarrow> pyfloat"
  least :: "pyfloat \<Rightarrow> pyfloat \<Rightarrow> pyfloat"
  greatest :: "pyfloat \<Rightarrow> pyfloat \<Rightarrow> pyfloat"

definition float_type :: pl_dtype where
  "float_type = Class_t ''Float64''"

section \<open>Frames\<close>

definition put_column :: "string \<Rightarrow> pl_dtype \<Rightarrow> ('v rrow \<Rightarrow> 'v rcell) \<Rightarrow> 'v rframe \<Rightarrow> 'v rframe" where
  "put_column c d f fr =
     \<lparr>frame_schema = AList.update c d (frame_schema fr), frame_rows = map (\<lambda>r. r(c := f r)) (frame_rows fr)\<rparr>"

definition drop_columns :: "string list \<Rightarrow> 'v rframe \<Rightarrow> 'v rframe" where
  "drop_columns cs fr =
     \<lparr>frame_schema = filter (\<lambda>p. fst p \<notin> set cs) (frame_schema fr),
      frame_rows = map (\<lambda>r c. if c \<in> set cs then Missing else r c) (frame_rows fr)\<rparr>"

definition keys_match :: "'v rcell list \<Rightarrow> 'v rcell list \<Rightarrow> bool" where
  "keys_match ks es \<longleftrightarrow> ks = es \<and> Missing \<notin> set ks"

definition join_row :: "string list \<Rightarrow> string \<Rightarrow> ('v rcell list \<times> rat) list \<Rightarrow> 'v rrow \<Rightarrow> 'v rrow list" where
  "join_row key_columns value_column entries r =
     (case filter (\<lambda>e. keys_match (map r key_columns) (fst e)) entries of
        [] \<Rightarrow> [r(value_column := Missing)]
      | ms \<Rightarrow> map (\<lambda>e. r(value_column := Number (Fin (snd e)))) ms)"

definition left_join :: "string list \<Rightarrow> string \<Rightarrow> ('v rcell list \<times> rat) list \<Rightarrow> 'v rframe \<Rightarrow> 'v rframe" where
  "left_join key_columns value_column entries fr =
     \<lparr>frame_schema = AList.update value_column float_type (frame_schema fr),
      frame_rows = concat (map (join_row key_columns value_column entries) (frame_rows fr))\<rparr>"

text \<open>The key columns, each written after those before it.\<close>

definition put_keys :: "'v engine \<Rightarrow> 'v rating_lookup \<Rightarrow> 'v rframe \<Rightarrow> 'v rframe" where
  "put_keys eng b fr =
     fold (\<lambda>(f, k). put_column k string_type (\<lambda>r. key_cell eng (lookup_types b f) (r f)))
       (zip (lookup_factors b) (lookup_key_columns b)) fr"

definition miss_count :: "string \<Rightarrow> 'v rframe \<Rightarrow> nat" where
  "miss_count value_column fr = length (filter (\<lambda>r. r value_column = Missing) (frame_rows fr))"

text \<open>
  With the policy \<open>neutral\<close> misses are logged and the rows stay. The guard is called on a batch of
  rows; here a frame is one batch.
\<close>

definition miss_guard :: "'v rating_lookup \<Rightarrow> 'v rframe \<Rightarrow> step_error + 'v rframe" where
  "miss_guard b fr =
     (let n = miss_count (lookup_value_column b) fr
      in if n = 0 then Inr fr
         else if lookup_on_missing b = ''neutral'' then Inr fr
         else Inl (Lookup_missed n))"

definition fill_missing :: "rat option \<Rightarrow> 'v rcell \<Rightarrow> 'v rcell" where
  "fill_missing dflt c =
     (case dflt of None \<Rightarrow> c | Some q \<Rightarrow> if c = Missing then Number (Fin q) else c)"

definition apply_rating_lookup :: "'v engine \<Rightarrow> 'v rating_lookup \<Rightarrow> string \<Rightarrow> bool \<Rightarrow> 'v rframe \<Rightarrow>
    step_error + 'v rframe" where
  "apply_rating_lookup eng b out guard_misses fr =
     (let joined = left_join (lookup_key_columns b) (lookup_value_column b) (lookup_entries b) (put_keys eng b fr)
      in bind_result (if lookup_default b = None \<and> guard_misses then miss_guard b joined else Inr joined)
           (\<lambda>guarded. Inr (drop_columns (lookup_key_columns b @ [lookup_value_column b])
              (put_column out float_type (\<lambda>r. fill_missing (lookup_default b) (r (lookup_value_column b))) guarded))))"

section \<open>Combined outputs\<close>

definition supported_operations :: "string list" where
  "supported_operations = [''multiply'', ''add'', ''min'', ''max'']"

definition combine_operation :: "(pv \<Rightarrow> string) \<Rightarrow> pv \<Rightarrow> step_error + string" where
  "combine_operation other v =
     (let s = (if py_truthy v then py_str other v else ''multiply'')
      in if s \<in> set supported_operations then Inr s else Inl (Unsupported_operation s))"

definition fill_number :: "rat \<Rightarrow> 'v rcell \<Rightarrow> pyfloat" where
  "fill_number q c = (case c of Number x \<Rightarrow> x | _ \<Rightarrow> Fin q)"

definition numbers_of :: "'v rcell list \<Rightarrow> pyfloat list" where
  "numbers_of cs = List.map_filter (\<lambda>c. case c of Number x \<Rightarrow> Some x | _ \<Rightarrow> None) cs"

definition extremum :: "(pyfloat \<Rightarrow> pyfloat \<Rightarrow> pyfloat) \<Rightarrow> string \<Rightarrow> 'v rcell list \<Rightarrow> step_error + 'v rcell" where
  "extremum f out cs =
     (case numbers_of cs of [] \<Rightarrow> Inl (Extrema_undefined out) | x # xs \<Rightarrow> Inr (Number (fold (\<lambda>y a. f a y) xs x)))"

text \<open>One row's combined cell: a single participant is taken as it is except by an extremum.\<close>

definition combine_cells :: "arithmetic \<Rightarrow> string \<Rightarrow> string \<Rightarrow> 'v rcell list \<Rightarrow> step_error + 'v rcell" where
  "combine_cells ar op out cs =
     (if op = ''min'' then extremum (least ar) out cs
      else if op = ''max'' then extremum (greatest ar) out cs
      else case cs of
          [c] \<Rightarrow> Inr c
        | c # rest \<Rightarrow>
            if op = ''add''
            then Inr (Number (fold (\<lambda>d a. plus_float ar a (fill_number 0 d)) rest (fill_number 0 c)))
            else Inr (Number (fold (\<lambda>d a. multiply ar a (fill_number 1 d)) rest (fill_number 1 c)))
        | [] \<Rightarrow> Inr Missing)"

record combined_output =
  combined_column :: string
  combined_operation :: string
  combined_base :: "pyfloat option"

definition base_number :: "(string \<Rightarrow> pyfloat option) \<Rightarrow> nat \<Rightarrow> pv \<Rightarrow> step_error + pyfloat" where
  "base_number read_float i v =
     (case v of
        PNone \<Rightarrow> Inl (Base_value_required i)
      | PBool b \<Rightarrow> Inl (Base_value_required i)
      | PInt n \<Rightarrow> if \<bar>n\<bar> < float_overflow_bound then Inr (Fin (round_double (of_int n)))
          else Inl (Base_value_overflows i)
      | PFloat x \<Rightarrow> Inr x
      | PStr s \<Rightarrow>
          if py_strip s = [] then Inl (Base_value_required i)
          else (case read_float s of None \<Rightarrow> Inl (Base_value_not_numeric i) | Some x \<Rightarrow> Inr x)
      | _ \<Rightarrow> Inl (Base_value_not_numeric i))"

fun combined_loop :: "(pv \<Rightarrow> string) \<Rightarrow> (string \<Rightarrow> pyfloat option) \<Rightarrow> nat \<Rightarrow> pv list \<Rightarrow> string list \<Rightarrow>
    step_error + combined_output list" where
  "combined_loop other read_float i [] seen = Inr []"
| "combined_loop other read_float i (v # vs) seen =
     (case v of
        PDict d \<Rightarrow>
          let out = table_output other d
          in if out = [] then Inl (Combined_without_output i)
             else if out \<in> set seen then Inl (Combined_output_twice i out)
             else bind_result (combine_operation other (get_or ''operation'' (PStr ''multiply'') d)) (\<lambda>op.
                  bind_result (base_number read_float i (get_or ''base_value'' PNone d)) (\<lambda>x.
                    case x of
                      Fin q \<Rightarrow>
                        bind_result (combined_loop other read_float (Suc i) vs (out # seen)) (\<lambda>cs.
                          Inr (\<lparr>combined_column = out, combined_operation = op, combined_base = Some x\<rparr> # cs))
                    | _ \<Rightarrow> Inl (Base_value_not_finite i)))
      | _ \<Rightarrow> Inl (Combined_not_object i))"

definition dict_items :: "string \<Rightarrow> pydict \<Rightarrow> pydict list" where
  "dict_items k d =
     (case get_or k PNone d of
        PList vs \<Rightarrow> List.map_filter (\<lambda>v. case v of PDict t \<Rightarrow> Some t | _ \<Rightarrow> None) vs | _ \<Rightarrow> [])"

definition normalise_combined_outputs :: "(pv \<Rightarrow> string) \<Rightarrow> (string \<Rightarrow> pyfloat option) \<Rightarrow> pydict \<Rightarrow>
    step_error + combined_output list" where
  "normalise_combined_outputs other read_float config =
     (case get_or ''combined_outputs'' PNone config of
        PNone \<Rightarrow> Inr []
      | PList vs \<Rightarrow>
          combined_loop other read_float 0 vs
            (filter (\<lambda>c. c \<noteq> []) (map (table_output other) (dict_items ''tables'' config)))
      | _ \<Rightarrow> Inl Combined_not_a_list)"

section \<open>The plan of a step\<close>

datatype 'v rating_step =
    Lookup_step "'v rating_lookup" string
  | Combine_step string "string list" string "(string \<times> pyfloat) option"

definition repeated :: "string list \<Rightarrow> string list" where
  "repeated cs = remdups (filter (\<lambda>c. 1 < count_list cs c) cs)"

definition check_participants :: "string list \<Rightarrow> string \<Rightarrow> step_error + unit" where
  "check_participants cs out =
     (if repeated cs \<noteq> [] then Inl (Participants_twice (repeated cs))
      else if out \<in> set cs then Inl (Output_overwrites_participant out) else Inr ())"

definition base_stem :: "string \<Rightarrow> string" where
  "base_stem out = ''__haute_rating_base_'' @ out @ ''__''"

definition combine_plan :: "(pv \<Rightarrow> string) \<Rightarrow> (string \<times> pl_dtype) list \<Rightarrow> string list \<Rightarrow> combined_output \<Rightarrow>
    step_error + 'v rating_step list" where
  "combine_plan other schema columns c =
     bind_result (combine_operation other (PStr (combined_operation c))) (\<lambda>op.
       case combined_base c of
         None \<Rightarrow>
           bind_result (check_participants columns (combined_column c)) (\<lambda>_.
             Inr (if columns = [] then [] else [Combine_step op columns (combined_column c) None]))
       | Some x \<Rightarrow>
           let base = fresh_name (columns @ keys schema) (base_stem (combined_column c))
           in bind_result (check_participants (base # columns) (combined_column c)) (\<lambda>_.
                Inr [Combine_step op (base # columns) (combined_column c) (Some (base, x))]))"

fun combined_plan :: "(pv \<Rightarrow> string) \<Rightarrow> (string \<times> pl_dtype) list \<Rightarrow> string list \<Rightarrow> combined_output list \<Rightarrow>
    step_error + 'v rating_step list" where
  "combined_plan other schema columns [] = Inr []"
| "combined_plan other schema columns (c # cs) =
     bind_result (combine_plan other schema columns c) (\<lambda>steps.
     bind_result (combined_plan other
         (if combined_base c \<noteq> None \<or> columns \<noteq> []
          then AList.update (combined_column c) float_type schema else schema) columns cs) (\<lambda>rest.
       Inr (steps @ rest)))"

definition lookup_step :: "'v rating_lookup option \<Rightarrow> step_error + 'v rating_step list" where
  "lookup_step b =
     (case b of
        None \<Rightarrow> Inr []
      | Some l \<Rightarrow> (case lookup_output l of PStr out \<Rightarrow> Inr [Lookup_step l out] | _ \<Rightarrow> Inl Output_not_text))"

text \<open>A table's step, and the columns and schema the later ones see: its name without spaces around.\<close>

fun tables_plan :: "'v engine \<Rightarrow> polars_types \<Rightarrow> (pv \<Rightarrow> string) \<Rightarrow> (string \<Rightarrow> pyfloat option) \<Rightarrow>
    pydict list \<Rightarrow> (string \<times> pl_dtype) list \<Rightarrow> string list \<Rightarrow>
    step_error + 'v rating_step list \<times> (string \<times> pl_dtype) list \<times> string list" where
  "tables_plan eng pl other read_float [] schema outs = Inr ([], schema, outs)"
| "tables_plan eng pl other read_float (t # ts) schema outs =
     bind_result (map_error Lookup_refused (rating_table_lookup eng pl other read_float t schema)) (\<lambda>b.
     bind_result (lookup_step b) (\<lambda>steps.
       let out = table_output other t; written = out \<noteq> [] \<and> rating_table_materialises t
       in bind_result (tables_plan eng pl other read_float ts
              (if written then AList.update out float_type schema else schema)
              (if written then outs @ [out] else outs))
            (\<lambda>(rest, schema', outs'). Inr (steps @ rest, schema', outs'))))"

definition rating_plan :: "'v engine \<Rightarrow> polars_types \<Rightarrow> (pv \<Rightarrow> string) \<Rightarrow> (string \<Rightarrow> pyfloat option) \<Rightarrow>
    pydict list \<Rightarrow> combined_output list \<Rightarrow> (string \<times> pl_dtype) list \<Rightarrow> step_error + 'v rating_step list" where
  "rating_plan eng pl other read_float tables combined schema =
     bind_result (map_error Tables_refused (validate_unique_rating_table_outputs other tables)) (\<lambda>_.
     bind_result (tables_plan eng pl other read_float tables schema []) (\<lambda>(steps, schema', outs).
     bind_result (combined_plan other schema' outs combined) (\<lambda>rest. Inr (steps @ rest))))"

section \<open>Running a plan\<close>

definition run_combine :: "arithmetic \<Rightarrow> string \<Rightarrow> string list \<Rightarrow> string \<Rightarrow> (string \<times> pyfloat) option \<Rightarrow>
    'v rframe \<Rightarrow> step_error + 'v rframe" where
  "run_combine ar op columns out base fr =
     (let based = (case base of None \<Rightarrow> fr | Some (c, x) \<Rightarrow> put_column c float_type (\<lambda>r. Number x) fr)
      in case find (\<lambda>c. c \<notin> set (keys (frame_schema based))) columns of
          Some c \<Rightarrow> Inl (Participant_absent c)
        | None \<Rightarrow>
            bind_result (map_result (\<lambda>r. combine_cells ar op out (map r columns)) (frame_rows based)) (\<lambda>cells.
              Inr (drop_columns (case base of None \<Rightarrow> [] | Some (c, x) \<Rightarrow> [c])
                \<lparr>frame_schema = AList.update out float_type (frame_schema based),
                 frame_rows = map2 (\<lambda>r c. r(out := c)) (frame_rows based) cells\<rparr>)))"

definition run_rating_step :: "'v engine \<Rightarrow> arithmetic \<Rightarrow> 'v rating_step \<Rightarrow> 'v rframe \<Rightarrow> step_error + 'v rframe" where
  "run_rating_step eng ar s fr =
     (case s of
        Lookup_step b out \<Rightarrow> apply_rating_lookup eng b out True fr
      | Combine_step op columns out base \<Rightarrow> run_combine ar op columns out base fr)"

fun run_steps :: "'v engine \<Rightarrow> arithmetic \<Rightarrow> 'v rating_step list \<Rightarrow> 'v rframe \<Rightarrow> step_error + 'v rframe" where
  "run_steps eng ar [] fr = Inr fr"
| "run_steps eng ar (s # ss) fr = bind_result (run_rating_step eng ar s fr) (run_steps eng ar ss)"

definition apply_rating_step :: "'v engine \<Rightarrow> arithmetic \<Rightarrow> polars_types \<Rightarrow> (pv \<Rightarrow> string) \<Rightarrow>
    (string \<Rightarrow> pyfloat option) \<Rightarrow> pydict \<Rightarrow> 'v rframe \<Rightarrow> step_error + 'v rframe" where
  "apply_rating_step eng ar pl other read_float config fr =
     bind_result (map_error Tables_refused (normalise_rating_step_config other read_float config)) (\<lambda>c.
     bind_result (normalise_combined_outputs other read_float config) (\<lambda>combined.
     bind_result (rating_plan eng pl other read_float (dict_items ''tables'' c) combined (frame_schema fr))
       (\<lambda>steps. run_steps eng ar steps fr)))"

section \<open>One table\<close>



















section \<open>What a built lookup guarantees\<close>






section \<open>What a step writes\<close>

text \<open>Two frames whose rows agree, one by one, on the columns outside a set.\<close>

definition rows_agree :: "string set \<Rightarrow> 'v rrow list \<Rightarrow> 'v rrow list \<Rightarrow> bool" where
  "rows_agree cs = list_all2 (\<lambda>r r'. \<forall>c. c \<notin> cs \<longrightarrow> r' c = r c)"

lemma rows_agree_refl [simp]: "rows_agree cs rows rows"
  by (simp add: rows_agree_def list_all2_refl)





section \<open>Combined outputs of rows\<close>










section \<open>The tables of a step\<close>






section \<open>A table prices rows\<close>





definition sample_frame :: "int list \<Rightarrow> unit rframe" where
  "sample_frame ages =
     \<lparr>frame_schema = sample_frame_schema,
      frame_rows = map (\<lambda>a. (\<lambda>c. Missing)(''id'' := Written ''x'', ''age'' := Whole a)) ages\<rparr>"





section \<open>A rating step\<close>




definition sample_arithmetic :: arithmetic where
  "sample_arithmetic =
     (let lift = (\<lambda>f x y. case (x, y) of (Fin a, Fin b) \<Rightarrow> Fin (f a b) | _ \<Rightarrow> Nan)
      in \<lparr>multiply = lift (*), plus_float = lift (+), least = lift min, greatest = lift max\<rparr>)"

definition sample_step :: pydict where
  "sample_step =
     [(PStr ''tables'', PList [PDict sample_lookup_table]),
      (PStr ''combined_outputs'', PList [PDict [(PStr ''output_column'', PStr ''total''),
         (PStr ''operation'', PStr ''multiply''), (PStr ''base_value'', PInt 10)]])]"


text \<open>
  An output column with a space before it is written with the space and combined without, so the
  step stops at a column no table wrote.
\<close>

definition padded_step :: pydict where
  "padded_step =
     dict_put ''tables'' (PList [PDict (dict_put ''output_column'' (PStr '' rate'') sample_lookup_table)]) sample_step"

lemma padded_output_stops_the_step:
  "case apply_rating_step sample_engine sample_arithmetic sample_polars (\<lambda>_. []) (\<lambda>_. None) padded_step
      (sample_frame [25]) of Inl e \<Rightarrow> e = Participant_absent ''rate'' | Inr _ \<Rightarrow> False"
  by code_simp

end
