(* ===== verification/Spec2Isabelle.thy ===== *)
theory Spec2Isabelle
  imports Lru_Cache Edge_Names Joins Job_Store Flights Admission Supersession Splits Banding Rating_Step
begin

text \<open>
  Haute builds insurance pricing pipelines as graphs of nodes and runs them, previews them and
  deploys them over Polars frames. This development models the parts of its Python implementation,
  all under \<^verbatim>\<open>src/haute/\<close>, that decide things by themselves: which names, orders, configs, bounds
  and schedules are accepted and what follows from accepting them.

  \<^bold>\<open>How the parts fit.\<close> A pipeline is a graph of typed nodes. The node specification says what each
  type of node is; the config rules refuse a node whose settings its type does not declare; edge
  and input names bind the wires of the graph to the names its code uses; the graph order puts
  the nodes in the order they run in and cuts the graph to what a target needs. A run is admitted
  against a memory budget, shares its work with equal runs already in flight, or supersedes an
  older one of its key; long work is a job of the job store; results are kept in bounded caches.
  Joins carry bounds on the rows they can produce. Model training splits its rows by a mask. Pricing
  itself is banding, which turns values into labels by rules, and rating, which looks factor values
  up in tables and combines the tables' outputs; both have configs that are validated, written to a
  sidecar file and read back.

  \<^bold>\<open>Theories.\<close>
  \<^item> \<open>Prelude\<close>: ordered dictionaries, fallible results, Python values, the locales \<open>dict_like\<close> (the
    laws of a dictionary) and \<open>invariant_system\<close> (operations that keep an invariant), each
    interpreted on the model's own definitions.
  \<^item> \<open>Floats\<close>: Python's double arithmetic on finite values, with its rounding error bounded.
  \<^item> \<open>Lru_Cache\<close>: \<^verbatim>\<open>_lru_cache.py\<close>. A cache is an ordered dictionary with pins and byte sizes;
    every method is a function of it, \<^verbatim>\<open>put\<close> the two locked sections it is. The bounds hold in every reachable cache; eviction
    removes the least recently used unpinned entries and no more than needed.
  \<^item> \<open>Graph_Order\<close>: \<^verbatim>\<open>_topo.py\<close> and the traversals of \<^verbatim>\<open>_graph_utils.py\<close>. The order is a topological
    one, the least of its kind in the canonical variant, or the cycle error; a subgraph is closed upstream.
  \<^item> \<open>Node_Specs\<close>: \<^verbatim>\<open>_node_type.py\<close>, \<^verbatim>\<open>_node_specs.py\<close>. The table of node types and its validation.
  \<^item> \<open>Edge_Names\<close>: the naming part of \<^verbatim>\<open>_graph_utils.py\<close>. Edge ids are injective, input bindings are
    one-to-one, function names are valid identifiers.
  \<^item> \<open>Config_Rules\<close>: \<^verbatim>\<open>_config_validation.py\<close>. What a config must satisfy and which error it meets.
  \<^item> \<open>Joins\<close>: \<^verbatim>\<open>_cardinality.py\<close> and \<^verbatim>\<open>_edge_join.py\<close>. The row bounds hold of the join of any two
    frames, and are attained; narrowing a join's parents keeps every demanded column.
  \<^item> \<open>Job_Store\<close>: \<^verbatim>\<open>routes/_job_store.py\<close>. Jobs, leases, artifacts, eviction; each locked section
    is a step, and the invariants hold over every sequence of operations.
  \<^item> \<open>Flights\<close>: \<^verbatim>\<open>routes/_shared_flights.py\<close>. Shared and latest-wins flights as step relations. By
    itself the latest-wins queue comes to rest within a number of steps that its state bounds.
  \<^item> \<open>Settings\<close>: \<^verbatim>\<open>_pipeline_settings.py\<close>. Validation, documents, and reads cached by file signature.
  \<^item> \<open>Admission\<close>: \<^verbatim>\<open>_execution_admission.py\<close>, \<^verbatim>\<open>_env.py\<close>. Budgets, reservations, growth grants.
  \<^item> \<open>Supersession\<close>: \<^verbatim>\<open>routes/_supersession.py\<close>. One worker per key, nothing leaked.
  \<^item> \<open>Splits\<close>: \<^verbatim>\<open>modelling/_split.py\<close>. Train, validation and holdout masks.
  \<^item> \<open>Py_Text\<close>, \<open>Json_Text\<close>: the text of Python values and numerals, and \<^verbatim>\<open>json.dumps\<close> of values,
    shared by the configs; the JSON text of two different values differs.
  \<^item> \<open>Banding_Config\<close>: \<^verbatim>\<open>_banding_config.py\<close>. Factors, their rules and the sidecar they are written to
    and read back from.
  \<^item> \<open>Banding\<close>: the banding half of \<^verbatim>\<open>_rating.py\<close>. Breakpoints become interval rules, rules a Polars
    expression, factors the columns written. What an expression computes is the locale \<open>polars\<close>,
    interpreted on an evaluator of the model. A validated config runs exactly where its columns fit.
  \<^item> \<open>Rating_Config\<close>: \<^verbatim>\<open>_rating_step_config.py\<close>. Validation of tables and the grid of the sidecar.
  \<^item> \<open>Dtypes\<close>: \<^verbatim>\<open>_polars_dtypes.py\<close>. The spec of a column type reads back as the type.
  \<^item> \<open>Rating_Types\<close>, \<open>Duration_Keys\<close>, \<open>Rating\<close>, \<open>Rating_Step\<close>: the rating half of \<^verbatim>\<open>_rating.py\<close>: the
    types of factors, duration keys, the lookup built from a table with its canonical keys, and the
    step that joins lookups to a frame and combines their outputs. A table prices every row by the
    one entry of its keys; a step keeps rows and columns and every combined output is its operation.

  \<^bold>\<open>State and effects.\<close> Objects are records, dictionaries with an order are association lists with
  distinct keys, a raise is a constructor of the component's error type, and an operation returns the new state. Where threads
  or tasks meet, one step is one critical section (or the code between two awaits) and the theorems
  hold of every interleaving of steps. Clocks, memory samples, file contents, generators of random
  permutations, hashes and calls of other packages are parameters or arguments.

  \<^bold>\<open>Termination.\<close> Loops are structural recursions or functions with a measure; no theorem rests on
  fuel. A wait that another thread ends is the list of the rounds it goes through, so a statement
  about a wait holds of every such list.

  \<^bold>\<open>Not modelled.\<close> What runs Polars plans, reads or writes Python source, calls MLflow, model
  libraries, git, HTTP clients or operating-system processes: what those parts do is what the
  package they call does. The declarations of request and response schemas have no logic of their
  own. Overflow and subnormal results of float arithmetic, and the texts of error messages, are left
  out throughout.
\<close>

end
